(* ===== verification/GoPrelude.thy ===== *)
theory GoPrelude
  imports Main "HOL-Library.Word" "HOL-Library.Multiset"
begin

text \<open>
  Shared vocabulary of the development: the ways a Go goroutine can stop, the types the
  components share, the collections of rewrite rules that carry the component proofs, and
  generic lemmas on lists, maps and words.

  Go's \<open>int\<close> is modelled as \<open>int\<close> (the program only counts and indexes with it), Go's
  \<open>uint64\<close> and \<open>uint32\<close> as words of that width, Go's \<open>string\<close> as a list of bytes
  (\<open>char list\<close>), and a Go map as a partial function, or as an association list where the
  code iterates over it.
\<close>

section \<open>Ways to stop\<close>

text \<open>
  \<open>Panic\<close> is a run-time panic (an index out of range, a nil dereference); \<open>Fatal\<close> is
  \<open>log.Fatalf\<close>, which ends the process.
\<close>

datatype go_exn = Panic | Fatal

type_synonym 'a go = "go_exn + 'a"

definition go_bind :: "'a go \<Rightarrow> ('a \<Rightarrow> 'b go) \<Rightarrow> 'b go" where
  "go_bind x f = (case x of Inl e \<Rightarrow> Inl e | Inr a \<Rightarrow> f a)"

lemma go_bind_simps [simp]:
  "go_bind (Inl e) f = Inl e"
  "go_bind (Inr a) f = f a"
  by (simp_all add: go_bind_def)

lemma go_bind_Inr_iff: "go_bind x f = Inr b \<longleftrightarrow> (\<exists>a. x = Inr a \<and> f a = Inr b)"
  by (cases x) auto

text \<open>Reading a slice: an index outside the slice panics.\<close>

definition slice_get :: "'a list \<Rightarrow> int \<Rightarrow> 'a go" where
  "slice_get xs i = (if 0 \<le> i \<and> i < int (length xs) then Inr (xs ! nat i) else Inl Panic)"

lemma slice_get_Inr [simp]:
  "slice_get xs i = Inr x \<longleftrightarrow> 0 \<le> i \<and> i < int (length xs) \<and> x = xs ! nat i"
  by (auto simp: slice_get_def)

lemma slice_get_of_nat [simp]: "i < length xs \<Longrightarrow> slice_get xs (int i) = Inr (xs ! i)"
  by simp

text \<open>Writing a slice, and a loop over a slice whose body may stop.\<close>

definition slice_set :: "'a list \<Rightarrow> int \<Rightarrow> 'a \<Rightarrow> 'a list go" where
  "slice_set xs i v = (if 0 \<le> i \<and> i < int (length xs) then Inr (xs[nat i := v]) else Inl Panic)"

lemma slice_set_of_nat [simp]: "i < length xs \<Longrightarrow> slice_set xs (int i) v = Inr (xs[i := v])"
  by (simp add: slice_set_def)

fun go_fold :: "('a \<Rightarrow> 's \<Rightarrow> 's go) \<Rightarrow> 'a list \<Rightarrow> 's \<Rightarrow> 's go" where
  "go_fold f [] s = Inr s"
| "go_fold f (x # xs) s = go_bind (f x s) (go_fold f xs)"

lemma go_fold_append: "go_fold f (xs @ ys) s = go_bind (go_fold f xs s) (go_fold f ys)"
proof (induction xs arbitrary: s)
  case (Cons x xs)
  then show ?case by (cases "f x s") simp_all
qed simp

lemma go_fold_total:
  assumes "\<And>x s. x \<in> set xs \<Longrightarrow> P s \<Longrightarrow> \<exists>s'. f x s = Inr s' \<and> P s'" and "P s"
  shows "\<exists>s'. go_fold f xs s = Inr s' \<and> P s'"
  using assms
proof (induction xs arbitrary: s)
  case (Cons x xs)
  from Cons.prems(1) [of x s] Cons.prems(2) obtain s' where "f x s = Inr s'" "P s'" by auto
  with Cons.IH [of s'] Cons.prems(1) show ?case by auto
qed simp

lemma go_fold_invariant:
  assumes "\<And>x s s'. x \<in> set xs \<Longrightarrow> P s \<Longrightarrow> f x s = Inr s' \<Longrightarrow> P s'"
    and "P s" and "go_fold f xs s = Inr s'"
  shows "P s'"
  using assms
proof (induction xs arbitrary: s)
  case (Cons x xs)
  from Cons.prems(3) obtain t where "f x s = Inr t" "go_fold f xs t = Inr s'"
    by (auto simp: go_bind_Inr_iff)
  with Cons.IH [of t] Cons.prems(1) [of x s t] Cons.prems(1,2) show ?case by auto
qed simp

text \<open>A loop that establishes \<open>P\<close> in one round and keeps it in every round ends with \<open>P\<close>.\<close>

lemma go_fold_establish:
  assumes "x \<in> set xs" and "I s" and "go_fold f xs s = Inr s'"
    and keep: "\<And>y s s'. y \<in> set xs \<Longrightarrow> I s \<Longrightarrow> f y s = Inr s' \<Longrightarrow> I s'"
    and est: "\<And>s s'. I s \<Longrightarrow> f x s = Inr s' \<Longrightarrow> P s'"
    and pres: "\<And>y s s'. y \<in> set xs \<Longrightarrow> I s \<Longrightarrow> P s \<Longrightarrow> f y s = Inr s' \<Longrightarrow> P s'"
  shows "P s'"
proof -
  obtain us vs where xs: "xs = us @ x # vs" using assms(1) by (meson split_list)
  then obtain t u where t: "go_fold f us s = Inr t" "f x t = Inr u" "go_fold f vs u = Inr s'"
    using assms(3) by (auto simp: go_fold_append go_bind_Inr_iff)
  have "I t" by (rule go_fold_invariant [where P = I, OF _ assms(2) t(1)]) (use keep xs in auto)
  then have u: "I u \<and> P u" using t(2) keep est xs by auto
  have "I s' \<and> P s'"
  proof (rule go_fold_invariant [where P = "\<lambda>s. I s \<and> P s", OF _ u t(3)])
    fix y s s' assume y: "y \<in> set vs" "I s \<and> P s" "f y s = Inr s'"
    then have "y \<in> set xs" using xs by simp
    with y keep pres show "I s' \<and> P s'" by blast
  qed
  then show "P s'" ..
qed

section \<open>Collections of rewrite rules\<close>

named_theorems kv_defs \<open>definitions of the versioned key/value server\<close>
named_theorems mr_defs \<open>definitions of the MapReduce coordinator and worker\<close>
named_theorems net_defs \<open>definitions of the simulated network\<close>

section \<open>Grouping: \<open>m[k] = append(m[k], v)\<close> over a slice\<close>

text \<open>
  A Go map from keys to slices, filled by \<open>append\<close>. It is an association list in the order in
  which the keys were first inserted; where the code ranges over such a map, Go promises no
  order, and the model takes the order of iteration as an argument.
\<close>

fun map_append :: "'k \<Rightarrow> 'v \<Rightarrow> ('k \<times> 'v list) list \<Rightarrow> ('k \<times> 'v list) list" where
  "map_append k v [] = [(k, [v])]"
| "map_append k v ((k', vs) # m) =
     (if k = k' then (k', vs @ [v]) # m else (k', vs) # map_append k v m)"

definition group_by :: "('a \<Rightarrow> 'k) \<Rightarrow> ('a \<Rightarrow> 'v) \<Rightarrow> 'a list \<Rightarrow> ('k \<times> 'v list) list" where
  "group_by key val xs = foldl (\<lambda>m x. map_append (key x) (val x) m) [] xs"

lemma group_by_simps [simp]:
  "group_by key val [] = []"
  "group_by key val (xs @ [x]) = map_append (key x) (val x) (group_by key val xs)"
  by (simp_all add: group_by_def)

lemma keys_map_append: "set (map fst (map_append k v m)) = insert k (set (map fst m))"
  by (induction k v m rule: map_append.induct) auto

lemma distinct_map_append: "distinct (map fst m) \<Longrightarrow> distinct (map fst (map_append k v m))"
proof (induction k v m rule: map_append.induct)
  case (2 k v k' vs m)
  then show ?case using keys_map_append [of k v m] by auto
qed simp

lemma map_of_map_append:
  "map_of (map_append k v m) =
     (map_of m)(k \<mapsto> (case map_of m k of None \<Rightarrow> [v] | Some vs \<Rightarrow> vs @ [v]))"
  by (induction k v m rule: map_append.induct) (auto simp: fun_eq_iff)

lemma distinct_group_by [simp]: "distinct (map fst (group_by key val xs))"
  by (induction xs rule: rev_induct) (simp_all add: distinct_map_append)

lemma keys_group_by [simp]: "fst ` set (group_by key val xs) = key ` set xs"
  by (induction xs rule: rev_induct) (simp_all add: keys_map_append [simplified set_map])

lemma map_of_group_by:
  "map_of (group_by key val xs) k =
     (if k \<in> key ` set xs then Some (map val (filter (\<lambda>x. key x = k) xs)) else None)"
proof (induction xs rule: rev_induct)
  case (snoc x xs)
  have "key x \<notin> key ` set xs \<Longrightarrow> filter (\<lambda>y. key y = key x) xs = []"
    by (metis (mono_tags, lifting) filter_False image_eqI)
  with snoc show ?case by (auto simp: map_of_map_append)
qed simp

lemma group_by_set:
  "(k, vs) \<in> set (group_by key val xs) \<longleftrightarrow>
     k \<in> key ` set xs \<and> vs = map val (filter (\<lambda>x. key x = k) xs)"
  using map_of_group_by [of key val xs k] map_of_eq_Some_iff [OF distinct_group_by, of key val xs k vs]
  by (auto split: if_splits)

lemma distinct_singleton: "distinct xs \<Longrightarrow> set xs = {a} \<Longrightarrow> xs = [a]"
  by (cases xs; cases "tl xs") auto

section \<open>Words\<close>

lemma word_add_of_nat_neq:
  fixes v :: "64 word"
  assumes "0 < n" and "n < 2 ^ 64"
  shows "v + of_nat n \<noteq> v"
proof
  assume "v + of_nat n = v"
  then have "(of_nat n :: 64 word) = 0" by simp
  then have "unat (of_nat n :: 64 word) = 0" by simp
  with assms show False by (simp add: unat_of_nat)
qed

lemma word_Suc_neq [simp]: "(v :: 64 word) + 1 \<noteq> v"
  by simp

lemma unat_plus_1: "unat (v :: 64 word) < 2 ^ 64 - 1 \<Longrightarrow> unat (v + 1) = Suc (unat v)"
  by (simp add: unat_word_ariths)

end
