(* ===== verification/KVServer.thy ===== *)
theory KVServer
  imports GoPrelude
begin

text \<open>
  The versioned key/value server: the RPC types of \<^verbatim>\<open>src/kvsrv1/rpc/rpc.go\<close>, and the
  state and the two handlers of \<^verbatim>\<open>src/kvsrv1/server.go\<close>. Both handlers hold the server's
  mutex from their first to their last statement, so each is one step on the state.
  The locale \<open>versioned_store\<close> is the contract the clerk and the lock rely on; the server is
  its interpretation.
\<close>

section \<open>RPC types\<close>

type_synonym Err = string

abbreviation OK :: Err where "OK \<equiv> ''OK''"
abbreviation ErrNoKey :: Err where "ErrNoKey \<equiv> ''ErrNoKey''"
abbreviation ErrVersion :: Err where "ErrVersion \<equiv> ''ErrVersion''"
abbreviation ErrMaybe :: Err where "ErrMaybe \<equiv> ''ErrMaybe''"
abbreviation ErrWrongLeader :: Err where "ErrWrongLeader \<equiv> ''ErrWrongLeader''"
abbreviation ErrWrongGroup :: Err where "ErrWrongGroup \<equiv> ''ErrWrongGroup''"

type_synonym Tversion = "64 word"

record PutArgs =
  pa_Key :: string
  pa_Value :: string
  pa_Version :: Tversion

record PutReply =
  pr_Err :: Err

record GetArgs =
  ga_Key :: string

record GetReply =
  gr_Value :: string
  gr_Version :: Tversion
  gr_Err :: Err

text \<open>The zero values that \<open>rpc.PutReply{}\<close> and \<open>rpc.GetReply{}\<close> denote.\<close>

definition zero_PutReply :: PutReply where
  "zero_PutReply = \<lparr>pr_Err = ''''\<rparr>"

definition zero_GetReply :: GetReply where
  "zero_GetReply = \<lparr>gr_Value = '''', gr_Version = 0, gr_Err = ''''\<rparr>"

section \<open>The server\<close>

record kv_value =
  kv_val :: string
  kv_ver :: Tversion

record KVServer =
  kv_m :: "string \<rightharpoonup> kv_value"

definition MakeKVServer :: KVServer where
  "MakeKVServer = \<lparr>kv_m = Map.empty\<rparr>"

definition KVServer_Get :: "KVServer \<Rightarrow> GetArgs \<Rightarrow> GetReply \<Rightarrow> GetReply" where
  "KVServer_Get kv args reply =
     (case kv_m kv (ga_Key args) of
        None \<Rightarrow> reply\<lparr>gr_Err := ErrNoKey\<rparr>
      | Some v \<Rightarrow> reply\<lparr>gr_Value := kv_val v, gr_Version := kv_ver v, gr_Err := OK\<rparr>)"

definition KVServer_Put :: "KVServer \<Rightarrow> PutArgs \<Rightarrow> PutReply \<Rightarrow> KVServer \<times> PutReply" where
  "KVServer_Put kv args reply =
     (case kv_m kv (pa_Key args) of
        Some v \<Rightarrow>
          if pa_Version args \<noteq> kv_ver v then (kv, reply\<lparr>pr_Err := ErrVersion\<rparr>)
          else
            (let v = v\<lparr>kv_val := pa_Value args\<rparr>;
                 v = v\<lparr>kv_ver := kv_ver v + 1\<rparr>
             in (kv\<lparr>kv_m := (kv_m kv)(pa_Key args \<mapsto> v)\<rparr>, reply\<lparr>pr_Err := OK\<rparr>))
      | None \<Rightarrow>
          if pa_Version args \<noteq> 0 then (kv, reply\<lparr>pr_Err := ErrNoKey\<rparr>)
          else
            (kv\<lparr>kv_m := (kv_m kv)(pa_Key args \<mapsto> \<lparr>kv_val = pa_Value args, kv_ver = 1\<rparr>)\<rparr>,
             reply\<lparr>pr_Err := OK\<rparr>))"

text \<open>\<open>Kill\<close> is empty, and \<open>StartKVServer\<close> returns the one server it makes.\<close>

definition KVServer_Kill :: "KVServer \<Rightarrow> KVServer" where
  "KVServer_Kill kv = kv"

definition StartKVServer :: "KVServer list" where
  "StartKVServer = (let kv = MakeKVServer in [kv])"

lemmas [kv_defs] = KVServer_Get_def KVServer_Put_def MakeKVServer_def zero_PutReply_def
  zero_GetReply_def

text \<open>The effect and the error of one \<open>Put\<close> on a fresh reply, and the effect of a sequence.\<close>

abbreviation put_state :: "KVServer \<Rightarrow> PutArgs \<Rightarrow> KVServer" where
  "put_state kv a \<equiv> fst (KVServer_Put kv a zero_PutReply)"

abbreviation put_err :: "KVServer \<Rightarrow> PutArgs \<Rightarrow> Err" where
  "put_err kv a \<equiv> pr_Err (snd (KVServer_Put kv a zero_PutReply))"

definition run_puts :: "KVServer \<Rightarrow> PutArgs list \<Rightarrow> KVServer" where
  "run_puts kv as = foldl put_state kv as"

lemma run_puts_simps [simp]:
  "run_puts kv [] = kv"
  "run_puts kv (a # as) = run_puts (put_state kv a) as"
  "run_puts kv (as @ bs) = run_puts (run_puts kv as) bs"
  by (simp_all add: run_puts_def)

lemma put_reply_irrelevant:
  "fst (KVServer_Put kv a r) = put_state kv a"
  "pr_Err (snd (KVServer_Put kv a r)) = put_err kv a"
  by (auto simp: kv_defs split: option.splits)

section \<open>The contract of a versioned store\<close>

locale versioned_store =
  fixes lookup :: "'s \<Rightarrow> string \<Rightarrow> (string \<times> Tversion) option"
    and put :: "'s \<Rightarrow> PutArgs \<Rightarrow> 's \<times> Err"
  assumes put_match:
      "lookup s (pa_Key a) = Some (x, pa_Version a) \<Longrightarrow>
         snd (put s a) = OK \<and>
         lookup (fst (put s a)) = (lookup s)(pa_Key a \<mapsto> (pa_Value a, pa_Version a + 1))"
    and put_stale:
      "lookup s (pa_Key a) = Some (x, v) \<Longrightarrow> pa_Version a \<noteq> v \<Longrightarrow> put s a = (s, ErrVersion)"
    and put_create:
      "lookup s (pa_Key a) = None \<Longrightarrow> pa_Version a = 0 \<Longrightarrow>
         snd (put s a) = OK \<and> lookup (fst (put s a)) = (lookup s)(pa_Key a \<mapsto> (pa_Value a, 1))"
    and put_missing:
      "lookup s (pa_Key a) = None \<Longrightarrow> pa_Version a \<noteq> 0 \<Longrightarrow> put s a = (s, ErrNoKey)"
begin

text \<open>A missing key counts as version 0, as the clients' version argument does.\<close>

definition ver :: "'s \<Rightarrow> string \<Rightarrow> Tversion" where
  "ver s k = (case lookup s k of None \<Rightarrow> 0 | Some (_, v) \<Rightarrow> v)"

abbreviation puts :: "'s \<Rightarrow> PutArgs list \<Rightarrow> 's" where
  "puts \<equiv> foldl (\<lambda>s a. fst (put s a))"

lemma put_OK_iff: "snd (put s a) = OK \<longleftrightarrow> ver s (pa_Key a) = pa_Version a"
proof (cases "lookup s (pa_Key a)")
  case None
  then show ?thesis
    using put_create [of s a] put_missing [of s a]
    by (cases "pa_Version a = 0") (auto simp: ver_def)
next
  case (Some xv)
  then obtain x v where xv: "lookup s (pa_Key a) = Some (x, v)" by (cases xv) auto
  show ?thesis
  proof (cases "v = pa_Version a")
    case True
    with xv show ?thesis using put_match [of s a x] by (simp add: ver_def)
  next
    case False
    with xv show ?thesis using put_stale [of s a x v] by (simp add: ver_def)
  qed
qed

lemma put_fail: "ver s (pa_Key a) \<noteq> pa_Version a \<Longrightarrow> fst (put s a) = s"
  using put_missing [of s a] put_stale [of s a]
  by (auto simp: ver_def split: option.splits prod.splits)

lemma put_fail_err:
  "ver s (pa_Key a) \<noteq> pa_Version a \<Longrightarrow>
     snd (put s a) = (if lookup s (pa_Key a) = None then ErrNoKey else ErrVersion)"
  using put_missing [of s a] put_stale [of s a]
  by (auto simp: ver_def split: option.splits prod.splits)

lemma put_ok_lookup:
  assumes "ver s (pa_Key a) = pa_Version a"
  shows "lookup (fst (put s a)) = (lookup s)(pa_Key a \<mapsto> (pa_Value a, pa_Version a + 1))"
  using assms put_match [of s a] put_create [of s a]
  by (cases "lookup s (pa_Key a)") (auto simp: ver_def)

lemma put_ver:
  "ver (fst (put s a)) k =
     (if k = pa_Key a \<and> ver s k = pa_Version a then ver s k + 1 else ver s k)"
proof (cases "ver s (pa_Key a) = pa_Version a")
  case True
  then show ?thesis using put_ok_lookup [of s a] by (auto simp: ver_def)
qed (auto simp: put_fail)

lemma put_present: "lookup s k \<noteq> None \<Longrightarrow> lookup (fst (put s a)) k \<noteq> None"
  using put_ok_lookup [of s a] put_fail [of s a]
  by (cases "ver s (pa_Key a) = pa_Version a") auto

lemma puts_present: "lookup s k \<noteq> None \<Longrightarrow> lookup (puts s as) k \<noteq> None"
proof (induction as arbitrary: s)
  case (Cons a as)
  from Cons.prems have "lookup (fst (put s a)) k \<noteq> None" by (rule put_present)
  then show ?case using Cons.IH by simp
qed simp

lemma puts_ver: "\<exists>n \<le> length as. ver (puts s as) k = ver s k + of_nat n"
proof (induction as arbitrary: s)
  case Nil
  show ?case by simp
next
  case (Cons a as)
  obtain n where n: "n \<le> length as" "ver (puts (fst (put s a)) as) k = ver (fst (put s a)) k + of_nat n"
    using Cons.IH by blast
  show ?case
  proof (cases "k = pa_Key a \<and> ver s k = pa_Version a")
    case True
    then have "ver (fst (put s a)) k = ver s k + 1" by (auto simp: put_ver)
    with n have "ver (puts s (a # as)) k = ver s k + of_nat (Suc n)" by simp
    with n(1) show ?thesis by (metis Suc_le_mono length_Cons)
  next
    case False
    then have "ver (fst (put s a)) k = ver s k" by (auto simp: put_ver)
    with n have "ver (puts s (a # as)) k = ver s k + of_nat n" by simp
    with n(1) show ?thesis by (metis le_SucI length_Cons)
  qed
qed

text \<open>
  Once a \<open>Put\<close> has been applied, its version is spent: fewer than \<open>2 ^ 64\<close> writes later the
  same request is refused and changes nothing. This is what makes a blind retry safe.
\<close>

lemma put_spent:
  assumes ok: "ver s (pa_Key a) = pa_Version a" and few: "length as + 1 < 2 ^ 64"
  shows "put (puts (fst (put s a)) as) a = (puts (fst (put s a)) as, ErrVersion)"
proof -
  let ?s1 = "fst (put s a)" and ?s2 = "puts (fst (put s a)) as"
  obtain n where n: "n \<le> length as" "ver ?s2 (pa_Key a) = ver ?s1 (pa_Key a) + of_nat n"
    using puts_ver by blast
  have "ver ?s2 (pa_Key a) = pa_Version a + of_nat (Suc n)"
    using n(2) ok by (simp add: put_ver)
  then have ne: "ver ?s2 (pa_Key a) \<noteq> pa_Version a"
    using word_add_of_nat_neq [of "Suc n"] n(1) few by simp
  have "lookup ?s1 (pa_Key a) \<noteq> None" using put_ok_lookup [OF ok] by simp
  then have "lookup ?s2 (pa_Key a) \<noteq> None" by (rule puts_present)
  with ne show ?thesis using put_fail [OF ne] put_fail_err [OF ne] by (simp add: prod_eq_iff)
qed

end

definition kv_lookup :: "KVServer \<Rightarrow> string \<Rightarrow> (string \<times> Tversion) option" where
  "kv_lookup kv k = map_option (\<lambda>v. (kv_val v, kv_ver v)) (kv_m kv k)"

lemma kv_lookup_upd:
  "kv_lookup (kv\<lparr>kv_m := (kv_m kv)(k \<mapsto> v)\<rparr>) = (kv_lookup kv)(k \<mapsto> (kv_val v, kv_ver v))"
  by (auto simp: kv_lookup_def)

interpretation kvs: versioned_store kv_lookup "\<lambda>kv a. (put_state kv a, put_err kv a)"
proof unfold_locales
  fix s :: KVServer and a :: PutArgs and x :: string and v :: Tversion
  show "kv_lookup s (pa_Key a) = Some (x, pa_Version a) \<Longrightarrow>
      snd (put_state s a, put_err s a) = OK \<and>
      kv_lookup (fst (put_state s a, put_err s a)) =
        (kv_lookup s)(pa_Key a \<mapsto> (pa_Value a, pa_Version a + 1))"
    by (auto simp: kv_lookup_def kv_defs)
  show "kv_lookup s (pa_Key a) = Some (x, v) \<Longrightarrow> pa_Version a \<noteq> v \<Longrightarrow>
      (put_state s a, put_err s a) = (s, ErrVersion)"
    by (auto simp: kv_lookup_def kv_defs)
  show "kv_lookup s (pa_Key a) = None \<Longrightarrow> pa_Version a = 0 \<Longrightarrow>
      snd (put_state s a, put_err s a) = OK \<and>
      kv_lookup (fst (put_state s a, put_err s a)) = (kv_lookup s)(pa_Key a \<mapsto> (pa_Value a, 1))"
    by (auto simp: kv_lookup_def kv_defs)
  show "kv_lookup s (pa_Key a) = None \<Longrightarrow> pa_Version a \<noteq> 0 \<Longrightarrow>
      (put_state s a, put_err s a) = (s, ErrNoKey)"
    by (auto simp: kv_lookup_def kv_defs)
qed

section \<open>Properties of the handlers\<close>

text \<open>
  The complete behaviour of \<open>Put\<close>. It applies exactly when the requested version is the key's
  version (0 for a missing key): then the key holds the new value at the next version, no other key
  changes, and the answer is \<open>OK\<close>. Otherwise nothing changes, and the answer is \<open>ErrNoKey\<close> for a
  missing key and \<open>ErrVersion\<close> for a present one.
\<close>

lemma put_spec:
  "let v = (case kv_lookup kv (pa_Key a) of None \<Rightarrow> 0 | Some (_, v) \<Rightarrow> v);
       (kv', reply') = KVServer_Put kv a reply
   in kv_lookup kv' =
        (if v = pa_Version a then (kv_lookup kv)(pa_Key a \<mapsto> (pa_Value a, pa_Version a + 1))
         else kv_lookup kv) \<and>
      pr_Err reply' =
        (if v = pa_Version a then OK
         else if kv_lookup kv (pa_Key a) = None then ErrNoKey else ErrVersion)"
  using kvs.put_OK_iff [of kv a] kvs.put_ok_lookup [of kv a] kvs.put_fail [of kv a]
    kvs.put_fail_err [of kv a] put_reply_irrelevant [of kv a reply]
  by (cases "KVServer_Put kv a reply") (auto simp: kvs.ver_def)

text \<open>
  Round trip. After a \<open>Put\<close> that was answered \<open>OK\<close>, \<open>Get\<close> of the same key returns the value
  written, at the version after the one that was asked for, and \<open>Get\<close> of any other key returns what
  it returned before.
\<close>

lemma get_after_put:
  assumes "KVServer_Put kv a reply = (kv', r)" and "pr_Err r = OK"
  shows "KVServer_Get kv' \<lparr>ga_Key = pa_Key a\<rparr> g =
           g\<lparr>gr_Value := pa_Value a, gr_Version := pa_Version a + 1, gr_Err := OK\<rparr> \<and>
         (\<forall>k. k \<noteq> pa_Key a \<longrightarrow> KVServer_Get kv' \<lparr>ga_Key = k\<rparr> g = KVServer_Get kv \<lparr>ga_Key = k\<rparr> g)"
  using assms by (auto simp: kv_defs split: option.splits if_splits)

lemma get_after_put_witness:
  "KVServer_Get (put_state MakeKVServer \<lparr>pa_Key = ''k'', pa_Value = ''v'', pa_Version = 0\<rparr>)
     \<lparr>ga_Key = ''k''\<rparr> zero_GetReply = \<lparr>gr_Value = ''v'', gr_Version = 1, gr_Err = OK\<rparr>"
proof -
  let ?a = "\<lparr>pa_Key = ''k'', pa_Value = ''v'', pa_Version = 0\<rparr>"
  have "KVServer_Put MakeKVServer ?a zero_PutReply = (put_state MakeKVServer ?a, \<lparr>pr_Err = OK\<rparr>)"
    by (simp add: kv_defs)
  from get_after_put [OF this] show ?thesis by (simp add: zero_GetReply_def)
qed

text \<open>
  A spent version stays spent. After a \<open>Put\<close> was answered \<open>OK\<close> and at most \<open>2 ^ 64 - 2\<close> further
  writes by anybody, the server refuses the same request with \<open>ErrVersion\<close> and does not change: a
  client can resend a request whose reply it did not see.
\<close>

lemma resend_is_noop:
  assumes "KVServer_Put kv a reply = (kv', r)" and "pr_Err r = OK" and "length as + 1 < 2 ^ 64"
  shows "KVServer_Put (run_puts kv' as) a reply' = (run_puts kv' as, reply'\<lparr>pr_Err := ErrVersion\<rparr>)"
proof -
  have kv': "kv' = put_state kv a" and ok: "put_err kv a = OK"
    using assms(1,2) put_reply_irrelevant [of kv a reply] by auto
  let ?kv2 = "run_puts kv' as"
  have "put_state ?kv2 a = ?kv2" "put_err ?kv2 a = ErrVersion"
    using kvs.put_spent [of kv a as] kvs.put_OK_iff [of kv a] assms(3) ok kv'
    by (simp_all add: run_puts_def)
  then show ?thesis
    by (auto simp: kv_defs split: option.splits if_splits)
qed

lemma resend_is_noop_example:
  "KVServer_Put (run_puts \<lparr>kv_m = [''k'' \<mapsto> \<lparr>kv_val = ''v'', kv_ver = 1\<rparr>]\<rparr>
       [\<lparr>pa_Key = ''k'', pa_Value = ''w'', pa_Version = 1\<rparr>])
     \<lparr>pa_Key = ''k'', pa_Value = ''v'', pa_Version = 0\<rparr> zero_PutReply =
   (run_puts \<lparr>kv_m = [''k'' \<mapsto> \<lparr>kv_val = ''v'', kv_ver = 1\<rparr>]\<rparr>
       [\<lparr>pa_Key = ''k'', pa_Value = ''w'', pa_Version = 1\<rparr>], zero_PutReply\<lparr>pr_Err := ErrVersion\<rparr>)"
proof (rule resend_is_noop)
  show "KVServer_Put MakeKVServer \<lparr>pa_Key = ''k'', pa_Value = ''v'', pa_Version = 0\<rparr> zero_PutReply =
      (\<lparr>kv_m = [''k'' \<mapsto> \<lparr>kv_val = ''v'', kv_ver = 1\<rparr>]\<rparr>, \<lparr>pr_Err = OK\<rparr>)"
    by (simp add: kv_defs)
qed simp_all

end
