(* ===== verification/KvModel.thy ===== *)
theory KvModel
  imports KVServer "HOL-Library.List_Lexorder" "HOL-Library.Char_ord"
begin

text \<open>
  The sequential specification the tests check histories against: \<^verbatim>\<open>src/models1/kv.go\<close>.
  \<open>KvModel_Step\<close> is the transition function of one key, \<open>KvModel_Partition\<close> splits a history by
  key. The linearizability checker itself (package porcupine) is third-party code and not modelled;
  only the fields of its \<open>Operation\<close> that the repository fills appear here.
\<close>

record KvInput =
  ki_Op :: "8 word"
  ki_Key :: string
  ki_Value :: string
  ki_Version :: "64 word"

record KvOutput =
  ko_Value :: string
  ko_Version :: "64 word"
  ko_Err :: string

record KvState =
  ks_Value :: string
  ks_Version :: "64 word"

record Operation =
  op_Input :: KvInput
  op_Output :: KvOutput
  op_Call :: int
  op_Return :: int
  op_ClientId :: int

definition KvModel_Partition :: "Operation list \<Rightarrow> Operation list list" where
  "KvModel_Partition history =
     (let m = group_by (\<lambda>v. ki_Key (op_Input v)) (\<lambda>v. v) history;
          keys = sort (map fst m)
      in map (\<lambda>k. the (map_of m k)) keys)"

definition KvModel_Init :: KvState where
  "KvModel_Init = \<lparr>ks_Value = '''', ks_Version = 0\<rparr>"

text \<open>The state after an operation code other than 0 and 1 is the string \<open>"<invalid>"\<close>: \<open>None\<close>.\<close>

definition KvModel_Step :: "KvState \<Rightarrow> KvInput \<Rightarrow> KvOutput \<Rightarrow> bool \<times> KvState option" where
  "KvModel_Step st inp out =
     (if ki_Op inp = 0 then (ko_Value out = ks_Value st, Some st)
      else if ki_Op inp = 1 then
        (if ks_Version st = ki_Version inp
         then (ko_Err out = OK \<or> ko_Err out = ErrMaybe,
               Some \<lparr>ks_Value = ki_Value inp, ks_Version = ks_Version st + 1\<rparr>)
         else (ko_Err out = ErrVersion \<or> ko_Err out = ErrMaybe, Some st))
      else (False, None))"

text \<open>A sequence of operations is legal if every step is accepted.\<close>

fun KvModel_run :: "KvState \<Rightarrow> (KvInput \<times> KvOutput) list \<Rightarrow> KvState option" where
  "KvModel_run st [] = Some st"
| "KvModel_run st ((inp, out) # h) =
     (case KvModel_Step st inp out of
        (True, Some st') \<Rightarrow> KvModel_run st' h
      | _ \<Rightarrow> None)"

lemma KvModel_run_append:
  "KvModel_run st (h1 @ h2) = Option.bind (KvModel_run st h1) (\<lambda>st'. KvModel_run st' h2)"
  by (induction st h1 rule: KvModel_run.induct) (auto split: prod.splits bool.splits option.splits)

section \<open>Partitioning a history\<close>

lemma keys_group_by_history:
  "sort (map fst (group_by key val xs)) = sort (remdups (map key xs))"
proof -
  have "set (map fst (group_by key val xs)) = set (remdups (map key xs))"
    by simp
  then have "mset (map fst (group_by key val xs)) = mset (remdups (map key xs))"
    by (simp only: set_eq_iff_mset_eq_distinct [OF distinct_group_by distinct_remdups])
  then show ?thesis by (intro properties_for_sort) simp_all
qed

lemma mset_concat_filter:
  "distinct ks \<Longrightarrow> key ` set xs \<subseteq> set ks \<Longrightarrow>
     mset (concat (map (\<lambda>k. filter (\<lambda>x. key x = k) xs) ks)) = mset xs"
proof (induction xs)
  case (Cons x xs)
  have "mset (concat (map (\<lambda>k. filter (\<lambda>y. key y = k) (x # xs)) ks)) =
      mset (concat (map (\<lambda>k. filter (\<lambda>y. key y = k) xs) ks)) + (\<Sum>k\<leftarrow>ks. if key x = k then {#x#} else {#})"
    by (induction ks) auto
  moreover have "(\<Sum>k\<leftarrow>ks. if key x = k then {#x#} else {#}) = {#x#}"
    using Cons.prems by (simp add: sum_list_distinct_conv_sum_set)
  ultimately show ?case using Cons by simp
qed (induction ks, auto)

text \<open>
  Every group of the partition is the subsequence of the history for one key, in the
  history's order; the keys come in increasing order, each once; and together the groups hold
  exactly the operations of the history.
\<close>

lemma partition_spec:
  "KvModel_Partition h =
     map (\<lambda>k. filter (\<lambda>v. ki_Key (op_Input v) = k) h) (sort (remdups (map (\<lambda>v. ki_Key (op_Input v)) h)))
   \<and> mset (concat (KvModel_Partition h)) = mset h"
proof -
  let ?key = "\<lambda>v. ki_Key (op_Input v)" and ?ks = "sort (remdups (map (\<lambda>v. ki_Key (op_Input v)) h))"
  have eq: "KvModel_Partition h = map (\<lambda>k. filter (\<lambda>v. ?key v = k) h) ?ks"
    unfolding KvModel_Partition_def Let_def keys_group_by_history
    by (auto simp: map_of_group_by)
  moreover have "mset (concat (map (\<lambda>k. filter (\<lambda>v. ?key v = k) h) ?ks)) = mset h"
    by (rule mset_concat_filter) auto
  ultimately show ?thesis by simp
qed

end
