(* ===== verification/KVClerk.thy ===== *)
theory KVClerk
  imports KvModel
begin

text \<open>
  The clerk of \<^verbatim>\<open>src/kvsrv1/client.go\<close>: \<open>Get\<close> and \<open>Put\<close> over a network that loses
  requests and replies, retried until a call succeeds.

  A run of a clerk operation is driven by a script, one entry for each RPC the clerk sends. An
  entry holds the \<open>Put\<close>s of other clients that the server executes before this RPC reaches it,
  and the fate of the RPC: the request is lost, the request is executed and the reply is lost, or
  the reply is delivered. \<open>None\<close> says that the script ended while the clerk was still retrying.
\<close>

datatype fate = LostRequest | LostReply | Delivered

type_synonym attempt = "PutArgs list \<times> fate"

section \<open>Calls\<close>

definition Call_Put :: "fate \<Rightarrow> KVServer \<Rightarrow> PutArgs \<Rightarrow> PutReply \<Rightarrow> KVServer \<times> PutReply \<times> bool" where
  "Call_Put f kv args reply =
     (case f of
        LostRequest \<Rightarrow> (kv, reply, False)
      | LostReply \<Rightarrow> (fst (KVServer_Put kv args zero_PutReply), reply, False)
      | Delivered \<Rightarrow>
          (fst (KVServer_Put kv args zero_PutReply), snd (KVServer_Put kv args zero_PutReply), True))"

definition Call_Get :: "fate \<Rightarrow> KVServer \<Rightarrow> GetArgs \<Rightarrow> GetReply \<Rightarrow> GetReply \<times> bool" where
  "Call_Get f kv args reply =
     (case f of
        LostRequest \<Rightarrow> (reply, False)
      | LostReply \<Rightarrow> (reply, False)
      | Delivered \<Rightarrow> (KVServer_Get kv args zero_GetReply, True))"

section \<open>Get\<close>

fun Clerk_Get_loop ::
  "GetArgs \<Rightarrow> GetReply \<Rightarrow> KVServer \<Rightarrow> attempt list \<Rightarrow> (GetReply \<times> KVServer \<times> attempt list) option" where
  "Clerk_Get_loop args reply kv [] = None"
| "Clerk_Get_loop args reply kv ((env, f) # script) =
     (let kv = run_puts kv env;
          (reply, ok) = Call_Get f kv args reply
      in if ok then Some (reply, kv, script) else Clerk_Get_loop args reply kv script)"

definition Clerk_Get ::
  "string \<Rightarrow> KVServer \<Rightarrow> attempt list \<Rightarrow>
     ((string \<times> Tversion \<times> Err) \<times> KVServer \<times> attempt list) option" where
  "Clerk_Get key kv script =
     (case Clerk_Get_loop \<lparr>ga_Key = key\<rparr> zero_GetReply kv script of
        None \<Rightarrow> None
      | Some (reply, kv, rest) \<Rightarrow>
          Some (if gr_Err reply \<noteq> OK then ('''', 0, gr_Err reply)
                else (gr_Value reply, gr_Version reply, OK), kv, rest))"

section \<open>Put\<close>

text \<open>The retry loop, entered after the first call has failed.\<close>

fun Clerk_Put_retry ::
  "PutArgs \<Rightarrow> PutReply \<Rightarrow> KVServer \<Rightarrow> attempt list \<Rightarrow> (PutReply \<times> KVServer \<times> attempt list) option" where
  "Clerk_Put_retry args reply kv [] = None"
| "Clerk_Put_retry args reply kv ((env, f) # script) =
     (let (kv, reply, ok) = Call_Put f (run_puts kv env) args reply
      in if ok then Some (reply, kv, script) else Clerk_Put_retry args reply kv script)"

definition Clerk_Put_result :: "PutReply \<Rightarrow> bool \<Rightarrow> Err" where
  "Clerk_Put_result reply retried =
     (if pr_Err reply = ErrVersion \<and> retried then ErrMaybe else pr_Err reply)"

definition Clerk_Put ::
  "string \<Rightarrow> string \<Rightarrow> Tversion \<Rightarrow> KVServer \<Rightarrow> attempt list \<Rightarrow>
     (Err \<times> KVServer \<times> attempt list) option" where
  "Clerk_Put key val version kv script =
     (let args = \<lparr>pa_Key = key, pa_Value = val, pa_Version = version\<rparr>
      in case script of
           [] \<Rightarrow> None
         | (env, f) # script \<Rightarrow>
             (let (kv, reply, ok) = Call_Put f (run_puts kv env) args zero_PutReply
              in if ok then Some (Clerk_Put_result reply False, kv, script)
                 else case Clerk_Put_retry args reply kv script of
                        None \<Rightarrow> None
                      | Some (reply, kv, rest) \<Rightarrow> Some (Clerk_Put_result reply True, kv, rest)))"

text \<open>The other clients' writes during the part of a script that was used.\<close>

abbreviation others :: "attempt list \<Rightarrow> PutArgs list" where
  "others script \<equiv> concat (map fst script)"

lemma Call_Put_simps [simp]:
  "Call_Put LostRequest kv args reply = (kv, reply, False)"
  "Call_Put LostReply kv args reply = (put_state kv args, reply, False)"
  "Call_Put Delivered kv args reply =
     (put_state kv args, snd (KVServer_Put kv args zero_PutReply), True)"
  by (simp_all add: Call_Put_def)

lemma Call_Get_simps [simp]:
  "Call_Get LostRequest kv args reply = (reply, False)"
  "Call_Get LostReply kv args reply = (reply, False)"
  "Call_Get Delivered kv args reply = (KVServer_Get kv args zero_GetReply, True)"
  by (simp_all add: Call_Get_def)

section \<open>What the retry loop does to the server\<close>

lemma put_spent_run:
  assumes "put_err kv a = OK" and "length as + 1 < 2 ^ 64"
  shows "put_state (run_puts (put_state kv a) as) a = run_puts (put_state kv a) as"
    and "put_err (run_puts (put_state kv a) as) a = ErrVersion"
  using kvs.put_spent [of kv a as] kvs.put_OK_iff [of kv a] assms by (simp_all add: run_puts_def)

lemma put_not_OK: "put_err kv a \<noteq> OK \<Longrightarrow> put_state kv a = kv"
  using kvs.put_OK_iff [of kv a] kvs.put_fail [of kv a] by simp

text \<open>After the request has been applied once, every retry is a no-op answered \<open>ErrVersion\<close>.\<close>

lemma retry_after_applied:
  assumes "Clerk_Put_retry args reply (run_puts (put_state kv args) past) script = Some (r, kv', rest)"
    and "put_err kv args = OK"
    and "length past + length (others script) + 1 < 2 ^ 64"
  shows "\<exists>used. script = used @ rest \<and> pr_Err r = ErrVersion \<and>
           kv' = run_puts (put_state kv args) (past @ others used)"
  using assms
proof (induction script arbitrary: past reply)
  case (Cons at script)
  obtain env f where at: "at = (env, f)" by (cases at)
  let ?kv1 = "run_puts (put_state kv args) (past @ env)"
  have spent: "put_state ?kv1 args = ?kv1" "put_err ?kv1 args = ErrVersion"
    using put_spent_run [of kv args "past @ env"] Cons.prems(2,3) at by auto
  show ?case
  proof (cases "f = Delivered")
    case True
    with Cons.prems(1) at spent have "r = snd (KVServer_Put ?kv1 args zero_PutReply)" "kv' = ?kv1" "rest = script"
      by auto
    with spent at show ?thesis by (intro exI [of _ "[at]"]) simp
  next
    case False
    with Cons.prems(1) at spent have "Clerk_Put_retry args reply ?kv1 script = Some (r, kv', rest)"
      by (cases f) auto
    then obtain used where "script = used @ rest" "pr_Err r = ErrVersion"
      "kv' = run_puts (put_state kv args) ((past @ env) @ others used)"
      using Cons.IH [of reply "past @ env"] Cons.prems(2,3) at by auto
    with at show ?thesis by (intro exI [of _ "at # used"]) simp
  qed
qed simp

text \<open>
  The loop as a whole acts as one execution of the request, placed somewhere among the writes of
  the other clients: either at the last call, whose reply is the result, or earlier, when an
  execution whose reply was lost took effect; then the result is \<open>ErrVersion\<close>.
\<close>

lemma retry_linearizes:
  assumes "Clerk_Put_retry args reply kv script = Some (r, kv', rest)"
    and "length (others script) + 1 < 2 ^ 64"
  shows "\<exists>used pre post. script = used @ rest \<and> others used = pre @ post \<and>
           kv' = run_puts (put_state (run_puts kv pre) args) post \<and>
           (pr_Err r = put_err (run_puts kv pre) args \<or>
            put_err (run_puts kv pre) args = OK \<and> pr_Err r = ErrVersion)"
  using assms
proof (induction script arbitrary: kv reply)
  case (Cons at script)
  obtain env f where at: "at = (env, f)" by (cases at)
  let ?kv1 = "run_puts kv env"
  consider (delivered) "f = Delivered"
    | (applied) "f = LostReply" "put_err ?kv1 args = OK"
    | (nothing) "f \<noteq> Delivered" "Clerk_Put_retry args reply ?kv1 script = Some (r, kv', rest)"
    using Cons.prems(1) at put_not_OK [of ?kv1 args]
    by (cases f; cases "put_err ?kv1 args = OK") auto
  then show ?case
  proof cases
    case delivered
    with Cons.prems(1) at show ?thesis by (intro exI [of _ "[at]"] exI [of _ env] exI [of _ "[]"]) auto
  next
    case applied
    with Cons.prems(1) at
    have "Clerk_Put_retry args reply (run_puts (put_state ?kv1 args) []) script = Some (r, kv', rest)"
      by simp
    then obtain used where "script = used @ rest" "pr_Err r = ErrVersion"
      "kv' = run_puts (put_state ?kv1 args) (others used)"
      using retry_after_applied [of args reply ?kv1 "[]" script r kv' rest] applied(2) Cons.prems(2) at by auto
    with at applied show ?thesis
      by (intro exI [of _ "at # used"] exI [of _ env] exI [of _ "others used"]) simp
  next
    case nothing
    then obtain used pre post where "script = used @ rest" "others used = pre @ post"
      "kv' = run_puts (put_state (run_puts ?kv1 pre) args) post"
      "pr_Err r = put_err (run_puts ?kv1 pre) args \<or>
         put_err (run_puts ?kv1 pre) args = OK \<and> pr_Err r = ErrVersion"
      using Cons.IH [of reply ?kv1] Cons.prems(2) at by auto
    with at show ?thesis
      by (intro exI [of _ "at # used"] exI [of _ "env @ pre"] exI [of _ post]) simp
  qed
qed simp

section \<open>Put: linearizability, at most once, progress\<close>

text \<open>
  The errors a clerk may report for an execution the server answered with \<open>r\<close>: the answer itself,
  or \<open>ErrMaybe\<close> when the answer was \<open>OK\<close> or \<open>ErrVersion\<close>.
\<close>

definition clerk_err :: "Err \<Rightarrow> Err \<Rightarrow> bool" where
  "clerk_err r e \<longleftrightarrow> e = r \<or> e = ErrMaybe \<and> (r = OK \<or> r = ErrVersion)"

text \<open>What \<open>Get\<close> returns when the server answers in the given state.\<close>

definition clerk_get :: "KVServer \<Rightarrow> string \<Rightarrow> string \<times> Tversion \<times> Err" where
  "clerk_get kv key =
     (case kv_lookup kv key of None \<Rightarrow> ('''', 0, ErrNoKey) | Some (x, v) \<Rightarrow> (x, v, OK))"

lemma put_err_cases: "put_err kv a = OK \<or> put_err kv a = ErrVersion \<or> put_err kv a = ErrNoKey"
  by (auto simp: kv_defs split: option.splits)

lemma clerk_put_lin:
  assumes run: "Clerk_Put key val version kv script = Some (e, kv', rest)"
    and few: "length (others script) + 1 < 2 ^ 64"
    and args: "args = \<lparr>pa_Key = key, pa_Value = val, pa_Version = version\<rparr>"
  obtains used pre post where "script = used @ rest" "others used = pre @ post"
    "kv' = run_puts (put_state (run_puts kv pre) args) post"
    "clerk_err (put_err (run_puts kv pre) args) e"
    "e = OK \<or> e = ErrVersion \<or> e = ErrNoKey \<or> e = ErrMaybe"
    "e = ErrVersion \<Longrightarrow> post = []"
proof -
  obtain env f sc where script: "script = (env, f) # sc"
    using run by (cases script) (auto simp: Clerk_Put_def)
  let ?kv1 = "run_puts kv env"
  show ?thesis
  proof (cases "f = Delivered")
    case True
    with run script args have "e = put_err ?kv1 args" "kv' = put_state ?kv1 args" "rest = sc"
      by (auto simp: Clerk_Put_def Clerk_Put_result_def Let_def)
    then show ?thesis
      using that [of "[(env, f)]" env "[]"] script put_err_cases [of ?kv1 args]
      by (auto simp: clerk_err_def)
  next
    case False
    let ?kv2 = "if f = LostReply then put_state ?kv1 args else ?kv1"
    obtain r where r: "Clerk_Put_retry args zero_PutReply ?kv2 sc = Some (r, kv', rest)"
      "e = Clerk_Put_result r True"
      using run script args False by (cases f) (auto simp: Clerk_Put_def Let_def split: option.splits)
    show ?thesis
    proof (cases "f = LostReply \<and> put_err ?kv1 args = OK")
      case True
      with r obtain used where "sc = used @ rest" "pr_Err r = ErrVersion"
        "kv' = run_puts (put_state ?kv1 args) (others used)"
        using retry_after_applied [of args zero_PutReply ?kv1 "[]" sc r kv' rest] few script by auto
      then show ?thesis
        using that [of "(env, f) # used" env "others used"] script r(2) True
        by (simp add: Clerk_Put_result_def clerk_err_def)
    next
      case nothing: False
      then have "?kv2 = ?kv1" using put_not_OK by auto
      with r obtain used pre post where u: "sc = used @ rest" "others used = pre @ post"
        "kv' = run_puts (put_state (run_puts ?kv1 pre) args) post"
        "pr_Err r = put_err (run_puts ?kv1 pre) args \<or>
           put_err (run_puts ?kv1 pre) args = OK \<and> pr_Err r = ErrVersion"
        using retry_linearizes [of args zero_PutReply ?kv1 sc r kv' rest] few script by auto
      have "e \<noteq> ErrVersion" using r(2) by (simp add: Clerk_Put_result_def)
      then show ?thesis
        using that [of "(env, f) # used" "env @ pre" post] script u r(2)
          put_err_cases [of "run_puts ?kv1 pre" args]
        by (auto simp: Clerk_Put_result_def clerk_err_def split: if_splits)
    qed
  qed
qed

text \<open>
  C12: linearizability of \<open>Clerk.Put\<close> at the server. However many requests and replies are lost and
  whatever other clients write in between, a \<open>Put\<close> that returns has the effect of exactly one
  atomic execution of the request at some point among the other clients' writes, and reports the
  answer of that execution, or \<open>ErrMaybe\<close> when that answer was \<open>OK\<close> or \<open>ErrVersion\<close>. The bound
  on the number of writes excludes a version counter that wraps all the way round.
\<close>

theorem clerk_put_linearizable:
  assumes "Clerk_Put key val version kv script = Some (e, kv', rest)"
    and "length (others script) + 1 < 2 ^ 64"
  shows "\<exists>used pre post. script = used @ rest \<and> others used = pre @ post \<and>
    kv' = run_puts (put_state (run_puts kv pre) \<lparr>pa_Key = key, pa_Value = val, pa_Version = version\<rparr>) post \<and>
    clerk_err (put_err (run_puts kv pre) \<lparr>pa_Key = key, pa_Value = val, pa_Version = version\<rparr>) e"
  using clerk_put_lin [OF assms refl] by metis

theorem clerk_put_linearizable_witness:
  "Clerk_Put ''k'' ''v'' 0 MakeKVServer [([], LostReply), ([], Delivered)] =
     Some (ErrMaybe, \<lparr>kv_m = [''k'' \<mapsto> \<lparr>kv_val = ''v'', kv_ver = 1\<rparr>]\<rparr>, []) \<and>
   (\<exists>used pre post. [([], LostReply), ([], Delivered)] = used @ [] \<and> others used = pre @ post \<and>
      \<lparr>kv_m = [''k'' \<mapsto> \<lparr>kv_val = ''v'', kv_ver = 1\<rparr>]\<rparr> =
        run_puts (put_state (run_puts MakeKVServer pre) \<lparr>pa_Key = ''k'', pa_Value = ''v'', pa_Version = 0\<rparr>) post \<and>
      clerk_err (put_err (run_puts MakeKVServer pre) \<lparr>pa_Key = ''k'', pa_Value = ''v'', pa_Version = 0\<rparr>) ErrMaybe)"
proof -
  have run: "Clerk_Put ''k'' ''v'' 0 MakeKVServer [([], LostReply), ([], Delivered)] =
     Some (ErrMaybe, \<lparr>kv_m = [''k'' \<mapsto> \<lparr>kv_val = ''v'', kv_ver = 1\<rparr>]\<rparr>, [])"
    by (simp add: Clerk_Put_def Clerk_Put_result_def kv_defs)
  show ?thesis using run clerk_put_linearizable [OF run] by simp
qed

text \<open>
  C16: the promise of the comment on \<open>Clerk.Put\<close>. If \<open>Put\<close> reports \<open>ErrVersion\<close> or \<open>ErrNoKey\<close>, it was
  definitely not performed: the server is as if the clerk had sent nothing. If it reports \<open>OK\<close>, it was
  performed exactly once: at one point among the other clients' writes the key had the requested
  version (0 for a missing key), and from there the key holds the new value at the next version.
\<close>

theorem clerk_put_exactly_once:
  assumes "Clerk_Put key val version kv script = Some (e, kv', rest)"
    and "length (others script) + 1 < 2 ^ 64"
  shows "\<exists>used pre post. script = used @ rest \<and> others used = pre @ post \<and>
    (e = ErrVersion \<or> e = ErrNoKey \<longrightarrow> kv' = run_puts kv (others used)) \<and>
    (e = OK \<longrightarrow>
       (\<exists>s. kv' = run_puts s post \<and>
          (case kv_lookup (run_puts kv pre) key of None \<Rightarrow> 0 | Some (_, v) \<Rightarrow> v) = version \<and>
          kv_lookup s = (kv_lookup (run_puts kv pre))(key \<mapsto> (val, version + 1))))"
proof -
  let ?args = "\<lparr>pa_Key = key, pa_Value = val, pa_Version = version\<rparr>"
  obtain used pre post where u: "script = used @ rest" "others used = pre @ post"
    "kv' = run_puts (put_state (run_puts kv pre) ?args) post"
    "clerk_err (put_err (run_puts kv pre) ?args) e"
    using clerk_put_lin [OF assms refl] by metis
  let ?kv1 = "run_puts kv pre"
  have fail: "kv' = run_puts kv (others used)" if "e = ErrVersion \<or> e = ErrNoKey"
  proof -
    from that u(4) have "put_err ?kv1 ?args \<noteq> OK" by (auto simp: clerk_err_def)
    with u show ?thesis by (simp add: put_not_OK)
  qed
  have ok: "kvs.ver ?kv1 key = version \<and>
      kv_lookup (put_state ?kv1 ?args) = (kv_lookup ?kv1)(key \<mapsto> (val, version + 1))" if "e = OK"
    using that u(4) kvs.put_OK_iff [of ?kv1 ?args] kvs.put_ok_lookup [of ?kv1 ?args]
    by (simp add: clerk_err_def)
  show ?thesis using u fail ok unfolding kvs.ver_def by blast
qed

theorem clerk_put_exactly_once_witness:
  "Clerk_Put ''k'' ''v'' 0 MakeKVServer [([], LostRequest), ([], Delivered)] =
     Some (OK, \<lparr>kv_m = [''k'' \<mapsto> \<lparr>kv_val = ''v'', kv_ver = 1\<rparr>]\<rparr>, []) \<and>
   (\<exists>used pre post. [([], LostRequest), ([], Delivered)] = used @ [] \<and> others used = pre @ post \<and>
     (\<exists>s. \<lparr>kv_m = [''k'' \<mapsto> \<lparr>kv_val = ''v'', kv_ver = 1\<rparr>]\<rparr> = run_puts s post \<and>
       (case kv_lookup (run_puts MakeKVServer pre) ''k'' of None \<Rightarrow> 0 | Some (_, v) \<Rightarrow> v) = 0 \<and>
       kv_lookup s = (kv_lookup (run_puts MakeKVServer pre))(''k'' \<mapsto> (''v'', 0 + 1))))"
proof -
  have run: "Clerk_Put ''k'' ''v'' 0 MakeKVServer [([], LostRequest), ([], Delivered)] =
     Some (OK, \<lparr>kv_m = [''k'' \<mapsto> \<lparr>kv_val = ''v'', kv_ver = 1\<rparr>]\<rparr>, [])"
    by (simp add: Clerk_Put_def Clerk_Put_result_def kv_defs)
  show ?thesis using run clerk_put_exactly_once [OF run] by simp
qed

lemma retry_None:
  "Clerk_Put_retry args reply kv script = None \<longleftrightarrow> (\<forall>a \<in> set script. snd a \<noteq> Delivered)"
proof (induction script arbitrary: kv reply)
  case (Cons at script)
  obtain env f where "at = (env, f)" by (cases at)
  with Cons show ?case by (cases f) auto
qed simp

lemma Clerk_Put_None:
  "Clerk_Put key val version kv script = None \<longleftrightarrow> (\<forall>a \<in> set script. snd a \<noteq> Delivered)"
proof (cases script)
  case (Cons at sc)
  obtain env f where at: "at = (env, f)" by (cases at)
  with Cons show ?thesis
    by (cases f) (auto simp: Clerk_Put_def Let_def option.case_eq_if retry_None split_beta)
qed (simp add: Clerk_Put_def)

text \<open>
  Progress. \<open>Clerk.Put\<close> returns exactly when some call gets its reply back; until then it keeps
  retrying, and it never gives up or reports anything on its own.
\<close>

lemma clerk_put_returns:
  "(\<exists>e kv' rest. Clerk_Put key val version kv script = Some (e, kv', rest)) \<longleftrightarrow>
     (\<exists>a \<in> set script. snd a = Delivered)"
proof -
  have "(\<exists>e kv' rest. Clerk_Put key val version kv script = Some (e, kv', rest)) \<longleftrightarrow>
      Clerk_Put key val version kv script \<noteq> None"
    by (auto simp: not_None_eq)
  then show ?thesis by (simp add: Clerk_Put_None)
qed

section \<open>The clerk against the sequential model\<close>

text \<open>
  How the tests record an operation (\<^verbatim>\<open>src/kvtest1/porcupine.go\<close>): the input and the output of a
  \<open>Put\<close> and of a \<open>Get\<close>. Times and client numbers only matter to the checker.
\<close>

definition put_input :: "PutArgs \<Rightarrow> KvInput" where
  "put_input a = \<lparr>ki_Op = 1, ki_Key = pa_Key a, ki_Value = pa_Value a, ki_Version = pa_Version a\<rparr>"

definition put_output :: "Err \<Rightarrow> KvOutput" where
  "put_output e = \<lparr>ko_Value = '''', ko_Version = 0, ko_Err = e\<rparr>"

definition get_input :: "string \<Rightarrow> KvInput" where
  "get_input key = \<lparr>ki_Op = 0, ki_Key = key, ki_Value = '''', ki_Version = 0\<rparr>"

definition get_output :: "string \<times> Tversion \<times> Err \<Rightarrow> KvOutput" where
  "get_output r = (case r of (val, ver, e) \<Rightarrow> \<lparr>ko_Value = val, ko_Version = ver, ko_Err = e\<rparr>)"

text \<open>The model's state of one key: a missing key is the empty string at version 0.\<close>

definition kv_state :: "KVServer \<Rightarrow> string \<Rightarrow> KvState" where
  "kv_state kv k =
     (case kv_lookup kv k of None \<Rightarrow> KvModel_Init | Some (x, v) \<Rightarrow> \<lparr>ks_Value = x, ks_Version = v\<rparr>)"

fun model_history :: "string \<Rightarrow> KVServer \<Rightarrow> PutArgs list \<Rightarrow> (KvInput \<times> KvOutput) list" where
  "model_history k kv [] = []"
| "model_history k kv (a # as) =
     (if pa_Key a = k then [(put_input a, put_output (put_err kv a))] else [])
     @ model_history k (put_state kv a) as"

text \<open>
  No write in the list can hit a missing key with a non-zero version: the one request the server
  answers with an error that the model does not know.
\<close>

definition no_missing :: "string \<Rightarrow> KVServer \<Rightarrow> PutArgs list \<Rightarrow> bool" where
  "no_missing k kv as \<longleftrightarrow>
     kv_lookup kv k \<noteq> None \<or> (\<forall>a \<in> set as. pa_Key a = k \<longrightarrow> pa_Version a = 0)"

lemma kv_state_ver: "ks_Version (kv_state kv k) = kvs.ver kv k"
  by (simp add: kv_state_def kvs.ver_def KvModel_Init_def split: option.split)

lemma kv_state_put:
  "kv_state (put_state kv a) k =
     (if k = pa_Key a \<and> kvs.ver kv k = pa_Version a
      then \<lparr>ks_Value = pa_Value a, ks_Version = pa_Version a + 1\<rparr> else kv_state kv k)"
  using kvs.put_ok_lookup [of kv a] kvs.put_fail [of kv a]
  by (cases "kvs.ver kv (pa_Key a) = pa_Version a") (auto simp: kv_state_def)

lemma put_model_step:
  assumes "put_err kv a \<noteq> ErrNoKey" and "clerk_err (put_err kv a) e"
  shows "KvModel_Step (kv_state kv (pa_Key a)) (put_input a) (put_output e) =
           (True, Some (kv_state (put_state kv a) (pa_Key a)))"
proof (cases "kvs.ver kv (pa_Key a) = pa_Version a")
  case True
  with assms(2) kvs.put_OK_iff [of kv a] have "e = OK \<or> e = ErrMaybe" by (auto simp: clerk_err_def)
  with True show ?thesis
    by (auto simp: KvModel_Step_def put_input_def put_output_def kv_state_ver kv_state_put)
next
  case False
  with assms(1) kvs.put_fail_err [of kv a] have "put_err kv a = ErrVersion" by (auto split: if_splits)
  with assms(2) have "e = ErrVersion \<or> e = ErrMaybe" by (auto simp: clerk_err_def)
  with False show ?thesis
    by (auto simp: KvModel_Step_def put_input_def put_output_def kv_state_ver kv_state_put)
qed

lemma no_missing_step:
  assumes "no_missing k kv (a # as)"
  shows "pa_Key a = k \<Longrightarrow> put_err kv a \<noteq> ErrNoKey" and "no_missing k (put_state kv a) as"
proof -
  show "put_err kv a \<noteq> ErrNoKey" if "pa_Key a = k"
  proof (cases "kvs.ver kv k = pa_Version a")
    case True
    with that kvs.put_OK_iff [of kv a] show ?thesis by simp
  next
    case False
    with assms that have "kv_lookup kv k \<noteq> None"
      by (cases "kv_lookup kv k") (auto simp: no_missing_def kvs.ver_def)
    with False that kvs.put_fail_err [of kv a] show ?thesis by simp
  qed
  show "no_missing k (put_state kv a) as"
    using assms kvs.put_present [of kv k a] by (auto simp: no_missing_def)
qed

lemma no_missing_run: "no_missing k kv (as @ bs) \<Longrightarrow> no_missing k (run_puts kv as) bs"
  by (induction as arbitrary: kv) (auto dest: no_missing_step)

lemma no_missing_sub: "no_missing k kv as \<Longrightarrow> set bs \<subseteq> set as \<Longrightarrow> no_missing k kv bs"
  by (auto simp: no_missing_def)

lemma model_history_run:
  "no_missing k kv as \<Longrightarrow> KvModel_run (kv_state kv k) (model_history k kv as) = Some (kv_state (run_puts kv as) k)"
proof (induction as arbitrary: kv)
  case (Cons a as)
  note step = no_missing_step [OF Cons.prems]
  have "KvModel_run (kv_state kv k) (if pa_Key a = k then [(put_input a, put_output (put_err kv a))] else [])
      = Some (kv_state (put_state kv a) k)"
    using step(1) put_model_step [of kv a "put_err kv a"] kv_state_put [of kv a k]
    by (auto simp: clerk_err_def)
  then show ?case using Cons.IH [OF step(2)] by (simp add: KvModel_run_append)
qed simp



text \<open>
  C33: the model and the server disagree on one request. For a missing key and a non-zero version the
  server answers \<open>ErrNoKey\<close> and the clerk passes it on, but \<open>KvModel.Step\<close> accepts only
  \<open>ErrVersion\<close> and \<open>ErrMaybe\<close> there, so a correct run is judged not linearizable.
\<close>

theorem model_rejects_ErrNoKey:
  assumes "kv_lookup kv key = None" and "version \<noteq> 0"
  shows "Clerk_Put key val version kv [([], Delivered)] = Some (ErrNoKey, kv, []) \<and>
    \<not> fst (KvModel_Step (kv_state kv key)
        (put_input \<lparr>pa_Key = key, pa_Value = val, pa_Version = version\<rparr>) (put_output ErrNoKey))"
proof -
  have "put_state kv \<lparr>pa_Key = key, pa_Value = val, pa_Version = version\<rparr> = kv"
    "put_err kv \<lparr>pa_Key = key, pa_Value = val, pa_Version = version\<rparr> = ErrNoKey"
    using kvs.put_missing [of kv "\<lparr>pa_Key = key, pa_Value = val, pa_Version = version\<rparr>"] assms
    by simp_all
  then show ?thesis
    using assms
    by (simp add: Clerk_Put_def Clerk_Put_result_def KvModel_Step_def put_input_def put_output_def
        kv_state_def KvModel_Init_def)
qed

theorem model_rejects_ErrNoKey_witness:
  "Clerk_Put ''k'' ''v'' 7 MakeKVServer [([], Delivered)] = Some (ErrNoKey, MakeKVServer, []) \<and>
   \<not> fst (KvModel_Step (kv_state MakeKVServer ''k'')
       (put_input \<lparr>pa_Key = ''k'', pa_Value = ''v'', pa_Version = 7\<rparr>) (put_output ErrNoKey))"
  by (rule model_rejects_ErrNoKey) (simp_all add: kv_lookup_def MakeKVServer_def)

section \<open>Get\<close>

lemma Clerk_Get_loop_result:
  "Clerk_Get_loop args reply kv script = Some (r, kv', rest) \<Longrightarrow>
     \<exists>used. script = used @ rest \<and> kv' = run_puts kv (others used) \<and>
       r = KVServer_Get kv' args zero_GetReply"
proof (induction script arbitrary: kv reply)
  case (Cons at script)
  obtain env f where at: "at = (env, f)" by (cases at)
  show ?case
  proof (cases "f = Delivered")
    case True
    with Cons.prems at show ?thesis by (intro exI [of _ "[at]"]) (auto simp: Let_def)
  next
    case False
    with Cons.prems at have "Clerk_Get_loop args reply (run_puts kv env) script = Some (r, kv', rest)"
      by (cases f) auto
    then obtain used where "script = used @ rest" "kv' = run_puts (run_puts kv env) (others used)"
      "r = KVServer_Get kv' args zero_GetReply"
      using Cons.IH by blast
    with at show ?thesis by (intro exI [of _ "at # used"]) simp
  qed
qed simp

text \<open>
  Linearizability of \<open>Clerk.Get\<close>. A \<open>Get\<close> that returns changes nothing at the server; it returns
  the value and the version of the key at the moment its last request was executed, or \<open>ErrNoKey\<close>
  with zero values if the key is missing then; and the tests' model accepts it in that state.
\<close>

lemma clerk_get_linearizable:
  assumes "Clerk_Get key kv script = Some (r, kv', rest)"
  shows "(\<exists>used. script = used @ rest \<and> kv' = run_puts kv (others used)) \<and>
    r = (case kv_lookup kv' key of None \<Rightarrow> ('''', 0, ErrNoKey) | Some (x, v) \<Rightarrow> (x, v, OK)) \<and>
    KvModel_Step (kv_state kv' key) (get_input key) (get_output r) = (True, Some (kv_state kv' key))"
proof -
  obtain g where g: "Clerk_Get_loop \<lparr>ga_Key = key\<rparr> zero_GetReply kv script = Some (g, kv', rest)"
    "r = (if gr_Err g \<noteq> OK then ('''', 0, gr_Err g) else (gr_Value g, gr_Version g, OK))"
    using assms by (auto simp: Clerk_Get_def split: option.splits)
  from Clerk_Get_loop_result [OF g(1)]
  have used: "\<exists>used. script = used @ rest \<and> kv' = run_puts kv (others used)"
    and "g = KVServer_Get kv' \<lparr>ga_Key = key\<rparr> zero_GetReply" by auto
  with g(2) have r: "r = (case kv_lookup kv' key of None \<Rightarrow> ('''', 0, ErrNoKey) | Some (x, v) \<Rightarrow> (x, v, OK))"
    by (auto simp: kv_lookup_def kv_defs split: option.splits)
  then have "KvModel_Step (kv_state kv' key) (get_input key) (get_output r) = (True, Some (kv_state kv' key))"
    by (auto simp: KvModel_Step_def get_input_def get_output_def kv_state_def KvModel_Init_def split: option.splits)
  with used r show ?thesis by blast
qed

lemma clerk_get_linearizable_example:
  "Clerk_Get ''k'' MakeKVServer
     [([], LostReply), ([\<lparr>pa_Key = ''k'', pa_Value = ''w'', pa_Version = 0\<rparr>], Delivered)] =
     Some ((''w'', 1, OK), \<lparr>kv_m = [''k'' \<mapsto> \<lparr>kv_val = ''w'', kv_ver = 1\<rparr>]\<rparr>, []) \<and>
   KvModel_Step (kv_state \<lparr>kv_m = [''k'' \<mapsto> \<lparr>kv_val = ''w'', kv_ver = 1\<rparr>]\<rparr> ''k'')
     (get_input ''k'') (get_output (''w'', 1, OK)) =
     (True, Some (kv_state \<lparr>kv_m = [''k'' \<mapsto> \<lparr>kv_val = ''w'', kv_ver = 1\<rparr>]\<rparr> ''k''))"
proof -
  have run: "Clerk_Get ''k'' MakeKVServer
     [([], LostReply), ([\<lparr>pa_Key = ''k'', pa_Value = ''w'', pa_Version = 0\<rparr>], Delivered)] =
     Some ((''w'', 1, OK), \<lparr>kv_m = [''k'' \<mapsto> \<lparr>kv_val = ''w'', kv_ver = 1\<rparr>]\<rparr>, [])"
    by (simp add: Clerk_Get_def kv_defs)
  from clerk_get_linearizable [OF run] run show ?thesis by blast
qed

end
