(* ===== verification/KVLock.thy ===== *)
theory KVLock
  imports KVClerk
begin

text \<open>
  The distributed lock of \<^verbatim>\<open>src/kvsrv1/lock/lock.go\<close>, built on a clerk. The code between two clerk
  calls is one definition (\<open>MakeLock_got\<close>, \<open>tryAcquire_got\<close>, \<open>tryAcquire_put\<close>, \<open>Release_put\<close>), and they
  are composed twice: with the clerk's scripts, for one client running alone (\<open>MakeLock\<close>,
  \<open>tryAcquire\<close>, \<open>Acquire\<close>, \<open>Release\<close>), and as a step relation for any number of clients
  (\<open>lock_step\<close>), in which a clerk operation is one atomic step. That is enough because the clerk's operations are
  linearizable, which is shown in the theory of the clerk.
\<close>

record Lock =
  lk_lockKey :: string
  lk_version :: Tversion

section \<open>The code between clerk calls\<close>

definition new_Lock :: "string \<Rightarrow> Lock" where
  "new_Lock l = \<lparr>lk_lockKey = l, lk_version = 0\<rparr>"

text \<open>\<open>MakeLock\<close> after its \<open>Get\<close>: does it go on to \<open>Put\<close>? And after its \<open>Put\<close>.\<close>

definition MakeLock_got :: "string \<times> Tversion \<times> Err \<Rightarrow> bool" where
  "MakeLock_got r \<longleftrightarrow> (case r of (_, _, err) \<Rightarrow> err = ErrNoKey)"

definition MakeLock_put :: "Lock \<Rightarrow> Err \<Rightarrow> Lock" where
  "MakeLock_put lk err = (if err = OK then lk\<lparr>lk_version := lk_version lk + 1\<rparr> else lk)"

text \<open>
  \<open>tryAcquire\<close> after its \<open>Get\<close>: \<open>None\<close> is \<open>return false\<close>; and after its \<open>Put\<close>, with the result.
\<close>

definition tryAcquire_got :: "Lock \<Rightarrow> string \<times> Tversion \<times> Err \<Rightarrow> Lock option" where
  "tryAcquire_got lk r =
     (case r of (val, version, err) \<Rightarrow>
        if err \<noteq> OK then None
        else if val = ''1'' then None
        else Some (lk\<lparr>lk_version := version\<rparr>))"

definition tryAcquire_put :: "Lock \<Rightarrow> Err \<Rightarrow> Lock \<times> bool" where
  "tryAcquire_put lk err =
     (if err = OK then (lk\<lparr>lk_version := lk_version lk + 1\<rparr>, True)
      else if err = ErrVersion then (lk, False)
      else if err = ErrNoKey then (lk, False)
      else (lk, False))"

definition Release_put :: "Lock \<Rightarrow> Err \<Rightarrow> Lock" where
  "Release_put lk err = lk\<lparr>lk_version := lk_version lk + 1\<rparr>"

text \<open>The \<open>Put\<close> requests the lock issues: claim it with \<open>"1"\<close>, free it with \<open>"0"\<close>.\<close>

abbreviation lock_args :: "Lock \<Rightarrow> string \<Rightarrow> PutArgs" where
  "lock_args lk val \<equiv> \<lparr>pa_Key = lk_lockKey lk, pa_Value = val, pa_Version = lk_version lk\<rparr>"

section \<open>One client, over the clerk's scripts\<close>

definition MakeLock :: "string \<Rightarrow> KVServer \<Rightarrow> attempt list \<Rightarrow> (Lock \<times> KVServer \<times> attempt list) option" where
  "MakeLock l kv script =
     (let lk = new_Lock l
      in case Clerk_Get (lk_lockKey lk) kv script of
           None \<Rightarrow> None
         | Some (r, kv, script) \<Rightarrow>
             if MakeLock_got r
             then (case Clerk_Put (lk_lockKey lk) ''0'' (lk_version lk) kv script of
                     None \<Rightarrow> None
                   | Some (err, kv, script) \<Rightarrow> Some (MakeLock_put lk err, kv, script))
             else Some (lk, kv, script))"

definition tryAcquire ::
  "Lock \<Rightarrow> KVServer \<Rightarrow> attempt list \<Rightarrow> (bool \<times> Lock \<times> KVServer \<times> attempt list) option" where
  "tryAcquire lk kv script =
     (case Clerk_Get (lk_lockKey lk) kv script of
        None \<Rightarrow> None
      | Some (r, kv, script) \<Rightarrow>
          (case tryAcquire_got lk r of
             None \<Rightarrow> Some (False, lk, kv, script)
           | Some lk \<Rightarrow>
               (case Clerk_Put (lk_lockKey lk) ''1'' (lk_version lk) kv script of
                  None \<Rightarrow> None
                | Some (err, kv, script) \<Rightarrow>
                    (let (lk, ok) = tryAcquire_put lk err in Some (ok, lk, kv, script)))))"

definition Release :: "Lock \<Rightarrow> KVServer \<Rightarrow> attempt list \<Rightarrow> (Lock \<times> KVServer \<times> attempt list) option" where
  "Release lk kv script =
     (case Clerk_Put (lk_lockKey lk) ''0'' (lk_version lk) kv script of
        None \<Rightarrow> None
      | Some (err, kv, script) \<Rightarrow> Some (Release_put lk err, kv, script))"

lemma Clerk_Get_shorter:
  "Clerk_Get key kv script = Some (r, kv', rest) \<Longrightarrow> length rest < length script"
proof -
  have "Clerk_Get_loop args reply kv script = Some (g, kv', rest) \<Longrightarrow> length rest < length script"
    for args reply kv script g
  proof (induction script arbitrary: kv reply)
    case (Cons at script)
    obtain env f where "at = (env, f)" by (cases at)
    with Cons show ?case by (cases f) (fastforce simp: Let_def)+
  qed simp
  then show "Clerk_Get key kv script = Some (r, kv', rest) \<Longrightarrow> length rest < length script"
    by (auto simp: Clerk_Get_def split: option.splits)
qed

lemma Clerk_Put_shorter:
  "Clerk_Put key val version kv script = Some (e, kv', rest) \<Longrightarrow> length rest < length script"
proof -
  have "Clerk_Put_retry args reply kv script = Some (r, kv', rest) \<Longrightarrow> length rest < length script"
    for args reply kv script r
  proof (induction script arbitrary: kv reply)
    case (Cons at script)
    obtain env f where "at = (env, f)" by (cases at)
    with Cons show ?case by (cases f) fastforce+
  qed simp
  then show "Clerk_Put key val version kv script = Some (e, kv', rest) \<Longrightarrow> length rest < length script"
    by (fastforce simp: Clerk_Put_def Let_def split: option.splits list.splits if_splits prod.splits)
qed

lemma tryAcquire_shorter:
  "tryAcquire lk kv script = Some (b, lk', kv', rest) \<Longrightarrow> length rest < length script"
  by (fastforce simp: tryAcquire_def split: option.splits prod.splits
      dest: Clerk_Get_shorter Clerk_Put_shorter)

text \<open>
  \<open>Acquire\<close> repeats \<open>tryAcquire\<close>. Every round uses up some of the script, so the recursion ends;
  \<open>None\<close> says that the lock had not been acquired when the script ended.
\<close>

function Acquire :: "Lock \<Rightarrow> KVServer \<Rightarrow> attempt list \<Rightarrow> (Lock \<times> KVServer \<times> attempt list) option" where
  "Acquire lk kv script =
     (case tryAcquire lk kv script of
        None \<Rightarrow> None
      | Some (ok, lk', kv', rest) \<Rightarrow> if ok then Some (lk', kv', rest) else Acquire lk' kv' rest)"
  by pat_completeness auto
termination
  by (relation "measure (\<lambda>(lk, kv, script). length script)") (auto dest: tryAcquire_shorter)

declare Acquire.simps [simp del]

section \<open>Any number of clients\<close>

text \<open>
  Where a client is: before each of the clerk calls of \<open>MakeLock\<close>, with a lock it does not hold
  (outside or at the start of \<open>tryAcquire\<close>), between the \<open>Get\<close> and the \<open>Put\<close> of \<open>tryAcquire\<close>, or
  holding the lock.
\<close>

datatype lock_pc = MakeGet | MakePut | Ready | AcqPut | Held

record lock_sys =
  ls_kv :: KVServer
  ls_lk :: "nat \<Rightarrow> Lock"
  ls_pc :: "nat \<Rightarrow> lock_pc"

definition lock_init :: "string \<Rightarrow> lock_sys" where
  "lock_init l = \<lparr>ls_kv = MakeKVServer, ls_lk = (\<lambda>_. new_Lock l), ls_pc = (\<lambda>_. MakeGet)\<rparr>"

definition move :: "lock_sys \<Rightarrow> nat \<Rightarrow> KVServer \<Rightarrow> Lock \<Rightarrow> lock_pc \<Rightarrow> lock_sys" where
  "move s i kv lk pc = \<lparr>ls_kv = kv, ls_lk = (ls_lk s)(i := lk), ls_pc = (ls_pc s)(i := pc)\<rparr>"

inductive lock_step :: "string \<Rightarrow> lock_sys \<Rightarrow> lock_sys \<Rightarrow> bool" for l :: string where
  make_get: "ls_pc s i = MakeGet \<Longrightarrow> r = clerk_get (ls_kv s) (lk_lockKey (ls_lk s i)) \<Longrightarrow>
     pc = (if MakeLock_got r then MakePut else Ready) \<Longrightarrow>
     lock_step l s (move s i (ls_kv s) (ls_lk s i) pc)"
| make_put: "ls_pc s i = MakePut \<Longrightarrow> a = lock_args (ls_lk s i) ''0'' \<Longrightarrow>
     clerk_err (put_err (ls_kv s) a) e \<Longrightarrow>
     lock_step l s (move s i (put_state (ls_kv s) a) (MakeLock_put (ls_lk s i) e) Ready)"
| acquire_busy: "ls_pc s i = Ready \<Longrightarrow>
     tryAcquire_got (ls_lk s i) (clerk_get (ls_kv s) (lk_lockKey (ls_lk s i))) = None \<Longrightarrow>
     lock_step l s s"
| acquire_get: "ls_pc s i = Ready \<Longrightarrow>
     tryAcquire_got (ls_lk s i) (clerk_get (ls_kv s) (lk_lockKey (ls_lk s i))) = Some lk \<Longrightarrow>
     lock_step l s (move s i (ls_kv s) lk AcqPut)"
| acquire_put: "ls_pc s i = AcqPut \<Longrightarrow> a = lock_args (ls_lk s i) ''1'' \<Longrightarrow>
     clerk_err (put_err (ls_kv s) a) e \<Longrightarrow> tryAcquire_put (ls_lk s i) e = (lk, ok) \<Longrightarrow>
     pc = (if ok then Held else Ready) \<Longrightarrow>
     lock_step l s (move s i (put_state (ls_kv s) a) lk pc)"
| release: "ls_pc s i = Held \<Longrightarrow> a = lock_args (ls_lk s i) ''0'' \<Longrightarrow>
     clerk_err (put_err (ls_kv s) a) e \<Longrightarrow>
     lock_step l s (move s i (put_state (ls_kv s) a) (Release_put (ls_lk s i) e) Ready)"
| other_key: "pa_Key a \<noteq> l \<Longrightarrow> lock_step l s (s\<lparr>ls_kv := put_state (ls_kv s) a\<rparr>)"

text \<open>The states reached from the start in a number of steps, and from a state in any number.\<close>

inductive lock_reach :: "string \<Rightarrow> nat \<Rightarrow> lock_sys \<Rightarrow> bool" for l :: string where
  reach_init: "lock_reach l 0 (lock_init l)"
| reach_step: "lock_reach l n s \<Longrightarrow> lock_step l s t \<Longrightarrow> lock_reach l (Suc n) t"

inductive lock_steps :: "string \<Rightarrow> lock_sys \<Rightarrow> lock_sys \<Rightarrow> bool" for l :: string where
  steps_refl: "lock_steps l s s"
| steps_step: "lock_steps l s t \<Longrightarrow> lock_step l t u \<Longrightarrow> lock_steps l s u"

text \<open>
  The invariant, with the number of steps taken so far bounding the version counter. A client
  between its \<open>Get\<close> and its \<open>Put\<close> has read a version not above the current one, and if it is the
  current one the lock is free; the holder's version is the current one and the value is \<open>"1"\<close>.
\<close>

definition lock_inv :: "string \<Rightarrow> nat \<Rightarrow> lock_sys \<Rightarrow> bool" where
  "lock_inv l n s \<longleftrightarrow>
     (\<forall>i. lk_lockKey (ls_lk s i) = l) \<and>
     unat (kvs.ver (ls_kv s) l) \<le> n \<and>
     (kv_lookup (ls_kv s) l \<noteq> None \<longrightarrow> 0 < unat (kvs.ver (ls_kv s) l)) \<and>
     (\<forall>i. ls_pc s i \<in> {Ready, AcqPut, Held} \<longrightarrow> kv_lookup (ls_kv s) l \<noteq> None) \<and>
     (\<forall>i. ls_pc s i \<in> {MakeGet, MakePut} \<longrightarrow> lk_version (ls_lk s i) = 0) \<and>
     (\<forall>i. ls_pc s i = AcqPut \<longrightarrow>
        unat (lk_version (ls_lk s i)) \<le> unat (kvs.ver (ls_kv s) l) \<and>
        (lk_version (ls_lk s i) = kvs.ver (ls_kv s) l \<longrightarrow>
           fst (the (kv_lookup (ls_kv s) l)) \<noteq> ''1'')) \<and>
     (\<forall>i. ls_pc s i = Held \<longrightarrow> kv_lookup (ls_kv s) l = Some (''1'', lk_version (ls_lk s i))) \<and>
     (\<forall>i j. ls_pc s i = Held \<longrightarrow> ls_pc s j = Held \<longrightarrow> i = j)"

lemma lock_invD:
  assumes "lock_inv l n s"
  shows "lk_lockKey (ls_lk s i) = l"
    and "unat (kvs.ver (ls_kv s) l) \<le> n"
    and "kv_lookup (ls_kv s) l \<noteq> None \<Longrightarrow> 0 < unat (kvs.ver (ls_kv s) l)"
    and "ls_pc s i \<in> {Ready, AcqPut, Held} \<Longrightarrow> kv_lookup (ls_kv s) l \<noteq> None"
    and "ls_pc s i \<in> {MakeGet, MakePut} \<Longrightarrow> lk_version (ls_lk s i) = 0"
    and "ls_pc s i = AcqPut \<Longrightarrow> unat (lk_version (ls_lk s i)) \<le> unat (kvs.ver (ls_kv s) l)"
    and "ls_pc s i = AcqPut \<Longrightarrow> lk_version (ls_lk s i) = kvs.ver (ls_kv s) l \<Longrightarrow>
           fst (the (kv_lookup (ls_kv s) l)) \<noteq> ''1''"
    and "ls_pc s i = Held \<Longrightarrow> kv_lookup (ls_kv s) l = Some (''1'', lk_version (ls_lk s i))"
    and "ls_pc s i = Held \<Longrightarrow> ls_pc s j = Held \<Longrightarrow> i = j"
  using assms unfolding lock_inv_def by blast+

lemma lock_inv_init: "lock_inv l 0 (lock_init l)"
  by (simp add: lock_inv_def lock_init_def new_Lock_def MakeKVServer_def kv_lookup_def kvs.ver_def)

lemma put_lock_key:
  assumes "pa_Key a = l"
  obtains (stale) "kvs.ver kv l \<noteq> pa_Version a" "put_state kv a = kv" "put_err kv a \<noteq> OK"
  | (applied) "kvs.ver kv l = pa_Version a" "put_err kv a = OK"
      "kv_lookup (put_state kv a) l = Some (pa_Value a, pa_Version a + 1)"
      "kvs.ver (put_state kv a) l = pa_Version a + 1"
proof (cases "kvs.ver kv l = pa_Version a")
  case True
  then have "kv_lookup (put_state kv a) l = Some (pa_Value a, pa_Version a + 1)"
    using kvs.put_ok_lookup [of kv a] assms by simp
  with True show ?thesis using applied assms kvs.put_OK_iff [of kv a] by (simp add: kvs.ver_def)
next
  case False
  then show ?thesis using stale assms kvs.put_OK_iff [of kv a] kvs.put_fail [of kv a] by simp
qed

text \<open>A client that moves without an effect on the lock's key.\<close>

lemma lock_inv_quiet:
  assumes inv: "lock_inv l n s"
    and lk: "lk_lockKey lk = l" and pc: "pc \<noteq> Held"
    and ready: "pc = Ready \<or> pc = AcqPut \<Longrightarrow> kv_lookup (ls_kv s) l \<noteq> None"
    and make: "pc = MakeGet \<or> pc = MakePut \<Longrightarrow> lk_version lk = 0"
    and acq: "pc = AcqPut \<Longrightarrow> kv_lookup (ls_kv s) l = Some (x, lk_version lk) \<and> x \<noteq> ''1''"
  shows "lock_inv l (Suc n) (move s i (ls_kv s) lk pc)"
proof -
  have "pc = AcqPut \<Longrightarrow> kvs.ver (ls_kv s) l = lk_version lk" using acq by (simp add: kvs.ver_def)
  with assms show ?thesis
    unfolding lock_inv_def move_def by (cases pc) (simp_all add: le_SucI)
qed

text \<open>A client whose write to the lock's key takes effect.\<close>

lemma lock_inv_write:
  assumes inv: "lock_inv l n s" and few: "Suc n < 2 ^ 64"
    and app: "kv_lookup kv' l = Some (x, kvs.ver (ls_kv s) l + 1)"
    and lk: "lk_lockKey lk = l" and pc: "pc = Ready \<or> pc = Held"
    and held: "pc = Held \<Longrightarrow> x = ''1'' \<and> lk_version lk = kvs.ver (ls_kv s) l + 1"
    and alone: "\<And>j. j \<noteq> i \<Longrightarrow> ls_pc s j \<noteq> Held"
  shows "lock_inv l (Suc n) (move s i kv' lk pc)"
proof -
  let ?v = "kvs.ver (ls_kv s) l"
  have ver': "kvs.ver kv' l = ?v + 1" using app by (simp add: kvs.ver_def)
  have un: "unat (?v + 1) = Suc (unat ?v)"
    using lock_invD(2) [OF inv] few by (intro unat_plus_1) simp
  have older: "unat (lk_version (ls_lk s j)) \<le> unat ?v \<and> lk_version (ls_lk s j) \<noteq> ?v + 1"
    if "ls_pc s j = AcqPut" for j
    using lock_invD(6) [OF inv that] un by auto
  show ?thesis
    unfolding lock_inv_def move_def
    using lk pc held alone app ver' un older lock_invD(1,2,5) [OF inv]
    by (auto simp: le_SucI)
qed

lemma put_other_key:
  assumes "pa_Key a \<noteq> l"
  shows "kv_lookup (put_state kv a) l = kv_lookup kv l" and "kvs.ver (put_state kv a) l = kvs.ver kv l"
proof -
  show "kv_lookup (put_state kv a) l = kv_lookup kv l"
    using kvs.put_ok_lookup [of kv a] kvs.put_fail [of kv a] assms
    by (cases "kvs.ver kv (pa_Key a) = pa_Version a") auto
  then show "kvs.ver (put_state kv a) l = kvs.ver kv l" by (simp add: kvs.ver_def)
qed

lemma clerk_err_ok: "clerk_err r e \<Longrightarrow> e = OK \<Longrightarrow> r = OK"
  by (auto simp: clerk_err_def)

lemma lock_step_inv:
  assumes "lock_step l s t" and inv: "lock_inv l n s" and few: "Suc n < 2 ^ 64"
  shows "lock_inv l (Suc n) t"
  using assms(1)
proof cases
  case (make_get i r pc)
  with inv show ?thesis
    by (auto simp: lock_invD clerk_get_def MakeLock_got_def intro!: lock_inv_quiet split: option.splits)
next
  case (make_put i a e)
  have key: "pa_Key a = l" and v0: "pa_Version a = 0"
    using make_put lock_invD(1,5) [OF inv, of i] by auto
  show ?thesis
  proof (cases rule: put_lock_key [OF key, where kv = "ls_kv s", case_names stale applied])
    case stale
    then have "kv_lookup (ls_kv s) l \<noteq> None"
      using v0 by (cases "kv_lookup (ls_kv s) l") (auto simp: kvs.ver_def)
    then show ?thesis
      using make_put stale lock_invD(1) [OF inv]
      by (auto simp: MakeLock_put_def intro!: lock_inv_quiet [OF inv])
  next
    case applied
    then have "kv_lookup (ls_kv s) l = None" using lock_invD(3) [OF inv] v0 by fastforce
    then have "ls_pc s j \<noteq> Held" for j using lock_invD(4) [OF inv, of j] by auto
    then show ?thesis
      using make_put applied v0 lock_invD(1) [OF inv]
      by (auto simp: MakeLock_put_def intro!: lock_inv_write [OF inv few])
  qed
next
  case (acquire_busy i)
  with inv show ?thesis by (auto simp: lock_inv_def)
next
  case (acquire_get i lk)
  then obtain x v where "kv_lookup (ls_kv s) l = Some (x, v)" "x \<noteq> ''1''" "lk = (ls_lk s i)\<lparr>lk_version := v\<rparr>"
    using lock_invD(1) [OF inv]
    by (auto simp: clerk_get_def tryAcquire_got_def split: option.splits if_splits)
  with acquire_get inv show ?thesis
    by (auto simp: lock_invD intro!: lock_inv_quiet)
next
  case (acquire_put i a e lk ok pc)
  have key: "pa_Key a = l" using acquire_put lock_invD(1) [OF inv] by simp
  have lk: "lk_lockKey lk = l"
    using acquire_put lock_invD(1) [OF inv, of i] by (auto simp: tryAcquire_put_def split: if_splits)
  show ?thesis
  proof (cases rule: put_lock_key [OF key, where kv = "ls_kv s", case_names stale applied])
    case stale
    then have "pc = Ready"
      using acquire_put clerk_err_ok by (auto simp: tryAcquire_put_def split: if_splits)
    with stale acquire_put have t: "t = move s i (ls_kv s) lk Ready" by simp
    show ?thesis
      unfolding t using lock_invD(4) [OF inv, of i] acquire_put
      by (intro lock_inv_quiet [OF inv lk]) simp_all
  next
    case applied
    then have "fst (the (kv_lookup (ls_kv s) l)) \<noteq> ''1''"
      using lock_invD(7) [OF inv, of i] acquire_put by simp
    then have "ls_pc s j \<noteq> Held" for j using lock_invD(8) [OF inv, of j] by auto
    note alone = this
    have t: "t = move s i (put_state (ls_kv s) a) lk pc"
      and "pc = Held \<Longrightarrow> lk_version lk = kvs.ver (ls_kv s) l + 1"
      using acquire_put applied by (auto simp: tryAcquire_put_def split: if_splits)
    with applied lk acquire_put alone show ?thesis
      unfolding t by (intro lock_inv_write [OF inv few _ lk]) simp_all
  qed
next
  case (release i a e)
  have held: "kv_lookup (ls_kv s) l = Some (''1'', lk_version (ls_lk s i))"
    using lock_invD(8) [OF inv] release by simp
  have key: "pa_Key a = l" using release lock_invD(1) [OF inv] by simp
  have "ls_pc s j \<noteq> Held" if "j \<noteq> i" for j using lock_invD(9) [OF inv] release that by blast
  moreover have "kvs.ver (ls_kv s) l = pa_Version a" using held release by (simp add: kvs.ver_def)
  ultimately show ?thesis
    using release key lock_invD(1) [OF inv]
    by (cases rule: put_lock_key [OF key, where kv = "ls_kv s"])
      (auto simp: Release_put_def intro!: lock_inv_write [OF inv few])
next
  case (other_key a)
  with inv show ?thesis by (simp add: lock_inv_def put_other_key le_SucI)
qed

lemma lock_reach_inv: "lock_reach l n s \<Longrightarrow> n < 2 ^ 64 \<Longrightarrow> lock_inv l n s"
proof (induction rule: lock_reach.induct)
  case reach_init
  show ?case by (rule lock_inv_init)
next
  case (reach_step n s t)
  then show ?case using lock_step_inv by simp
qed

section \<open>Mutual exclusion\<close>

text \<open>
  A concrete run: client 0 makes the lock \<open>"l"\<close>, reads it, and claims it. The claim's \<open>Put\<close> is applied;
  the clerk reports \<open>OK\<close>, or \<open>ErrMaybe\<close> if the first reply was lost.
\<close>

abbreviation kv_free :: KVServer where
  "kv_free \<equiv> \<lparr>kv_m = [''l'' \<mapsto> \<lparr>kv_val = ''0'', kv_ver = 1\<rparr>]\<rparr>"

abbreviation kv_taken :: KVServer where
  "kv_taken \<equiv> \<lparr>kv_m = [''l'' \<mapsto> \<lparr>kv_val = ''1'', kv_ver = 2\<rparr>]\<rparr>"

abbreviation kv_freed :: KVServer where
  "kv_freed \<equiv> \<lparr>kv_m = [''l'' \<mapsto> \<lparr>kv_val = ''0'', kv_ver = 3\<rparr>]\<rparr>"

abbreviation run_reading :: lock_sys where
  "run_reading \<equiv>
     move (move (move (lock_init ''l'') 0 MakeKVServer (new_Lock ''l'') MakePut)
       0 kv_free \<lparr>lk_lockKey = ''l'', lk_version = 1\<rparr> Ready)
       0 kv_free \<lparr>lk_lockKey = ''l'', lk_version = 1\<rparr> AcqPut"

abbreviation run_held :: lock_sys where
  "run_held \<equiv> move run_reading 0 kv_taken \<lparr>lk_lockKey = ''l'', lk_version = 2\<rparr> Held"

abbreviation run_lost :: lock_sys where
  "run_lost \<equiv> move run_reading 0 kv_taken \<lparr>lk_lockKey = ''l'', lk_version = 1\<rparr> Ready"

lemma run_reading_reach: "lock_reach ''l'' 3 run_reading"
proof -
  let ?s0 = "lock_init ''l''"
  let ?s1 = "move ?s0 0 MakeKVServer (new_Lock ''l'') MakePut"
  let ?s2 = "move ?s1 0 kv_free \<lparr>lk_lockKey = ''l'', lk_version = 1\<rparr> Ready"
  have "lock_step ''l'' ?s0 ?s1"
    using lock_step.make_get [of ?s0 0 _ MakePut "''l''"]
    by (simp add: lock_init_def new_Lock_def clerk_get_def MakeLock_got_def kv_lookup_def MakeKVServer_def)
  moreover have "lock_step ''l'' ?s1 ?s2"
    using lock_step.make_put [of ?s1 0 _ OK "''l''"]
    by (simp add: move_def new_Lock_def clerk_err_def MakeLock_put_def kv_defs)
  moreover have "lock_step ''l'' ?s2 run_reading"
    using lock_step.acquire_get [of ?s2 0 "\<lparr>lk_lockKey = ''l'', lk_version = 1\<rparr>" "''l''"]
    by (simp add: move_def clerk_get_def kv_lookup_def tryAcquire_got_def)
  ultimately show ?thesis
    using reach_step [OF reach_step [OF reach_step [OF reach_init]]] by (simp add: numeral_3_eq_3)
qed

lemma run_claim_steps:
  "lock_step ''l'' run_reading run_held" "lock_step ''l'' run_reading run_lost"
  using lock_step.acquire_put [of run_reading 0 _ OK _ True Held "''l''"]
    lock_step.acquire_put [of run_reading 0 _ ErrMaybe _ False Ready "''l''"]
  by (simp_all add: move_def clerk_err_def tryAcquire_put_def kv_defs)

lemma run_claim_reach: "lock_reach ''l'' 4 run_held" "lock_reach ''l'' 4 run_lost"
  using reach_step [OF run_reading_reach run_claim_steps(1)]
    reach_step [OF run_reading_reach run_claim_steps(2)] by simp_all

text \<open>
  C6: mutual exclusion. However many clients make, acquire and release a lock on the same key, and
  however unreliable the network under their clerks, at most one of them holds it (for runs of fewer
  than \<open>2 ^ 64\<close> steps, so that the version counter does not wrap).
\<close>

theorem lock_mutual_exclusion:
  assumes "lock_reach l n s" and "n < 2 ^ 64" and "ls_pc s i = Held" and "ls_pc s j = Held"
  shows "i = j"
  using lock_reach_inv [OF assms(1,2)] assms(3,4) by (rule lock_invD(9))

theorem lock_mutual_exclusion_witness:
  "lock_reach ''l'' 4 run_held \<and> ls_pc run_held 0 = Held \<and> ls_pc run_held 1 \<noteq> Held"
proof -
  have held: "ls_pc run_held 0 = Held" by (simp add: move_def)
  have "ls_pc run_held 1 \<noteq> Held"
  proof
    assume "ls_pc run_held 1 = Held"
    from lock_mutual_exclusion [OF run_claim_reach(1) _ held this] show False by simp
  qed
  with run_claim_reach(1) held show ?thesis by blast
qed

text \<open>
  Releasing works. When the holder's \<open>Put\<close> of \<open>"0"\<close> is executed it is applied, whatever the clerk
  reports afterwards: the key holds \<open>"0"\<close> at a new version, nobody holds the lock, and a client that
  reads the lock then goes on to claim it.
\<close>

lemma release_frees_lock:
  assumes "lock_reach l n s" and "Suc n < 2 ^ 64" and "ls_pc s i = Held"
    and "lock_step l s t" and "ls_pc t i = Ready"
  shows "kv_lookup (ls_kv t) l = Some (''0'', lk_version (ls_lk s i) + 1) \<and>
    (\<forall>j. ls_pc t j \<noteq> Held) \<and>
    (\<forall>lk. lk_lockKey lk = l \<longrightarrow> tryAcquire_got lk (clerk_get (ls_kv t) l) \<noteq> None)"
proof -
  have inv: "lock_inv l n s" using lock_reach_inv assms(1,2) by simp
  have held: "kv_lookup (ls_kv s) l = Some (''1'', lk_version (ls_lk s i))"
    by (rule lock_invD(8) [OF inv assms(3)])
  have others: "ls_pc s j \<noteq> Held" if "j \<noteq> i" for j using lock_invD(9) [OF inv assms(3)] that by blast
  obtain kv lk where t: "t = move s i kv lk Ready" and kv: "kv = put_state (ls_kv s) (lock_args (ls_lk s i) ''0'')"
    using assms(4)
  proof cases
    case (release j a e)
    with others have "j = i" by blast
    with release that show ?thesis by simp
  qed (use assms(3,5) in \<open>auto simp: move_def split: if_splits\<close>)
  have "kv_lookup kv l = Some (''0'', lk_version (ls_lk s i) + 1)"
    using kvs.put_match [of "ls_kv s" "lock_args (ls_lk s i) ''0''" "''1''"] held kv lock_invD(1) [OF inv, of i]
    by simp
  then show ?thesis
    using t others by (auto simp: move_def clerk_get_def tryAcquire_got_def)
qed

lemma release_frees_lock_example:
  "kv_lookup (ls_kv (move run_held 0 kv_freed \<lparr>lk_lockKey = ''l'', lk_version = 3\<rparr> Ready)) ''l'' = Some (''0'', 3)"
proof -
  let ?t = "move run_held 0 kv_freed \<lparr>lk_lockKey = ''l'', lk_version = 3\<rparr> Ready"
  have "lock_step ''l'' run_held ?t"
    using lock_step.release [of run_held 0 _ OK "''l''"]
    by (simp add: move_def clerk_err_def Release_put_def kv_defs)
  then have "kv_lookup (ls_kv ?t) ''l'' = Some (''0'', lk_version (ls_lk run_held 0) + 1)"
    using release_frees_lock [OF run_claim_reach(1), of 0 ?t] by (simp add: move_def)
  then show ?thesis by (simp add: move_def)
qed

section \<open>A lost reply to the claim\<close>

text \<open>
  The state in which the lock is taken and nobody holds it: the key is at \<open>"1"\<close>, and no client is
  about to write with the key's version.
\<close>

definition lock_dead :: "string \<Rightarrow> Tversion \<Rightarrow> lock_sys \<Rightarrow> bool" where
  "lock_dead l v s \<longleftrightarrow>
     kv_lookup (ls_kv s) l = Some (''1'', v) \<and> v \<noteq> 0 \<and>
     (\<forall>i. lk_lockKey (ls_lk s i) = l \<and> ls_pc s i \<noteq> Held \<and>
        (ls_pc s i \<in> {MakeGet, MakePut} \<longrightarrow> lk_version (ls_lk s i) = 0) \<and>
        (ls_pc s i = AcqPut \<longrightarrow> lk_version (ls_lk s i) \<noteq> v))"

lemma lock_dead_step:
  assumes "lock_step l s t" and dead: "lock_dead l v s"
  shows "lock_dead l v t"
proof -
  have ver: "kvs.ver (ls_kv s) l = v" using dead by (simp add: lock_dead_def kvs.ver_def)
  have same: "put_state (ls_kv s) a = ls_kv s" if "pa_Key a = l" "pa_Version a \<noteq> v" for a
    using kvs.put_fail [of "ls_kv s" a] that ver by simp
  from assms(1) show ?thesis
  proof cases
    case (make_put i a e)
    with dead have "put_state (ls_kv s) a = ls_kv s" by (intro same) (auto simp: lock_dead_def)
    with make_put dead show ?thesis by (auto simp: lock_dead_def move_def MakeLock_put_def)
  next
    case (acquire_get i lk)
    with dead show ?thesis by (auto simp: lock_dead_def tryAcquire_got_def clerk_get_def)
  next
    case (acquire_put i a e lk ok pc)
    with dead have same: "put_state (ls_kv s) a = ls_kv s" and "put_err (ls_kv s) a \<noteq> OK"
      using same kvs.put_OK_iff [of "ls_kv s" a] ver by (auto simp: lock_dead_def)
    then have "e \<noteq> OK" using acquire_put clerk_err_ok by blast
    with acquire_put same dead show ?thesis
      by (auto simp: lock_dead_def move_def tryAcquire_put_def split: if_splits)
  next
    case (other_key a)
    with dead show ?thesis by (simp add: lock_dead_def put_other_key)
  qed (use dead in \<open>auto simp: lock_dead_def move_def\<close>)
qed

lemma lock_dead_steps: "lock_steps l s t \<Longrightarrow> lock_dead l v s \<Longrightarrow> lock_dead l v t"
  by (induction rule: lock_steps.induct) (auto intro: lock_dead_step)

lemma lost_claim_dead:
  assumes "lock_reach l n s" and few: "Suc n < 2 ^ 64" and pc: "ls_pc s i = AcqPut"
    and ok: "put_err (ls_kv s) (lock_args (ls_lk s i) ''1'') = OK"
    and t: "t = move s i (put_state (ls_kv s) (lock_args (ls_lk s i) ''1'')) (ls_lk s i) Ready"
  shows "lock_step l s t \<and> lock_dead l (lk_version (ls_lk s i) + 1) t"
proof -
  have inv: "lock_inv l n s" using lock_reach_inv assms(1,2) by simp
  have st: "lock_step l s t"
    unfolding t using lock_step.acquire_put [of s i _ ErrMaybe _ False Ready l] pc ok
    by (simp add: clerk_err_def tryAcquire_put_def)
  have invt: "lock_inv l (Suc n) t" by (rule lock_step_inv [OF st inv few])
  have key: "lk_lockKey (ls_lk s i) = l" by (rule lock_invD(1) [OF inv])
  let ?v = "lk_version (ls_lk s i)"
  have cur: "kvs.ver (ls_kv s) l = ?v" using kvs.put_OK_iff [of "ls_kv s" "lock_args (ls_lk s i) ''1''"] ok key by simp
  then have val: "kv_lookup (ls_kv t) l = Some (''1'', ?v + 1)"
    using kvs.put_ok_lookup [of "ls_kv s" "lock_args (ls_lk s i) ''1''"] key by (simp add: t move_def)
  then have vert: "kvs.ver (ls_kv t) l = ?v + 1" by (simp add: kvs.ver_def)
  have "ls_pc t j \<noteq> Held" for j
    using lock_invD(7) [OF inv pc] cur lock_invD(8) [OF inv, of j] pc by (auto simp: t move_def)
  moreover have "?v + 1 \<noteq> 0" using lock_invD(3) [OF invt] val vert by auto
  ultimately show ?thesis
    using st val vert lock_invD(1,5) [OF invt] lock_invD(7) [OF invt] by (auto simp: lock_dead_def)
qed

text \<open>
  C27: a lost reply to the claim leaves the lock taken for good. When the \<open>Put\<close> of \<open>"1"\<close> in
  \<open>tryAcquire\<close> is executed and its clerk reports \<open>ErrMaybe\<close>, the \<open>default\<close> branch returns false and the
  client forgets that it owns the lock: from then on, whatever the clients do, nobody holds it again.
\<close>

theorem lost_claim_is_forever:
  assumes "lock_reach l n s" and "Suc n < 2 ^ 64" and "ls_pc s i = AcqPut"
    and "put_err (ls_kv s) (lock_args (ls_lk s i) ''1'') = OK"
    and "t = move s i (put_state (ls_kv s) (lock_args (ls_lk s i) ''1'')) (ls_lk s i) Ready"
  shows "lock_step l s t \<and> (\<forall>u j. lock_steps l t u \<longrightarrow> ls_pc u j \<noteq> Held)"
  using lost_claim_dead [OF assms] lock_dead_steps unfolding lock_dead_def by blast

theorem lost_claim_is_forever_witness:
  "lock_step ''l'' run_reading run_lost \<and> \<not> (\<exists>u j. lock_steps ''l'' run_lost u \<and> ls_pc u j = Held)"
proof -
  have "ls_pc run_reading 0 = AcqPut"
    and "put_err (ls_kv run_reading) (lock_args (ls_lk run_reading 0) ''1'') = OK"
    and "run_lost = move run_reading 0
      (put_state (ls_kv run_reading) (lock_args (ls_lk run_reading 0) ''1'')) (ls_lk run_reading 0) Ready"
    by (simp_all add: move_def kv_defs)
  then show ?thesis using lost_claim_is_forever [OF run_reading_reach] by simp
qed

end
