(* ===== verification/LeaderLock.thy ===== *)
theory LeaderLock
  imports KVLock
begin

text \<open>
  The leadership lock of the shard controller, \<^verbatim>\<open>src/shardkv1/shardctrler/lock/lock.go\<close>. A client that leads has
  written its own identifier under the lock's key, so that after \<open>ErrMaybe\<close> it can read back whether its \<open>Put\<close> was
  executed. What happens after each call of the clerk is one definition; they are composed into the methods, over the
  clerk's scripts, and into the steps of any number of clients on one server.
\<close>

section \<open>The lock\<close>

record LeaderLock =
  ll_l :: string
  ll_id :: string
  ll_ver :: Tversion

text \<open>\<open>MakeLock\<close> leaves every field but the clerk at its zero value.\<close>

definition MakeLeaderLock :: "string \<Rightarrow> LeaderLock" where
  "MakeLeaderLock l = \<lparr>ll_l = '''', ll_id = '''', ll_ver = 0\<rparr>"

text \<open>After the first \<open>Get\<close>: the version to put at, if the lock is free.\<close>

definition AcquireLeadership_got :: "string \<times> Tversion \<times> Err \<Rightarrow> Tversion option" where
  "AcquireLeadership_got = (\<lambda>(val, ver, err). if err = OK \<and> val = '''' then Some ver else None)"

datatype acquired = Leads LeaderLock | CheckPut | TryAgain

definition AcquireLeadership_put :: "LeaderLock \<Rightarrow> Tversion \<Rightarrow> Err \<Rightarrow> acquired" where
  "AcquireLeadership_put lk ver err =
     (if err = OK then Leads (lk\<lparr>ll_ver := ver + 1\<rparr>) else if err = ErrMaybe then CheckPut else TryAgain)"

text \<open>After the second \<open>Get\<close>, which checks whether the \<open>Put\<close> succeeded.\<close>

definition AcquireLeadership_check :: "LeaderLock \<Rightarrow> string \<times> Tversion \<times> Err \<Rightarrow> acquired" where
  "AcquireLeadership_check lk =
     (\<lambda>(val, ver, err). if err = OK \<and> val = ll_id lk then Leads (lk\<lparr>ll_ver := ver\<rparr>) else TryAgain)"

text \<open>\<open>ReleaseLeadership\<close> puts at the version it read, also after an error, and then answers.\<close>

definition ReleaseLeadership_got :: "string \<times> Tversion \<times> Err \<Rightarrow> Tversion" where
  "ReleaseLeadership_got = (\<lambda>(_, ver, err). ver)"

definition ReleaseLeadership_put :: "Err \<Rightarrow> Err" where
  "ReleaseLeadership_put err = (if err = OK \<or> err = ErrMaybe then OK else err)"

abbreviation leader_args :: "LeaderLock \<Rightarrow> string \<Rightarrow> Tversion \<Rightarrow> PutArgs" where
  "leader_args lk val ver \<equiv> \<lparr>pa_Key = ll_l lk, pa_Value = val, pa_Version = ver\<rparr>"

section \<open>One client\<close>

text \<open>One round of the loop of \<open>AcquireLeadership\<close>; \<open>None\<close> says that the script ended in it.\<close>

definition AcquireLeadership_round :: "LeaderLock \<Rightarrow> KVServer \<Rightarrow> attempt list \<Rightarrow> (acquired \<times> KVServer \<times> attempt list) option" where
  "AcquireLeadership_round lk kv script =
     (case Clerk_Get (ll_l lk) kv script of
        None \<Rightarrow> None
      | Some (r, kv, script) \<Rightarrow>
          (case AcquireLeadership_got r of
             None \<Rightarrow> Some (TryAgain, kv, script)
           | Some ver \<Rightarrow>
               (case Clerk_Put (ll_l lk) (ll_id lk) ver kv script of
                  None \<Rightarrow> None
                | Some (err, kv, script) \<Rightarrow>
                    (if AcquireLeadership_put lk ver err = CheckPut
                     then (case Clerk_Get (ll_l lk) kv script of
                             None \<Rightarrow> None
                           | Some (r, kv, script) \<Rightarrow> Some (AcquireLeadership_check lk r, kv, script))
                     else Some (AcquireLeadership_put lk ver err, kv, script)))))"

lemma AcquireLeadership_round_shorter:
  assumes "AcquireLeadership_round lk kv script = Some (a, kv', rest)"
  shows "length rest < length script"
  using assms
  by (auto simp: AcquireLeadership_round_def split: option.splits if_splits prod.splits
      dest!: Clerk_Get_shorter Clerk_Put_shorter)

function AcquireLeadership :: "LeaderLock \<Rightarrow> KVServer \<Rightarrow> attempt list \<Rightarrow> (LeaderLock \<times> KVServer \<times> attempt list) option" where
  "AcquireLeadership lk kv script =
     (case AcquireLeadership_round lk kv script of
        None \<Rightarrow> None
      | Some (a, kv', rest) \<Rightarrow> (case a of Leads lk' \<Rightarrow> Some (lk', kv', rest) | _ \<Rightarrow> AcquireLeadership lk kv' rest))"
  by pat_completeness auto
termination
  by (relation "measure (\<lambda>(lk, kv, script). length script)") (auto dest: AcquireLeadership_round_shorter)

declare AcquireLeadership.simps [simp del]

definition ReleaseLeadership :: "LeaderLock \<Rightarrow> KVServer \<Rightarrow> attempt list \<Rightarrow> (Err \<times> KVServer \<times> attempt list) option" where
  "ReleaseLeadership lk kv script =
     (case Clerk_Get (ll_l lk) kv script of
        None \<Rightarrow> None
      | Some (r, kv, script) \<Rightarrow>
          (case Clerk_Put (ll_l lk) '''' (ReleaseLeadership_got r) kv script of
             None \<Rightarrow> None
           | Some (err, kv, script) \<Rightarrow> Some (ReleaseLeadership_put err, kv, script)))"

section \<open>Any number of clients\<close>

text \<open>Where a client is: outside, before the \<open>Put\<close> or the second \<open>Get\<close> of \<open>AcquireLeadership\<close>, leading, or before the
  \<open>Put\<close> of \<open>ReleaseLeadership\<close>. Only leaders release.\<close>

datatype leader_pc = Outside | BeforePut Tversion | BeforeCheck | Leading | BeforeRelease Tversion

record leader_sys =
  le_kv :: KVServer
  le_lk :: "nat \<Rightarrow> LeaderLock"
  le_pc :: "nat \<Rightarrow> leader_pc"

definition leader_move :: "leader_sys \<Rightarrow> nat \<Rightarrow> KVServer \<Rightarrow> LeaderLock \<Rightarrow> leader_pc \<Rightarrow> leader_sys" where
  "leader_move s i kv lk pc = \<lparr>le_kv = kv, le_lk = (le_lk s)(i := lk), le_pc = (le_pc s)(i := pc)\<rparr>"

definition leader_after :: "leader_sys \<Rightarrow> nat \<Rightarrow> KVServer \<Rightarrow> acquired \<Rightarrow> leader_sys" where
  "leader_after s i kv a =
     (case a of
        Leads lk \<Rightarrow> leader_move s i kv lk Leading
      | CheckPut \<Rightarrow> leader_move s i kv (le_lk s i) BeforeCheck
      | TryAgain \<Rightarrow> leader_move s i kv (le_lk s i) Outside)"

inductive leader_step :: "string \<Rightarrow> leader_sys \<Rightarrow> leader_sys \<Rightarrow> bool" for l :: string where
  acq_get: "le_pc s i = Outside \<Longrightarrow> AcquireLeadership_got (clerk_get (le_kv s) (ll_l (le_lk s i))) = Some ver \<Longrightarrow>
     leader_step l s (leader_move s i (le_kv s) (le_lk s i) (BeforePut ver))"
| acq_put: "le_pc s i = BeforePut ver \<Longrightarrow> a = leader_args (le_lk s i) (ll_id (le_lk s i)) ver \<Longrightarrow>
     clerk_err (put_err (le_kv s) a) e \<Longrightarrow>
     leader_step l s (leader_after s i (put_state (le_kv s) a) (AcquireLeadership_put (le_lk s i) ver e))"
| acq_check: "le_pc s i = BeforeCheck \<Longrightarrow>
     leader_step l s (leader_after s i (le_kv s) (AcquireLeadership_check (le_lk s i) (clerk_get (le_kv s) (ll_l (le_lk s i)))))"
| rel_get: "le_pc s i = Leading \<Longrightarrow> ver = ReleaseLeadership_got (clerk_get (le_kv s) (ll_l (le_lk s i))) \<Longrightarrow>
     leader_step l s (leader_move s i (le_kv s) (le_lk s i) (BeforeRelease ver))"
| rel_put: "le_pc s i = BeforeRelease ver \<Longrightarrow> a = leader_args (le_lk s i) '''' ver \<Longrightarrow>
     leader_step l s (leader_move s i (put_state (le_kv s) a) (le_lk s i) Outside)"
| other: "pa_Key a \<noteq> l \<Longrightarrow> leader_step l s (s\<lparr>le_kv := put_state (le_kv s) a\<rparr>)"

text \<open>The runs start with the key present and empty; \<open>AcquireLeadership\<close> does not create it.\<close>

inductive leader_reach :: "string \<Rightarrow> (nat \<Rightarrow> LeaderLock) \<Rightarrow> nat \<Rightarrow> leader_sys \<Rightarrow> bool" for l lks where
  leader_start: "kv_lookup kv l = Some ('''', 1) \<Longrightarrow>
     leader_reach l lks 1 \<lparr>le_kv = kv, le_lk = lks, le_pc = (\<lambda>_. Outside)\<rparr>"
| leader_next: "leader_reach l lks n s \<Longrightarrow> leader_step l s t \<Longrightarrow> leader_reach l lks (Suc n) t"

section \<open>At most one leader\<close>

text \<open>What holds of a client, given the value and the version of the lock's key.\<close>

fun leader_pc_ok :: "string \<Rightarrow> Tversion \<Rightarrow> LeaderLock \<Rightarrow> leader_pc \<Rightarrow> bool" where
  "leader_pc_ok x v lk (BeforePut ver) \<longleftrightarrow> unat ver \<le> unat v \<and> (ver = v \<longrightarrow> x = '''')"
| "leader_pc_ok x v lk Leading \<longleftrightarrow> x = ll_id lk \<and> ll_ver lk = v"
| "leader_pc_ok x v lk (BeforeRelease ver) \<longleftrightarrow> x = ll_id lk \<and> ver = v"
| "leader_pc_ok x v lk pc \<longleftrightarrow> True"

definition leader_inv :: "string \<Rightarrow> (nat \<Rightarrow> LeaderLock) \<Rightarrow> nat \<Rightarrow> leader_sys \<Rightarrow> bool" where
  "leader_inv l lks n s \<longleftrightarrow>
     (\<forall>i. ll_l (le_lk s i) = l \<and> ll_id (le_lk s i) = ll_id (lks i)) \<and>
     (\<exists>x v. kv_lookup (le_kv s) l = Some (x, v) \<and> unat v \<le> n \<and> (\<forall>i. leader_pc_ok x v (le_lk s i) (le_pc s i)))"

lemma leader_inv_quiet:
  assumes "leader_inv l lks n s" and "kv_lookup (le_kv s) l = Some (x, v)" and "kv_lookup kv l = Some (x, v)"
    and "ll_l lk = l" and "ll_id lk = ll_id (lks i)" and "leader_pc_ok x v lk pc"
  shows "leader_inv l lks (Suc n) (leader_move s i kv lk pc)"
  using assms by (auto simp: leader_inv_def leader_move_def le_SucI)

text \<open>A \<open>Put\<close> that is executed at the current version: nobody else leads, and the versions others have read are old.\<close>

lemma leader_inv_written:
  assumes inv: "leader_inv l lks n s" and look: "kv_lookup (le_kv s) l = Some (x, v)" and "kv_lookup kv l = Some (y, v + 1)"
    and "Suc n < 2 ^ 64" and alone: "\<And>j. j \<noteq> i \<Longrightarrow> le_pc s j \<noteq> Leading \<and> (\<forall>ver. le_pc s j \<noteq> BeforeRelease ver)"
    and "ll_l lk = l" and "ll_id lk = ll_id (lks i)" and "leader_pc_ok y (v + 1) lk pc"
  shows "leader_inv l lks (Suc n) (leader_move s i kv lk pc)"
proof -
  have v: "unat v \<le> n"
    using inv look by (auto simp: leader_inv_def)
  then have v1: "unat (v + 1) = unat v + 1"
    using \<open>Suc n < 2 ^ 64\<close> by (simp add: unat_word_ariths)
  have "leader_pc_ok y (v + 1) (le_lk s j) (le_pc s j)" if "j \<noteq> i" for j
  proof -
    have "leader_pc_ok x v (le_lk s j) (le_pc s j)"
      using inv look by (auto simp: leader_inv_def)
    then show ?thesis
      using alone [OF that] v1 by (cases "le_pc s j") auto
  qed
  then show ?thesis
    using assms v v1 by (auto simp: leader_inv_def leader_move_def)
qed

lemma leader_inv_step:
  assumes inv: "leader_inv l lks n s" and step: "leader_step l s t" and "Suc n < 2 ^ 64"
    and inj: "inj (\<lambda>i. ll_id (lks i))" and ne: "\<And>i. ll_id (lks i) \<noteq> ''''"
  shows "leader_inv l lks (Suc n) t"
proof -
  obtain x v where look: "kv_lookup (le_kv s) l = Some (x, v)" and pcs: "\<And>i. leader_pc_ok x v (le_lk s i) (le_pc s i)"
    and lk: "\<And>i. ll_l (le_lk s i) = l" "\<And>i. ll_id (le_lk s i) = ll_id (lks i)"
    using inv by (auto simp: leader_inv_def)
  have get: "clerk_get (le_kv s) l = (x, v, OK)"
    by (simp add: clerk_get_def look)
  have ver: "kvs.ver (le_kv s) l = v"
    by (simp add: kvs.ver_def look)
  note quiet = leader_inv_quiet [OF inv look] and written = leader_inv_written [OF inv look _ assms(3)]
  show ?thesis
    using step
  proof cases
    case (acq_get i ver)
    then show ?thesis
      using look lk pcs [of i] by (auto intro!: quiet simp: get AcquireLeadership_got_def split: if_splits)
  next
    case (acq_put i ver a e)
    have alone: "le_pc s j \<noteq> Leading \<and> (\<forall>ver. le_pc s j \<noteq> BeforeRelease ver)" if "ver = v" for j
      using pcs [of j] pcs [of i] acq_put(2) that lk(2) ne by (cases "le_pc s j") auto
    have "pa_Key a = l"
      using acq_put(3) lk by simp
    then show ?thesis
    proof (cases rule: put_lock_key [of a l "le_kv s"])
      case stale
      then have "e \<noteq> OK"
        using acq_put(4) by (auto simp: clerk_err_def)
      then show ?thesis
        using acq_put(1) stale look lk
        by (auto intro!: quiet simp: leader_after_def AcquireLeadership_put_def)
    next
      case applied
      have "ver = v" "kv_lookup (put_state (le_kv s) a) l = Some (ll_id (lks i), v + 1)"
        using applied ver acq_put(3) lk by auto
      then show ?thesis
        using acq_put(1,3) alone lk
        by (auto intro!: written simp: leader_after_def AcquireLeadership_put_def)
    qed
  next
    case (acq_check i)
    then show ?thesis
      using look lk by (auto intro!: quiet simp: get leader_after_def AcquireLeadership_check_def split: acquired.splits if_splits)
  next
    case (rel_get i ver)
    then show ?thesis
      using look lk pcs [of i] by (auto intro!: quiet simp: get ReleaseLeadership_got_def)
  next
    case (rel_put i ver a)
    have "ver = v" "x = ll_id (lks i)"
      using pcs [of i] rel_put(2) lk by auto
    have alone: "le_pc s j \<noteq> Leading \<and> (\<forall>ver. le_pc s j \<noteq> BeforeRelease ver)" if "j \<noteq> i" for j
      using pcs [of j] \<open>x = _\<close> lk(2) inj that by (cases "le_pc s j") (auto dest: injD)
    have "pa_Key a = l"
      using rel_put(3) lk by simp
    then show ?thesis
    proof (cases rule: put_lock_key [of a l "le_kv s"])
      case applied
      then show ?thesis
        using rel_put(1,3) alone lk \<open>ver = v\<close> by (auto intro!: written)
    qed (use ver rel_put(3) \<open>ver = v\<close> in simp)
  next
    case (other a)
    then have "kv_lookup (put_state (le_kv s) a) l = Some (x, v)"
      using look by (simp add: put_other_key)
    then show ?thesis
      using inv look other(1) by (auto simp: leader_inv_def le_SucI)
  qed
qed

lemma leader_reach_inv:
  assumes "leader_reach l lks n s" and "n < 2 ^ 64" and "\<And>i. ll_l (lks i) = l"
    and "inj (\<lambda>i. ll_id (lks i))" and "\<And>i. ll_id (lks i) \<noteq> ''''"
  shows "leader_inv l lks n s"
  using assms(1,2)
proof induction
  case (leader_start kv)
  then show ?case using assms(3) by (simp add: leader_inv_def)
next
  case (leader_next n s t)
  then show ?case using leader_inv_step assms(4,5) by simp
qed


definition free_key :: "string \<Rightarrow> KVServer" where
  "free_key l = \<lparr>kv_m = [l \<mapsto> \<lparr>kv_val = '''', kv_ver = 1\<rparr>]\<rparr>"

lemma free_key_lookup: "kv_lookup (free_key l) l = Some ('''', 1)"
  by (simp add: free_key_def kv_lookup_def)

definition named_locks :: "nat \<Rightarrow> LeaderLock" where
  "named_locks i = \<lparr>ll_l = ''k'', ll_id = replicate (Suc i) CHR ''a'', ll_ver = 0\<rparr>"

text \<open>A client acquires a free lock by a \<open>Get\<close> and a \<open>Put\<close> with no other step between them.\<close>

lemma leader_acquires:
  assumes "leader_reach l lks n s" and "le_pc s i = Outside" and "ll_l (le_lk s i) = l" and "kv_lookup (le_kv s) l = Some ('''', v)"
  shows "\<exists>t. leader_reach l lks (Suc (Suc n)) t \<and> kv_lookup (le_kv t) l = Some (ll_id (le_lk s i), v + 1) \<and>
    le_pc t = (le_pc s)(i := Leading) \<and> le_lk t = (le_lk s)(i := (le_lk s i)\<lparr>ll_ver := v + 1\<rparr>)"
proof -
  let ?t = "leader_move s i (le_kv s) (le_lk s i) (BeforePut v)"
  let ?a = "leader_args (le_lk ?t i) (ll_id (le_lk ?t i)) v"
  let ?u = "leader_after ?t i (put_state (le_kv ?t) ?a) (AcquireLeadership_put (le_lk ?t i) v OK)"
  have t: "leader_reach l lks (Suc n) ?t"
    by (rule leader_next [OF assms(1)], rule acq_get) (use assms in \<open>simp_all add: clerk_get_def AcquireLeadership_got_def\<close>)
  have key: "pa_Key ?a = l" and kv: "le_kv ?t = le_kv s" and lk: "le_lk ?t i = le_lk s i"
    using assms by (simp_all add: leader_move_def)
  have "kvs.ver (le_kv s) l = pa_Version ?a"
    using assms(4) by (simp add: kvs.ver_def)
  then have err: "put_err (le_kv ?t) ?a = OK" and look: "kv_lookup (put_state (le_kv ?t) ?a) l = Some (ll_id (le_lk s i), v + 1)"
    unfolding kv using put_lock_key [OF key, of "le_kv s"] lk by auto
  have "leader_reach l lks (Suc (Suc n)) ?u"
    by (rule leader_next [OF t], rule acq_put [of _ _ v ?a]) (use err in \<open>simp_all add: leader_move_def clerk_err_def\<close>)
  moreover have "le_kv ?u = put_state (le_kv ?t) ?a" "le_pc ?u = (le_pc s)(i := Leading)"
    "le_lk ?u = (le_lk s)(i := (le_lk s i)\<lparr>ll_ver := v + 1\<rparr>)"
    by (simp_all add: leader_after_def AcquireLeadership_put_def leader_move_def)
  ultimately show ?thesis
    using look by (intro exI [of _ ?u]) simp
qed


text \<open>
  C32: The locks that \<open>MakeLock\<close> makes exclude nobody. They all have the empty key and the empty identifier, whatever
  lock was asked for, so a leader leaves the value that means free; two clients that asked for any two locks both lead after
  two \<open>Get\<close>s and two \<open>Put\<close>s, one after the other.
\<close>

theorem made_locks_share_leadership:
  "\<exists>s. leader_reach '''' (\<lambda>i. MakeLeaderLock (names i)) 5 s \<and> le_pc s 0 = Leading \<and> le_pc s 1 = Leading"
proof -
  let ?lks = "\<lambda>i. MakeLeaderLock (names i)"
  let ?s = "\<lparr>le_kv = free_key '''', le_lk = ?lks, le_pc = (\<lambda>_. Outside)\<rparr>"
  have "leader_reach '''' ?lks 1 ?s"
    by (rule leader_start) (rule free_key_lookup)
  from leader_acquires [OF this, of 0 1]
  obtain t where t: "leader_reach '''' ?lks (Suc (Suc 1)) t" "kv_lookup (le_kv t) '''' = Some ('''', 1 + 1)"
    "le_pc t = (\<lambda>_. Outside)(0 := Leading)" "le_lk t = ?lks(0 := (?lks 0)\<lparr>ll_ver := 1 + 1\<rparr>)"
    using free_key_lookup by (auto simp: MakeLeaderLock_def)
  from leader_acquires [OF t(1), of 1 "1 + 1"]
  obtain u where "leader_reach '''' ?lks (Suc (Suc (Suc (Suc 1)))) u" "le_pc u = (le_pc t)(1 := Leading)"
    using t(2-4) by (auto simp: MakeLeaderLock_def)
  then show ?thesis
    using t(3) by (intro exI [of _ u]) (simp add: eval_nat_numeral)
qed

text \<open>
  \<open>AcquireLeadership\<close> does not create the key of its lock: while nobody else does, it does not return, whatever the
  network does.
\<close>

lemma run_puts_missing:
  assumes "kv_lookup kv l = None" and "\<forall>a \<in> set as. pa_Key a \<noteq> l"
  shows "kv_lookup (run_puts kv as) l = None"
  using assms by (induction as arbitrary: kv) (simp_all add: put_other_key)

lemma AcquireLeadership_needs_key:
  assumes "kv_lookup kv (ll_l lk) = None" and "\<forall>a \<in> set (others script). pa_Key a \<noteq> ll_l lk"
  shows "AcquireLeadership lk kv script = None"
  using assms
proof (induction lk kv script rule: AcquireLeadership.induct)
  case (1 lk kv script)
  show ?case
  proof (cases "Clerk_Get (ll_l lk) kv script")
    case None
    then show ?thesis
      by (subst AcquireLeadership.simps) (simp add: AcquireLeadership_round_def)
  next
    case (Some res)
    then obtain r kv' rest where get: "Clerk_Get (ll_l lk) kv script = Some (r, kv', rest)"
      by (cases res) auto
    then obtain g where g: "Clerk_Get_loop \<lparr>ga_Key = ll_l lk\<rparr> zero_GetReply kv script = Some (g, kv', rest)"
      "r = (if gr_Err g \<noteq> OK then ('''', 0, gr_Err g) else (gr_Value g, gr_Version g, OK))"
      by (auto simp: Clerk_Get_def split: option.splits)
    obtain used where used: "script = used @ rest" "kv' = run_puts kv (others used)" "g = KVServer_Get kv' \<lparr>ga_Key = ll_l lk\<rparr> zero_GetReply"
      using Clerk_Get_loop_result [OF g(1)] by blast
    have missing: "kv_lookup kv' (ll_l lk) = None"
      using run_puts_missing [OF 1(3), of "others used"] 1(4) used by simp
    then have round: "AcquireLeadership_round lk kv script = Some (TryAgain, kv', rest)"
      using get g(2) used(3) by (auto simp: AcquireLeadership_round_def AcquireLeadership_got_def kv_lookup_def kv_defs split: option.splits)
    moreover have "AcquireLeadership lk kv' rest = None"
      by (rule 1(2) [OF round refl refl refl]) (use missing 1(4) used in auto)
    ultimately show ?thesis
      by (subst AcquireLeadership.simps) simp
  qed
qed

end
