(* ===== verification/GoStrings.thy ===== *)
theory GoStrings
  imports GoPrelude "HOL-Library.List_Lexorder" "HOL-Library.Char_ord" "HOL-Library.Sublist"
begin

text \<open>
  The functions of Go's \<open>strings\<close>, \<open>strconv\<close>, \<open>fmt\<close> and \<open>path/filepath\<close> that the programs use, and a
  directory of files. Strings are lists of bytes. White space and letters are those of ASCII: the
  library's Unicode classes are the same on ASCII text.
\<close>

section \<open>Searching, splitting and replacing\<close>

text \<open>The text before and after the first occurrence of a non-empty separator (\<open>strings.Cut\<close>).\<close>

fun strings_Cut :: "string \<Rightarrow> string \<Rightarrow> (string \<times> string) option" where
  "strings_Cut sep [] = None"
| "strings_Cut sep (c # s) =
     (if prefix sep (c # s) then Some ([], drop (length sep) (c # s))
      else map_option (\<lambda>(a, b). (c # a, b)) (strings_Cut sep s))"

lemma strings_Cut_Some: "strings_Cut sep s = Some (a, b) \<Longrightarrow> s = a @ sep @ b"
proof (induction sep s arbitrary: a rule: strings_Cut.induct)
  case (2 sep c s)
  then show ?case by (auto simp: prefix_def split: if_splits)
qed simp

function strings_Split :: "string \<Rightarrow> string \<Rightarrow> string list" where
  "strings_Split sep s =
     (if sep = [] then map (\<lambda>c. [c]) s
      else case strings_Cut sep s of None \<Rightarrow> [s] | Some (a, b) \<Rightarrow> a # strings_Split sep b)"
  by pat_completeness auto
termination
  by (relation "measure (\<lambda>(sep, s). length s)") (auto dest!: strings_Cut_Some)

function strings_ReplaceAll :: "string \<Rightarrow> string \<Rightarrow> string \<Rightarrow> string" where
  "strings_ReplaceAll old new s =
     (if old = [] then s
      else case strings_Cut old s of None \<Rightarrow> s | Some (a, b) \<Rightarrow> a @ new @ strings_ReplaceAll old new b)"
  by pat_completeness auto
termination
  by (relation "measure (\<lambda>(old, new, s). length s)") (auto dest!: strings_Cut_Some)

declare strings_Split.simps [simp del] strings_ReplaceAll.simps [simp del]

fun strings_Join :: "string list \<Rightarrow> string \<Rightarrow> string" where
  "strings_Join [] sep = []"
| "strings_Join [s] sep = s"
| "strings_Join (s # t # ts) sep = s @ sep @ strings_Join (t # ts) sep"

text \<open>A separator whose first byte does not occur is not found; a one-byte prefix is skipped.\<close>

lemma strings_Cut_None: "c \<notin> set s \<Longrightarrow> strings_Cut (c # sep) s = None"
  by (induction s) auto

lemma strings_Cut_first: "c \<notin> set a \<Longrightarrow> strings_Cut (c # sep) (a @ (c # sep) @ b) = Some (a, b)"
  by (induction a) (auto simp: prefix_def)

lemma Split_none [simp]: "c \<notin> set s \<Longrightarrow> strings_Split (c # sep) s = [s]"
  by (simp add: strings_Split.simps strings_Cut_None)

lemma Split_first: "c \<notin> set a \<Longrightarrow> strings_Split (c # sep) (a @ (c # sep) @ b) = a # strings_Split (c # sep) b"
  using strings_Cut_first [of c a sep b] by (subst strings_Split.simps) simp

lemma Split_char: "c \<notin> set a \<Longrightarrow> strings_Split [c] (a @ c # b) = a # strings_Split [c] b"
  using Split_first [of c a "[]" b] by simp

lemma Split_not_Nil: "sep \<noteq> [] \<Longrightarrow> strings_Split sep s \<noteq> []"
  by (simp add: strings_Split.simps split: option.splits)

text \<open>Splitting and joining are inverse.\<close>

lemma Join_Split: "sep \<noteq> [] \<Longrightarrow> strings_Join (strings_Split sep s) sep = s"
proof (induction sep s rule: strings_Split.induct)
  case (1 sep s)
  show ?case
  proof (cases "strings_Cut sep s")
    case None
    with 1(2) show ?thesis by (simp add: strings_Split.simps)
  next
    case (Some ab)
    obtain a b where ab: "strings_Cut sep s = Some (a, b)" using Some by (cases ab) simp
    with 1 have "strings_Join (strings_Split sep b) sep = b" by auto
    moreover have "strings_Split sep s = a # strings_Split sep b"
      using ab 1(2) by (subst strings_Split.simps) simp
    ultimately show ?thesis
      using strings_Cut_Some [OF ab] Split_not_Nil [OF 1(2), of b] by (cases "strings_Split sep b") simp_all
  qed
qed

section \<open>White space\<close>

definition is_space :: "char \<Rightarrow> bool" where
  "is_space c \<longleftrightarrow> of_char c \<in> {9, 10, 11, 12, 13, 32 :: nat}"

definition strings_TrimSpace :: "string \<Rightarrow> string" where
  "strings_TrimSpace s = rev (dropWhile is_space (rev (dropWhile is_space s)))"

lemma TrimSpace_id:
  assumes "s \<noteq> []" and "\<not> is_space (hd s)" and "\<not> is_space (last s)"
  shows "strings_TrimSpace s = s"
proof -
  have "dropWhile is_space s = s" using assms by (cases s) auto
  moreover have "dropWhile is_space (rev s) = rev s" using assms by (cases s rule: rev_cases) auto
  ultimately show ?thesis by (simp add: strings_TrimSpace_def)
qed

lemma TrimSpace_Nil [simp]: "strings_TrimSpace [] = []"
  by (simp add: strings_TrimSpace_def)

section \<open>Decimal numbers\<close>

fun digits :: "nat \<Rightarrow> string" where
  "digits n = (if n < 10 then [char_of (48 + n)] else digits (n div 10) @ [char_of (48 + n mod 10)])"

declare digits.simps [simp del]

definition strconv_Itoa :: "int \<Rightarrow> string" where
  "strconv_Itoa i = (if i < 0 then CHR ''-'' # digits (nat (- i)) else digits (nat i))"

definition is_digit :: "char \<Rightarrow> bool" where
  "is_digit c \<longleftrightarrow> 48 \<le> (of_char c :: nat) \<and> (of_char c :: nat) < 58"

lemma digits_are_digits: "c \<in> set (digits n) \<Longrightarrow> is_digit c"
proof (induction n rule: digits.induct)
  case (1 n)
  show ?case
  proof (cases "n < 10")
    case True
    with 1(2) show ?thesis by (subst (asm) digits.simps) (auto simp: is_digit_def)
  next
    case False
    with 1(2) have "c \<in> set (digits (n div 10)) \<or> c = char_of (48 + n mod 10)"
      by (subst (asm) digits.simps) auto
    with 1(1) [OF False] show ?thesis by (auto simp: is_digit_def)
  qed
qed

lemma digits_not_Nil [simp]: "digits n \<noteq> []"
  by (subst digits.simps) simp

lemma char_of_inj_digit: "a < 10 \<Longrightarrow> b < 10 \<Longrightarrow> (char_of (48 + a :: nat) :: char) = char_of (48 + b) \<Longrightarrow> a = b"
  by (simp add: char_of_eq_iff take_bit_nat_eq_self)

lemma digits_inj: "digits m = digits n \<Longrightarrow> m = n"
proof (induction m arbitrary: n rule: digits.induct)
  case (1 m)
  have long: "digits k = digits (k div 10) @ [char_of (48 + k mod 10)]" if "\<not> k < 10" for k
    using that by (subst digits.simps) simp
  have short: "digits k = [char_of (48 + k)]" if "k < 10" for k
    using that by (subst digits.simps) simp
  show ?case
  proof (cases "m < 10"; cases "n < 10")
    assume "m < 10" "n < 10"
    with 1(2) short show ?thesis using char_of_inj_digit by simp
  next
    assume "\<not> m < 10" "\<not> n < 10"
    with 1(2) long [of m] long [of n]
    have "digits (m div 10) = digits (n div 10)" "(char_of (48 + m mod 10 :: nat) :: char) = char_of (48 + n mod 10)"
      by simp_all
    with 1(1) [OF \<open>\<not> m < 10\<close>] char_of_inj_digit [of "m mod 10" "n mod 10"]
    have "m div 10 = n div 10" "m mod 10 = n mod 10" by simp_all
    then show ?thesis by (metis div_mult_mod_eq)
  next
    assume "m < 10" "\<not> n < 10"
    with 1(2) short [of m] long [of n] show ?thesis using digits_not_Nil [of "n div 10", symmetric] by simp
  next
    assume "\<not> m < 10" "n < 10"
    with 1(2) long [of m] short [of n] show ?thesis using digits_not_Nil [of "m div 10"] by simp
  qed
qed

text \<open>The number that decimal digits denote.\<close>

definition digits_value :: "string \<Rightarrow> int" where
  "digits_value s = foldl (\<lambda>v c. v * 10 + (int (of_char c) - 48)) 0 s"

lemma digits_value_digits: "digits_value (digits n) = int n"
proof (induction n rule: digits.induct)
  case (1 n)
  have one: "int (of_char (char_of (48 + k :: nat) :: char)) - 48 = int k" if "k < 10" for k :: nat
    using that by (simp add: take_bit_nat_eq_self)
  show ?case
  proof (cases "n < 10")
    case True
    then show ?thesis using one [of n] by (subst digits.simps) (simp add: digits_value_def)
  next
    case False
    have "digits_value (digits n) = digits_value (digits (n div 10)) * 10 + int (n mod 10)"
      using False one [of "n mod 10"] by (subst digits.simps) (simp add: digits_value_def)
    with 1(1) [OF False] show ?thesis by (simp add: zdiv_int zmod_int)
  qed
qed

lemma Itoa_nat [simp]: "strconv_Itoa (int n) = digits n"
  by (simp add: strconv_Itoa_def)

lemma digit_neq: "is_digit c \<Longrightarrow> c \<noteq> CHR ''-'' \<and> c \<noteq> CHR ''t'' \<and> c \<noteq> CHR '':'' \<and> \<not> is_space c"
  by (auto simp: is_digit_def is_space_def)

lemma digits_clean [simp]: "CHR ''-'' \<notin> set (digits n)" "CHR ''t'' \<notin> set (digits n)"
  using digits_are_digits digit_neq by blast+

section \<open>Hashing\<close>

text \<open>Go's \<open>hash/fnv\<close>, \<open>New32a\<close>: the 32-bit FNV-1a hash of the bytes written.\<close>

definition fnv32a :: "string \<Rightarrow> 32 word" where
  "fnv32a s = foldl (\<lambda>h c. (xor h (word_of_nat (of_char c))) * 16777619) 2166136261 s"

end
