(* ===== verification/ShardCfg.thy ===== *)
theory ShardCfg
  imports GoStrings "HOL-Library.AList"
begin

text \<open>
  Shard configurations: \<^verbatim>\<open>src/shardkv1/shardcfg/shardcfg.go\<close>. A configuration assigns each of
  the \<open>NShards\<close> shards to a replica group. \<open>Join\<close> and \<open>Leave\<close> change the set of groups and \<open>Rebalance\<close>
  spreads the shards over it.

  \<open>Groups\<close> is a Go map. It is an association list whose order stands for the order in which the
  runtime happens to iterate over the map; \<open>rebalance_order_independent\<close> shows that the result does
  not depend on it. The balancing loop is a \<open>partial_function\<close>: \<open>None\<close> would say that it does not
  end, and \<open>rebalance_balances\<close> shows that it does. \<open>String\<close> and \<open>FromString\<close> are in \<^theory_text>\<open>ShardString\<close>.
\<close>

type_synonym Tgid = int
type_synonym Tshid = int
type_synonym Tnum = int

definition NShards :: nat where "NShards = 12"
definition NumFirst :: Tnum where "NumFirst = 1"

section \<open>The shard of a key\<close>

definition Key2Shard :: "string \<Rightarrow> Tshid" where
  "Key2Shard key = uint (fnv32a key) mod int NShards"

section \<open>Configurations\<close>

record ShardConfig =
  sc_Num :: Tnum
  sc_Shards :: "Tgid list"
  sc_Groups :: "(Tgid \<times> string list) list"

definition MakeShardConfig :: ShardConfig where
  "MakeShardConfig = \<lparr>sc_Num = 0, sc_Shards = replicate NShards 0, sc_Groups = []\<rparr>"

definition Copy :: "ShardConfig \<Rightarrow> ShardConfig" where
  "Copy cfg =
     (let c = MakeShardConfig;
          c = c\<lparr>sc_Num := sc_Num cfg\<rparr>;
          c = c\<lparr>sc_Shards := sc_Shards cfg\<rparr>
      in foldl (\<lambda>c (k, srvs). c\<lparr>sc_Groups := AList.update k srvs (sc_Groups c)\<rparr>) c (sc_Groups cfg))"

definition analyze :: "ShardConfig \<Rightarrow> Tgid \<times> int \<times> Tgid \<times> int" where
  "analyze c =
     (let counts = (\<lambda>g. int (count_list (sc_Shards c) g));
          groups = sort (map fst (sc_Groups c))
      in foldl (\<lambda>(mg, mn, lg, ln) g.
            let (lg, ln) = (if counts g < ln then (g, counts g) else (lg, ln));
                (mg, mn) = (if counts g > mn then (g, counts g) else (mg, mn))
            in (mg, mn, lg, ln)) (-1, -1, -1, 257) groups)"

definition least :: "ShardConfig \<Rightarrow> Tgid" where
  "least c = (case analyze c of (_, _, lg, _) \<Rightarrow> lg)"

section \<open>Rebalance\<close>

text \<open>
  The loop over the unassigned shards. It ranges over an array, which Go copies first, so the old
  assignment is an argument of its own.
\<close>

fun Rebalance_assign :: "nat \<Rightarrow> Tgid list \<Rightarrow> ShardConfig \<Rightarrow> ShardConfig" where
  "Rebalance_assign s [] c = c"
| "Rebalance_assign s (g # gs) c =
     Rebalance_assign (Suc s) gs
       (if map_of (sc_Groups c) g = None
        then c\<lparr>sc_Shards := (sc_Shards c)[s := least c]\<rparr> else c)"

text \<open>The inner loop: give the first shard of \<open>mg\<close> to \<open>lg\<close>.\<close>

fun move_shard :: "Tgid \<Rightarrow> Tgid \<Rightarrow> Tgid list \<Rightarrow> Tgid list" where
  "move_shard mg lg [] = []"
| "move_shard mg lg (g # gs) = (if g = mg then lg # gs else g # move_shard mg lg gs)"

partial_function (option) Rebalance_move :: "ShardConfig \<Rightarrow> ShardConfig option" where
  "Rebalance_move c =
     (case analyze c of (mg, mn, lg, ln) \<Rightarrow>
        if mn < ln + 2 then Some c
        else Rebalance_move (c\<lparr>sc_Shards := move_shard mg lg (sc_Shards c)\<rparr>))"

definition Rebalance :: "ShardConfig \<Rightarrow> ShardConfig option" where
  "Rebalance c =
     (if length (sc_Groups c) < 1
      then Some (c\<lparr>sc_Shards := map (\<lambda>_. 0) (sc_Shards c)\<rparr>)
      else Rebalance_move (Rebalance_assign 0 (sc_Shards c) c))"

section \<open>Join and Leave\<close>

text \<open>The servers to add are a Go map too, in the order of its iteration; \<open>Fatal\<close> is \<open>log.Fatalf\<close>.\<close>

fun Join_loop :: "(Tgid \<times> string list) list \<Rightarrow> ShardConfig \<Rightarrow> bool \<Rightarrow> (ShardConfig \<times> bool) go" where
  "Join_loop [] cfg changed = Inr (cfg, changed)"
| "Join_loop ((gid, servers) # rest) cfg changed =
     (if map_of (sc_Groups cfg) gid \<noteq> None then Inl Fatal
      else if \<exists>(xgid, xservers) \<in> set (sc_Groups cfg). \<exists>s1 \<in> set xservers. \<exists>s2 \<in> set servers. s1 = s2
      then Inl Fatal
      else Join_loop rest (cfg\<lparr>sc_Groups := AList.update gid servers (sc_Groups cfg)\<rparr>) True)"

definition Join :: "(Tgid \<times> string list) list \<Rightarrow> ShardConfig \<Rightarrow> ShardConfig go" where
  "Join servers cfg =
     go_bind (Join_loop servers cfg False)
       (\<lambda>(cfg, changed). if changed = False then Inl Fatal else Inr (cfg\<lparr>sc_Num := sc_Num cfg + 1\<rparr>))"

fun Leave_loop :: "Tgid list \<Rightarrow> ShardConfig \<Rightarrow> bool \<Rightarrow> (ShardConfig \<times> bool) go" where
  "Leave_loop [] cfg changed = Inr (cfg, changed)"
| "Leave_loop (gid # rest) cfg changed =
     (if map_of (sc_Groups cfg) gid = None then Inl Fatal
      else Leave_loop rest (cfg\<lparr>sc_Groups := AList.delete gid (sc_Groups cfg)\<rparr>) True)"

definition Leave :: "Tgid list \<Rightarrow> ShardConfig \<Rightarrow> ShardConfig go" where
  "Leave gids cfg =
     go_bind (Leave_loop gids cfg False)
       (\<lambda>(cfg, changed). if changed = False then Inl Fatal else Inr (cfg\<lparr>sc_Num := sc_Num cfg + 1\<rparr>))"

text \<open>The outer option is the one of \<open>Rebalance\<close>: does the call return.\<close>

definition JoinBalance :: "(Tgid \<times> string list) list \<Rightarrow> ShardConfig \<Rightarrow> ShardConfig go option" where
  "JoinBalance servers cfg =
     (case Join servers cfg of Inl e \<Rightarrow> Some (Inl e) | Inr cfg \<Rightarrow> map_option Inr (Rebalance cfg))"

definition LeaveBalance :: "Tgid list \<Rightarrow> ShardConfig \<Rightarrow> ShardConfig go option" where
  "LeaveBalance gids cfg =
     (case Leave gids cfg of Inl e \<Rightarrow> Some (Inl e) | Inr cfg \<Rightarrow> map_option Inr (Rebalance cfg))"

section \<open>Queries\<close>

text \<open>Indexing the array panics outside its range; a missing key of the map reads as nil.\<close>

definition GidServers :: "ShardConfig \<Rightarrow> Tshid \<Rightarrow> (Tgid \<times> string list \<times> bool) go" where
  "GidServers cfg sh =
     go_bind (slice_get (sc_Shards cfg) sh)
       (\<lambda>gid. case map_of (sc_Groups cfg) gid of
                None \<Rightarrow> Inr (gid, [], False)
              | Some srvs \<Rightarrow> Inr (gid, srvs, True))"

fun IsMember_loop :: "Tgid list \<Rightarrow> Tgid \<Rightarrow> bool" where
  "IsMember_loop [] gid = False"
| "IsMember_loop (g # gs) gid = (if g = gid then True else IsMember_loop gs gid)"

definition IsMember :: "ShardConfig \<Rightarrow> Tgid \<Rightarrow> bool" where
  "IsMember cfg gid = IsMember_loop (sc_Shards cfg) gid"

text \<open>\<open>Inl Fatal\<close> is the test failure raised by \<open>fatalf\<close>.\<close>

definition CheckConfig :: "ShardConfig \<Rightarrow> Tgid list \<Rightarrow> unit go" where
  "CheckConfig cfg groups =
     (if length (sc_Groups cfg) \<noteq> length groups then Inl Fatal
      else if \<exists>g \<in> set groups. map_of (sc_Groups cfg) g = None then Inl Fatal
      else if length groups > 0 \<and> (\<exists>g \<in> set (sc_Shards cfg). map_of (sc_Groups cfg) g = None)
      then Inl Fatal
      else let counts = (\<lambda>g. int (count_list (sc_Shards cfg) g));
               (mn, mx) = foldl (\<lambda>(mn, mx) (g, _).
                 let mx = (if counts g > mx then counts g else mx);
                     mn = (if counts g < mn then counts g else mn)
                 in (mn, mx)) (257, 0) (sc_Groups cfg)
           in if mx > mn + 1 then Inl Fatal else Inr ())"

section \<open>Invariant and counting\<close>

definition sc_wf :: "ShardConfig \<Rightarrow> bool" where
  "sc_wf c \<longleftrightarrow> length (sc_Shards c) = NShards \<and> distinct (map fst (sc_Groups c))"

abbreviation gids :: "ShardConfig \<Rightarrow> Tgid set" where
  "gids c \<equiv> fst ` set (sc_Groups c)"

abbreviation load :: "ShardConfig \<Rightarrow> Tgid \<Rightarrow> int" where
  "load c g \<equiv> int (count_list (sc_Shards c) g)"

definition balanced :: "ShardConfig \<Rightarrow> bool" where
  "balanced c \<longleftrightarrow> set (sc_Shards c) \<subseteq> gids c \<and> (\<forall>g \<in> gids c. \<forall>h \<in> gids c. load c g \<le> load c h + 1)"

lemma sc_wf_upd [simp]:
  "length ss = length (sc_Shards c) \<Longrightarrow> sc_wf (c\<lparr>sc_Shards := ss\<rparr>) = sc_wf c"
  by (simp add: sc_wf_def)

lemma load_bound: "sc_wf c \<Longrightarrow> load c g < 257"
  using count_le_length [of "sc_Shards c" g] by (simp add: sc_wf_def NShards_def)

text \<open>The scan over the sorted groups finds the extremes.\<close>

lemma analyze_scan:
  fixes counts :: "Tgid \<Rightarrow> int"
  assumes "foldl (\<lambda>(mg, mn, lg, ln) g.
      let (lg, ln) = (if counts g < ln then (g, counts g) else (lg, ln));
          (mg, mn) = (if counts g > mn then (g, counts g) else (mg, mn))
      in (mg, mn, lg, ln)) (-1, -1, -1, 257) gs = (mg, mn, lg, ln)"
    and "\<forall>g \<in> set gs. 0 \<le> counts g \<and> counts g < 257"
  shows "(gs = [] \<longrightarrow> mn = -1 \<and> ln = 257) \<and>
    (gs \<noteq> [] \<longrightarrow> mg \<in> set gs \<and> lg \<in> set gs \<and> mn = counts mg \<and> ln = counts lg) \<and>
    (\<forall>g \<in> set gs. ln \<le> counts g \<and> counts g \<le> mn)"
  using assms
proof (induction gs arbitrary: mg mn lg ln rule: rev_induct)
  case (snoc g gs)
  obtain mg' mn' lg' ln' where f: "foldl (\<lambda>(mg, mn, lg, ln) g.
      let (lg, ln) = (if counts g < ln then (g, counts g) else (lg, ln));
          (mg, mn) = (if counts g > mn then (g, counts g) else (mg, mn))
      in (mg, mn, lg, ln)) (-1, -1, -1, 257) gs = (mg', mn', lg', ln')"
    by (rule prod_cases4)
  from snoc.IH [OF f] snoc.prems f show ?case
    by (cases "gs = []") (auto simp: Let_def split: if_splits)
qed simp

lemma analyze_extremes:
  assumes "analyze c = (mg, mn, lg, ln)" and "sc_wf c" and "sc_Groups c \<noteq> []"
  shows "mg \<in> gids c" and "lg \<in> gids c" and "mn = load c mg" and "ln = load c lg"
    and "g \<in> gids c \<Longrightarrow> load c lg \<le> load c g" and "g \<in> gids c \<Longrightarrow> load c g \<le> load c mg"
proof -
  have "sort (map fst (sc_Groups c)) \<noteq> []"
    using assms(3) by (metis map_is_Nil_conv set_empty set_sort)
  then show "mg \<in> gids c" "lg \<in> gids c" "mn = load c mg" "ln = load c lg"
    "g \<in> gids c \<Longrightarrow> load c lg \<le> load c g" "g \<in> gids c \<Longrightarrow> load c g \<le> load c mg"
    using analyze_scan [of "load c" "sort (map fst (sc_Groups c))" mg mn lg ln]
      assms(1) load_bound [OF assms(2)] by (auto simp: analyze_def Let_def)
qed

lemma least_in: "sc_wf c \<Longrightarrow> sc_Groups c \<noteq> [] \<Longrightarrow> least c \<in> gids c"
  by (cases "analyze c") (auto simp: least_def dest: analyze_extremes(2))

section \<open>Assigning the unassigned shards\<close>

lemma Rebalance_assign_frame:
  "sc_Num (Rebalance_assign s gs c) = sc_Num c" "sc_Groups (Rebalance_assign s gs c) = sc_Groups c"
  "length (sc_Shards (Rebalance_assign s gs c)) = length (sc_Shards c)"
  by (induction s gs c rule: Rebalance_assign.induct) auto

lemma Rebalance_assign_members:
  assumes "sc_wf c" and "sc_Groups c \<noteq> []" and "drop s (sc_Shards c) = gs" and "set (take s (sc_Shards c)) \<subseteq> gids c"
  shows "set (sc_Shards (Rebalance_assign s gs c)) \<subseteq> gids c"
  using assms
proof (induction s gs c rule: Rebalance_assign.induct)
  case (2 s g gs c)
  have s: "s < length (sc_Shards c)" and g: "g = sc_Shards c ! s" and gs: "drop (Suc s) (sc_Shards c) = gs"
    using 2(4) by (metis Cons_nth_drop_Suc drop_eq_Nil2 list.distinct(1) list.inject not_le)+
  let ?c = "if map_of (sc_Groups c) g = None then c\<lparr>sc_Shards := (sc_Shards c)[s := least c]\<rparr> else c"
  have "take (Suc s) (sc_Shards ?c) = take s (sc_Shards c) @ [if map_of (sc_Groups c) g = None then least c else g]"
    using s g by (simp add: take_Suc_conv_app_nth)
  moreover have "(if map_of (sc_Groups c) g = None then least c else g) \<in> gids c"
    using least_in [OF 2(2,3)] by (auto simp: map_of_eq_None_iff)
  ultimately have "set (take (Suc s) (sc_Shards ?c)) \<subseteq> gids c" using 2(5) by simp
  moreover have "gids ?c = gids c" "sc_wf ?c" "sc_Groups ?c \<noteq> []" "drop (Suc s) (sc_Shards ?c) = gs"
    using 2 gs by simp_all
  ultimately have "set (sc_Shards (Rebalance_assign (Suc s) gs ?c)) \<subseteq> gids ?c" by (intro 2(1)) simp_all
  then show ?case by (auto split: if_splits)
qed simp

lemma Rebalance_assign_noop:
  "set gs \<subseteq> gids c \<Longrightarrow> Rebalance_assign s gs c = c"
  by (induction s gs c rule: Rebalance_assign.induct) (auto simp: map_of_eq_None_iff)

section \<open>Moving shards\<close>

lemma length_move_shard [simp]: "length (move_shard mg lg ss) = length ss"
  by (induction mg lg ss rule: move_shard.induct) auto

lemma set_move_shard: "set (move_shard mg lg ss) \<subseteq> insert lg (set ss)"
  by (induction mg lg ss rule: move_shard.induct) auto

lemma count_move_shard:
  "mg \<in> set ss \<Longrightarrow> mg \<noteq> lg \<Longrightarrow>
     int (count_list (move_shard mg lg ss) g) =
       int (count_list ss g) + (if g = lg then 1 else 0) - (if g = mg then 1 else 0)"
  by (induction mg lg ss rule: move_shard.induct) auto

text \<open>The sum of the squares of the loads decreases with every move.\<close>

definition spread :: "ShardConfig \<Rightarrow> nat" where
  "spread c = nat (\<Sum>g \<in> gids c. (load c g)\<^sup>2)"

lemma spread_move:
  assumes "mg \<in> gids c" "lg \<in> gids c" "load c lg + 2 \<le> load c mg"
  shows "spread (c\<lparr>sc_Shards := move_shard mg lg (sc_Shards c)\<rparr>) < spread c"
proof -
  let ?c = "c\<lparr>sc_Shards := move_shard mg lg (sc_Shards c)\<rparr>"
  have ne: "mg \<noteq> lg" using assms(3) by auto
  have "mg \<in> set (sc_Shards c)" using assms(3) count_notin [of mg "sc_Shards c"] by fastforce
  from count_move_shard [OF this ne]
  have loads: "load ?c g = load c g + (if g = lg then 1 else 0) - (if g = mg then 1 else 0)" for g
    by simp
  let ?R = "gids c - {mg, lg}"
  have "gids c = insert mg (insert lg ?R)" using assms by auto
  then have split: "(\<Sum>g \<in> gids c. f g) = f mg + (f lg + (\<Sum>g \<in> ?R. f g))" for f :: "Tgid \<Rightarrow> int"
    using ne by (smt (verit) Diff_iff finite_Diff finite_imageI finite_insert finite_set insert_iff singletonD sum.insert)
  have "load ?c g = load c g" if "g \<in> ?R" for g using loads [of g] that by simp
  then have "(\<Sum>g \<in> ?R. (load ?c g)\<^sup>2) = (\<Sum>g \<in> ?R. (load c g)\<^sup>2)" by (intro sum.cong) simp_all
  then have "(\<Sum>g \<in> gids c. (load ?c g)\<^sup>2) = (\<Sum>g \<in> gids c. (load c g)\<^sup>2) + 2 * (load c lg + 1 - load c mg)"
    using ne by (simp only: split loads) (simp add: power2_eq_square algebra_simps)
  moreover have "0 \<le> (\<Sum>g \<in> gids c. (load ?c g)\<^sup>2)" by (intro sum_nonneg) simp
  ultimately show ?thesis using assms(3) by (simp add: spread_def)
qed

lemma Rebalance_move_balances:
  assumes "sc_wf c" and "sc_Groups c \<noteq> []" and "set (sc_Shards c) \<subseteq> gids c"
  shows "\<exists>c'. Rebalance_move c = Some c' \<and> sc_Num c' = sc_Num c \<and> sc_Groups c' = sc_Groups c \<and>
    sc_wf c' \<and> balanced c'"
  using assms
proof (induction c rule: measure_induct_rule [where f = spread])
  case (less c)
  obtain mg mn lg ln where a: "analyze c = (mg, mn, lg, ln)" by (rule prod_cases4)
  note ext = analyze_extremes [OF a less.prems(1,2)]
  show ?case
  proof (cases "mn < ln + 2")
    case True
    with ext have "load c g \<le> load c h + 1" if "g \<in> gids c" "h \<in> gids c" for g h
      using ext(5) [OF that(2)] ext(6) [OF that(1)] by linarith
    with True less.prems a show ?thesis
      by (subst Rebalance_move.simps) (simp add: balanced_def)
  next
    case False
    let ?c = "c\<lparr>sc_Shards := move_shard mg lg (sc_Shards c)\<rparr>"
    have "spread ?c < spread c" using False ext(1-4) by (intro spread_move) auto
    moreover have "sc_wf ?c" "sc_Groups ?c \<noteq> []" using less.prems by simp_all
    moreover have "set (sc_Shards ?c) \<subseteq> gids ?c"
      using set_move_shard [of mg lg "sc_Shards c"] less.prems(3) ext(2) by auto
    ultimately have "\<exists>c'. Rebalance_move ?c = Some c' \<and> sc_Num c' = sc_Num ?c \<and>
        sc_Groups c' = sc_Groups ?c \<and> sc_wf c' \<and> balanced c'"
      by (rule less.IH)
    with False a show ?thesis by (subst Rebalance_move.simps) simp
  qed
qed

lemma Rebalance_ok:
  assumes "sc_wf c" and "sc_Groups c \<noteq> []"
  obtains c' where "Rebalance c = Some c'" "sc_Num c' = sc_Num c" "sc_Groups c' = sc_Groups c"
    "sc_wf c'" "balanced c'"
proof -
  let ?c = "Rebalance_assign 0 (sc_Shards c) c"
  have "sc_wf ?c" "sc_Groups ?c = sc_Groups c" "sc_Num ?c = sc_Num c"
    using assms by (simp_all add: sc_wf_def Rebalance_assign_frame)
  moreover have "set (sc_Shards ?c) \<subseteq> gids ?c"
    using Rebalance_assign_members [of c 0] assms by (simp add: Rebalance_assign_frame)
  ultimately show ?thesis
    using that Rebalance_move_balances [of ?c] assms(2) by (auto simp: Rebalance_def)
qed

text \<open>
  C13: \<open>Rebalance\<close> ends and balances. For every configuration with \<open>NShards\<close> shards the loop ends; the
  number and the groups are kept; with no groups every shard is unassigned, and otherwise every shard
  belongs to a group of the configuration and the loads of two groups differ by at most one.
\<close>

theorem rebalance_balances:
  assumes "sc_wf c"
  shows "\<exists>c'. Rebalance c = Some c' \<and> sc_wf c' \<and> sc_Num c' = sc_Num c \<and> sc_Groups c' = sc_Groups c \<and>
    (if sc_Groups c = [] then set (sc_Shards c') = {0} else balanced c')"
proof (cases "sc_Groups c = []")
  case True
  then show ?thesis using assms by (cases "sc_Shards c") (auto simp: Rebalance_def sc_wf_def NShards_def)
next
  case False
  with assms obtain c' where "Rebalance c = Some c'" "sc_Num c' = sc_Num c" "sc_Groups c' = sc_Groups c"
    "sc_wf c'" "balanced c'" by (rule Rebalance_ok)
  with False show ?thesis by simp
qed

text \<open>A concrete configuration: nothing assigned yet, two groups.\<close>

definition two_groups :: ShardConfig where
  "two_groups = \<lparr>sc_Num = 1, sc_Shards = replicate 12 0, sc_Groups = [(1, [''a'']), (2, [''b''])]\<rparr>"

lemma two_groups_wf: "sc_wf two_groups" "sc_Groups two_groups \<noteq> []"
  by (simp_all add: two_groups_def sc_wf_def NShards_def)

theorem rebalance_balances_witness:
  "sc_wf two_groups \<and> (\<exists>c'. Rebalance two_groups = Some c' \<and> balanced c')"
  using rebalance_balances [OF two_groups_wf(1)] two_groups_wf by auto

section \<open>Stability\<close>

lemma balanced_analyze:
  assumes "sc_wf c" and "sc_Groups c \<noteq> []" and "balanced c"
  shows "Rebalance_move c = Some c"
proof -
  obtain mg mn lg ln where a: "analyze c = (mg, mn, lg, ln)" by (rule prod_cases4)
  note ext = analyze_extremes [OF a assms(1,2)]
  have "mn < ln + 2" using assms(3) ext(1-4) unfolding balanced_def by fastforce
  then show ?thesis using a by (subst Rebalance_move.simps) simp
qed

text \<open>
  \<open>Rebalance\<close> does not move shards without need. A configuration that is balanced already is left as
  it is, so balancing twice is the same as balancing once.
\<close>

lemma rebalance_stable:
  assumes "sc_wf c" and "sc_Groups c \<noteq> []"
  shows "(Rebalance c = Some c \<longleftrightarrow> balanced c) \<and> Option.bind (Rebalance c) Rebalance = Rebalance c"
proof -
  have fix_: "Rebalance d = Some d" if "sc_wf d" "sc_Groups d \<noteq> []" "balanced d" for d
    using that Rebalance_assign_noop [of "sc_Shards d" d 0] balanced_analyze
    by (auto simp: Rebalance_def balanced_def)
  obtain c' where "Rebalance c = Some c'" "sc_Num c' = sc_Num c" "sc_Groups c' = sc_Groups c"
    "sc_wf c'" "balanced c'" using assms by (rule Rebalance_ok)
  with fix_ assms show ?thesis by auto
qed

lemma rebalance_stable_example:
  "sc_wf two_groups \<and> Rebalance two_groups \<noteq> Some two_groups \<and>
   Option.bind (Rebalance two_groups) Rebalance = Rebalance two_groups"
proof -
  have "\<not> balanced two_groups" by (simp add: balanced_def two_groups_def)
  with rebalance_stable [OF two_groups_wf] two_groups_wf show ?thesis by simp
qed

section \<open>Independence of the order of map iteration\<close>

lemma regroup_commute: "c\<lparr>sc_Groups := G, sc_Shards := S\<rparr> = c\<lparr>sc_Shards := S, sc_Groups := G\<rparr>"
  for c :: ShardConfig
  by simp

lemma Rebalance_move_regroup:
  assumes "sc_wf c" and "sc_Groups c \<noteq> []" and "set (sc_Shards c) \<subseteq> gids c"
    and keys: "mset (map fst G) = mset (map fst (sc_Groups c))"
  shows "Rebalance_move (c\<lparr>sc_Groups := G\<rparr>) = map_option (\<lambda>c'. c'\<lparr>sc_Groups := G\<rparr>) (Rebalance_move c)"
  using assms
proof (induction c rule: measure_induct_rule [where f = spread])
  case (less c)
  obtain mg mn lg ln where a: "analyze c = (mg, mn, lg, ln)" by (rule prod_cases4)
  note ext = analyze_extremes [OF a less.prems(1,2)]
  have "sort (map fst G) = sort (map fst (sc_Groups c))"
    using less.prems(4) by (metis mset_sort properties_for_sort sorted_sort)
  then have a': "analyze (c\<lparr>sc_Groups := G\<rparr>) = (mg, mn, lg, ln)" using a by (simp add: analyze_def)
  let ?c = "c\<lparr>sc_Shards := move_shard mg lg (sc_Shards c)\<rparr>"
  show ?case
  proof (cases "mn < ln + 2")
    case True
    with a a' show ?thesis by (simp add: Rebalance_move.simps [of c] Rebalance_move.simps [of "c\<lparr>sc_Groups := G\<rparr>"])
  next
    case False
    have "Rebalance_move (?c\<lparr>sc_Groups := G\<rparr>) = map_option (\<lambda>c'. c'\<lparr>sc_Groups := G\<rparr>) (Rebalance_move ?c)"
    proof (rule less.IH)
      show "spread ?c < spread c" using False ext(1-4) by (intro spread_move) auto
      show "set (sc_Shards ?c) \<subseteq> gids ?c"
        using set_move_shard [of mg lg "sc_Shards c"] less.prems(3) ext(2) by auto
    qed (use less.prems in simp_all)
    with False a a' show ?thesis
      by (simp add: Rebalance_move.simps [of c] Rebalance_move.simps [of "c\<lparr>sc_Groups := G\<rparr>"] regroup_commute)
  qed
qed

lemma Rebalance_assign_regroup:
  assumes "sort (map fst G) = sort (map fst (sc_Groups c))"
  shows "Rebalance_assign s gs (c\<lparr>sc_Groups := G\<rparr>) = (Rebalance_assign s gs c)\<lparr>sc_Groups := G\<rparr>"
  using assms
proof (induction s gs c rule: Rebalance_assign.induct)
  case (2 s g gs c)
  have "set (map fst G) = set (map fst (sc_Groups c))" using 2(2) by (metis set_sort)
  then have "map_of G g = None \<longleftrightarrow> map_of (sc_Groups c) g = None" by (simp add: map_of_eq_None_iff)
  moreover have "least (c\<lparr>sc_Groups := G\<rparr>) = least c" using 2(2) by (simp add: least_def analyze_def)
  ultimately show ?case using 2
    by (cases "map_of (sc_Groups c) g"; cases "map_of G g") (simp_all add: regroup_commute)
qed simp

lemma same_map_same_keys:
  assumes "distinct (map fst G)" and "distinct (map fst H)" and "map_of G = map_of H"
  shows "mset (map fst G) = mset (map fst H)"
proof -
  have "set (map fst G) = set (map fst H)"
    using assms(3) by (metis dom_map_of_conv_image_fst set_map)
  then show ?thesis using set_eq_iff_mset_eq_distinct [OF assms(1,2)] by blast
qed

text \<open>
  C18: \<open>Rebalance\<close> is deterministic. Go iterates over the map of groups in an unspecified order; for two
  orders of the same map the resulting assignment of shards is the same.
\<close>

theorem rebalance_order_independent:
  assumes "sc_wf c" and "distinct (map fst G)" and "map_of G = map_of (sc_Groups c)"
  shows "map_option sc_Shards (Rebalance (c\<lparr>sc_Groups := G\<rparr>)) = map_option sc_Shards (Rebalance c)"
proof (cases "sc_Groups c = []")
  case True
  then have "G = []" using assms(3) by (metis dom_eq_empty_conv map_of.simps(1) map_of_eq_empty_iff)
  with True show ?thesis by (simp add: Rebalance_def)
next
  case False
  let ?c = "Rebalance_assign 0 (sc_Shards c) c"
  have keys: "mset (map fst G) = mset (map fst (sc_Groups c))"
    using assms same_map_same_keys by (auto simp: sc_wf_def)
  then have "sort (map fst G) = sort (map fst (sc_Groups c))"
    by (metis mset_sort properties_for_sort sorted_sort)
  note assign = Rebalance_assign_regroup [OF this]
  have "G \<noteq> []" using keys False by auto
  moreover have "sc_wf ?c" "sc_Groups ?c = sc_Groups c"
    using assms by (simp_all add: sc_wf_def Rebalance_assign_frame)
  moreover have "set (sc_Shards ?c) \<subseteq> gids ?c"
    using Rebalance_assign_members [of c 0] assms False by (simp add: Rebalance_assign_frame)
  ultimately have "Rebalance_move (?c\<lparr>sc_Groups := G\<rparr>) = map_option (\<lambda>c'. c'\<lparr>sc_Groups := G\<rparr>) (Rebalance_move ?c)"
    using Rebalance_move_regroup [of ?c G] False keys by simp
  with False \<open>G \<noteq> []\<close> show ?thesis
    by (cases "Rebalance_move ?c") (simp_all add: Rebalance_def assign)
qed

theorem rebalance_order_independent_witness:
  "map_option sc_Shards (Rebalance (two_groups\<lparr>sc_Groups := [(2, [''b'']), (1, [''a''])]\<rparr>)) =
   map_option sc_Shards (Rebalance two_groups)"
  by (rule rebalance_order_independent [OF two_groups_wf(1)]) (auto simp: two_groups_def)

section \<open>What Join and Leave do\<close>

lemma update_new: "k \<notin> fst ` set al \<Longrightarrow> AList.update k v al = al @ [(k, v)]"
  by (induction al) auto

text \<open>Two different groups share no server; the groups to add may not clash with the others.\<close>

definition no_clash :: "(Tgid \<times> string list) list \<Rightarrow> (Tgid \<times> string list) list \<Rightarrow> bool" where
  "no_clash G new \<longleftrightarrow>
     (\<forall>(g, ss) \<in> set new. \<forall>(h, ts) \<in> set (G @ new). h \<noteq> g \<longrightarrow> set ss \<inter> set ts = {})"

lemma no_clash_Cons:
  assumes "g \<notin> fst ` set G" and "distinct (map fst ((g, ss) # new))"
  shows "no_clash G ((g, ss) # new) \<longleftrightarrow>
    (\<forall>(h, ts) \<in> set G. set ss \<inter> set ts = {}) \<and> no_clash (G @ [(g, ss)]) new"
proof -
  have old: "\<And>h ts. (h, ts) \<in> set G \<Longrightarrow> h \<noteq> g" and other: "\<And>h ts. (h, ts) \<in> set new \<Longrightarrow> h \<noteq> g"
    using assms by (force, force)
  show ?thesis
  proof
    assume l: "no_clash G ((g, ss) # new)"
    show "(\<forall>(h, ts) \<in> set G. set ss \<inter> set ts = {}) \<and> no_clash (G @ [(g, ss)]) new"
      using l old unfolding no_clash_def by (simp add: Ball_def split_paired_All)
  next
    assume r: "(\<forall>(h, ts) \<in> set G. set ss \<inter> set ts = {}) \<and> no_clash (G @ [(g, ss)]) new"
    show "no_clash G ((g, ss) # new)"
      using r other unfolding no_clash_def by (simp add: Ball_def split_paired_All) blast
  qed
qed

lemma Join_loop_spec:
  assumes "distinct (map fst servers)"
  shows "Join_loop servers cfg changed =
    (if fst ` set servers \<inter> gids cfg = {} \<and> no_clash (sc_Groups cfg) servers
     then Inr (cfg\<lparr>sc_Groups := sc_Groups cfg @ servers\<rparr>, changed \<or> servers \<noteq> [])
     else Inl Fatal)"
  using assms
proof (induction servers cfg changed rule: Join_loop.induct)
  case (2 gid servers rest cfg changed)
  show ?case
  proof (cases "gid \<in> gids cfg")
    case True
    then show ?thesis by (auto simp: map_of_eq_None_iff)
  next
    case False
    have new: "AList.update gid servers (sc_Groups cfg) = sc_Groups cfg @ [(gid, servers)]"
      using False by (rule update_new)
    have fresh: "map_of (sc_Groups cfg) gid = None" using False by (simp add: map_of_eq_None_iff)
    note nc = no_clash_Cons [OF False 2(2)]
    show ?thesis
    proof (cases "\<forall>(h, ts) \<in> set (sc_Groups cfg). set servers \<inter> set ts = {}")
      case True
      then have "\<not> (\<exists>(xgid, xservers) \<in> set (sc_Groups cfg). \<exists>s1 \<in> set xservers. \<exists>s2 \<in> set servers. s1 = s2)"
        by fastforce
      with 2 fresh nc True new False show ?thesis by simp
    next
      case ne: False
      then have "\<exists>(xgid, xservers) \<in> set (sc_Groups cfg). \<exists>s1 \<in> set xservers. \<exists>s2 \<in> set servers. s1 = s2"
        by fastforce
      with fresh nc ne show ?thesis by simp
    qed
  qed
qed (simp add: no_clash_def)

lemma Leave_loop_spec:
  "Leave_loop gs cfg changed =
    (if distinct gs \<and> set gs \<subseteq> gids cfg
     then Inr (cfg\<lparr>sc_Groups := filter (\<lambda>(g, _). g \<notin> set gs) (sc_Groups cfg)\<rparr>, changed \<or> gs \<noteq> [])
     else Inl Fatal)"
proof (induction gs cfg changed rule: Leave_loop.induct)
  case (2 gid rest cfg changed)
  show ?case
  proof (cases "gid \<in> gids cfg")
    case True
    then have "map_of (sc_Groups cfg) gid \<noteq> None" by (simp add: map_of_eq_None_iff)
    moreover have "filter (\<lambda>(g, _). g \<notin> set rest) (AList.delete gid (sc_Groups cfg)) =
        filter (\<lambda>(g, _). g \<notin> set (gid # rest)) (sc_Groups cfg)"
      by (auto simp: AList.delete_eq case_prod_beta intro: filter_cong)
    moreover have "fst ` set (AList.delete gid (sc_Groups cfg)) = gids cfg - {gid}"
      by (auto simp: AList.delete_eq)
    ultimately show ?thesis using 2 True by auto
  next
    case False
    then show ?thesis by (simp add: map_of_eq_None_iff)
  qed
qed simp

text \<open>
  C30: What \<open>Join\<close> and \<open>Leave\<close> accept and do. \<open>Join\<close> succeeds exactly when it is given at least one group, all of them
  are new, and no server is in two groups; then it adds the groups. \<open>Leave\<close> succeeds exactly when it is given a
  non-empty list of different groups of the configuration; then it removes them. Both increment the number, and otherwise
  stop the process.
\<close>

theorem membership_spec:
  assumes "distinct (map fst servers)"
  shows "Join servers cfg =
      (if servers \<noteq> [] \<and> fst ` set servers \<inter> gids cfg = {} \<and> no_clash (sc_Groups cfg) servers
       then Inr (cfg\<lparr>sc_Num := sc_Num cfg + 1, sc_Groups := sc_Groups cfg @ servers\<rparr>)
       else Inl Fatal) \<and>
    Leave gs cfg =
      (if gs \<noteq> [] \<and> distinct gs \<and> set gs \<subseteq> gids cfg
       then Inr (cfg\<lparr>sc_Num := sc_Num cfg + 1, sc_Groups := filter (\<lambda>(g, _). g \<notin> set gs) (sc_Groups cfg)\<rparr>)
       else Inl Fatal)"
  by (simp add: Join_def Join_loop_spec [OF assms] Leave_def Leave_loop_spec)

theorem membership_spec_witness:
  "Join [(3, [''c''])] two_groups =
     Inr (two_groups\<lparr>sc_Num := 2, sc_Groups := [(1, [''a'']), (2, [''b'']), (3, [''c''])]\<rparr>) \<and>
   Leave [1, 3] two_groups = Inl Fatal"
  using membership_spec [of "[(3, [''c''])]" two_groups "[1, 3]"] by (simp add: two_groups_def no_clash_def)

section \<open>Checking a configuration\<close>

lemma check_scan:
  fixes counts :: "Tgid \<Rightarrow> int"
  assumes "foldl (\<lambda>(mn, mx) (g, _).
      let mx = (if counts g > mx then counts g else mx);
          mn = (if counts g < mn then counts g else mn)
      in (mn, mx)) (257, 0) G = (mn, mx)"
    and "\<forall>g \<in> fst ` set G. 0 \<le> counts g \<and> counts g < 257"
  shows "(mn = 257 \<and> G = [] \<or> mn \<in> counts ` fst ` set G) \<and> (mx = 0 \<or> mx \<in> counts ` fst ` set G)"
  using assms
proof (induction G arbitrary: mn mx rule: rev_induct)
  case (snoc x G)
  obtain mn' mx' where f: "foldl (\<lambda>(mn, mx) (g, _).
      let mx = (if counts g > mx then counts g else mx);
          mn = (if counts g < mn then counts g else mn)
      in (mn, mx)) (257, 0) G = (mn', mx')"
    by (rule prod.exhaust)
  from snoc.IH [OF f] snoc.prems f show ?case
    by (cases x) (auto simp: Let_def split: if_splits)
qed simp

lemma CheckConfig_passes:
  assumes "sc_wf c" and "sc_Groups c = [] \<or> balanced c"
    and "distinct gs" and "set gs = gids c"
  shows "CheckConfig c gs = Inr ()"
proof -
  have "length (sc_Groups c) = card (gids c)"
    using assms(1) distinct_card [of "map fst (sc_Groups c)"] by (simp add: sc_wf_def)
  moreover have "length gs = card (gids c)" using assms(3,4) distinct_card by metis
  ultimately have len: "length (sc_Groups c) = length gs" by simp
  have members: "length gs > 0 \<Longrightarrow> g \<in> set (sc_Shards c) \<Longrightarrow> g \<in> gids c" for g
    using assms(2) len by (auto simp: balanced_def)
  obtain mn mx where f: "foldl (\<lambda>(mn, mx) (g, _).
      let mx = (if load c g > mx then load c g else mx);
          mn = (if load c g < mn then load c g else mn)
      in (mn, mx)) (257, 0) (sc_Groups c) = (mn, mx)" by (rule prod.exhaust)
  have ext: "(mn = 257 \<and> sc_Groups c = [] \<or> mn \<in> load c ` gids c) \<and> (mx = 0 \<or> mx \<in> load c ` gids c)"
    using load_bound [OF assms(1)] by (intro check_scan [OF f]) simp
  have "mx \<le> mn + 1"
  proof (cases "sc_Groups c = []")
    case True
    with ext show ?thesis by auto
  next
    case False
    with assms(2) have "\<forall>g \<in> gids c. \<forall>h \<in> gids c. load c g \<le> load c h + 1" by (simp add: balanced_def)
    with ext False show ?thesis by fastforce
  qed
  with f len members assms(4) show ?thesis
    unfolding CheckConfig_def Let_def [of "load c"] by (auto simp: map_of_eq_None_iff)
qed

text \<open>
  C14: \<open>JoinBalance\<close> keeps every promise of \<open>CheckConfig\<close>. When the groups to add are acceptable, the call
  returns a configuration with the next number, which the tests' own check accepts for exactly the old
  groups and the new ones.
\<close>

theorem join_balance_checks:
  assumes "sc_wf c" and "distinct (map fst servers)" and "Join servers c = Inr d"
    and "distinct gs" and "set gs = gids c \<union> fst ` set servers"
  shows "\<exists>c'. JoinBalance servers c = Some (Inr c') \<and> sc_wf c' \<and> sc_Num c' = sc_Num c + 1 \<and>
    CheckConfig c' gs = Inr ()"
proof -
  have join: "servers \<noteq> []" "fst ` set servers \<inter> gids c = {}"
    and d: "d = c\<lparr>sc_Num := sc_Num c + 1, sc_Groups := sc_Groups c @ servers\<rparr>"
    using assms(3) by (auto simp: Join_def Join_loop_spec [OF assms(2)] split: if_splits)
  have "sc_wf d" using assms(1,2) join d by (auto simp: sc_wf_def)
  moreover have "sc_Groups d \<noteq> []" using join d by simp
  ultimately obtain c' where c': "Rebalance d = Some c'" "sc_Num c' = sc_Num d" "sc_Groups c' = sc_Groups d"
    "sc_wf c'" "balanced c'" by (rule Rebalance_ok)
  have "CheckConfig c' gs = Inr ()"
    using c' assms(4,5) d by (intro CheckConfig_passes) (auto simp: image_Un)
  with c' assms(3) d show ?thesis by (simp add: JoinBalance_def)
qed

theorem join_balance_checks_witness:
  "\<exists>c'. JoinBalance [(3, [''c''])] two_groups = Some (Inr c') \<and> sc_Num c' = 2 \<and>
     CheckConfig c' [3, 2, 1] = Inr ()"
proof -
  have "Join [(3, [''c''])] two_groups =
     Inr (two_groups\<lparr>sc_Num := 2, sc_Groups := [(1, [''a'']), (2, [''b'']), (3, [''c''])]\<rparr>)"
    by (simp add: Join_def two_groups_def)
  from join_balance_checks [OF two_groups_wf(1) _ this, of "[3, 2, 1]"] show ?thesis
    by (auto simp: two_groups_def)
qed

text \<open>
  \<open>LeaveBalance\<close> keeps every promise of \<open>CheckConfig\<close>, also when the last group leaves.
\<close>

lemma leave_balance_checks:
  assumes "sc_wf c" and "Leave gone c = Inr d"
    and "distinct gs" and "set gs = gids c - set gone"
  shows "\<exists>c'. LeaveBalance gone c = Some (Inr c') \<and> sc_wf c' \<and> sc_Num c' = sc_Num c + 1 \<and>
    CheckConfig c' gs = Inr ()"
proof -
  have d: "d = c\<lparr>sc_Num := sc_Num c + 1, sc_Groups := filter (\<lambda>(g, _). g \<notin> set gone) (sc_Groups c)\<rparr>"
    using assms(2) by (auto simp: Leave_def Leave_loop_spec split: if_splits)
  have wf: "sc_wf d" using assms(1) d by (auto simp: sc_wf_def distinct_map_filter)
  have keys: "gids d = gids c - set gone" using d by auto
  show ?thesis
  proof (cases "sc_Groups d = []")
    case True
    let ?c = "d\<lparr>sc_Shards := map (\<lambda>_. 0) (sc_Shards d)\<rparr>"
    have "Rebalance d = Some ?c" using True by (simp add: Rebalance_def)
    moreover have "sc_wf ?c" using wf by simp
    moreover have "CheckConfig ?c gs = Inr ()"
      using wf True assms(3,4) keys by (intro CheckConfig_passes) auto
    ultimately show ?thesis using assms(2) d by (simp add: LeaveBalance_def)
  next
    case False
    with wf obtain c' where c': "Rebalance d = Some c'" "sc_Num c' = sc_Num d" "sc_Groups c' = sc_Groups d"
      "sc_wf c'" "balanced c'" by (rule Rebalance_ok)
    have "CheckConfig c' gs = Inr ()"
      using c' assms(3,4) keys by (intro CheckConfig_passes) auto
    with c' assms(2) d show ?thesis by (simp add: LeaveBalance_def)
  qed
qed

lemma leave_balance_checks_example:
  "\<exists>c'. LeaveBalance [1, 2] two_groups = Some (Inr c') \<and> sc_Num c' = 2 \<and> CheckConfig c' [] = Inr ()"
proof -
  have "Leave [1, 2] two_groups = Inr (two_groups\<lparr>sc_Num := 2, sc_Groups := []\<rparr>)"
    by (simp add: Leave_def two_groups_def)
  from leave_balance_checks [OF two_groups_wf(1) this, of "[]"] show ?thesis
    by (auto simp: two_groups_def)
qed

lemma Key2Shard_range: "0 \<le> Key2Shard key \<and> Key2Shard key < int NShards"
  by (simp add: Key2Shard_def NShards_def)

text \<open>
  Routing works after balancing. In a balanced configuration every key's shard is a valid index, so
  \<open>GidServers\<close> does not panic, and it returns a group of the configuration with that group's servers.
\<close>

lemma every_key_is_served:
  assumes "sc_wf c" and "sc_Groups c \<noteq> []" and "Rebalance c = Some c'"
  shows "\<exists>gid srvs. GidServers c' (Key2Shard key) = Inr (gid, srvs, True) \<and>
    map_of (sc_Groups c) gid = Some srvs \<and> IsMember c' gid"
proof -
  have ok: "sc_Groups c' = sc_Groups c" "sc_wf c'" "balanced c'"
    using Rebalance_ok [OF assms(1,2)] assms(3) by (metis option.inject)+
  let ?sh = "Key2Shard key"
  have sh: "0 \<le> ?sh" "?sh < int (length (sc_Shards c'))"
    using Key2Shard_range ok(2) by (simp_all add: sc_wf_def)
  let ?g = "sc_Shards c' ! nat ?sh"
  have mem: "?g \<in> set (sc_Shards c')" using sh by (intro nth_mem) linarith
  then have "?g \<in> gids c" using ok by (auto simp: balanced_def)
  then obtain srvs where srvs: "map_of (sc_Groups c) ?g = Some srvs"
    by (metis map_of_eq_None_iff option.exhaust)
  have "IsMember_loop ss g \<longleftrightarrow> g \<in> set ss" for ss g by (induction ss) auto
  then have "IsMember c' ?g" using mem by (simp add: IsMember_def)
  then show ?thesis using srvs ok(1) sh by (simp add: GidServers_def slice_get_def)
qed

lemma every_key_is_served_example:
  "\<exists>c' gid srvs. Rebalance two_groups = Some c' \<and>
     GidServers c' (Key2Shard ''x'') = Inr (gid, srvs, True) \<and> map_of (sc_Groups two_groups) gid = Some srvs"
proof -
  obtain c' where c': "Rebalance two_groups = Some c'" using two_groups_wf by (rule Rebalance_ok)
  from every_key_is_served [OF two_groups_wf this, of "''x''"] c' show ?thesis by blast
qed

end
