(* ===== verification/GoJson.thy ===== *)
theory GoJson
  imports GoStrings
begin

text \<open>
  The part of Go's \<open>encoding/json\<close> that the key/value tests use: the text of a structure with two integer fields and of a
  slice of such structures. Decoding is defined on the text that encoding produces; the tests decode no other text, and
  any other text is an error here.
\<close>

definition json_name :: "string \<Rightarrow> string" where
  "json_name n = CHR 0x22 # n @ [CHR 0x22, CHR '':'']"

text \<open>\<open>a\<close> and \<open>b\<close> are the names of the two fields.\<close>

definition json_pair :: "string \<Rightarrow> string \<Rightarrow> int \<times> int \<Rightarrow> string" where
  "json_pair a b = (\<lambda>(x, y). ''{'' @ json_name a @ strconv_Itoa x @ '','' @ json_name b @ strconv_Itoa y @ ''}'')"

definition json_pairs :: "string \<Rightarrow> string \<Rightarrow> (int \<times> int) list \<Rightarrow> string" where
  "json_pairs a b es = ''['' @ strings_Join (map (json_pair a b) es) '','' @ '']''"

section \<open>Decoding\<close>

text \<open>The decoders return the rest of the text.\<close>

definition expect_text :: "string \<Rightarrow> string \<Rightarrow> string option" where
  "expect_text lit s = (if prefix lit s then Some (drop (length lit) s) else None)"

definition parse_int :: "string \<Rightarrow> (int \<times> string) option" where
  "parse_int s =
     (let neg = (s \<noteq> [] \<and> hd s = CHR ''-'');
          t = (if neg then tl s else s);
          ds = takeWhile is_digit t;
          v = digits_value ds
      in if ds = [] then None else Some (if neg then - v else v, dropWhile is_digit t))"

definition parse_pair :: "string \<Rightarrow> string \<Rightarrow> string \<Rightarrow> ((int \<times> int) \<times> string) option" where
  "parse_pair a b s =
     Option.bind (expect_text (''{'' @ json_name a) s) (\<lambda>s.
     Option.bind (parse_int s) (\<lambda>(x, s).
     Option.bind (expect_text ('','' @ json_name b) s) (\<lambda>s.
     Option.bind (parse_int s) (\<lambda>(y, s).
     Option.bind (expect_text ''}'' s) (\<lambda>s. Some ((x, y), s))))))"

lemma expect_text_shorter: "expect_text lit s = Some t \<Longrightarrow> length t \<le> length s \<and> (lit \<noteq> [] \<longrightarrow> length t < length s)"
  by (auto simp: expect_text_def prefix_def split: if_splits)

lemma parse_int_shorter: "parse_int s = Some (x, t) \<Longrightarrow> length t \<le> length s"
  by (cases s) (auto simp: parse_int_def Let_def length_dropWhile_le le_SucI split: if_splits)

lemma parse_pair_shorter: "parse_pair a b s = Some (p, t) \<Longrightarrow> length t < length s"
  unfolding parse_pair_def
  by (auto simp: bind_eq_Some_conv dest!: expect_text_shorter parse_int_shorter)

function parse_pairs :: "string \<Rightarrow> string \<Rightarrow> string \<Rightarrow> (int \<times> int) list option" where
  "parse_pairs a b s =
     (case parse_pair a b s of
        None \<Rightarrow> None
      | Some (p, t) \<Rightarrow>
          (case expect_text '','' t of
             Some u \<Rightarrow> map_option ((#) p) (parse_pairs a b u)
           | None \<Rightarrow> if t = '']'' then Some [p] else None))"
  by pat_completeness auto
termination
  by (relation "measure (\<lambda>(a, b, s). length s)") (auto dest!: parse_pair_shorter expect_text_shorter)

declare parse_pairs.simps [simp del]

definition unjson_pair :: "string \<Rightarrow> string \<Rightarrow> string \<Rightarrow> (int \<times> int) option" where
  "unjson_pair a b s = (case parse_pair a b s of Some (p, []) \<Rightarrow> Some p | _ \<Rightarrow> None)"

definition unjson_pairs :: "string \<Rightarrow> string \<Rightarrow> string \<Rightarrow> (int \<times> int) list option" where
  "unjson_pairs a b s = (if s = ''[]'' then Some [] else Option.bind (expect_text ''['' s) (parse_pairs a b))"

section \<open>Round trips\<close>

lemma expect_text_append [simp]: "expect_text lit (lit @ s) = Some s"
  by (simp add: expect_text_def)

lemma parse_int_Itoa:
  assumes "s = [] \<or> \<not> is_digit (hd s)"
  shows "parse_int (strconv_Itoa x @ s) = Some (x, s)"
proof -
  have all: "list_all is_digit (digits n)" for n using digits_are_digits by (auto simp: list_all_iff)
  have tw: "takeWhile is_digit (digits n @ s) = digits n" "dropWhile is_digit (digits n @ s) = s" for n
    using assms all [of n] by (auto simp: list_all_iff takeWhile_append2 dropWhile_append2 takeWhile_eq_Nil_iff)
      (cases s; simp)+
  show ?thesis
  proof (cases "x < 0")
    case True
    then show ?thesis using tw by (simp add: parse_int_def strconv_Itoa_def digits_value_digits)
  next
    case False
    have "hd (digits n @ s) \<noteq> CHR ''-''" for n
      using digits_clean(1) [of n] by (cases "digits n") auto
    with False tw show ?thesis by (auto simp: parse_int_def strconv_Itoa_def digits_value_digits)
  qed
qed

lemma parse_pair_json: "parse_pair a b (json_pair a b p @ s) = Some (p, s)"
proof -
  obtain x y where p: "p = (x, y)" by (cases p)
  have e: "expect_text (''{'' @ json_name a) ((''{'' @ json_name a) @ t) = Some t"
    "expect_text ('','' @ json_name b) (('','' @ json_name b) @ t) = Some t" for t
    by (rule expect_text_append)+
  have i: "parse_int (strconv_Itoa x @ ('','' @ json_name b) @ t) = Some (x, ('','' @ json_name b) @ t)"
    "parse_int (strconv_Itoa y @ ''}'' @ t) = Some (y, ''}'' @ t)" for t
    by (rule parse_int_Itoa; simp add: is_digit_def)+
  have "json_pair a b p @ s =
      (''{'' @ json_name a) @ strconv_Itoa x @ ('','' @ json_name b) @ strconv_Itoa y @ ''}'' @ s"
    by (simp add: p json_pair_def)
  then show ?thesis unfolding parse_pair_def by (simp only: e i Option.bind.simps prod.case expect_text_append p)
qed

lemma unjson_json_pair [simp]: "unjson_pair a b (json_pair a b p) = Some p"
  using parse_pair_json [of a b p "[]"] by (simp add: unjson_pair_def)

lemma parse_pairs_json: "parse_pairs a b (strings_Join (map (json_pair a b) (e # es)) '','' @ '']'') = Some (e # es)"
proof (induction es arbitrary: e)
  case Nil
  show ?case by (subst parse_pairs.simps) (simp add: parse_pair_json expect_text_def)
next
  case (Cons e' es)
  have "strings_Join (map (json_pair a b) (e # e' # es)) '','' @ '']'' =
      json_pair a b e @ '','' @ strings_Join (map (json_pair a b) (e' # es)) '','' @ '']''" by simp
  with Cons show ?case by (subst parse_pairs.simps) (simp only: parse_pair_json option.case prod.case expect_text_append option.map)
qed

lemma unjson_json_pairs [simp]: "unjson_pairs a b (json_pairs a b es) = Some es"
proof (cases es)
  case (Cons e es')
  have "json_pair a b e = ''{'' @ tl (json_pair a b e)" by (simp add: json_pair_def split: prod.split)
  then have "json_pairs a b es \<noteq> ''[]''" using Cons by (cases es') (auto simp: json_pairs_def)
  moreover have "expect_text ''['' (json_pairs a b es) = Some (strings_Join (map (json_pair a b) (e # es')) '','' @ '']'')"
    unfolding json_pairs_def Cons by (rule expect_text_append)
  ultimately show ?thesis using parse_pairs_json [of a b e es'] Cons by (simp add: unjson_pairs_def)
qed (simp add: json_pairs_def unjson_pairs_def)

end
