(* ===== verification/GoJsonValues.thy ===== *)
theory GoJsonValues
  imports GoJson
begin

text \<open>
  More of Go's \<open>encoding/json\<close>: the text of strings, with the escapes that \<open>json.Marshal\<close> writes, of slices, and of maps
  with integer keys, and decoders for them. As in \<^theory_text>\<open>GoJson\<close>, decoding is for the text that encoding produces. Strings are
  in ASCII: the special treatment of other characters is not modelled.
\<close>

section \<open>Strings\<close>

definition ascii :: "string \<Rightarrow> bool" where
  "ascii s \<longleftrightarrow> (\<forall>c \<in> set s. (of_char c :: nat) < 128)"

definition hex_digit :: "nat \<Rightarrow> char" where
  "hex_digit n = ''0123456789abcdef'' ! n"

definition hex_value :: "char \<Rightarrow> nat option" where
  "hex_value c = map_of (zip ''0123456789abcdef'' [0..<16]) c"

text \<open>The characters with an escape of two characters; control characters and three others are written as \<open>\u00xx\<close>.\<close>

definition short_escapes :: "(char \<times> char) list" where
  "short_escapes = [(CHR 0x22, CHR 0x22), (CHR 0x5C, CHR 0x5C), (CHR 0x08, CHR ''b''), (CHR 0x0C, CHR ''f''),
     (CHR 0x0A, CHR ''n''), (CHR 0x0D, CHR ''r''), (CHR 0x09, CHR ''t'')]"

definition json_char :: "char \<Rightarrow> string" where
  "json_char c =
     (case map_of short_escapes c of
        Some d \<Rightarrow> [CHR 0x5C, d]
      | None \<Rightarrow>
          if (of_char c :: nat) < 32 \<or> c \<in> {CHR ''<'', CHR ''>'', CHR ''&''}
          then CHR 0x5C # ''u00'' @ [hex_digit (of_char c div 16), hex_digit (of_char c mod 16)]
          else [c])"

definition json_string :: "string \<Rightarrow> string" where
  "json_string s = CHR 0x22 # concat (map json_char s) @ [CHR 0x22]"

fun parse_chars :: "string \<Rightarrow> (string \<times> string) option" where
  "parse_chars [] = None"
| "parse_chars (c # cs) =
     (if c = CHR 0x22 then Some ([], cs)
      else if c = CHR 0x5C
      then (case cs of
              [] \<Rightarrow> None
            | d # ds \<Rightarrow>
                if d = CHR ''u''
                then (case ds of
                        h1 # h2 # h3 # h4 # es \<Rightarrow>
                          (case (hex_value h3, hex_value h4) of
                             (Some a, Some b) \<Rightarrow>
                               if h1 = CHR ''0'' \<and> h2 = CHR ''0'' \<and> a < 8
                               then map_option (map_prod ((#) (char_of (16 * a + b))) id) (parse_chars es) else None
                           | _ \<Rightarrow> None)
                      | _ \<Rightarrow> None)
                else (case map_of (map prod.swap short_escapes) d of
                        None \<Rightarrow> None
                      | Some x \<Rightarrow> map_option (map_prod ((#) x) id) (parse_chars ds)))
      else map_option (map_prod ((#) c) id) (parse_chars cs))"

definition parse_string :: "string \<Rightarrow> (string \<times> string) option" where
  "parse_string s = Option.bind (expect_text [CHR 0x22] s) parse_chars"

lemma hex_digit_value: "n < 16 \<Longrightarrow> hex_value (hex_digit n) = Some n"
  by (simp add: less_Suc_eq eval_nat_numeral) (elim disjE; simp add: hex_value_def hex_digit_def eval_nat_numeral)

lemma short_escape_inverse:
  assumes "map_of short_escapes c = Some d"
  shows "map_of (map prod.swap short_escapes) d = Some c \<and> d \<noteq> CHR ''u''"
  using assms by (auto simp: short_escapes_def split: if_splits)

lemma parse_json_char:
  assumes "(of_char c :: nat) < 128"
  shows "parse_chars (json_char c @ s) = map_option (map_prod ((#) c) id) (parse_chars s)"
proof (cases "map_of short_escapes c")
  case (Some d)
  then show ?thesis
    using short_escape_inverse [OF Some] by (simp add: json_char_def)
next
  case None
  then have c: "c \<noteq> CHR 0x22" "c \<noteq> CHR 0x5C"
    by (auto simp: short_escapes_def split: if_splits)
  have "char_of (16 * (of_char c div 16) + of_char c mod 16 :: nat) = c"
    by (simp only: mult_div_mod_eq char_of_char)
  moreover have "(of_char c :: nat) div 16 < 8" "(of_char c :: nat) mod 16 < 16"
    using assms by simp_all
  ultimately show ?thesis
    using None c hex_digit_value [of "of_char c div 16"] hex_digit_value [of "of_char c mod 16"]
    by (simp add: json_char_def)
qed

lemma parse_json_string:
  assumes "ascii s"
  shows "parse_string (json_string s @ t) = Some (s, t)"
proof -
  have "parse_chars (concat (map json_char s) @ CHR 0x22 # t) = Some (s, t)"
    using assms by (induction s) (simp_all add: ascii_def parse_json_char)
  then show ?thesis
    using expect_text_append [of "[CHR 0x22]"] by (simp add: parse_string_def json_string_def)
qed

section \<open>Slices and maps\<close>

text \<open>A comma-separated list of elements, up to the closing bracket.\<close>

function parse_elems :: "(string \<Rightarrow> ('a \<times> string) option) \<Rightarrow> string \<Rightarrow> ('a list \<times> string) option" where
  "parse_elems p s =
     (case p s of
        None \<Rightarrow> None
      | Some (x, t) \<Rightarrow>
          (case expect_text '','' t of
             Some u \<Rightarrow> if length u < length s then map_option (map_prod ((#) x) id) (parse_elems p u) else None
           | None \<Rightarrow> Some ([x], t)))"
  by pat_completeness auto
termination
  by (relation "measure (\<lambda>(p, s). length s)") auto

declare parse_elems.simps [simp del]

definition json_list :: "string \<Rightarrow> string \<Rightarrow> ('a \<Rightarrow> string) \<Rightarrow> 'a list \<Rightarrow> string" where
  "json_list opn cls f xs = opn @ strings_Join (map f xs) '','' @ cls"

definition parse_list :: "string \<Rightarrow> string \<Rightarrow> (string \<Rightarrow> ('a \<times> string) option) \<Rightarrow> string \<Rightarrow> ('a list \<times> string) option" where
  "parse_list opn cls p s =
     Option.bind (expect_text opn s) (\<lambda>s.
       case expect_text cls s of
         Some t \<Rightarrow> Some ([], t)
       | None \<Rightarrow> Option.bind (parse_elems p s) (\<lambda>(xs, s). map_option (Pair xs) (expect_text cls s)))"

text \<open>The text of a JSON value may be followed by one of these.\<close>

definition json_rest :: "string \<Rightarrow> bool" where
  "json_rest s \<longleftrightarrow> s = [] \<or> hd s \<in> {CHR '','', CHR '']'', CHR ''}''}"

lemma parse_elems_join:
  assumes "\<And>x s. x \<in> set (x0 # xs) \<Longrightarrow> json_rest s \<Longrightarrow> p (f x @ s) = Some (x, s)"
    and "cls \<in> {'']'', ''}''}"
  shows "parse_elems p (strings_Join (map f (x0 # xs)) '','' @ cls @ s) = Some (x0 # xs, cls @ s)"
  using assms(1)
proof (induction xs arbitrary: x0)
  case Nil
  have "p (f x0 @ cls @ s) = Some (x0, cls @ s)"
    by (rule Nil) (use assms(2) in \<open>auto simp: json_rest_def\<close>)
  moreover have "expect_text '','' (cls @ s) = None"
    using assms(2) by (auto simp: expect_text_def)
  ultimately show ?case
    by (subst parse_elems.simps) simp
next
  case (Cons x1 xs)
  let ?rest = "strings_Join (map f (x1 # xs)) '','' @ cls @ s"
  have "p (f x0 @ '','' @ ?rest) = Some (x0, '','' @ ?rest)"
    by (rule Cons.prems) (simp_all add: json_rest_def)
  moreover have "parse_elems p ?rest = Some (x1 # xs, cls @ s)"
    by (rule Cons.IH) (use Cons.prems in simp)
  ultimately show ?case
    using expect_text_append [of "'',''" ?rest] by (subst parse_elems.simps) simp
qed

lemma parse_json_list:
  assumes "\<And>x s. x \<in> set xs \<Longrightarrow> json_rest s \<Longrightarrow> p (f x @ s) = Some (x, s)"
    and first: "\<And>x. x \<in> set xs \<Longrightarrow> \<exists>c cs. f x = c # cs \<and> [c] \<noteq> cls"
    and "cls \<in> {'']'', ''}''}"
  shows "parse_list opn cls p (json_list opn cls f xs @ s) = Some (xs, s)"
proof (cases xs)
  case Nil
  have "expect_text cls (cls @ s) = Some s"
    by (rule expect_text_append)
  then show ?thesis
    using Nil expect_text_append [of opn] by (simp add: parse_list_def json_list_def)
next
  case (Cons x0 ys)
  let ?body = "strings_Join (map f (x0 # ys)) '','' @ cls @ s"
  obtain c cs where c: "f x0 = c # cs" "[c] \<noteq> cls"
    using first Cons by fastforce
  then obtain ds where "?body = c # ds"
    by (cases ys) auto
  then have "expect_text cls ?body = None"
    using c(2) assms(3) by (auto simp: expect_text_def)
  moreover have "parse_elems p ?body = Some (x0 # ys, cls @ s)"
    by (rule parse_elems_join) (use assms Cons in auto)
  moreover have "expect_text opn (json_list opn cls f xs @ s) = Some ?body"
    unfolding json_list_def Cons using expect_text_append [of opn ?body] by simp
  ultimately show ?thesis
    using expect_text_append [of cls s] Cons by (simp add: parse_list_def)
qed

text \<open>Slices of strings, and maps from integers to such slices: the keys are written as strings, in their order as strings.\<close>

definition json_strings :: "string list \<Rightarrow> string" where
  "json_strings = json_list ''['' '']'' json_string"

definition parse_strings :: "string \<Rightarrow> (string list \<times> string) option" where
  "parse_strings = parse_list ''['' '']'' parse_string"

definition json_entry :: "int \<times> string list \<Rightarrow> string" where
  "json_entry = (\<lambda>(k, v). json_name (strconv_Itoa k) @ json_strings v)"

definition parse_entry :: "string \<Rightarrow> ((int \<times> string list) \<times> string) option" where
  "parse_entry s =
     Option.bind (expect_text [CHR 0x22] s) (\<lambda>s.
     Option.bind (parse_int s) (\<lambda>(k, s).
     Option.bind (expect_text [CHR 0x22, CHR '':''] s) (\<lambda>s.
     Option.bind (parse_strings s) (\<lambda>(v, s). Some ((k, v), s)))))"

definition json_map :: "(int \<times> string list) list \<Rightarrow> string" where
  "json_map m = json_list ''{'' ''}'' json_entry (sort_key (\<lambda>(k, v). strconv_Itoa k) m)"

definition parse_map :: "string \<Rightarrow> ((int \<times> string list) list \<times> string) option" where
  "parse_map = parse_list ''{'' ''}'' parse_entry"

lemma parse_json_strings:
  assumes "\<forall>s \<in> set ss. ascii s"
  shows "parse_strings (json_strings ss @ t) = Some (ss, t)"
  unfolding parse_strings_def json_strings_def
  by (rule parse_json_list) (use assms in \<open>auto simp: parse_json_string, simp add: json_string_def\<close>)

lemma parse_json_entry:
  assumes "\<forall>s \<in> set v. ascii s"
  shows "parse_entry (json_entry (k, v) @ t) = Some ((k, v), t)"
proof -
  have "json_entry (k, v) @ t = [CHR 0x22] @ strconv_Itoa k @ [CHR 0x22, CHR '':''] @ json_strings v @ t"
    by (simp add: json_entry_def json_name_def)
  moreover have "parse_int (strconv_Itoa k @ [CHR 0x22, CHR '':''] @ json_strings v @ t) = Some (k, [CHR 0x22, CHR '':''] @ json_strings v @ t)"
    by (rule parse_int_Itoa) (simp add: is_digit_def)
  ultimately show ?thesis
    unfolding parse_entry_def by (simp only: expect_text_append Option.bind.simps prod.case parse_json_strings [OF assms])
qed

lemma parse_json_map:
  assumes "\<forall>(k, v) \<in> set m. \<forall>s \<in> set v. ascii s"
  shows "parse_map (json_map m @ t) = Some (sort_key (\<lambda>(k, v). strconv_Itoa k) m, t)"
  unfolding parse_map_def json_map_def
  by (rule parse_json_list) (use assms in \<open>auto simp: parse_json_entry, auto simp: json_entry_def json_name_def\<close>)

end
