(* ===== verification/ShardString.thy ===== *)
theory ShardString
  imports ShardCfg GoJsonValues
begin

text \<open>
  The text of a shard configuration, which the shard controller stores under a key: \<open>String\<close> and \<open>FromString\<close> of
  \<^verbatim>\<open>src/shardkv1/shardcfg/shardcfg.go\<close>; and the type invariant of configurations that all operations keep.
\<close>

section \<open>The text of a configuration\<close>

definition ShardConfig_String :: "ShardConfig \<Rightarrow> string" where
  "ShardConfig_String cfg =
     ''{'' @ json_name ''Num'' @ strconv_Itoa (sc_Num cfg) @
     '','' @ json_name ''Shards'' @ json_list ''['' '']'' strconv_Itoa (sc_Shards cfg) @
     '','' @ json_name ''Groups'' @ json_map (sc_Groups cfg) @ ''}''"

text \<open>Decoding into an array drops elements that do not fit and leaves zeros where there are too few.\<close>

definition parse_config :: "string \<Rightarrow> (ShardConfig \<times> string) option" where
  "parse_config s =
     Option.bind (expect_text (''{'' @ json_name ''Num'') s) (\<lambda>s.
     Option.bind (parse_int s) (\<lambda>(num, s).
     Option.bind (expect_text ('','' @ json_name ''Shards'') s) (\<lambda>s.
     Option.bind (parse_list ''['' '']'' parse_int s) (\<lambda>(shards, s).
     Option.bind (expect_text ('','' @ json_name ''Groups'') s) (\<lambda>s.
     Option.bind (parse_map s) (\<lambda>(groups, s).
     Option.bind (expect_text ''}'' s) (\<lambda>s.
     Some (\<lparr>sc_Num = num, sc_Shards = take NShards (shards @ replicate NShards 0), sc_Groups = groups\<rparr>, s))))))))"

definition FromString :: "string \<Rightarrow> ShardConfig go" where
  "FromString s = (case parse_config s of Some (scfg, []) \<Rightarrow> Inr scfg | _ \<Rightarrow> Inl Fatal)"

abbreviation ascii_servers :: "ShardConfig \<Rightarrow> bool" where
  "ascii_servers c \<equiv> \<forall>(g, ss) \<in> set (sc_Groups c). \<forall>s \<in> set ss. ascii s"

abbreviation sort_groups :: "(Tgid \<times> string list) list \<Rightarrow> (Tgid \<times> string list) list" where
  "sort_groups \<equiv> sort_key (\<lambda>(k, v). strconv_Itoa k)"

lemma Itoa_inj: "strconv_Itoa x = strconv_Itoa y \<Longrightarrow> x = y"
  using parse_int_Itoa [of "[]" x] parse_int_Itoa [of "[]" y] by simp

lemma Itoa_first: "\<exists>c cs. strconv_Itoa x = c # cs \<and> (is_digit c \<or> c = CHR ''-'')"
proof -
  have "\<exists>c cs. digits n = c # cs \<and> is_digit c" for n
    using digits_are_digits [of _ n] by (cases "digits n") auto
  then show ?thesis
    by (fastforce simp: strconv_Itoa_def)
qed

lemma parse_json_ints: "parse_list ''['' '']'' parse_int (json_list ''['' '']'' strconv_Itoa xs @ s) = Some (xs, s)"
proof (rule parse_json_list)
  show "parse_int (strconv_Itoa x @ s) = Some (x, s)" if "json_rest s" for x s
    using that by (intro parse_int_Itoa) (auto simp: json_rest_def is_digit_def)
  show "\<exists>c cs. strconv_Itoa x = c # cs \<and> [c] \<noteq> '']''" for x
    using Itoa_first [of x] by (auto simp: is_digit_def)
qed simp

lemma FromString_String:
  assumes "sc_wf c" and "ascii_servers c"
  shows "FromString (ShardConfig_String c) = Inr (c\<lparr>sc_Groups := sort_groups (sc_Groups c)\<rparr>)"
proof -
  have txt_eq: "ShardConfig_String c = (''{'' @ json_name ''Num'') @ strconv_Itoa (sc_Num c) @
     ('','' @ json_name ''Shards'') @ json_list ''['' '']'' strconv_Itoa (sc_Shards c) @
     ('','' @ json_name ''Groups'') @ json_map (sc_Groups c) @ ''}'' @ []"
    by (simp add: ShardConfig_String_def)
  have num: "parse_int (strconv_Itoa x @ ('','' @ u) @ t) = Some (x, ('','' @ u) @ t)" for x t u
    by (rule parse_int_Itoa) (simp add: is_digit_def)
  have "parse_config (ShardConfig_String c) =
      Some (\<lparr>sc_Num = sc_Num c, sc_Shards = take NShards (sc_Shards c @ replicate NShards 0), sc_Groups = sort_groups (sc_Groups c)\<rparr>, [])"
    unfolding parse_config_def txt_eq
    by (simp only: expect_text_append num Option.bind.simps prod.case parse_json_ints parse_json_map [OF assms(2)])
  then show ?thesis
    using assms(1) by (simp add: FromString_def sc_wf_def)
qed

lemma sort_groups_same:
  assumes "distinct (map fst G)" and "distinct (map fst H)" and "map_of G = map_of H"
  shows "sort_groups G = sort_groups H"
proof -
  have "set G = set H"
    using assms by (simp add: map_of_inject_set)
  moreover have "distinct G" "distinct H"
    using assms(1,2) by (auto simp: distinct_map)
  ultimately have "mset G = mset H"
    by (simp add: set_eq_iff_mset_eq_distinct)
  moreover have "inj_on (\<lambda>(k, v). strconv_Itoa k) (set G)"
    using assms(1) by (fastforce simp: inj_on_def distinct_map dest!: Itoa_inj)
  ultimately show ?thesis
    by (intro sort_key_inj_key_eq) simp_all
qed

lemma sort_groups_map:
  assumes "distinct (map fst G)"
  shows "distinct (map fst (sort_groups G))" and "map_of (sort_groups G) = map_of G"
proof -
  have "mset (map fst (sort_groups G)) = mset (map fst G)"
    by simp
  then show d: "distinct (map fst (sort_groups G))"
    using assms mset_eq_imp_distinct_iff by blast
  then show "map_of (sort_groups G) = map_of G"
    using assms by (simp add: map_of_inject_set)
qed

text \<open>
  C19: A configuration survives being stored as a string. For configurations with \<open>NShards\<close> shards and ASCII server
  names, \<open>FromString\<close> reads what \<open>String\<close> wrote without error: the same number, the same shards, and the same map of
  groups. Two configurations have the same string exactly when they agree in these, in whatever order Go iterates over
  their maps.
\<close>

theorem config_string_roundtrip:
  assumes "sc_wf c" and "ascii_servers c" and "sc_wf d" and "ascii_servers d"
  shows "(\<exists>c'. FromString (ShardConfig_String c) = Inr c' \<and> sc_wf c' \<and> sc_Num c' = sc_Num c \<and> sc_Shards c' = sc_Shards c \<and>
      map_of (sc_Groups c') = map_of (sc_Groups c)) \<and>
    (ShardConfig_String c = ShardConfig_String d \<longleftrightarrow>
      sc_Num c = sc_Num d \<and> sc_Shards c = sc_Shards d \<and> map_of (sc_Groups c) = map_of (sc_Groups d))"
proof -
  have G: "distinct (map fst (sc_Groups c))" "distinct (map fst (sc_Groups d))"
    using assms(1,3) by (simp_all add: sc_wf_def)
  have same: "sc_Num c = sc_Num d \<and> sc_Shards c = sc_Shards d \<and> map_of (sc_Groups c) = map_of (sc_Groups d)"
    if "ShardConfig_String c = ShardConfig_String d"
  proof -
    have eq: "c\<lparr>sc_Groups := sort_groups (sc_Groups c)\<rparr> = d\<lparr>sc_Groups := sort_groups (sc_Groups d)\<rparr>"
      using that FromString_String [OF assms(1,2)] FromString_String [OF assms(3,4)] by simp
    have "sc_Num c = sc_Num d" "sc_Shards c = sc_Shards d" "sort_groups (sc_Groups c) = sort_groups (sc_Groups d)"
      using arg_cong [OF eq, of sc_Num] arg_cong [OF eq, of sc_Shards] arg_cong [OF eq, of sc_Groups] by simp_all
    then show ?thesis
      using sort_groups_map(2) [OF G(1)] sort_groups_map(2) [OF G(2)] by simp
  qed
  have conv: "ShardConfig_String c = ShardConfig_String d"
    if "sc_Num c = sc_Num d \<and> sc_Shards c = sc_Shards d \<and> map_of (sc_Groups c) = map_of (sc_Groups d)"
    using that sort_groups_same [OF G] by (simp add: ShardConfig_String_def json_map_def)
  have "sc_wf (c\<lparr>sc_Groups := sort_groups (sc_Groups c)\<rparr>)"
    using assms(1) sort_groups_map(1) [OF G(1)] by (simp add: sc_wf_def)
  then have "\<exists>c'. FromString (ShardConfig_String c) = Inr c' \<and> sc_wf c' \<and> sc_Num c' = sc_Num c \<and> sc_Shards c' = sc_Shards c \<and>
      map_of (sc_Groups c') = map_of (sc_Groups c)"
    using FromString_String [OF assms(1,2)] sort_groups_map(2) [OF G(1)] by simp
  then show ?thesis
    using same conv by blast
qed

text \<open>Two orders of the same map: their strings are the same.\<close>

theorem config_string_roundtrip_witness:
  "ShardConfig_String two_groups = ShardConfig_String (two_groups\<lparr>sc_Groups := rev (sc_Groups two_groups)\<rparr>) \<and>
   (\<exists>c'. FromString (ShardConfig_String two_groups) = Inr c' \<and> map_of (sc_Groups c') 1 = Some [''a''])"
proof -
  let ?d = "two_groups\<lparr>sc_Groups := rev (sc_Groups two_groups)\<rparr>"
  have wf: "sc_wf two_groups" "sc_wf ?d"
    by (simp_all add: sc_wf_def two_groups_def NShards_def)
  have names: "ascii_servers two_groups" "ascii_servers ?d"
    by (simp_all add: two_groups_def ascii_def)
  have "map_of (sc_Groups two_groups) = map_of (sc_Groups ?d)" "map_of (sc_Groups two_groups) 1 = Some [''a'']"
    by (auto simp: two_groups_def fun_eq_iff)
  then show ?thesis
    using config_string_roundtrip [OF wf(1) names(1) wf(2) names(2)] by auto
qed

section \<open>The type of configurations\<close>

text \<open>
  What every configuration satisfies: it assigns all shards, has one entry for each group, and no server is in two groups.
\<close>

definition sc_typed :: "ShardConfig \<Rightarrow> bool" where
  "sc_typed c \<longleftrightarrow> sc_wf c \<and> 0 \<le> sc_Num c \<and>
     (\<forall>g ss h ts. (g, ss) \<in> set (sc_Groups c) \<longrightarrow> (h, ts) \<in> set (sc_Groups c) \<longrightarrow> g \<noteq> h \<longrightarrow> set ss \<inter> set ts = {})"

text \<open>The configurations that the operations can make; the servers to join are a map, so each group is there once.\<close>

inductive config_made :: "ShardConfig \<Rightarrow> bool" where
  made_new: "config_made MakeShardConfig"
| made_copy: "config_made c \<Longrightarrow> config_made (Copy c)"
| made_join: "config_made c \<Longrightarrow> distinct (map fst servers) \<Longrightarrow> Join servers c = Inr c' \<Longrightarrow> config_made c'"
| made_leave: "config_made c \<Longrightarrow> Leave gs c = Inr c' \<Longrightarrow> config_made c'"
| made_rebalance: "config_made c \<Longrightarrow> Rebalance c = Some c' \<Longrightarrow> config_made c'"
| made_join_balance: "config_made c \<Longrightarrow> distinct (map fst servers) \<Longrightarrow> JoinBalance servers c = Some (Inr c') \<Longrightarrow> config_made c'"
| made_leave_balance: "config_made c \<Longrightarrow> LeaveBalance gs c = Some (Inr c') \<Longrightarrow> config_made c'"
| made_stored: "config_made c \<Longrightarrow> ascii_servers c \<Longrightarrow> FromString (ShardConfig_String c) = Inr c' \<Longrightarrow> config_made c'"

lemma sc_typed_groups:
  assumes "sc_typed c" and "set (sc_Groups c') \<subseteq> set (sc_Groups c)" and "distinct (map fst (sc_Groups c'))"
    and "length (sc_Shards c') = NShards" and "0 \<le> sc_Num c'"
  shows "sc_typed c'"
  using assms unfolding sc_typed_def sc_wf_def by fast

lemma sc_typed_Join:
  assumes "sc_typed c" and "distinct (map fst servers)" and "Join servers c = Inr c'"
  shows "sc_typed c'"
proof -
  have c': "c' = c\<lparr>sc_Groups := sc_Groups c @ servers, sc_Num := sc_Num c + 1\<rparr>"
    and new: "fst ` set servers \<inter> gids c = {}" "no_clash (sc_Groups c) servers"
    using assms(3) by (auto simp: Join_def Join_loop_spec [OF assms(2)] split: if_splits)
  have "set ss \<inter> set ts = {}"
    if "(g, ss) \<in> set (sc_Groups c @ servers)" "(h, ts) \<in> set (sc_Groups c @ servers)" "g \<noteq> h" for g ss h ts
  proof (cases "(g, ss) \<in> set servers \<or> (h, ts) \<in> set servers")
    case True
    have nc: "set ss \<inter> set ts = {}" if "(g, ss) \<in> set servers" "(h, ts) \<in> set (sc_Groups c @ servers)" "h \<noteq> g" for g ss h ts
      using bspec [OF bspec [OF new(2) [unfolded no_clash_def] that(1), simplified], of "(h, ts)"] that(2,3) by simp
    show ?thesis
      using True nc [of g ss h ts] nc [of h ts g ss] that by (auto simp: Int_commute)
  next
    case False
    then show ?thesis
      using assms(1) that unfolding sc_typed_def by (metis Un_iff set_append)
  qed
  moreover have "sc_wf c' \<and> 0 \<le> sc_Num c'"
    using assms(1,2) new(1) c' by (auto simp: sc_typed_def sc_wf_def)
  ultimately show ?thesis
    using c' by (simp add: sc_typed_def)
qed

lemma sc_typed_Leave:
  assumes "sc_typed c" and "Leave gs c = Inr c'"
  shows "sc_typed c'"
proof -
  have c': "c' = c\<lparr>sc_Groups := filter (\<lambda>(g, _). g \<notin> set gs) (sc_Groups c), sc_Num := sc_Num c + 1\<rparr>"
    using assms(2) by (auto simp: Leave_def Leave_loop_spec split: if_splits)
  show ?thesis
    by (rule sc_typed_groups [OF assms(1)]) (use assms(1) c' in \<open>auto simp: sc_typed_def sc_wf_def distinct_map_filter\<close>)
qed

lemma sc_typed_Rebalance:
  assumes "sc_typed c" and "Rebalance c = Some c'"
  shows "sc_typed c'"
proof (cases "sc_Groups c = []")
  case True
  then have "c' = c\<lparr>sc_Shards := map (\<lambda>_. 0) (sc_Shards c)\<rparr>"
    using assms(2) by (simp add: Rebalance_def)
  then show ?thesis
    using assms(1) True by (simp add: sc_typed_def sc_wf_def)
next
  case False
  have "sc_wf c"
    using assms(1) by (simp add: sc_typed_def)
  with False assms(2) have "sc_Num c' = sc_Num c \<and> sc_Groups c' = sc_Groups c \<and> sc_wf c'"
    by (metis Rebalance_ok option.inject)
  then show ?thesis
    using assms(1) by (simp add: sc_typed_def)
qed

lemma Copy_groups:
  assumes "distinct (map fst (sc_Groups c))"
  shows "Copy c = c"
proof -
  have "foldl (\<lambda>c (k, srvs). c\<lparr>sc_Groups := AList.update k srvs (sc_Groups c)\<rparr>) b G = b\<lparr>sc_Groups := sc_Groups b @ G\<rparr>"
    if "distinct (map fst (sc_Groups b @ G))" for b G
    using that
  proof (induction G arbitrary: b)
    case (Cons kv G)
    obtain k v where kv: "kv = (k, v)"
      by (cases kv)
    have "AList.update k v (sc_Groups b) = sc_Groups b @ [(k, v)]"
      using Cons.prems by (intro update_new) (auto simp: kv)
    then show ?case
      using Cons.IH [of "b\<lparr>sc_Groups := sc_Groups b @ [(k, v)]\<rparr>"] Cons.prems by (simp add: kv)
  qed simp
  from this [of "MakeShardConfig\<lparr>sc_Num := sc_Num c, sc_Shards := sc_Shards c\<rparr>" "sc_Groups c"] show ?thesis
    using assms by (simp add: Copy_def MakeShardConfig_def Let_def)
qed

text \<open>
  C17: Every configuration that the package can make is well typed. Whatever sequence of operations makes it (a new
  one, \<open>Copy\<close>, \<open>Join\<close>, \<open>Leave\<close>, \<open>Rebalance\<close>, \<open>JoinBalance\<close>, \<open>LeaveBalance\<close>, or reading back its string), it assigns
  exactly \<open>NShards\<close> shards, has one entry for each group, lists no server in two groups, and its number is not negative.
\<close>

theorem configs_well_typed:
  assumes "config_made c"
  shows "sc_typed c"
  using assms
proof induction
  case made_new
  show ?case by (simp add: sc_typed_def sc_wf_def MakeShardConfig_def)
next
  case (made_copy c)
  then show ?case by (simp add: Copy_groups sc_typed_def sc_wf_def)
next
  case (made_join_balance c servers c')
  then show ?case
    by (auto simp: JoinBalance_def split: sum.splits dest: sc_typed_Join intro: sc_typed_Rebalance)
next
  case (made_leave_balance c gs c')
  then show ?case
    by (auto simp: LeaveBalance_def split: sum.splits dest: sc_typed_Leave intro: sc_typed_Rebalance)
next
  case (made_stored c c')
  then have wf: "sc_wf c"
    by (simp add: sc_typed_def)
  then have c': "c' = c\<lparr>sc_Groups := sort_groups (sc_Groups c)\<rparr>"
    using made_stored FromString_String by simp
  show ?case
    by (rule sc_typed_groups [OF made_stored.IH]) (use wf c' made_stored.IH sort_groups_map in \<open>auto simp: sc_wf_def sc_typed_def\<close>)
qed (auto intro: sc_typed_Join sc_typed_Leave sc_typed_Rebalance)

theorem configs_well_typed_witness:
  "config_made (MakeShardConfig\<lparr>sc_Num := 1, sc_Groups := [(1, [''a'', ''b''])]\<rparr>) \<and>
   sc_typed (MakeShardConfig\<lparr>sc_Num := 1, sc_Groups := [(1, [''a'', ''b''])]\<rparr>)"
proof -
  have "Join [(1, [''a'', ''b''])] MakeShardConfig = Inr (MakeShardConfig\<lparr>sc_Num := 1, sc_Groups := [(1, [''a'', ''b''])]\<rparr>)"
    by (simp add: Join_def MakeShardConfig_def)
  from made_join [OF made_new _ this] show ?thesis
    using configs_well_typed by simp
qed

end
