(* ===== verification/GoFiles.thy ===== *)
theory GoFiles
  imports GoStrings "HOL-Library.AList"
begin

text \<open>
  A directory of files, as the MapReduce programs use it through \<open>os\<close>, \<open>io/ioutil\<close> and
  \<open>path/filepath\<close>. A directory maps names to contents; the only error modelled is a missing file.
\<close>

type_synonym dir = "(string \<times> string) list"

text \<open>\<open>os.Open\<close> and \<open>ioutil.ReadAll\<close>; \<open>None\<close> is an error.\<close>

definition read_file :: "dir \<Rightarrow> string \<Rightarrow> string option" where
  "read_file d f = map_of d f"

text \<open>\<open>os.OpenFile\<close> with \<open>O_APPEND|O_WRONLY|O_CREATE\<close>, one write, \<open>Close\<close>.\<close>

definition append_file :: "dir \<Rightarrow> string \<Rightarrow> string \<Rightarrow> dir" where
  "append_file d f txt = AList.update f (case map_of d f of None \<Rightarrow> txt | Some old \<Rightarrow> old @ txt) d"

text \<open>\<open>os.Create\<close>, writes, \<open>Close\<close>: the old contents are lost.\<close>

definition write_file :: "dir \<Rightarrow> string \<Rightarrow> string \<Rightarrow> dir" where
  "write_file d f txt = AList.update f txt d"

definition os_Remove :: "dir \<Rightarrow> string \<Rightarrow> dir option" where
  "os_Remove d f = (if map_of d f = None then None else Some (AList.delete f d))"

text \<open>\<open>os.Rename\<close> replaces a file that has the new name.\<close>

definition os_Rename :: "dir \<Rightarrow> string \<Rightarrow> string \<Rightarrow> dir option" where
  "os_Rename d old new =
     (case map_of d old of
        None \<Rightarrow> None
      | Some txt \<Rightarrow> Some (AList.update new txt (AList.delete old d)))"

text \<open>Matching a file name: \<open>*\<close> stands for any bytes other than the separator.\<close>

fun glob_match :: "string \<Rightarrow> string \<Rightarrow> bool" where
  "glob_match [] [] = True"
| "glob_match [] (c # s) = False"
| "glob_match (p # ps) [] = (p = CHR ''*'' \<and> glob_match ps [])"
| "glob_match (p # ps) (c # s) =
     (if p = CHR ''*'' then glob_match ps (c # s) \<or> (c \<noteq> CHR ''/'' \<and> glob_match (p # ps) s)
      else p = c \<and> glob_match ps s)"

text \<open>\<open>filepath.Glob\<close> returns the matching names in increasing order.\<close>

definition filepath_Glob :: "dir \<Rightarrow> string \<Rightarrow> string list" where
  "filepath_Glob d pat = sort (filter (glob_match pat) (map fst d))"

section \<open>Laws\<close>

lemma read_append_file:
  "read_file (append_file d f txt) g =
     (if g = f then Some ((case read_file d f of None \<Rightarrow> [] | Some old \<Rightarrow> old) @ txt) else read_file d g)"
  by (auto simp: read_file_def append_file_def update_conv split: option.splits)

lemma read_write_file: "read_file (write_file d f txt) g = (if g = f then Some txt else read_file d g)"
  by (simp add: read_file_def write_file_def update_conv)

lemma distinct_files [simp]:
  "distinct (map fst d) \<Longrightarrow> distinct (map fst (append_file d f txt))"
  "distinct (map fst d) \<Longrightarrow> distinct (map fst (write_file d f txt))"
  by (simp_all add: append_file_def write_file_def distinct_update)

lemma read_Remove:
  "os_Remove d f = Some d' \<Longrightarrow> read_file d' g = (if g = f then None else read_file d g)"
  by (auto simp: os_Remove_def read_file_def delete_conv split: if_splits)

lemma read_Rename:
  "os_Rename d old new = Some d' \<Longrightarrow>
     read_file d' g = (if g = new then read_file d old else if g = old then None else read_file d g)"
  by (auto simp: os_Rename_def read_file_def update_conv delete_conv split: option.splits)

lemma set_Glob [simp]: "set (filepath_Glob d pat) = {f. read_file d f \<noteq> None \<and> glob_match pat f}"
  by (auto simp: filepath_Glob_def read_file_def map_of_eq_None_iff)

lemma distinct_Glob: "distinct (map fst d) \<Longrightarrow> distinct (filepath_Glob d pat)"
  by (simp add: filepath_Glob_def)

text \<open>The two patterns of the coordinator.\<close>

lemma glob_star: "glob_match [CHR ''*''] s \<longleftrightarrow> CHR ''/'' \<notin> set s"
  by (induction s) auto

lemma glob_cons [simp]: "p \<noteq> CHR ''*'' \<Longrightarrow> glob_match (p # ps) s \<longleftrightarrow> (\<exists>s'. s = p # s' \<and> glob_match ps s')"
  by (cases s) auto

lemma glob_star_char:
  assumes "p \<noteq> CHR ''*''"
  shows "glob_match (CHR ''*'' # p # ps) s \<longleftrightarrow>
    (\<exists>a b. s = a @ p # b \<and> CHR ''/'' \<notin> set a \<and> glob_match ps b)"
proof (induction s)
  case (Cons c s)
  have "glob_match (CHR ''*'' # p # ps) (c # s) \<longleftrightarrow>
      c = p \<and> glob_match ps s \<or> c \<noteq> CHR ''/'' \<and> glob_match (CHR ''*'' # p # ps) s"
    using assms by auto
  also have "\<dots> \<longleftrightarrow> (\<exists>a b. c # s = a @ p # b \<and> CHR ''/'' \<notin> set a \<and> glob_match ps b)" (is "_ \<longleftrightarrow> ?r")
  proof
    assume "c = p \<and> glob_match ps s \<or> c \<noteq> CHR ''/'' \<and> glob_match (CHR ''*'' # p # ps) s"
    then consider "c = p" "glob_match ps s"
      | a b where "c \<noteq> CHR ''/''" "s = a @ p # b" "CHR ''/'' \<notin> set a" "glob_match ps b"
      unfolding Cons by blast
    then show ?r
    proof cases
      case 1
      then show ?thesis by (intro exI [of _ "[]"] exI [of _ s]) simp
    next
      case 2
      then show ?thesis by (intro exI [of _ "c # a"] exI [of _ b]) simp
    qed
  next
    assume ?r
    then obtain a b where "c # s = a @ p # b" "CHR ''/'' \<notin> set a" "glob_match ps b" by blast
    then show "c = p \<and> glob_match ps s \<or> c \<noteq> CHR ''/'' \<and> glob_match (CHR ''*'' # p # ps) s"
      unfolding Cons by (cases a) auto
  qed
  finally show ?case .
qed (use assms in simp)

end
