(* ===== verification/MrWorker.thy ===== *)
theory MrWorker
  imports GoFiles
begin

unbundle bit_operations_syntax

text \<open>
  The MapReduce worker: \<^verbatim>\<open>src/mr/worker.go\<close>. Map tasks write each pair as one line
  \<open>key:::value\<close> to the file of its reducer, reduce tasks read these files back, group the values by
  key and write one line \<open>key result\<close> for each key.

  The user's \<open>mapf\<close> and \<open>reducef\<close> are plug-ins and parameters here. Where the code ranges over a Go
  map, the order of iteration is the parameter \<open>it\<close>, which rearranges the keys. A task
  returns the directory it leaves behind, and \<open>None\<close> in place of its list of files for an error.
\<close>

record KeyValue =
  mk_Key :: string
  mk_Value :: string

type_synonym mapf = "string \<Rightarrow> string \<Rightarrow> KeyValue list"
type_synonym reducef = "string \<Rightarrow> string list \<Rightarrow> string"
type_synonym iter = "string list \<Rightarrow> string list"

definition ihash :: "string \<Rightarrow> int" where
  "ihash key = uint (fnv32a key AND 0x7fffffff)"

definition getFileContent :: "dir \<Rightarrow> string \<Rightarrow> string option" where
  "getFileContent d filename = read_file d filename"

definition mapKeysToSlice :: "iter \<Rightarrow> string list \<Rightarrow> string list" where
  "mapKeysToSlice it ks = it ks"

text \<open>\<open>m[k] = true\<close> on a map that serves as a set.\<close>

definition add_key :: "string \<Rightarrow> string list \<Rightarrow> string list" where
  "add_key k ks = (if k \<in> set ks then ks else ks @ [k])"

section \<open>Map tasks\<close>

definition temp_map_file :: "int \<Rightarrow> int \<Rightarrow> string" where
  "temp_map_file taskId r = ''tempm-out-'' @ strconv_Itoa taskId @ ''-'' @ strconv_Itoa r"

definition map_line :: "KeyValue \<Rightarrow> string" where
  "map_line kv = mk_Key kv @ '':::'' @ mk_Value kv @ ''\<newline>''"

text \<open>The loop over the pairs of one input file. Dividing by zero panics.\<close>

fun runMapTask_emit :: "int \<Rightarrow> int \<Rightarrow> KeyValue list \<Rightarrow> dir \<Rightarrow> string list \<Rightarrow> (dir \<times> string list) go" where
  "runMapTask_emit taskId nReduce [] d created = Inr (d, created)"
| "runMapTask_emit taskId nReduce (kv # kvs) d created =
     (if nReduce = 0 then Inl Panic
      else let outFilename = temp_map_file taskId (ihash (mk_Key kv) mod nReduce)
           in runMapTask_emit taskId nReduce kvs
                (append_file d outFilename (map_line kv)) (add_key outFilename created))"

fun runMapTask_files ::
  "int \<Rightarrow> int \<Rightarrow> mapf \<Rightarrow> string list \<Rightarrow> dir \<Rightarrow> string list \<Rightarrow> (dir \<times> string list option) go" where
  "runMapTask_files taskId nReduce mapf [] d created = Inr (d, Some created)"
| "runMapTask_files taskId nReduce mapf (inFilename # files) d created =
     (case getFileContent d inFilename of
        None \<Rightarrow> Inr (d, None)
      | Some content \<Rightarrow>
          go_bind (runMapTask_emit taskId nReduce (mapf inFilename content) d created)
            (\<lambda>(d, created). runMapTask_files taskId nReduce mapf files d created))"

definition runMapTask ::
  "int \<Rightarrow> string list \<Rightarrow> int \<Rightarrow> mapf \<Rightarrow> iter \<Rightarrow> dir \<Rightarrow> (dir \<times> string list option) go" where
  "runMapTask taskId files nReduce mapf it d =
     go_bind (runMapTask_files taskId nReduce mapf files d [])
       (\<lambda>(d, created). Inr (d, map_option (mapKeysToSlice it) created))"

section \<open>Reduce tasks\<close>

type_synonym values_map = "(string \<times> string list) list"

text \<open>The loop over the lines of one file.\<close>

fun runReduceTask_lines :: "string list \<Rightarrow> values_map \<Rightarrow> values_map go" where
  "runReduceTask_lines [] m = Inr m"
| "runReduceTask_lines (line # ls) m =
     (let line = strings_TrimSpace line
      in if line = [] then runReduceTask_lines ls m
         else let parts = strings_Split '':::'' line
              in go_bind (slice_get parts 0)
                   (\<lambda>key. go_bind (slice_get parts 1)
                      (\<lambda>val. runReduceTask_lines ls (map_append key val m))))"

fun runReduceTask_read :: "dir \<Rightarrow> string list \<Rightarrow> values_map \<Rightarrow> values_map option go" where
  "runReduceTask_read d [] m = Inr (Some m)"
| "runReduceTask_read d (filename # files) m =
     (case getFileContent d filename of
        None \<Rightarrow> Inr None
      | Some content \<Rightarrow>
          go_bind (runReduceTask_lines (strings_Split ''\<newline>'' content) m)
            (\<lambda>m. runReduceTask_read d files m))"

text \<open>The loop that writes the output, over the keys in the order of iteration.\<close>

definition temp_reduce_file :: "string \<Rightarrow> string" where
  "temp_reduce_file reduceId = ''tempmr-out-'' @ reduceId"

definition reduce_line :: "reducef \<Rightarrow> string \<Rightarrow> string list \<Rightarrow> string" where
  "reduce_line reducef key vals = key @ '' '' @ reducef key vals @ ''\<newline>''"

fun runReduceTask_write ::
  "string \<Rightarrow> reducef \<Rightarrow> values_map \<Rightarrow> string list \<Rightarrow> dir \<Rightarrow> string list \<Rightarrow> dir \<times> string list" where
  "runReduceTask_write reduceId reducef m [] d created = (d, created)"
| "runReduceTask_write reduceId reducef m (key # ks) d created =
     (let vals = (case map_of m key of None \<Rightarrow> [] | Some vs \<Rightarrow> vs);
          outputFilename = temp_reduce_file reduceId
      in runReduceTask_write reduceId reducef m ks
           (append_file d outputFilename (reduce_line reducef key vals)) (add_key outputFilename created))"

definition runReduceTask ::
  "string list \<Rightarrow> reducef \<Rightarrow> iter \<Rightarrow> dir \<Rightarrow> (dir \<times> string list option) go" where
  "runReduceTask files reducef it d =
     (if files = [] then Inr (d, Some [])
      else go_bind (slice_get (strings_Split ''-'' (hd files)) 3)
        (\<lambda>reduceId. go_bind (runReduceTask_read d files [])
           (\<lambda>m. case m of
                  None \<Rightarrow> Inr (d, None)
                | Some m \<Rightarrow>
                    (let (d, created) = runReduceTask_write reduceId reducef m (it (map fst m)) d []
                     in Inr (d, Some (mapKeysToSlice it created))))))"

section \<open>What a map task writes\<close>

lemma ihash_range: "0 \<le> ihash key" "ihash key < 2 ^ 31"
proof -
  have "uint (fnv32a key AND 0x7fffffff) \<le> uint (0x7fffffff :: 32 word)"
    using word_and_le1 [of "fnv32a key" "0x7fffffff"] by (simp only: word_le_def)
  then show "ihash key < 2 ^ 31" by (simp add: ihash_def)
qed (simp add: ihash_def)

text \<open>The file a pair goes to, and the pairs among a list that go to a file.\<close>

abbreviation pair_file :: "int \<Rightarrow> int \<Rightarrow> KeyValue \<Rightarrow> string" where
  "pair_file taskId nReduce kv \<equiv> temp_map_file taskId (ihash (mk_Key kv) mod nReduce)"

abbreviation pairs_for :: "int \<Rightarrow> int \<Rightarrow> KeyValue list \<Rightarrow> string \<Rightarrow> KeyValue list" where
  "pairs_for taskId nReduce kvs f \<equiv> filter (\<lambda>kv. pair_file taskId nReduce kv = f) kvs"

definition appended :: "string option \<Rightarrow> string list \<Rightarrow> string option" where
  "appended old ls = (if ls = [] then old else Some ((case old of None \<Rightarrow> [] | Some s \<Rightarrow> s) @ concat ls))"

lemma appended_simps [simp]:
  "appended old [] = old"
  "appended (Some s) ls = Some (s @ concat ls)"
  "appended None (l # ls) = Some (l @ concat ls)"
  by (simp_all add: appended_def)

lemma appended_Cons: "appended old (l # ls) = appended (Some ((case old of None \<Rightarrow> [] | Some s \<Rightarrow> s) @ l)) ls"
  by (simp add: appended_def)

lemma add_key_props [simp]: "set (add_key k ks) = insert k (set ks)" "distinct ks \<Longrightarrow> distinct (add_key k ks)"
  by (auto simp: add_key_def)

lemma runMapTask_emit_spec:
  assumes "nReduce \<noteq> 0"
  shows "\<exists>d' created'. runMapTask_emit taskId nReduce kvs d created = Inr (d', created') \<and>
    (\<forall>f. read_file d' f = appended (read_file d f) (map map_line (pairs_for taskId nReduce kvs f))) \<and>
    set created' = set created \<union> pair_file taskId nReduce ` set kvs \<and>
    (distinct created \<longrightarrow> distinct created') \<and> (distinct (map fst d) \<longrightarrow> distinct (map fst d'))"
  using assms
proof (induction taskId nReduce kvs d created rule: runMapTask_emit.induct)
  case (2 taskId nReduce kv kvs d created)
  let ?f = "pair_file taskId nReduce kv"
  let ?d = "append_file d ?f (map_line kv)"
  from 2(1) [OF 2(2) refl 2(2)] obtain d' created' where IH:
    "runMapTask_emit taskId nReduce kvs ?d (add_key ?f created) = Inr (d', created')"
    "\<forall>f. read_file d' f = appended (read_file ?d f) (map map_line (pairs_for taskId nReduce kvs f))"
    "set created' = set (add_key ?f created) \<union> pair_file taskId nReduce ` set kvs"
    "distinct (add_key ?f created) \<longrightarrow> distinct created'" "distinct (map fst ?d) \<longrightarrow> distinct (map fst d')"
    by blast
  show ?case
    using IH 2(2) by (intro exI [of _ d'] exI [of _ created']) (auto simp: read_append_file appended_Cons)
qed simp

section \<open>A reduce task reads what the map tasks wrote\<close>

text \<open>
  Pairs that survive the file format: no colon in the key, no \<open>:::\<close> in the value, no newline, and no
  white space at the ends of the line.
\<close>

definition plain :: "KeyValue \<Rightarrow> bool" where
  "plain kv \<longleftrightarrow>
     CHR '':'' \<notin> set (mk_Key kv) \<and> strings_Cut '':::'' (mk_Value kv) = None \<and>
     CHR 0x0A \<notin> set (mk_Key kv) \<union> set (mk_Value kv) \<and>
     (mk_Key kv \<noteq> [] \<longrightarrow> \<not> is_space (hd (mk_Key kv))) \<and>
     (mk_Value kv \<noteq> [] \<longrightarrow> \<not> is_space (last (mk_Value kv)))"

definition line_text :: "KeyValue \<Rightarrow> string" where
  "line_text kv = mk_Key kv @ '':::'' @ mk_Value kv"

lemma map_line_text: "map_line kv = line_text kv @ ''\<newline>''"
  by (simp add: map_line_def line_text_def)

lemma line_text_not_Nil [simp]: "line_text kv \<noteq> []"
  by (simp add: line_text_def)

lemma plain_line:
  assumes "plain kv"
  shows "strings_TrimSpace (line_text kv) = line_text kv"
    and "strings_Split '':::'' (line_text kv) = [mk_Key kv, mk_Value kv]"
    and "CHR 0x0A \<notin> set (line_text kv)"
proof -
  have colon: "\<not> is_space CHR '':''" by (simp add: is_space_def)
  show "strings_TrimSpace (line_text kv) = line_text kv"
    using assms colon by (intro TrimSpace_id) (auto simp: plain_def hd_append line_text_def)
  have "strings_Split '':::'' (mk_Value kv) = [mk_Value kv]"
    using assms by (subst strings_Split.simps) (simp add: plain_def)
  then show "strings_Split '':::'' (line_text kv) = [mk_Key kv, mk_Value kv]"
    using assms Split_first [of "CHR '':''" "mk_Key kv" "''::''" "mk_Value kv"]
    by (simp add: plain_def line_text_def)
  show "CHR 0x0A \<notin> set (line_text kv)" using assms by (auto simp: plain_def line_text_def)
qed

lemma Split_lines:
  "\<forall>kv \<in> set kvs. plain kv \<Longrightarrow>
     strings_Split ''\<newline>'' (concat (map map_line kvs)) = map line_text kvs @ [[]]"
proof (induction kvs)
  case (Cons kv kvs)
  then have "CHR 0x0A \<notin> set (line_text kv)" using plain_line(3) by simp
  from Split_char [OF this, of "concat (map map_line kvs)"] Cons show ?case
    by (simp add: map_line_text [of kv])
qed simp

definition group_values :: "values_map \<Rightarrow> KeyValue list \<Rightarrow> values_map" where
  "group_values m kvs = foldl (\<lambda>m kv. map_append (mk_Key kv) (mk_Value kv) m) m kvs"

lemma group_values_append: "group_values (group_values m xs) ys = group_values m (xs @ ys)"
  by (simp add: group_values_def)

lemma group_values_Nil: "group_values [] kvs = group_by mk_Key mk_Value kvs"
  by (simp add: group_values_def group_by_def)

lemma runReduceTask_lines_spec:
  "\<forall>kv \<in> set kvs. plain kv \<Longrightarrow>
     runReduceTask_lines (map line_text kvs @ [[]]) m = Inr (group_values m kvs)"
proof (induction kvs arbitrary: m)
  case (Cons kv kvs)
  have "plain kv" using Cons.prems by simp
  note line = plain_line [OF this]
  from Cons show ?case by (simp add: Let_def line slice_get_def group_values_def)
qed (simp add: group_values_def)

lemma runReduceTask_read_spec:
  assumes "\<forall>f \<in> set files. read_file d f = Some (concat (map map_line (K f))) \<and> (\<forall>kv \<in> set (K f). plain kv)"
  shows "runReduceTask_read d files m = Inr (Some (group_values m (concat (map K files))))"
  using assms
proof (induction files arbitrary: m)
  case (Cons f files)
  then show ?case
    by (simp add: getFileContent_def Split_lines runReduceTask_lines_spec group_values_append)
qed (simp add: group_values_def)

text \<open>
  The intermediate format is faithful. If every file of a reduce task holds the lines of some pairs,
  none of which clashes with the format, then the task reads back exactly those pairs: it groups the
  values by key, in the order of the files and of the lines.
\<close>

lemma reduce_reads_pairs:
  assumes "\<forall>f \<in> set files. read_file d f = Some (concat (map map_line (K f))) \<and> (\<forall>kv \<in> set (K f). plain kv)"
  shows "runReduceTask_read d files [] = Inr (Some (group_by mk_Key mk_Value (concat (map K files))))"
  using runReduceTask_read_spec [OF assms] by (simp add: group_values_Nil)

lemma reduce_reads_pairs_example:
  "runReduceTask_read
     [(''a'', ''x:::1\<newline>y:::1\<newline>''), (''b'', ''x:::2\<newline>'')] [''a'', ''b''] [] =
   Inr (Some [(''x'', [''1'', ''2'']), (''y'', [''1''])])"
  using reduce_reads_pairs [of "[''a'', ''b'']" "[(''a'', ''x:::1\<newline>y:::1\<newline>''), (''b'', ''x:::2\<newline>'')]"
    "\<lambda>f. if f = ''a'' then [\<lparr>mk_Key = ''x'', mk_Value = ''1''\<rparr>, \<lparr>mk_Key = ''y'', mk_Value = ''1''\<rparr>]
         else [\<lparr>mk_Key = ''x'', mk_Value = ''2''\<rparr>]"]
  by (simp add: read_file_def map_line_def plain_def is_space_def group_by_def)

section \<open>What a reduce task writes\<close>

abbreviation vals_of :: "values_map \<Rightarrow> string \<Rightarrow> string list" where
  "vals_of m k \<equiv> (case map_of m k of None \<Rightarrow> [] | Some vs \<Rightarrow> vs)"

lemma runReduceTask_write_spec:
  assumes "runReduceTask_write R reducef m ks d created = (d', created')"
  shows "read_file d' f = (if f = temp_reduce_file R
      then appended (read_file d f) (map (\<lambda>k. reduce_line reducef k (vals_of m k)) ks) else read_file d f)"
    and "set created' = set created \<union> (if ks = [] then {} else {temp_reduce_file R})"
    and "distinct created \<Longrightarrow> distinct created'"
    and "distinct (map fst d) \<Longrightarrow> distinct (map fst d')"
  using assms
proof (induction R reducef m ks d created rule: runReduceTask_write.induct)
  case (2 R reducef m key ks d created)
  { case 1 with 2 show ?case by (simp add: Let_def read_append_file appended_Cons)
  next case 2 with "2.IH"(2) [OF refl refl] show ?case by (simp add: Let_def)
  next case 3 with "2.IH"(3) [OF refl refl] show ?case by (simp add: Let_def)
  next case 4 with "2.IH"(4) [OF refl refl] show ?case by (simp add: Let_def) }
qed simp_all

text \<open>The lines of the output for a list of pairs, with the keys in the order of iteration.\<close>

definition output_lines :: "reducef \<Rightarrow> iter \<Rightarrow> KeyValue list \<Rightarrow> string list" where
  "output_lines reducef it kvs =
     map (\<lambda>k. reduce_line reducef k (map mk_Value (filter (\<lambda>kv. mk_Key kv = k) kvs)))
       (it (map fst (group_by mk_Key mk_Value kvs)))"

definition fair_iter :: "iter \<Rightarrow> bool" where
  "fair_iter it \<longleftrightarrow> (\<forall>xs. mset (it xs) = mset xs)"

lemma fair_iter_set [simp]: "fair_iter it \<Longrightarrow> set (it xs) = set xs"
  unfolding fair_iter_def by (metis set_mset_mset)

lemma fair_iter_Nil [simp]: "fair_iter it \<Longrightarrow> it xs = [] \<longleftrightarrow> xs = []"
  unfolding fair_iter_def by (metis mset_zero_iff)

lemma fair_iter_distinct [simp]: "fair_iter it \<Longrightarrow> distinct (it xs) \<longleftrightarrow> distinct xs"
  unfolding fair_iter_def by (metis mset_eq_imp_distinct_iff)

lemma vals_of_group_by [simp]:
  "vals_of (group_by mk_Key mk_Value kvs) k = map mk_Value (filter (\<lambda>kv. mk_Key kv = k) kvs)"
proof (cases "k \<in> mk_Key ` set kvs")
  case False
  then have "filter (\<lambda>kv. mk_Key kv = k) kvs = []" by (auto simp: filter_empty_conv)
  with False show ?thesis by (simp add: map_of_group_by)
qed (simp add: map_of_group_by)

lemma runReduceTask_spec:
  assumes files: "files \<noteq> []" and R: "strings_Split ''-'' (hd files) = [a, b, c, R]"
    and pairs: "\<forall>f \<in> set files. read_file d f = Some (concat (map map_line (K f))) \<and> (\<forall>kv \<in> set (K f). plain kv)"
    and it: "fair_iter it"
  shows "\<exists>d' created. runReduceTask files reducef it d = Inr (d', Some created) \<and>
    (\<forall>f. read_file d' f = (if f = temp_reduce_file R
       then appended (read_file d f) (output_lines reducef it (concat (map K files))) else read_file d f)) \<and>
    created = (if concat (map K files) = [] then [] else [temp_reduce_file R]) \<and>
    (distinct (map fst d) \<longrightarrow> distinct (map fst d'))"
proof -
  let ?kvs = "concat (map K files)"
  let ?m = "group_by mk_Key mk_Value ?kvs"
  let ?ks = "it (map fst ?m)"
  have m: "runReduceTask_read d files [] = Inr (Some ?m)"
    using runReduceTask_read_spec [OF pairs] by (simp add: group_values_Nil)
  obtain d' created where w: "runReduceTask_write R reducef ?m ?ks d [] = (d', created)" by (rule prod.exhaust)
  note spec = runReduceTask_write_spec [OF w]
  have empty: "?ks = [] \<longleftrightarrow> ?kvs = []"
    using keys_group_by [of mk_Key mk_Value ?kvs] it by (cases "?kvs = []") (auto simp flip: set_empty)
  have "set (it created) = (if ?kvs = [] then {} else {temp_reduce_file R})" "distinct (it created)"
    using spec(2,3) it empty by simp_all
  then have "it created = (if ?kvs = [] then [] else [temp_reduce_file R])"
    by (auto intro: distinct_singleton split: if_splits)
  with spec w m files R show ?thesis
    by (simp add: runReduceTask_def slice_get_def mapKeysToSlice_def output_lines_def)
qed

text \<open>
  C28: a reduce task does not start from an empty file. All attempts at a reduce task append to the same
  temporary file, so the lines that an abandoned attempt left there stay in front of the lines of the
  attempt that completes; every line the abandoned attempt wrote is in the output twice.
\<close>

theorem reduce_rerun_keeps_old_output:
  assumes "files \<noteq> []" and "strings_Split ''-'' (hd files) = [a, b, c, R]"
    and "\<forall>f \<in> set files. read_file d f = Some (concat (map map_line (K f))) \<and> (\<forall>kv \<in> set (K f). plain kv)"
    and "fair_iter it" and "read_file d (temp_reduce_file R) = Some old"
  shows "\<exists>d' created. runReduceTask files reducef it d = Inr (d', Some created) \<and>
    read_file d' (temp_reduce_file R) = Some (old @ concat (output_lines reducef it (concat (map K files))))"
  using runReduceTask_spec [OF assms(1-4), of reducef] assms(5) by auto

theorem reduce_rerun_keeps_old_output_witness:
  "\<exists>d' created.
     runReduceTask [''m-out-0-1''] (\<lambda>k vs. ''1'') (\<lambda>ks. ks)
       [(''m-out-0-1'', ''x:::1\<newline>''), (''tempmr-out-1'', ''x 1\<newline>'')] = Inr (d', Some created) \<and>
     read_file d' ''tempmr-out-1'' = Some ''x 1\<newline>x 1\<newline>''"
proof -
  let ?d = "[(''m-out-0-1'', ''x:::1\<newline>''), (''tempmr-out-1'', ''x 1\<newline>'')]"
  let ?K = "\<lambda>f :: string. [\<lparr>mk_Key = ''x'', mk_Value = ''1''\<rparr>]"
  have split: "strings_Split ''-'' (hd [''m-out-0-1'']) = [''m'', ''out'', ''0'', ''1'']"
    by (simp add: strings_Split.simps)
  have pairs: "\<forall>f \<in> set [''m-out-0-1'']. read_file ?d f = Some (concat (map map_line (?K f))) \<and> (\<forall>kv \<in> set (?K f). plain kv)"
    by (simp add: read_file_def map_line_def plain_def is_space_def)
  have "fair_iter (\<lambda>ks. ks)" by (simp add: fair_iter_def)
  moreover have "read_file ?d (temp_reduce_file ''1'') = Some ''x 1\<newline>''"
    by (simp add: read_file_def temp_reduce_file_def)
  ultimately have "\<exists>d' created. runReduceTask [''m-out-0-1''] (\<lambda>k vs. ''1'') (\<lambda>ks. ks) ?d = Inr (d', Some created) \<and>
      read_file d' (temp_reduce_file ''1'') =
        Some (''x 1\<newline>'' @ concat (output_lines (\<lambda>k vs. ''1'') (\<lambda>ks. ks) (concat (map ?K [''m-out-0-1'']))))"
    by (intro reduce_rerun_keeps_old_output [OF _ split pairs]) simp_all
  then show ?thesis
    by (simp add: temp_reduce_file_def output_lines_def reduce_line_def group_by_def)
qed

end
