(* ===== verification/MrCoordinator.thy ===== *)
theory MrCoordinator
  imports MrWorker
begin

text \<open>
  The MapReduce coordinator: \<^verbatim>\<open>src/mr/coordinator.go\<close>, with the messages of
  \<^verbatim>\<open>src/mr/rpc.go\<close>. The handlers run under the coordinator's mutex (\<open>Heartbeat\<close> takes no lock, but
  reads and writes one field each), so each is one function from state to state. A panic in a handler ends the
  process. The clock is an argument: \<open>now\<close> in \<open>GetTask\<close>, and in \<open>timeoutTasks\<close> one reading for each task,
  because the loop reads it again each time. The RPC server, the socket and \<open>printTasks\<close> are not modelled.
\<close>

datatype taskStatus =
  taskStatusIdle | taskStatusInProgress | taskStatusCompleted | taskStatusTimedOut | taskStatusFailed

datatype TaskType = TaskTypeMap | TaskTypeReduce | TaskTypeNoTask | TaskTypeShutdown

datatype phase = phaseMap | phaseReduce | phaseShutdown

record task =
  t_files :: "string list"
  t_status :: taskStatus
  t_startTime :: int
  t_taskType :: TaskType

record worker =
  w_taskId :: int
  w_isRunning :: bool

record Coordinator =
  c_tasks :: "task list"
  c_workers :: "worker list"
  c_numMapTasks :: int
  c_numReduceTasks :: int
  c_phase :: phase
  c_timeoutSecs :: int
  c_nReduce :: int

record GetTaskRes =
  r_Files :: "string list"
  r_NReduce :: int
  r_TaskType :: TaskType
  r_TaskId :: int

definition zero_GetTaskRes :: GetTaskRes where
  "zero_GetTaskRes = \<lparr>r_Files = [], r_NReduce = 0, r_TaskType = TaskTypeMap, r_TaskId = 0\<rparr>"

definition zero_Coordinator :: Coordinator where
  "zero_Coordinator = \<lparr>c_tasks = [], c_workers = [], c_numMapTasks = 0, c_numReduceTasks = 0,
     c_phase = phaseMap, c_timeoutSecs = 0, c_nReduce = 0\<rparr>"

section \<open>Start\<close>

definition createMapTasks :: "string list \<Rightarrow> Coordinator \<Rightarrow> Coordinator" where
  "createMapTasks files c =
     c\<lparr>c_tasks := map (\<lambda>file. \<lparr>t_files = [file], t_status = taskStatusIdle, t_startTime = 0,
                               t_taskType = TaskTypeMap\<rparr>) files\<rparr>"

definition MakeCoordinator :: "string list \<Rightarrow> int \<Rightarrow> Coordinator" where
  "MakeCoordinator files nReduce =
     (let c = createMapTasks files zero_Coordinator;
          c = c\<lparr>c_numMapTasks := int (length (c_tasks c))\<rparr>;
          c = c\<lparr>c_nReduce := nReduce\<rparr>;
          c = c\<lparr>c_phase := phaseMap\<rparr>
      in c\<lparr>c_timeoutSecs := 10\<rparr>)"

definition RegisterWorker :: "Coordinator \<Rightarrow> Coordinator \<times> int" where
  "RegisterWorker c =
     (c\<lparr>c_workers := c_workers c @ [\<lparr>w_taskId = 0, w_isRunning = True\<rparr>]\<rparr>, int (length (c_workers c)))"

section \<open>Handing out tasks\<close>

fun findIdleTask_from :: "nat \<Rightarrow> task list \<Rightarrow> nat option" where
  "findIdleTask_from i [] = None"
| "findIdleTask_from i (t # ts) =
     (if t_status t = taskStatusIdle then Some i else findIdleTask_from (Suc i) ts)"

definition findIdleTask :: "Coordinator \<Rightarrow> nat option" where
  "findIdleTask c = findIdleTask_from 0 (c_tasks c)"

definition set_worker_task :: "Coordinator \<Rightarrow> int \<Rightarrow> int \<Rightarrow> Coordinator go" where
  "set_worker_task c workerId taskId =
     go_bind (slice_get (c_workers c) workerId)
       (\<lambda>w. Inr (c\<lparr>c_workers := (c_workers c)[nat workerId := w\<lparr>w_taskId := taskId\<rparr>]\<rparr>))"

definition GetTask :: "Coordinator \<Rightarrow> int \<Rightarrow> int \<Rightarrow> GetTaskRes \<Rightarrow> (Coordinator \<times> GetTaskRes) go" where
  "GetTask c workerId now res =
     (case findIdleTask c of
        None \<Rightarrow>
          go_bind (set_worker_task c workerId 0) (\<lambda>c. Inr (c, res\<lparr>r_TaskType := TaskTypeNoTask\<rparr>))
      | Some i \<Rightarrow>
          (let t = (c_tasks c ! i)\<lparr>t_status := taskStatusInProgress, t_startTime := now\<rparr>
           in go_bind (set_worker_task (c\<lparr>c_tasks := (c_tasks c)[i := t]\<rparr>) workerId (int i))
                (\<lambda>c. Inr (c, \<lparr>r_Files = t_files t, r_NReduce = c_nReduce c,
                              r_TaskType = t_taskType t, r_TaskId = int i\<rparr>))))"

section \<open>Completed tasks\<close>

text \<open>Loops over files that stop at the first error; the flag says whether there was none.\<close>

fun remove_files :: "dir \<Rightarrow> string list \<Rightarrow> dir \<times> bool" where
  "remove_files d [] = (d, True)"
| "remove_files d (f # fs) = (case os_Remove d f of None \<Rightarrow> (d, False) | Some d \<Rightarrow> remove_files d fs)"

fun renameTempFiles :: "dir \<Rightarrow> string list \<Rightarrow> dir \<times> bool" where
  "renameTempFiles d [] = (d, True)"
| "renameTempFiles d (f # fs) =
     (case os_Rename d f (strings_ReplaceAll ''temp'' '''' f) of
        None \<Rightarrow> (d, False) | Some d \<Rightarrow> renameTempFiles d fs)"

text \<open>Grouping the intermediate files by the fourth part of their names.\<close>

fun group_files :: "string list \<Rightarrow> values_map \<Rightarrow> values_map go" where
  "group_files [] m = Inr m"
| "group_files (f # fs) m =
     go_bind (slice_get (strings_Split ''-'' f) 3) (\<lambda>reduceId. group_files fs (map_append reduceId f m))"

definition createReduceTasks :: "iter \<Rightarrow> dir \<Rightarrow> Coordinator \<Rightarrow> Coordinator go" where
  "createReduceTasks it d c =
     go_bind (group_files (filepath_Glob d ''m-out-*-*'') [])
       (\<lambda>m. Inr (foldl (\<lambda>c k.
              c\<lparr>c_tasks := c_tasks c @ [\<lparr>t_files = vals_of m k, t_status = taskStatusIdle,
                                         t_startTime = 0, t_taskType = TaskTypeReduce\<rparr>],
                c_numReduceTasks := c_numReduceTasks c + 1\<rparr>) c (it (map fst m))))"

text \<open>The flag of the result is true when the handler returns no error.\<close>

definition TaskDone ::
  "iter \<Rightarrow> Coordinator \<Rightarrow> dir \<Rightarrow> int \<Rightarrow> string list \<Rightarrow> (Coordinator \<times> dir \<times> bool) go" where
  "TaskDone it c d taskId filesCreated =
     go_bind (slice_get (c_tasks c) taskId) (\<lambda>t.
       if t_status t = taskStatusTimedOut
       then (let (d, ok) = remove_files d filesCreated in Inr (c, d, ok))
       else let c = c\<lparr>c_tasks := (c_tasks c)[nat taskId := t\<lparr>t_status := taskStatusCompleted\<rparr>]\<rparr>
            in case t_taskType t of
                 TaskTypeMap \<Rightarrow>
                   (let (d, ok) = renameTempFiles d filesCreated
                    in if \<not> ok then Inr (c, d, False)
                       else let c = c\<lparr>c_numMapTasks := c_numMapTasks c - 1\<rparr>
                            in if c_numMapTasks c = 0
                               then go_bind (createReduceTasks it d c)
                                      (\<lambda>c. Inr (c\<lparr>c_phase := phaseReduce\<rparr>, d, True))
                               else Inr (c, d, True))
               | TaskTypeReduce \<Rightarrow>
                   (let (d, ok) = renameTempFiles d filesCreated
                    in if \<not> ok then Inr (c, d, False)
                       else let c = c\<lparr>c_numReduceTasks := c_numReduceTasks c - 1\<rparr>
                            in if c_numReduceTasks c = 0
                               then Inr (c\<lparr>c_phase := phaseShutdown\<rparr>, d, True)
                               else Inr (c, d, True))
               | _ \<Rightarrow> Inr (c, d, True))"

section \<open>Timeouts and the end of the job\<close>

text \<open>The loop ranges over the slice as it was at the start; new tasks are appended behind it.\<close>

fun timeoutTasks_loop :: "(nat \<Rightarrow> int) \<Rightarrow> nat \<Rightarrow> task list \<Rightarrow> Coordinator \<Rightarrow> Coordinator" where
  "timeoutTasks_loop now i [] c = c"
| "timeoutTasks_loop now i (t # ts) c =
     timeoutTasks_loop now (Suc i) ts
       (if t_status t = taskStatusInProgress \<and> now i > t_startTime t + c_timeoutSecs c
        then c\<lparr>c_tasks := (c_tasks c)[i := (c_tasks c ! i)\<lparr>t_status := taskStatusTimedOut\<rparr>] @
                 [\<lparr>t_files = t_files t, t_status = taskStatusIdle, t_startTime = 0,
                   t_taskType = t_taskType t\<rparr>]\<rparr>
        else c)"

definition timeoutTasks :: "(nat \<Rightarrow> int) \<Rightarrow> Coordinator \<Rightarrow> Coordinator" where
  "timeoutTasks now c = timeoutTasks_loop now 0 (c_tasks c) c"

definition deleteFiles :: "dir \<Rightarrow> string \<Rightarrow> dir \<times> bool" where
  "deleteFiles d pat = remove_files d (filepath_Glob d pat)"

definition Done :: "(nat \<Rightarrow> int) \<Rightarrow> Coordinator \<Rightarrow> dir \<Rightarrow> Coordinator \<times> dir \<times> bool" where
  "Done now c d =
     (let c = timeoutTasks now c;
          busy = (case c_phase c of
              phaseMap \<Rightarrow> True
            | phaseReduce \<Rightarrow>
                (\<exists>t \<in> set (c_tasks c). t_status t = taskStatusIdle \<or> t_status t = taskStatusInProgress)
            | phaseShutdown \<Rightarrow> (\<exists>w \<in> set (c_workers c). w_isRunning w))
      in if busy then (c, d, False) else (c, fst (deleteFiles d ''m-out*''), True))"

definition Heartbeat :: "Coordinator \<Rightarrow> int \<Rightarrow> (Coordinator \<times> bool) go" where
  "Heartbeat c workerId =
     (if c_phase c = phaseShutdown
      then go_bind (slice_get (c_workers c) workerId)
             (\<lambda>w. Inr (c\<lparr>c_workers := (c_workers c)[nat workerId := w\<lparr>w_isRunning := False\<rparr>]\<rparr>, True))
      else Inr (c, False))"

end
