(* ===== verification/MrSystem.thy ===== *)
theory MrSystem
  imports MrCoordinator
begin

text \<open>
  The coordinator together with its workers and the directory they share, as a step relation. Workers
  register, ask for tasks, run them, report them, or crash: before writing anything, in the middle of
  their output, or before reporting. The coordinator's main loop calls \<open>Done\<close>, which times tasks out.
  The file system accesses of one attempt at a task are one step: the temporary files of a map task
  carry the number of the task, so no other attempt touches them.
\<close>

text \<open>An attempt at a task: the reply of \<open>GetTask\<close>, and the files created once the task has run.\<close>

type_synonym attempt_state = "GetTaskRes \<times> string list option"

record mr_sys =
  y_c :: Coordinator
  y_d :: dir
  y_att :: "nat \<Rightarrow> attempt_state option"

definition mr_init :: "string list \<Rightarrow> int \<Rightarrow> dir \<Rightarrow> mr_sys" where
  "mr_init files nReduce d = \<lparr>y_c = MakeCoordinator files nReduce, y_d = d, y_att = (\<lambda>_. None)\<rparr>"

text \<open>
  The steps. \<open>run\<close> is the part of \<open>Worker\<close> that executes a task, \<open>task_done\<close> the following call of
  \<open>rpcTaskDone\<close>; the other half of the main loop of \<open>Worker\<close> is \<open>get_task\<close>.
\<close>

inductive mr_step :: "mapf \<Rightarrow> reducef \<Rightarrow> mr_sys \<Rightarrow> mr_sys \<Rightarrow> bool"
  for mapf :: mapf and reducef :: reducef where
  register: "mr_step mapf reducef s (s\<lparr>y_c := fst (RegisterWorker (y_c s))\<rparr>)"
| get_task: "GetTask (y_c s) w now zero_GetTaskRes = Inr (c, res) \<Longrightarrow>
     att = (if r_TaskType res = TaskTypeNoTask then y_att s else (y_att s)(nat (r_TaskId res) \<mapsto> (res, None))) \<Longrightarrow>
     mr_step mapf reducef s (s\<lparr>y_c := c, y_att := att\<rparr>)"
| run_map: "y_att s t = Some (res, None) \<Longrightarrow> r_TaskType res = TaskTypeMap \<Longrightarrow> fair_iter it \<Longrightarrow>
     runMapTask (r_TaskId res) (r_Files res) (r_NReduce res) mapf it (y_d s) = Inr (d, Some created) \<Longrightarrow>
     mr_step mapf reducef s (s\<lparr>y_d := d, y_att := (y_att s)(t \<mapsto> (res, Some created))\<rparr>)"
| run_reduce: "y_att s t = Some (res, None) \<Longrightarrow> r_TaskType res = TaskTypeReduce \<Longrightarrow> fair_iter it \<Longrightarrow>
     runReduceTask (r_Files res) reducef it (y_d s) = Inr (d, Some created) \<Longrightarrow>
     mr_step mapf reducef s (s\<lparr>y_d := d, y_att := (y_att s)(t \<mapsto> (res, Some created))\<rparr>)"
| task_done: "y_att s t = Some (res, Some created) \<Longrightarrow> fair_iter it \<Longrightarrow>
     TaskDone it (y_c s) (y_d s) (r_TaskId res) created = Inr (c, d, ok) \<Longrightarrow>
     mr_step mapf reducef s (s\<lparr>y_c := c, y_d := d, y_att := (y_att s)(t := None)\<rparr>)"
| crash: "mr_step mapf reducef s (s\<lparr>y_att := (y_att s)(t := None)\<rparr>)"
| crash_map: "y_att s t = Some (res, None) \<Longrightarrow> r_TaskType res = TaskTypeMap \<Longrightarrow> r_Files res = [f] \<Longrightarrow>
     getFileContent (y_d s) f = Some content \<Longrightarrow>
     runMapTask_emit (r_TaskId res) (r_NReduce res) (take k (mapf f content)) (y_d s) [] = Inr (d, created) \<Longrightarrow>
     mr_step mapf reducef s (s\<lparr>y_d := d, y_att := (y_att s)(t := None)\<rparr>)"
| crash_reduce: "y_att s t = Some (res, None) \<Longrightarrow> r_TaskType res = TaskTypeReduce \<Longrightarrow>
     runReduceTask_read (y_d s) (r_Files res) [] = Inr (Some m) \<Longrightarrow>
     slice_get (strings_Split ''-'' (hd (r_Files res))) 3 = Inr R \<Longrightarrow> fair_iter it \<Longrightarrow>
     runReduceTask_write R reducef m (take k (it (map fst m))) (y_d s) [] = (d, created) \<Longrightarrow>
     mr_step mapf reducef s (s\<lparr>y_d := d, y_att := (y_att s)(t := None)\<rparr>)"
| poll: "Done now (y_c s) (y_d s) = (c, d, False) \<Longrightarrow> mr_step mapf reducef s (s\<lparr>y_c := c, y_d := d\<rparr>)"
| heartbeat: "Heartbeat (y_c s) w = Inr (c, stop) \<Longrightarrow> mr_step mapf reducef s (s\<lparr>y_c := c\<rparr>)"

inductive mr_reach :: "mapf \<Rightarrow> reducef \<Rightarrow> mr_sys \<Rightarrow> mr_sys \<Rightarrow> bool"
  for mapf :: mapf and reducef :: reducef and s0 :: mr_sys where
  start: "mr_reach mapf reducef s0 s0"
| more: "mr_reach mapf reducef s0 s \<Longrightarrow> mr_step mapf reducef s t \<Longrightarrow> mr_reach mapf reducef s0 t"

section \<open>The coordinator's counters\<close>

definition live :: "task \<Rightarrow> bool" where
  "live t \<longleftrightarrow> t_status t = taskStatusIdle \<or> t_status t = taskStatusInProgress"

definition nlive :: "TaskType \<Rightarrow> task list \<Rightarrow> int" where
  "nlive ty ts = int (length (filter (\<lambda>t. t_taskType t = ty \<and> live t) ts))"

text \<open>The input files of the map tasks that were not timed out.\<close>

definition inputs :: "task list \<Rightarrow> string multiset" where
  "inputs ts = mset (concat (map t_files
     (filter (\<lambda>t. t_taskType t = TaskTypeMap \<and> t_status t \<noteq> taskStatusTimedOut) ts)))"

lemma nlive_simps [simp]:
  "nlive ty [] = 0"
  "nlive ty (t # ts) = (if t_taskType t = ty \<and> live t then 1 else 0) + nlive ty ts"
  "nlive ty (ts @ us) = nlive ty ts + nlive ty us"
  by (simp_all add: nlive_def)

lemma inputs_simps [simp]:
  "inputs [] = {#}"
  "inputs (t # ts) = (if t_taskType t = TaskTypeMap \<and> t_status t \<noteq> taskStatusTimedOut then mset (t_files t) else {#}) + inputs ts"
  "inputs (ts @ us) = inputs ts + inputs us"
  by (simp_all add: inputs_def)

lemma nlive_nonneg: "0 \<le> nlive ty ts"
  by (simp add: nlive_def)

lemma nlive_zero: "nlive ty ts = 0 \<longleftrightarrow> (\<forall>t \<in> set ts. t_taskType t = ty \<longrightarrow> \<not> live t)"
  by (auto simp: nlive_def filter_empty_conv)

lemma nlive_update:
  "i < length ts \<Longrightarrow> nlive ty (ts[i := t]) =
     nlive ty ts - (if t_taskType (ts ! i) = ty \<and> live (ts ! i) then 1 else 0)
       + (if t_taskType t = ty \<and> live t then 1 else 0)"
proof (induction ts arbitrary: i)
  case (Cons u ts)
  then show ?case by (cases i) auto
qed simp

lemma inputs_update_same:
  "i < length ts \<Longrightarrow> t_taskType t = t_taskType (ts ! i) \<Longrightarrow> t_files t = t_files (ts ! i) \<Longrightarrow>
     (t_status t = taskStatusTimedOut \<longleftrightarrow> t_status (ts ! i) = taskStatusTimedOut) \<Longrightarrow>
     inputs (ts[i := t]) = inputs ts"
proof (induction ts arbitrary: i)
  case (Cons u ts)
  then show ?case by (cases i) auto
qed simp

lemma inputs_update_timeout:
  "i < length ts \<Longrightarrow> t_taskType t = t_taskType (ts ! i) \<Longrightarrow> t_files t = t_files (ts ! i) \<Longrightarrow>
     t_status t = taskStatusTimedOut \<Longrightarrow> t_status (ts ! i) \<noteq> taskStatusTimedOut \<Longrightarrow>
     inputs (ts[i := t]) + (if t_taskType t = TaskTypeMap then mset (t_files t) else {#}) = inputs ts"
proof (induction ts arbitrary: i)
  case (Cons u ts)
  then show ?case by (cases i) auto
qed simp

definition coord_inv :: "string list \<Rightarrow> int \<Rightarrow> Coordinator \<Rightarrow> bool" where
  "coord_inv files nReduce c \<longleftrightarrow>
     inputs (c_tasks c) = mset files \<and> c_nReduce c = nReduce \<and>
     nlive TaskTypeMap (c_tasks c) \<le> c_numMapTasks c \<and>
     nlive TaskTypeReduce (c_tasks c) \<le> c_numReduceTasks c \<and>
     (\<forall>t \<in> set (c_tasks c). t_status t \<noteq> taskStatusFailed \<and>
        (t_taskType t = TaskTypeMap \<and> (\<exists>f \<in> set files. t_files t = [f]) \<or>
         t_taskType t = TaskTypeReduce \<and> c_phase c \<noteq> phaseMap)) \<and>
     (c_phase c = phaseMap \<longrightarrow> c_numReduceTasks c = 0) \<and>
     (c_phase c \<noteq> phaseMap \<longrightarrow> c_numMapTasks c = 0) \<and>
     (c_phase c = phaseShutdown \<longrightarrow> c_numReduceTasks c = 0)"

text \<open>What the attempts know of their tasks.\<close>

definition att_inv :: "int \<Rightarrow> mr_sys \<Rightarrow> bool" where
  "att_inv nReduce s \<longleftrightarrow>
     (\<forall>t res cr. y_att s t = Some (res, cr) \<longrightarrow>
        t < length (c_tasks (y_c s)) \<and> r_TaskId res = int t \<and> r_NReduce res = nReduce \<and>
        r_Files res = t_files (c_tasks (y_c s) ! t) \<and> r_TaskType res = t_taskType (c_tasks (y_c s) ! t) \<and>
        t_status (c_tasks (y_c s) ! t) \<in> {taskStatusInProgress, taskStatusTimedOut})"

lemma att_invD:
  assumes "att_inv nReduce s" and "y_att s t = Some (res, cr)"
  shows "t < length (c_tasks (y_c s))" "r_TaskId res = int t" "r_NReduce res = nReduce"
    "r_Files res = t_files (c_tasks (y_c s) ! t)" "r_TaskType res = t_taskType (c_tasks (y_c s) ! t)"
    "t_status (c_tasks (y_c s) ! t) \<in> {taskStatusInProgress, taskStatusTimedOut}"
  using assms unfolding att_inv_def by blast+

lemma coord_inv_workers [simp]: "coord_inv files n (c\<lparr>c_workers := ws\<rparr>) = coord_inv files n c"
  by (simp add: coord_inv_def)

text \<open>Changes of the status of tasks that keep the counters.\<close>

lemma coord_inv_tasks:
  assumes "coord_inv files n c" and "inputs ts = inputs (c_tasks c)" and "\<And>ty. nlive ty ts \<le> nlive ty (c_tasks c)"
    and "\<And>t. t \<in> set ts \<Longrightarrow> \<exists>u \<in> set (c_tasks c). t_taskType t = t_taskType u \<and> t_files t = t_files u \<and>
      (t_status t = t_status u \<or> t_status t \<noteq> taskStatusFailed)"
  shows "coord_inv files n (c\<lparr>c_tasks := ts\<rparr>)"
proof -
  have "t_status t \<noteq> taskStatusFailed \<and> (t_taskType t = TaskTypeMap \<and> (\<exists>f \<in> set files. t_files t = [f]) \<or>
      t_taskType t = TaskTypeReduce \<and> c_phase c \<noteq> phaseMap)"
    if t: "t \<in> set ts" for t
  proof -
    obtain u where "u \<in> set (c_tasks c)" "t_taskType t = t_taskType u" "t_files t = t_files u"
      "t_status t = t_status u \<or> t_status t \<noteq> taskStatusFailed"
      using assms(4) [OF t] by blast
    with assms(1) show ?thesis by (auto simp: coord_inv_def)
  qed
  with assms(1,2) assms(3) [THEN order_trans] show ?thesis by (simp add: coord_inv_def)
qed

lemma in_set_update: "t \<in> set (ts[i := u]) \<Longrightarrow> t \<in> set ts \<or> t = u"
  by (meson insertE set_update_subset_insert subsetD)

subsection \<open>Handing out\<close>

lemma findIdleTask_from_Some:
  "findIdleTask_from k ts = Some i \<Longrightarrow> k \<le> i \<and> i < k + length ts \<and> t_status (ts ! (i - k)) = taskStatusIdle"
proof (induction k ts rule: findIdleTask_from.induct)
  case (2 k t ts)
  then show ?case by (cases "i = k") (auto simp: nth_Cons' split: if_splits)
qed simp

lemma findIdleTask_Some:
  "findIdleTask c = Some i \<Longrightarrow> i < length (c_tasks c) \<and> t_status (c_tasks c ! i) = taskStatusIdle"
  using findIdleTask_from_Some [of 0 "c_tasks c" i] by (simp add: findIdleTask_def)

lemma set_worker_task_Inr:
  "set_worker_task c w i = Inr c' \<Longrightarrow> \<exists>ws. c' = c\<lparr>c_workers := ws\<rparr>"
  by (auto simp: set_worker_task_def go_bind_Inr_iff simp del: slice_get_Inr)

abbreviation started :: "Coordinator \<Rightarrow> nat \<Rightarrow> int \<Rightarrow> Coordinator" where
  "started c i now \<equiv>
     c\<lparr>c_tasks := (c_tasks c)[i := (c_tasks c ! i)\<lparr>t_status := taskStatusInProgress, t_startTime := now\<rparr>]\<rparr>"

lemma GetTask_cases:
  assumes "GetTask c w now res0 = Inr (c', res)"
  obtains (none) ws where "c' = c\<lparr>c_workers := ws\<rparr>" "r_TaskType res = TaskTypeNoTask"
  | (some) i ws where "i < length (c_tasks c)" "t_status (c_tasks c ! i) = taskStatusIdle"
      "c' = (started c i now)\<lparr>c_workers := ws\<rparr>"
      "res = \<lparr>r_Files = t_files (c_tasks c ! i), r_NReduce = c_nReduce c,
              r_TaskType = t_taskType (c_tasks c ! i), r_TaskId = int i\<rparr>"
proof (cases "findIdleTask c")
  case None
  with assms none show ?thesis
    by (auto simp: GetTask_def go_bind_Inr_iff dest!: set_worker_task_Inr)
next
  case (Some i)
  from findIdleTask_Some [OF Some] Some assms some show ?thesis
    by (auto simp: GetTask_def Let_def go_bind_Inr_iff dest!: set_worker_task_Inr)
qed

lemma coord_inv_started:
  assumes "coord_inv files n c" and "i < length (c_tasks c)" and "t_status (c_tasks c ! i) = taskStatusIdle"
  shows "coord_inv files n (started c i now)"
proof -
  let ?t = "(c_tasks c ! i)\<lparr>t_status := taskStatusInProgress, t_startTime := now\<rparr>"
  have mem: "c_tasks c ! i \<in> set (c_tasks c)" using assms(2) by simp
  show ?thesis
  proof (rule coord_inv_tasks [OF assms(1)])
    show "inputs ((c_tasks c)[i := ?t]) = inputs (c_tasks c)"
      using assms(2,3) by (intro inputs_update_same) simp_all
    show "nlive ty ((c_tasks c)[i := ?t]) \<le> nlive ty (c_tasks c)" for ty
      using assms(2,3) by (simp add: nlive_update live_def)
    show "\<exists>u \<in> set (c_tasks c). t_taskType t = t_taskType u \<and> t_files t = t_files u \<and>
        (t_status t = t_status u \<or> t_status t \<noteq> taskStatusFailed)"
      if "t \<in> set ((c_tasks c)[i := ?t])" for t
      using in_set_update [OF that] mem by (elim disjE) (auto intro: bexI [of _ "c_tasks c ! i"])
  qed
qed

subsection \<open>Timing out\<close>

definition expire :: "nat \<Rightarrow> Coordinator \<Rightarrow> Coordinator" where
  "expire i c = c\<lparr>c_tasks := (c_tasks c)[i := (c_tasks c ! i)\<lparr>t_status := taskStatusTimedOut\<rparr>] @
     [\<lparr>t_files = t_files (c_tasks c ! i), t_status = taskStatusIdle, t_startTime = 0,
       t_taskType = t_taskType (c_tasks c ! i)\<rparr>]\<rparr>"

lemma timeoutTasks_induct:
  assumes "P c"
    and step: "\<And>c i. P c \<Longrightarrow> i < length (c_tasks c) \<Longrightarrow> t_status (c_tasks c ! i) = taskStatusInProgress \<Longrightarrow> P (expire i c)"
  shows "P (timeoutTasks now c)"
proof -
  have "P (timeoutTasks_loop now i ts c)"
    if "P c" "i + length ts \<le> length (c_tasks c)" "\<forall>j < length ts. c_tasks c ! (i + j) = ts ! j" for i ts c
    using that
  proof (induction now i ts c rule: timeoutTasks_loop.induct)
    case (2 now i t ts c)
    have t: "c_tasks c ! i = t" using 2(4) by force
    let ?late = "t_status t = taskStatusInProgress \<and> now i > t_startTime t + c_timeoutSecs c"
    have "timeoutTasks_loop now i (t # ts) c = timeoutTasks_loop now (Suc i) ts (if ?late then expire i c else c)"
      using t by (simp add: expire_def)
    moreover have "P (timeoutTasks_loop now (Suc i) ts (if ?late then expire i c else c))"
    proof -
      have "P (if ?late then expire i c else c)" using 2(2,3) t step by simp
      moreover have "\<forall>j < length ts. c_tasks c ! (Suc i + j) = ts ! j" using 2(4) by force
      ultimately show ?thesis
        using 2(1) 2(3) t by (auto simp: expire_def nth_append split: if_splits)
    qed
    ultimately show ?case by simp
  qed simp
  from this [OF assms(1), of 0 "c_tasks c"] show ?thesis by (simp add: timeoutTasks_def)
qed

lemma coord_inv_expire:
  assumes "coord_inv files n c" and i: "i < length (c_tasks c)" and "t_status (c_tasks c ! i) = taskStatusInProgress"
  shows "coord_inv files n (expire i c)"
proof -
  let ?t = "(c_tasks c ! i)\<lparr>t_status := taskStatusTimedOut\<rparr>"
  have "inputs ((c_tasks c)[i := ?t]) + (if t_taskType ?t = TaskTypeMap then mset (t_files ?t) else {#}) = inputs (c_tasks c)"
    using assms(2,3) by (intro inputs_update_timeout) simp_all
  then have inp: "inputs (c_tasks (expire i c)) = inputs (c_tasks c)"
    by (cases "t_taskType (c_tasks c ! i) = TaskTypeMap") (simp_all add: expire_def)
  have live: "nlive ty (c_tasks (expire i c)) \<le> nlive ty (c_tasks c)" for ty
    using assms(2,3) by (simp add: expire_def nlive_update live_def)
  have mem: "c_tasks c ! i \<in> set (c_tasks c)" using assms(2) by simp
  have "\<exists>u \<in> set (c_tasks c). t_taskType t = t_taskType u \<and> t_files t = t_files u \<and>
      (t_status t = t_status u \<or> t_status t \<noteq> taskStatusFailed)"
    if "t \<in> set (c_tasks (expire i c))" for t
  proof -
    from that have "t \<in> set ((c_tasks c)[i := ?t]) \<or> t_taskType t = t_taskType (c_tasks c ! i) \<and>
        t_files t = t_files (c_tasks c ! i) \<and> t_status t \<noteq> taskStatusFailed"
      by (auto simp: expire_def)
    then show ?thesis using in_set_update [of t] mem by (elim disjE) (auto dest!: in_set_update intro: bexI [of _ "c_tasks c ! i"])
  qed
  from coord_inv_tasks [OF assms(1) inp live this] show ?thesis by (simp add: expire_def)
qed

subsection \<open>Reporting\<close>

abbreviation completed :: "Coordinator \<Rightarrow> nat \<Rightarrow> Coordinator" where
  "completed c t \<equiv> c\<lparr>c_tasks := (c_tasks c)[t := (c_tasks c ! t)\<lparr>t_status := taskStatusCompleted\<rparr>]\<rparr>"

abbreviation reduce_task :: "string list \<Rightarrow> task" where
  "reduce_task fs \<equiv> \<lparr>t_files = fs, t_status = taskStatusIdle, t_startTime = 0, t_taskType = TaskTypeReduce\<rparr>"

lemma createReduceTasks_Inr:
  assumes "createReduceTasks it d c = Inr c'"
  obtains m where "group_files (filepath_Glob d ''m-out-*-*'') [] = Inr m"
    "c' = c\<lparr>c_tasks := c_tasks c @ map (\<lambda>k. reduce_task (vals_of m k)) (it (map fst m)),
            c_numReduceTasks := c_numReduceTasks c + int (length (it (map fst m)))\<rparr>"
proof -
  obtain m where m: "group_files (filepath_Glob d ''m-out-*-*'') [] = Inr m"
    and c': "c' = foldl (\<lambda>c k. c\<lparr>c_tasks := c_tasks c @ [reduce_task (vals_of m k)],
      c_numReduceTasks := c_numReduceTasks c + 1\<rparr>) c (it (map fst m))"
    using assms unfolding createReduceTasks_def go_bind_Inr_iff by auto
  have "foldl (\<lambda>c k. c\<lparr>c_tasks := c_tasks c @ [reduce_task (vals_of m k)],
      c_numReduceTasks := c_numReduceTasks c + 1\<rparr>) c ks =
      c\<lparr>c_tasks := c_tasks c @ map (\<lambda>k. reduce_task (vals_of m k)) ks,
        c_numReduceTasks := c_numReduceTasks c + int (length ks)\<rparr>" for ks and c :: Coordinator
    by (induction ks arbitrary: c) simp_all
  with m c' that show ?thesis by simp
qed

lemma TaskDone_cases:
  assumes done_: "TaskDone it c d (int t) created = Inr (c', d', ok)"
    and t: "t < length (c_tasks c)" and st: "t_status (c_tasks c ! t) \<in> {taskStatusInProgress, taskStatusTimedOut}"
  obtains (late) "t_status (c_tasks c ! t) = taskStatusTimedOut" "c' = c" "remove_files d created = (d', ok)"
  | (failed) "t_status (c_tasks c ! t) = taskStatusInProgress" "renameTempFiles d created = (d', False)"
      "c' = completed c t"
  | (map) "t_status (c_tasks c ! t) = taskStatusInProgress" "t_taskType (c_tasks c ! t) = TaskTypeMap"
      "renameTempFiles d created = (d', True)" "c_numMapTasks c \<noteq> 1"
      "c' = (completed c t)\<lparr>c_numMapTasks := c_numMapTasks c - 1\<rparr>"
  | (last_map) c1 where "t_status (c_tasks c ! t) = taskStatusInProgress" "t_taskType (c_tasks c ! t) = TaskTypeMap"
      "renameTempFiles d created = (d', True)" "c_numMapTasks c = 1"
      "createReduceTasks it d' ((completed c t)\<lparr>c_numMapTasks := 0\<rparr>) = Inr c1" "c' = c1\<lparr>c_phase := phaseReduce\<rparr>"
  | (reduce) ph where "t_status (c_tasks c ! t) = taskStatusInProgress" "t_taskType (c_tasks c ! t) = TaskTypeReduce"
      "renameTempFiles d created = (d', True)"
      "ph = (if c_numReduceTasks c = 1 then phaseShutdown else c_phase c)"
      "c' = (completed c t)\<lparr>c_numReduceTasks := c_numReduceTasks c - 1, c_phase := ph\<rparr>"
  | (other) "t_taskType (c_tasks c ! t) \<notin> {TaskTypeMap, TaskTypeReduce}"
proof -
  obtain dr okr where rn: "renameTempFiles d created = (dr, okr)" by (rule prod.exhaust)
  show ?thesis
  proof (cases "t_status (c_tasks c ! t) = taskStatusTimedOut")
    case True
    then have "c' = c" "remove_files d created = (d', ok)"
      using done_ t by (simp_all add: TaskDone_def split: prod.splits)
    with True show ?thesis by (rule late)
  next
    case False
    then have ip: "t_status (c_tasks c ! t) = taskStatusInProgress" using st by simp
    show ?thesis
    proof (cases "t_taskType (c_tasks c ! t)")
      case TaskTypeMap
      consider (bad) "\<not> okr" | (one) "okr" "c_numMapTasks c = 1" | (more) "okr" "c_numMapTasks c \<noteq> 1" by blast
      then show ?thesis
      proof cases
        case bad
        then have "renameTempFiles d created = (d', False)" "c' = completed c t"
          using done_ t ip TaskTypeMap rn by (simp_all add: TaskDone_def)
        with ip show ?thesis by (rule failed)
      next
        case one
        then obtain c1 where c1: "createReduceTasks it d' ((completed c t)\<lparr>c_numMapTasks := 0\<rparr>) = Inr c1"
          "c' = c1\<lparr>c_phase := phaseReduce\<rparr>" and d': "dr = d'"
          using done_ t ip TaskTypeMap rn by (simp add: TaskDone_def go_bind_Inr_iff) metis
        show ?thesis
          by (rule last_map [OF ip TaskTypeMap _ one(2) c1]) (use rn d' one in simp)
      next
        case more
        then have "renameTempFiles d created = (d', True)" "c' = (completed c t)\<lparr>c_numMapTasks := c_numMapTasks c - 1\<rparr>"
          using done_ t ip TaskTypeMap rn by (simp_all add: TaskDone_def)
        from map [OF ip TaskTypeMap this(1) more(2) this(2)] show ?thesis .
      qed
    next
      case TaskTypeReduce
      show ?thesis
      proof (cases okr)
        case False
        then have "renameTempFiles d created = (d', False)" "c' = completed c t"
          using done_ t ip TaskTypeReduce rn by (simp_all add: TaskDone_def)
        with ip show ?thesis by (rule failed)
      next
        case True
        let ?ph = "if c_numReduceTasks c = 1 then phaseShutdown else c_phase c"
        from True have "renameTempFiles d created = (d', True)"
          "c' = (completed c t)\<lparr>c_numReduceTasks := c_numReduceTasks c - 1, c_phase := ?ph\<rparr>"
          using done_ t ip TaskTypeReduce rn by (simp_all add: TaskDone_def Let_def split: if_splits)
        from reduce [OF ip TaskTypeReduce this(1) refl this(2)] show ?thesis .
      qed
    qed (use other in simp_all)
  qed
qed

lemma completed_counts:
  assumes "t < length (c_tasks c)" and "t_status (c_tasks c ! t) = taskStatusInProgress"
  shows "inputs (c_tasks (completed c t)) = inputs (c_tasks c)"
    and "nlive ty (c_tasks (completed c t)) = nlive ty (c_tasks c) - (if t_taskType (c_tasks c ! t) = ty then 1 else 0)"
    and "u \<in> set (c_tasks (completed c t)) \<Longrightarrow>
      \<exists>v \<in> set (c_tasks c). t_taskType u = t_taskType v \<and> t_files u = t_files v \<and>
        (t_status u = t_status v \<or> t_status u \<noteq> taskStatusFailed)"
proof -
  show "inputs (c_tasks (completed c t)) = inputs (c_tasks c)"
    using assms inputs_update_same [of t "c_tasks c"] by simp
  show "nlive ty (c_tasks (completed c t)) = nlive ty (c_tasks c) - (if t_taskType (c_tasks c ! t) = ty then 1 else 0)"
    using assms by (simp add: nlive_update live_def)
  show "u \<in> set (c_tasks (completed c t)) \<Longrightarrow>
      \<exists>v \<in> set (c_tasks c). t_taskType u = t_taskType v \<and> t_files u = t_files v \<and>
        (t_status u = t_status v \<or> t_status u \<noteq> taskStatusFailed)"
    using assms(1) by (auto dest!: in_set_update intro: bexI [of _ "c_tasks c ! t"])
qed

lemma coord_inv_completed:
  assumes "coord_inv files n c" and "t < length (c_tasks c)" and "t_status (c_tasks c ! t) = taskStatusInProgress"
  shows "coord_inv files n (completed c t)"
  using completed_counts [OF assms(2,3)] by (intro coord_inv_tasks [OF assms(1)]) simp_all

lemma coord_inv_TaskDone:
  assumes inv: "coord_inv files n c" and "TaskDone it c d (int t) created = Inr (c', d', ok)"
    and t: "t < length (c_tasks c)" and "t_status (c_tasks c ! t) \<in> {taskStatusInProgress, taskStatusTimedOut}"
  shows "coord_inv files n c'"
  using assms(2-4)
proof (cases rule: TaskDone_cases)
  case late
  with inv show ?thesis by simp
next
  case failed
  with coord_inv_completed [OF inv t] show ?thesis by simp
next
  case map
  note inv' = coord_inv_completed [OF inv t map(1)]
  have "c_phase c = phaseMap"
    using inv map(1,2) t nlive_zero [of TaskTypeMap "c_tasks c"] nlive_nonneg [of TaskTypeMap "c_tasks c"]
    by (force simp: coord_inv_def live_def)
  with inv inv' map completed_counts(2) [OF t map(1), of TaskTypeMap] show ?thesis
    by (simp add: coord_inv_def)
next
  case (last_map c1)
  note inv' = coord_inv_completed [OF inv t last_map(1)]
  from last_map(5) obtain m where c1: "c1 = (completed c t)\<lparr>c_numMapTasks := 0,
      c_tasks := c_tasks (completed c t) @ map (\<lambda>k. reduce_task (vals_of m k)) (it (map fst m)),
      c_numReduceTasks := c_numReduceTasks c + int (length (it (map fst m)))\<rparr>"
    by (rule createReduceTasks_Inr) simp
  have "nlive ty (map (\<lambda>k. reduce_task (vals_of m k)) ks) = (if ty = TaskTypeReduce then int (length ks) else 0)" for ty ks
    by (induction ks) (simp_all add: live_def)
  moreover have "inputs (map (\<lambda>k. reduce_task (vals_of m k)) ks) = {#}" for ks
    by (induction ks) simp_all
  ultimately show ?thesis
    using inv inv' last_map completed_counts(2) [OF t last_map(1), of TaskTypeMap] c1
    by (auto simp: coord_inv_def)
next
  case (reduce ph)
  note inv' = coord_inv_completed [OF inv t reduce(1)]
  have "c_tasks c ! t \<in> set (c_tasks c)" using t by simp
  with inv reduce(2) have "c_phase c \<noteq> phaseMap" by (auto simp: coord_inv_def)
  moreover have "nlive TaskTypeReduce (c_tasks c) \<noteq> 0"
    using reduce(1,2) t by (auto simp: nlive_zero live_def)
  ultimately show ?thesis
    using inv inv' reduce completed_counts(2) [OF t reduce(1), of TaskTypeReduce] nlive_nonneg [of TaskTypeReduce "c_tasks c"]
    by (auto simp: coord_inv_def)
next
  case other
  have "c_tasks c ! t \<in> set (c_tasks c)" using t by simp
  with inv other show ?thesis by (auto simp: coord_inv_def)
qed

end
