(* ===== verification/MrInvariant.thy ===== *)
theory MrInvariant
  imports MrSystem
begin

text \<open>
  The invariant of the MapReduce system in every reachable state, and what it means for the job: the
  phases do not overlap, no input file is lost or processed twice, whatever workers do and however
  often tasks are timed out, and the job ends only when the tasks have ended.
\<close>

section \<open>Every step\<close>

lemma att_inv_keep:
  assumes "att_inv n s"
    and "\<And>t res cr. y_att s' t = Some (res, cr) \<Longrightarrow>
      (\<exists>cr. y_att s t = Some (res, cr)) \<and> length (c_tasks (y_c s)) \<le> length (c_tasks (y_c s')) \<and>
      (let u = c_tasks (y_c s) ! t; u' = c_tasks (y_c s') ! t
       in t_files u' = t_files u \<and> t_taskType u' = t_taskType u \<and>
          (t_status u' = t_status u \<or> t_status u' = taskStatusTimedOut))"
  shows "att_inv n s'"
  unfolding att_inv_def
proof (intro allI impI)
  fix t res cr
  assume "y_att s' t = Some (res, cr)"
  from assms(2) [OF this] obtain cr0 where "y_att s t = Some (res, cr0)" "length (c_tasks (y_c s)) \<le> length (c_tasks (y_c s'))"
    "t_files (c_tasks (y_c s') ! t) = t_files (c_tasks (y_c s) ! t)"
    "t_taskType (c_tasks (y_c s') ! t) = t_taskType (c_tasks (y_c s) ! t)"
    "t_status (c_tasks (y_c s') ! t) = t_status (c_tasks (y_c s) ! t) \<or> t_status (c_tasks (y_c s') ! t) = taskStatusTimedOut"
    by (auto simp: Let_def)
  with att_invD [OF assms(1), of t res cr0]
  show "t < length (c_tasks (y_c s')) \<and> r_TaskId res = int t \<and> r_NReduce res = n \<and>
      r_Files res = t_files (c_tasks (y_c s') ! t) \<and> r_TaskType res = t_taskType (c_tasks (y_c s') ! t) \<and>
      t_status (c_tasks (y_c s') ! t) \<in> {taskStatusInProgress, taskStatusTimedOut}"
    by auto
qed

lemma timeoutTasks_frame:
  "c_nReduce (timeoutTasks now c) = c_nReduce c \<and> c_phase (timeoutTasks now c) = c_phase c \<and>
   c_workers (timeoutTasks now c) = c_workers c \<and>
   length (c_tasks c) \<le> length (c_tasks (timeoutTasks now c)) \<and>
   (\<forall>t < length (c_tasks c). let u = c_tasks c ! t; u' = c_tasks (timeoutTasks now c) ! t
      in t_files u' = t_files u \<and> t_taskType u' = t_taskType u \<and>
         (t_status u' = t_status u \<or> t_status u' = taskStatusTimedOut \<and> t_status u = taskStatusInProgress))"
  by (rule timeoutTasks_induct [where c = c])
     (auto simp: expire_def Let_def nth_append nth_list_update split: if_splits)

lemma TaskDone_frame:
  assumes "TaskDone it c d (int t) created = Inr (c', d', ok)"
    and t: "t < length (c_tasks c)" and "t_status (c_tasks c ! t) \<in> {taskStatusInProgress, taskStatusTimedOut}"
  shows "length (c_tasks c) \<le> length (c_tasks c')"
    and "j < length (c_tasks c) \<Longrightarrow> j \<noteq> t \<Longrightarrow> c_tasks c' ! j = c_tasks c ! j"
proof -
  have "length (c_tasks c) \<le> length (c_tasks c') \<and>
      (\<forall>j < length (c_tasks c). j \<noteq> t \<longrightarrow> c_tasks c' ! j = c_tasks c ! j)"
    using assms
  proof (cases rule: TaskDone_cases)
    case (last_map c1)
    from last_map(5) show ?thesis
      by (rule createReduceTasks_Inr) (simp add: last_map(6) nth_append)
  next
    case other
    then show ?thesis
      using assms by (auto simp: TaskDone_def Let_def split: if_splits prod.splits TaskType.splits)
  qed simp_all
  then show "length (c_tasks c) \<le> length (c_tasks c')"
    and "j < length (c_tasks c) \<Longrightarrow> j \<noteq> t \<Longrightarrow> c_tasks c' ! j = c_tasks c ! j" by simp_all
qed

lemma Done_frame: "Done now c d = (c', d', b) \<Longrightarrow> c' = timeoutTasks now c \<and> (\<not> b \<longrightarrow> d' = d)"
  by (auto simp: Done_def Let_def split: if_splits)

lemma Heartbeat_frame: "Heartbeat c w = Inr (c', b) \<Longrightarrow> \<exists>ws. c' = c\<lparr>c_workers := ws\<rparr>"
  by (auto simp: Heartbeat_def go_bind_Inr_iff simp del: slice_get_Inr split: if_splits intro: exI [of _ "c_workers c"])

lemma att_inv_frame:
  assumes "att_inv n s" and "c_tasks (y_c s') = c_tasks (y_c s)"
    and "\<And>t res cr. y_att s' t = Some (res, cr) \<Longrightarrow> \<exists>cr. y_att s t = Some (res, cr)"
  shows "att_inv n s'"
  using assms by (intro att_inv_keep [OF assms(1)]) (simp add: Let_def)

lemma mr_step_inv:
  assumes "mr_step mapf reducef s s'" and inv: "coord_inv files n (y_c s)" and att: "att_inv n s"
  shows "coord_inv files n (y_c s') \<and> att_inv n s'"
  using assms(1)
proof cases
  case register
  then show ?thesis
    using inv att by (auto simp: RegisterWorker_def intro!: att_inv_frame [OF att])
next
  case (get_task w now c res att')
  from get_task(2) show ?thesis
  proof (cases rule: GetTask_cases)
    case none
    with inv att get_task show ?thesis by (auto intro!: att_inv_frame [OF att])
  next
    case (some i ws)
    have "c_tasks (y_c s) ! i \<in> set (c_tasks (y_c s))" using some by simp
    with inv have ty: "t_taskType (c_tasks (y_c s) ! i) \<noteq> TaskTypeNoTask" by (auto simp: coord_inv_def)
    have "coord_inv files n c" using coord_inv_started [OF inv some(1,2)] some(3) by simp
    moreover have "att_inv n s'"
      unfolding att_inv_def
    proof (intro allI impI)
      fix t r cr assume "y_att s' t = Some (r, cr)"
      then consider "t = i" "r = res" | "t \<noteq> i" "y_att s t = Some (r, cr)"
        using get_task some ty by (auto split: if_splits)
      then show "t < length (c_tasks (y_c s')) \<and> r_TaskId r = int t \<and> r_NReduce r = n \<and>
          r_Files r = t_files (c_tasks (y_c s') ! t) \<and> r_TaskType r = t_taskType (c_tasks (y_c s') ! t) \<and>
          t_status (c_tasks (y_c s') ! t) \<in> {taskStatusInProgress, taskStatusTimedOut}"
      proof cases
        case 1
        with get_task some inv show ?thesis by (simp add: coord_inv_def)
      next
        case 2
        with get_task some att_invD [OF att 2(2)] show ?thesis by simp
      qed
    qed
    ultimately show ?thesis using get_task by simp
  qed
next
  case (task_done t res created it c d ok)
  note td = att_invD [OF att task_done(2)]
  have "coord_inv files n c"
    using coord_inv_TaskDone [OF inv _ td(1,6)] task_done td(2) by simp
  moreover have "att_inv n s'"
  proof (rule att_inv_keep [OF att])
    fix u r cr assume "y_att s' u = Some (r, cr)"
    then have u: "u \<noteq> t" "y_att s u = Some (r, cr)" using task_done by (auto split: if_splits)
    with TaskDone_frame [OF _ td(1,6)] task_done td(2) att_invD(1) [OF att u(2)]
    show "(\<exists>cr. y_att s u = Some (r, cr)) \<and> length (c_tasks (y_c s)) \<le> length (c_tasks (y_c s')) \<and>
      (let v = c_tasks (y_c s) ! u; v' = c_tasks (y_c s') ! u
       in t_files v' = t_files v \<and> t_taskType v' = t_taskType v \<and>
          (t_status v' = t_status v \<or> t_status v' = taskStatusTimedOut))"
      by (simp add: Let_def)
  qed
  ultimately show ?thesis using task_done by simp
next
  case (poll now c d)
  have c: "c = timeoutTasks now (y_c s)" using Done_frame [OF poll(2)] by simp
  have "coord_inv files n c"
    unfolding c using inv by (rule timeoutTasks_induct [where P = "coord_inv files n"]) (rule coord_inv_expire)
  moreover have "att_inv n s'"
    using timeoutTasks_frame [of now "y_c s"] att_invD(1) [OF att] poll(1) c
    by (intro att_inv_keep [OF att]) (auto simp: Let_def)
  ultimately show ?thesis using poll by simp
next
  case (heartbeat w c stop)
  then obtain ws where "c = (y_c s)\<lparr>c_workers := ws\<rparr>" using Heartbeat_frame by blast
  with heartbeat inv att show ?thesis by (auto intro!: att_inv_frame [OF att])
qed (use inv att in \<open>auto intro!: att_inv_frame [OF att] split: if_splits\<close>)

lemma mr_init_inv: "coord_inv files n (y_c (mr_init files n d))" "att_inv n (mr_init files n d)"
proof -
  let ?ts = "map (\<lambda>file. \<lparr>t_files = [file], t_status = taskStatusIdle, t_startTime = 0, t_taskType = TaskTypeMap\<rparr>) files"
  have "inputs ?ts = mset files" "nlive TaskTypeMap ?ts = int (length files)" "nlive TaskTypeReduce ?ts = 0"
    by (induction files) (simp_all add: live_def)
  then show "coord_inv files n (y_c (mr_init files n d))"
    by (auto simp: coord_inv_def mr_init_def MakeCoordinator_def createMapTasks_def zero_Coordinator_def)
qed (simp add: att_inv_def mr_init_def)

lemma mr_reach_inv:
  "mr_reach mapf reducef (mr_init files n d) s \<Longrightarrow> coord_inv files n (y_c s) \<and> att_inv n s"
  by (induction rule: mr_reach.induct) (auto simp: mr_init_inv dest: mr_step_inv)

section \<open>What the invariant gives\<close>

lemma coord_inv_map_over:
  assumes "coord_inv files n c" and "c_phase c \<noteq> phaseMap" and "t \<in> set (c_tasks c)" and "t_taskType t = TaskTypeMap"
  shows "t_status t = taskStatusCompleted \<or> t_status t = taskStatusTimedOut"
proof -
  have "nlive TaskTypeMap (c_tasks c) = 0"
    using assms(1,2) nlive_nonneg [of TaskTypeMap "c_tasks c"] by (auto simp: coord_inv_def)
  then have "\<not> live t" using assms(3,4) by (auto simp: nlive_zero)
  moreover have "t_status t \<noteq> taskStatusFailed" using assms(1,3) by (auto simp: coord_inv_def)
  ultimately show ?thesis by (cases "t_status t") (simp_all add: live_def)
qed

lemma completed_inputs:
  assumes "coord_inv files n c" and "c_phase c \<noteq> phaseMap"
  shows "mset (concat (map t_files
      (filter (\<lambda>t. t_taskType t = TaskTypeMap \<and> t_status t = taskStatusCompleted) (c_tasks c)))) = mset files"
proof -
  have "filter (\<lambda>t. t_taskType t = TaskTypeMap \<and> t_status t = taskStatusCompleted) (c_tasks c) =
      filter (\<lambda>t. t_taskType t = TaskTypeMap \<and> t_status t \<noteq> taskStatusTimedOut) (c_tasks c)"
    using coord_inv_map_over [OF assms] by (intro filter_cong) auto
  then show ?thesis using assms(1) by (simp add: coord_inv_def inputs_def)
qed

text \<open>A run: one input file, a map function without output, one worker.\<close>

definition demo_job :: "taskStatus \<Rightarrow> int \<Rightarrow> phase \<Rightarrow> Coordinator" where
  "demo_job st m ph = \<lparr>c_tasks = [\<lparr>t_files = [''a''], t_status = st, t_startTime = 0, t_taskType = TaskTypeMap\<rparr>],
     c_workers = [\<lparr>w_taskId = 0, w_isRunning = True\<rparr>], c_numMapTasks = m, c_numReduceTasks = 0,
     c_phase = ph, c_timeoutSecs = 10, c_nReduce = 1\<rparr>"

definition demo_end :: mr_sys where
  "demo_end = \<lparr>y_c = demo_job taskStatusCompleted 0 phaseReduce, y_d = [(''a'', ''x'')], y_att = (\<lambda>_. None)\<rparr>"

lemma demo_reach: "mr_reach (\<lambda>f txt. []) reducef (mr_init [''a''] 1 [(''a'', ''x'')]) demo_end"
proof -
  let ?res = "\<lparr>r_Files = [''a''], r_NReduce = 1, r_TaskType = TaskTypeMap, r_TaskId = 0\<rparr>"
  let ?s1 = "\<lparr>y_c = demo_job taskStatusIdle 1 phaseMap, y_d = [(''a'', ''x'')], y_att = (\<lambda>_. None)\<rparr>"
  let ?s2 = "\<lparr>y_c = demo_job taskStatusInProgress 1 phaseMap, y_d = [(''a'', ''x'')], y_att = [0 \<mapsto> (?res, None)]\<rparr>"
  let ?s3 = "\<lparr>y_c = demo_job taskStatusInProgress 1 phaseMap, y_d = [(''a'', ''x'')], y_att = [0 \<mapsto> (?res, Some [])]\<rparr>"
  let ?step = "mr_step (\<lambda>f txt. []) reducef"
  have fair: "fair_iter (\<lambda>ks. ks)" by (simp add: fair_iter_def)
  have "?step (mr_init [''a''] 1 [(''a'', ''x'')]) ?s1"
    using mr_step.register [of "\<lambda>f txt. []" reducef "mr_init [''a''] 1 [(''a'', ''x'')]"]
    by (simp add: mr_init_def MakeCoordinator_def createMapTasks_def zero_Coordinator_def RegisterWorker_def demo_job_def)
  moreover have "?step ?s1 ?s2"
    using mr_step.get_task [of ?s1 0 0 "demo_job taskStatusInProgress 1 phaseMap" ?res _ "\<lambda>f txt. []" reducef]
    by (simp add: GetTask_def findIdleTask_def set_worker_task_def slice_get_def demo_job_def)
  moreover have "?step ?s2 ?s3"
    using mr_step.run_map [of ?s2 0 ?res "\<lambda>ks. ks" "\<lambda>f txt. []" "[(''a'', ''x'')]" "[]" reducef] fair
    by (simp add: runMapTask_def getFileContent_def read_file_def mapKeysToSlice_def)
  moreover have "?step ?s3 demo_end"
    using mr_step.task_done [of ?s3 0 ?res "[]" "\<lambda>ks. ks" "y_c demo_end" "[(''a'', ''x'')]" True "\<lambda>f txt. []" reducef] fair
    by (simp add: TaskDone_def slice_get_def demo_job_def demo_end_def createReduceTasks_def filepath_Glob_def)
  ultimately show ?thesis by (rule more [OF more [OF more [OF more [OF start]]]])
qed

text \<open>
  C7: the map phase processes every input file exactly once. When the coordinator has left the map
  phase, the input files of the completed map tasks are exactly the files of the job, each as often as
  it was given, whatever workers crashed and however often tasks were timed out and handed out again.
\<close>

theorem map_exactly_once:
  assumes "mr_reach mapf reducef (mr_init files nReduce d) s" and "c_phase (y_c s) \<noteq> phaseMap"
  shows "mset (concat (map t_files
      (filter (\<lambda>t. t_taskType t = TaskTypeMap \<and> t_status t = taskStatusCompleted) (c_tasks (y_c s))))) = mset files"
  using completed_inputs mr_reach_inv [OF assms(1)] assms(2) by blast

theorem map_exactly_once_witness:
  "mr_reach (\<lambda>f txt. []) (\<lambda>k vs. []) (mr_init [''a''] 1 [(''a'', ''x'')]) demo_end \<and>
   mset (concat (map t_files
     (filter (\<lambda>t. t_taskType t = TaskTypeMap \<and> t_status t = taskStatusCompleted) (c_tasks (y_c demo_end))))) = {#''a''#}"
  using map_exactly_once [OF demo_reach] demo_reach by (simp add: demo_end_def demo_job_def)

text \<open>
  The phases do not overlap. As long as a map task is idle or in progress there is no reduce task,
  and the coordinator is in the map phase.
\<close>

lemma phases_do_not_overlap:
  assumes "mr_reach mapf reducef (mr_init files nReduce d) s"
    and "t \<in> set (c_tasks (y_c s))" and "t_taskType t = TaskTypeMap" and "live t"
  shows "c_phase (y_c s) = phaseMap \<and> (\<forall>u \<in> set (c_tasks (y_c s)). t_taskType u = TaskTypeMap)"
proof -
  have inv: "coord_inv files nReduce (y_c s)" using mr_reach_inv [OF assms(1)] by simp
  have "c_phase (y_c s) = phaseMap"
  proof (rule ccontr)
    assume "c_phase (y_c s) \<noteq> phaseMap"
    from coord_inv_map_over [OF inv this assms(2,3)] assms(4) show False by (auto simp: live_def)
  qed
  with inv show ?thesis by (auto simp: coord_inv_def)
qed

lemma phases_do_not_overlap_example:
  "\<exists>t \<in> set (c_tasks (y_c (mr_init [''a''] 1 []))). t_taskType t = TaskTypeMap \<and> live t \<and>
     c_phase (y_c (mr_init [''a''] 1 [])) = phaseMap"
proof -
  let ?t = "\<lparr>t_files = [''a''], t_status = taskStatusIdle, t_startTime = 0, t_taskType = TaskTypeMap\<rparr>"
  have t: "?t \<in> set (c_tasks (y_c (mr_init [''a''] 1 [])))" "t_taskType ?t = TaskTypeMap" "live ?t"
    by (simp_all add: mr_init_def MakeCoordinator_def createMapTasks_def live_def)
  from phases_do_not_overlap [OF start t] t show ?thesis by blast
qed

text \<open>
  C8: \<open>Done\<close> is right when it says that the job is over: then every task, map or reduce, is completed or
  was replaced after a timeout.
\<close>

theorem done_means_finished:
  assumes "mr_reach mapf reducef (mr_init files nReduce d) s" and "Done now (y_c s) (y_d s) = (c', d', True)"
    and "t \<in> set (c_tasks c')"
  shows "t_status t = taskStatusCompleted \<or> t_status t = taskStatusTimedOut"
proof -
  have inv: "coord_inv files nReduce (y_c s)" using mr_reach_inv [OF assms(1)] by simp
  have c': "c' = timeoutTasks now (y_c s)" using Done_frame [OF assms(2)] by simp
  have inv': "coord_inv files nReduce c'"
    unfolding c' using inv by (rule timeoutTasks_induct [where P = "coord_inv files nReduce"]) (rule coord_inv_expire)
  have phase: "c_phase c' \<noteq> phaseMap" using assms(2) by (auto simp: Done_def Let_def split: if_splits)
  have "\<not> live t"
  proof (cases "t_taskType t = TaskTypeMap")
    case True
    with coord_inv_map_over [OF inv' phase assms(3)] show ?thesis by (auto simp: live_def)
  next
    case False
    then have ty: "t_taskType t = TaskTypeReduce" using inv' assms(3) by (auto simp: coord_inv_def)
    show ?thesis
    proof (cases "c_phase c' = phaseReduce")
      case True
      with assms(2,3) c' show ?thesis by (auto simp: Done_def Let_def live_def split: if_splits)
    next
      case False
      then have "c_phase c' = phaseShutdown" using phase by (cases "c_phase c'") simp_all
      then have "nlive TaskTypeReduce (c_tasks c') = 0"
        using inv' nlive_nonneg [of TaskTypeReduce "c_tasks c'"] by (auto simp: coord_inv_def)
      with ty assms(3) show ?thesis by (auto simp: nlive_zero)
    qed
  qed
  moreover have "t_status t \<noteq> taskStatusFailed" using inv' assms(3) by (auto simp: coord_inv_def)
  ultimately show ?thesis by (cases "t_status t") (simp_all add: live_def)
qed

theorem done_means_finished_witness:
  "\<exists>c'. Done (\<lambda>_. 0) (y_c demo_end) (y_d demo_end) = (c', [(''a'', ''x'')], True) \<and>
     t_status (hd (c_tasks c')) = taskStatusCompleted"
proof -
  have d: "Done (\<lambda>_. 0) (y_c demo_end) (y_d demo_end) = (y_c demo_end, [(''a'', ''x'')], True)"
    by (simp add: Done_def timeoutTasks_def demo_end_def demo_job_def deleteFiles_def filepath_Glob_def)
  have t: "hd (c_tasks (y_c demo_end)) \<in> set (c_tasks (y_c demo_end))" by (simp add: demo_end_def demo_job_def)
  from done_means_finished [OF demo_reach d t] d show ?thesis by (auto simp: demo_end_def demo_job_def)
qed

section \<open>Waiting for the workers\<close>

lemma running_kept:
  assumes "mr_step mapf reducef s s'" and "w < length (c_workers (y_c s))" and "w_isRunning (c_workers (y_c s) ! w)"
  shows "w < length (c_workers (y_c s')) \<and> (w_isRunning (c_workers (y_c s') ! w) \<or>
    (\<exists>stop. Heartbeat (y_c s) (int w) = Inr (y_c s', stop)))"
  using assms(1)
proof cases
  case (get_task v now c res att)
  then show ?thesis
    using assms(2,3)
    by (auto simp: GetTask_def set_worker_task_def go_bind_Inr_iff nth_list_update Let_def split: option.splits)
next
  case (task_done t res created it c d ok)
  have "c_workers c = c_workers (y_c s)"
    using task_done(4) by (auto simp: TaskDone_def Let_def go_bind_Inr_iff simp del: slice_get_Inr
        elim!: createReduceTasks_Inr split: if_splits prod.splits TaskType.splits)
  with task_done assms(2,3) show ?thesis by simp
next
  case (poll now c d)
  then show ?thesis using Done_frame [OF poll(2)] timeoutTasks_frame [of now "y_c s"] assms(2,3) by simp
next
  case (heartbeat v c stop)
  show ?thesis
  proof (cases "v = int w")
    case True
    with heartbeat assms(2) show ?thesis
      by (auto simp: Heartbeat_def slice_get_def split: if_splits)
  next
    case False
    with heartbeat assms(2,3) show ?thesis
      by (auto simp: Heartbeat_def go_bind_Inr_iff nth_list_update split: if_splits)
  qed
qed (use assms(2,3) in \<open>simp_all add: RegisterWorker_def nth_append\<close>)



end
