(* ===== verification/MrMapPhase.thy ===== *)
theory MrMapPhase
  imports MrInvariant
begin

text \<open>
  The files of the map phase. While the coordinator is in the map phase, the intermediate files with
  final names (\<open>m-out-<task>-<reducer>\<close>) are exactly those of the completed map tasks, with exactly
  the pairs the map function emits for the task's input file. Attempts that crash or come too late leave
  or remove only temporary files. The main theorem says what the reduce phase starts from.
\<close>

section \<open>File names\<close>

definition map_file :: "nat \<Rightarrow> nat \<Rightarrow> string" where
  "map_file t r = ''m-out-'' @ digits t @ ''-'' @ digits r"

abbreviation temp_file :: "nat \<Rightarrow> nat \<Rightarrow> string" where
  "temp_file t r \<equiv> temp_map_file (int t) (int r)"

lemma Split_map_file: "strings_Split ''-'' (map_file t r) = [''m'', ''out'', digits t, digits r]"
proof -
  have "strings_Split ''-'' (''m'' @ CHR ''-'' # ''out'' @ CHR ''-'' # digits t @ CHR ''-'' # digits r) =
      [''m'', ''out'', digits t, digits r]"
    by (simp only: Split_char list.set insert_iff empty_iff digits_clean char.inject
        simp_thms digits_clean(1) Split_none)
  then show ?thesis by (simp add: map_file_def)
qed

lemma map_file_inj: "map_file t r = map_file t' r' \<longleftrightarrow> t = t' \<and> r = r'"
proof
  assume "map_file t r = map_file t' r'"
  then have "strings_Split ''-'' (map_file t r) = strings_Split ''-'' (map_file t' r')" by simp
  then show "t = t' \<and> r = r'" by (auto simp: Split_map_file dest: digits_inj)
qed simp

lemma temp_file_map_file: "temp_file t r = ''temp'' @ map_file t r"
  by (simp add: temp_map_file_def map_file_def)

lemma temp_file_inj: "temp_file t r = temp_file t' r' \<longleftrightarrow> t = t' \<and> r = r'"
  by (simp add: temp_file_map_file map_file_inj)

lemma temp_neq_map: "temp_file t r \<noteq> map_file t' r'"
  by (simp add: temp_map_file_def map_file_def)

lemma Replace_temp_file: "strings_ReplaceAll ''temp'' '''' (temp_file t r) = map_file t r"
proof -
  have tail: "strings_Cut ''temp'' (digits t @ CHR ''-'' # digits r) = None"
    by (rule strings_Cut_None) simp
  have "strings_Cut ''temp'' (map_file t r) = None" by (simp add: map_file_def tail)
  then have "strings_ReplaceAll ''temp'' '''' (map_file t r) = map_file t r"
    by (subst strings_ReplaceAll.simps) simp
  moreover have "strings_Cut ''temp'' (temp_file t r) = Some ('''', map_file t r)"
    by (simp add: temp_file_map_file)
  ultimately show ?thesis by (subst strings_ReplaceAll.simps) simp
qed

lemma digits_no_slash [simp]: "CHR ''/'' \<notin> set (digits n)"
  using digits_are_digits by (force simp: is_digit_def)

lemma glob_map_file: "glob_match ''m-out-*-*'' (map_file t r)"
proof -
  have "glob_match ''*-*'' (digits t @ CHR ''-'' # digits r)"
    unfolding glob_star_char [of "CHR ''-''" "''*''", simplified]
    by (intro exI [of _ "digits t"] exI [of _ "digits r"]) (simp add: glob_star)
  then show ?thesis by (simp add: map_file_def)
qed

lemma glob_not_temp: "\<not> glob_match ''m-out-*-*'' (temp_file t r)"
  by (simp add: temp_map_file_def)

section \<open>What a map task leaves\<close>

text \<open>The pairs for one reducer, and the contents of the file that holds them (no file without pairs).\<close>

definition part :: "int \<Rightarrow> KeyValue list \<Rightarrow> nat \<Rightarrow> KeyValue list" where
  "part n kvs r = filter (\<lambda>kv. ihash (mk_Key kv) mod n = int r) kvs"

definition contents :: "int \<Rightarrow> KeyValue list \<Rightarrow> nat \<Rightarrow> string option" where
  "contents n kvs r = appended None (map map_line (part n kvs r))"

lemma contents_None: "contents n kvs r = None \<longleftrightarrow> part n kvs r = []"
  by (simp add: contents_def appended_def)

lemma contents_Some: "part n kvs r \<noteq> [] \<Longrightarrow> contents n kvs r = Some (concat (map map_line (part n kvs r)))"
  by (simp add: contents_def appended_def)

definition created_by :: "int \<Rightarrow> nat \<Rightarrow> KeyValue list \<Rightarrow> string set" where
  "created_by n t kvs = {temp_file t r |r. part n kvs r \<noteq> []}"

lemma pair_file_temp:
  assumes "0 < n"
  shows "pair_file (int t) n kv = temp_file t (nat (ihash (mk_Key kv) mod n))"
  using assms by simp

lemma pairs_for_part:
  assumes "0 < n"
  shows "pairs_for (int t) n kvs (temp_file t r) = part n kvs r"
  unfolding part_def
proof (rule filter_cong [OF refl])
  fix kv
  have "pair_file (int t) n kv = temp_file t r \<longleftrightarrow> nat (ihash (mk_Key kv) mod n) = r"
    unfolding pair_file_temp [OF assms] by (simp add: temp_file_inj del: int_nat_eq)
  also have "\<dots> \<longleftrightarrow> ihash (mk_Key kv) mod n = int r"
    using assms pos_mod_sign [of n "ihash (mk_Key kv)"] by auto
  finally show "pair_file (int t) n kv = temp_file t r \<longleftrightarrow> ihash (mk_Key kv) mod n = int r" .
qed

lemma pairs_for_other:
  assumes "0 < n" and "\<And>r. g \<noteq> temp_file t r"
  shows "pairs_for (int t) n kvs g = []"
proof -
  have "pair_file (int t) n kv \<noteq> g" for kv
    unfolding pair_file_temp [OF assms(1)] using assms(2) [of "nat (ihash (mk_Key kv) mod n)"] by blast
  then show ?thesis by (simp add: filter_empty_conv)
qed

lemma emit_files:
  assumes "0 < n"
  obtains d' created where "runMapTask_emit (int t) n kvs d [] = Inr (d', created)"
    "\<And>r. read_file d' (temp_file t r) = appended (read_file d (temp_file t r)) (map map_line (part n kvs r))"
    "\<And>g. (\<And>r. g \<noteq> temp_file t r) \<Longrightarrow> read_file d' g = read_file d g"
    "set created = created_by n t kvs" "distinct created" "distinct (map fst d) \<Longrightarrow> distinct (map fst d')"
proof -
  obtain d' created where e: "runMapTask_emit (int t) n kvs d [] = Inr (d', created)"
    and rd: "\<forall>f. read_file d' f = appended (read_file d f) (map map_line (pairs_for (int t) n kvs f))"
    and cr0: "set created = set [] \<union> pair_file (int t) n ` set kvs" and ds0: "distinct ([] :: string list) \<longrightarrow> distinct created"
    and dd: "distinct (map fst d) \<longrightarrow> distinct (map fst d')"
    using runMapTask_emit_spec [OF less_imp_neq [OF assms, symmetric], of "int t" kvs d "[]"] by blast
  have cr: "set created = pair_file (int t) n ` set kvs" using cr0 by simp
  have ds: "distinct created" using ds0 by simp
  have "f \<in> pair_file (int t) n ` set kvs \<longleftrightarrow> f \<in> created_by n t kvs" for f
  proof
    assume "f \<in> pair_file (int t) n ` set kvs"
    then obtain kv where kv: "kv \<in> set kvs" "f = temp_file t (nat (ihash (mk_Key kv) mod n))"
      using pair_file_temp [OF assms, of t] by blast
    then have "kv \<in> set (part n kvs (nat (ihash (mk_Key kv) mod n)))" using assms by (simp add: part_def)
    then have "part n kvs (nat (ihash (mk_Key kv) mod n)) \<noteq> []" by (metis empty_iff empty_set)
    with kv(2) show "f \<in> created_by n t kvs" unfolding created_by_def by blast
  next
    assume "f \<in> created_by n t kvs"
    then obtain r where r: "f = temp_file t r" "part n kvs r \<noteq> []" by (auto simp: created_by_def)
    have "pairs_for (int t) n kvs f \<noteq> []" unfolding r(1) pairs_for_part [OF assms] by (rule r(2))
    then have "\<exists>kv \<in> set kvs. pair_file (int t) n kv = f" by (simp only: filter_empty_conv) blast
    then show "f \<in> pair_file (int t) n ` set kvs" by blast
  qed
  then have "set created = created_by n t kvs" using cr by blast
  show ?thesis
  proof (rule that [OF e])
    show "read_file d' (temp_file t r) = appended (read_file d (temp_file t r)) (map map_line (part n kvs r))" for r
      unfolding rd [rule_format] pairs_for_part [OF assms] ..
    show "read_file d' g = read_file d g" if "\<And>r. g \<noteq> temp_file t r" for g
      unfolding rd [rule_format] pairs_for_other [OF assms that] by simp
  qed (fact | use dd in blast)+
qed

lemma remove_files_other:
  assumes "remove_files d fs = (d', ok)"
  shows "g \<notin> set fs \<Longrightarrow> read_file d' g = read_file d g" "distinct (map fst d) \<Longrightarrow> distinct (map fst d')"
proof -
  have "(g \<notin> set fs \<longrightarrow> read_file d' g = read_file d g) \<and> (distinct (map fst d) \<longrightarrow> distinct (map fst d'))"
    using assms
  proof (induction d fs arbitrary: d' rule: remove_files.induct)
    case (2 d f fs)
    show ?case
    proof (cases "os_Remove d f")
      case (Some d1)
      have "distinct (map fst d) \<longrightarrow> distinct (map fst d1)"
        using Some by (auto simp: os_Remove_def distinct_delete split: if_splits)
      with 2 Some read_Remove [OF Some, of g] show ?thesis by auto
    qed (use 2 in simp)
  qed simp
  then show "g \<notin> set fs \<Longrightarrow> read_file d' g = read_file d g" "distinct (map fst d) \<Longrightarrow> distinct (map fst d')"
    by simp_all
qed

lemma rename_one:
  assumes "read_file d (temp_file t r) = Some txt"
  obtains d' where "os_Rename d (temp_file t r) (strings_ReplaceAll ''temp'' '''' (temp_file t r)) = Some d'"
    "\<And>g. read_file d' g = (if g = map_file t r then Some txt else if g = temp_file t r then None else read_file d g)"
    "distinct (map fst d) \<Longrightarrow> distinct (map fst d')"
proof -
  obtain d' where d': "os_Rename d (temp_file t r) (map_file t r) = Some d'"
    using assms by (simp add: os_Rename_def read_file_def)
  have "distinct (map fst d) \<Longrightarrow> distinct (map fst d')"
    using d' by (auto simp: os_Rename_def distinct_update distinct_delete split: option.splits)
  with that [of d'] d' read_Rename [OF d'] assms Replace_temp_file show ?thesis by simp
qed

lemma rename_all:
  assumes "distinct rs" and "\<forall>r \<in> set rs. read_file d (temp_file t r) \<noteq> None"
  shows "\<exists>d'. renameTempFiles d (map (temp_file t) rs) = (d', True) \<and>
    (\<forall>g. (\<forall>r. g \<noteq> temp_file t r \<and> g \<noteq> map_file t r) \<longrightarrow> read_file d' g = read_file d g) \<and>
    (\<forall>r. read_file d' (map_file t r) = (if r \<in> set rs then read_file d (temp_file t r) else read_file d (map_file t r))) \<and>
    (distinct (map fst d) \<longrightarrow> distinct (map fst d'))"
  using assms
proof (induction rs arbitrary: d)
  case (Cons r rs)
  obtain body where body: "read_file d (temp_file t r) = Some body" using Cons.prems(2) by auto
  obtain d1 where d1: "os_Rename d (temp_file t r) (strings_ReplaceAll ''temp'' '''' (temp_file t r)) = Some d1"
    "\<And>g. read_file d1 g = (if g = map_file t r then Some body else if g = temp_file t r then None else read_file d g)"
    "distinct (map fst d) \<Longrightarrow> distinct (map fst d1)"
    by (rule rename_one [OF body]) blast
  have keep: "read_file d1 (temp_file t q) = read_file d (temp_file t q)" if "q \<noteq> r" for q
    using that d1(2) by (simp add: temp_file_inj temp_neq_map)
  have "\<forall>q \<in> set rs. read_file d1 (temp_file t q) \<noteq> None"
  proof
    fix q assume q: "q \<in> set rs"
    then have "q \<noteq> r" using Cons.prems(1) by auto
    with keep q Cons.prems(2) show "read_file d1 (temp_file t q) \<noteq> None" by simp
  qed
  with Cons.prems(1) obtain d' where d': "renameTempFiles d1 (map (temp_file t) rs) = (d', True)"
    "\<forall>g. (\<forall>r. g \<noteq> temp_file t r \<and> g \<noteq> map_file t r) \<longrightarrow> read_file d' g = read_file d1 g"
    "\<forall>r. read_file d' (map_file t r) = (if r \<in> set rs then read_file d1 (temp_file t r) else read_file d1 (map_file t r))"
    "distinct (map fst d1) \<longrightarrow> distinct (map fst d')"
    using Cons.IH [of d1] by auto
  have "read_file d' (map_file t q) = (if q \<in> set (r # rs) then read_file d (temp_file t q) else read_file d (map_file t q))" for q
  proof (cases "q = r")
    case True
    with Cons.prems(1) d'(3) d1(2) body show ?thesis by simp
  next
    case False
    with d'(3) keep [OF False] d1(2) [of "map_file t q"] show ?thesis
      by (simp add: map_file_inj temp_neq_map [symmetric])
  qed
  moreover have "read_file d' g = read_file d g" if "\<forall>r. g \<noteq> temp_file t r \<and> g \<noteq> map_file t r" for g
    using d'(2) d1(2) that by simp
  ultimately show ?case using d1 d' by (intro exI [of _ d']) simp
qed simp

section \<open>The invariant on the files\<close>

definition pairs_of :: "mapf \<Rightarrow> dir \<Rightarrow> task \<Rightarrow> KeyValue list" where
  "pairs_of mapf d0 t = mapf (hd (t_files t)) (the (read_file d0 (hd (t_files t))))"

text \<open>
  A directory the job may start in: the input files exist, there are no left-over intermediate files,
  and no input file has the name of one.
\<close>

definition clean_job :: "string list \<Rightarrow> dir \<Rightarrow> bool" where
  "clean_job files d0 \<longleftrightarrow>
     distinct (map fst d0) \<and>
     (\<forall>f \<in> set files. read_file d0 f \<noteq> None \<and> (\<forall>t r. f \<noteq> temp_file t r \<and> f \<noteq> map_file t r)) \<and>
     (\<forall>g. glob_match ''m-out-*-*'' g \<longrightarrow> read_file d0 g = None) \<and>
     (\<forall>t r. read_file d0 (temp_file t r) = None)"

definition files_inv :: "mapf \<Rightarrow> int \<Rightarrow> dir \<Rightarrow> string list \<Rightarrow> mr_sys \<Rightarrow> bool" where
  "files_inv mapf n d0 files s \<longleftrightarrow>
     distinct (map fst (y_d s)) \<and>
     (\<forall>g. (\<forall>t r. g \<noteq> temp_file t r \<and> g \<noteq> map_file t r) \<longrightarrow> read_file (y_d s) g = read_file d0 g) \<and>
     (\<forall>g. glob_match ''m-out-*-*'' g \<longrightarrow> read_file (y_d s) g \<noteq> None \<longrightarrow>
        (\<exists>t r. g = map_file t r \<and> t < length (c_tasks (y_c s)) \<and> t_status (c_tasks (y_c s) ! t) = taskStatusCompleted)) \<and>
     (\<forall>t r. t < length (c_tasks (y_c s)) \<longrightarrow> t_status (c_tasks (y_c s) ! t) = taskStatusCompleted \<longrightarrow>
        read_file (y_d s) (map_file t r) = contents n (pairs_of mapf d0 (c_tasks (y_c s) ! t)) r) \<and>
     (\<forall>t r. (t < length (c_tasks (y_c s)) \<longrightarrow> t_status (c_tasks (y_c s) ! t) = taskStatusIdle) \<longrightarrow>
        read_file (y_d s) (temp_file t r) = None) \<and>
     (\<forall>t res r. y_att s t = Some (res, None) \<longrightarrow> read_file (y_d s) (temp_file t r) = None) \<and>
     (\<forall>t res cr. y_att s t = Some (res, Some cr) \<longrightarrow>
        distinct cr \<and> set cr = created_by n t (pairs_of mapf d0 (c_tasks (y_c s) ! t)) \<and>
        (\<forall>r. read_file (y_d s) (temp_file t r) = contents n (pairs_of mapf d0 (c_tasks (y_c s) ! t)) r))"

lemma files_invD:
  assumes "files_inv mapf n d0 files s"
  shows "distinct (map fst (y_d s))"
    and "(\<And>t r. g \<noteq> temp_file t r \<and> g \<noteq> map_file t r) \<Longrightarrow> read_file (y_d s) g = read_file d0 g"
    and "glob_match ''m-out-*-*'' g \<Longrightarrow> read_file (y_d s) g \<noteq> None \<Longrightarrow>
      \<exists>t r. g = map_file t r \<and> t < length (c_tasks (y_c s)) \<and> t_status (c_tasks (y_c s) ! t) = taskStatusCompleted"
    and "t < length (c_tasks (y_c s)) \<Longrightarrow> t_status (c_tasks (y_c s) ! t) = taskStatusCompleted \<Longrightarrow>
      read_file (y_d s) (map_file t r) = contents n (pairs_of mapf d0 (c_tasks (y_c s) ! t)) r"
    and "(t < length (c_tasks (y_c s)) \<Longrightarrow> t_status (c_tasks (y_c s) ! t) = taskStatusIdle) \<Longrightarrow>
      read_file (y_d s) (temp_file t r) = None"
    and "y_att s t = Some (res, None) \<Longrightarrow> read_file (y_d s) (temp_file t r) = None"
    and "y_att s t = Some (res, Some cr) \<Longrightarrow> distinct cr"
    and "y_att s t = Some (res, Some cr) \<Longrightarrow> set cr = created_by n t (pairs_of mapf d0 (c_tasks (y_c s) ! t))"
    and "y_att s t = Some (res, Some cr) \<Longrightarrow>
      read_file (y_d s) (temp_file t r) = contents n (pairs_of mapf d0 (c_tasks (y_c s) ! t)) r"
proof -
  note defn = assms [unfolded files_inv_def]
  show "distinct (map fst (y_d s))" using defn by (elim conjE)
  show "(\<And>t r. g \<noteq> temp_file t r \<and> g \<noteq> map_file t r) \<Longrightarrow> read_file (y_d s) g = read_file d0 g"
    using defn by (elim conjE) blast
  show "glob_match ''m-out-*-*'' g \<Longrightarrow> read_file (y_d s) g \<noteq> None \<Longrightarrow>
      \<exists>t r. g = map_file t r \<and> t < length (c_tasks (y_c s)) \<and> t_status (c_tasks (y_c s) ! t) = taskStatusCompleted"
    using defn by (elim conjE) (drule spec, drule (1) mp, drule (1) mp)
qed (use assms [unfolded files_inv_def] in \<open>(elim conjE, metis)+\<close>)

subsection \<open>Steps that leave the directory alone\<close>

lemma files_inv_same_dir:
  assumes inv: "files_inv mapf n d0 files s" and d: "y_d s' = y_d s"
    and len: "length (c_tasks (y_c s)) \<le> length (c_tasks (y_c s'))"
    and old: "\<And>t. t < length (c_tasks (y_c s)) \<Longrightarrow>
      t_files (c_tasks (y_c s') ! t) = t_files (c_tasks (y_c s) ! t) \<and>
      (t_status (c_tasks (y_c s') ! t) = taskStatusCompleted \<longleftrightarrow> t_status (c_tasks (y_c s) ! t) = taskStatusCompleted) \<and>
      (t_status (c_tasks (y_c s') ! t) = taskStatusIdle \<longrightarrow> t_status (c_tasks (y_c s) ! t) = taskStatusIdle)"
    and new: "\<And>t. length (c_tasks (y_c s)) \<le> t \<Longrightarrow> t < length (c_tasks (y_c s')) \<Longrightarrow>
      t_status (c_tasks (y_c s') ! t) \<noteq> taskStatusCompleted"
    and att: "\<And>t x. y_att s' t = Some x \<Longrightarrow> t < length (c_tasks (y_c s)) \<and>
      (y_att s t = Some x \<or> snd x = None \<and> t_status (c_tasks (y_c s) ! t) = taskStatusIdle)"
  shows "files_inv mapf n d0 files s'"
proof -
  have pairs: "pairs_of mapf d0 (c_tasks (y_c s') ! t) = pairs_of mapf d0 (c_tasks (y_c s) ! t)"
    if "t < length (c_tasks (y_c s))" for t
    using old [OF that] by (simp add: pairs_of_def)
  have comp: "t < length (c_tasks (y_c s)) \<and> t_status (c_tasks (y_c s) ! t) = taskStatusCompleted"
    if "t < length (c_tasks (y_c s'))" "t_status (c_tasks (y_c s') ! t) = taskStatusCompleted" for t
    using new [of t] old [of t] that by (cases "t < length (c_tasks (y_c s))") auto
  show ?thesis
    unfolding files_inv_def d
  proof (intro conjI allI impI ballI)
    show "distinct (map fst (y_d s))" by (rule files_invD(1) [OF inv])
    show "read_file (y_d s) g = read_file d0 g" if "\<forall>t r. g \<noteq> temp_file t r \<and> g \<noteq> map_file t r" for g
      by (rule files_invD(2) [OF inv]) (use that in blast)
    show "\<exists>t r. g = map_file t r \<and> t < length (c_tasks (y_c s')) \<and> t_status (c_tasks (y_c s') ! t) = taskStatusCompleted"
      if "glob_match ''m-out-*-*'' g" "read_file (y_d s) g \<noteq> None" for g
      using files_invD(3) [OF inv that] old len by (metis order_less_le_trans)
    show "read_file (y_d s) (map_file t r) = contents n (pairs_of mapf d0 (c_tasks (y_c s') ! t)) r"
      if "t < length (c_tasks (y_c s'))" "t_status (c_tasks (y_c s') ! t) = taskStatusCompleted" for t r
      using files_invD(4) [OF inv, of t r] comp [OF that] pairs by simp
    show "read_file (y_d s) (temp_file t r) = None"
      if "t < length (c_tasks (y_c s')) \<longrightarrow> t_status (c_tasks (y_c s') ! t) = taskStatusIdle" for t r
      using files_invD(5) [OF inv, of t r] old [of t] len that by (auto dest: order_less_le_trans)
    show "read_file (y_d s) (temp_file t r) = None" if "y_att s' t = Some (res, None)" for t res r
      using att [OF that] files_invD(6) [OF inv, of t res r] files_invD(5) [OF inv, of t r] by auto
  next
    fix t res cr assume a: "y_att s' t = Some (res, Some cr)"
    then have t: "t < length (c_tasks (y_c s))" "y_att s t = Some (res, Some cr)" using att by fastforce+
    show "distinct cr" "set cr = created_by n t (pairs_of mapf d0 (c_tasks (y_c s') ! t))"
      using files_invD(7,8) [OF inv t(2)] pairs [OF t(1)] by simp_all
    show "read_file (y_d s) (temp_file t r) = contents n (pairs_of mapf d0 (c_tasks (y_c s') ! t)) r" for r
      using files_invD(9) [OF inv t(2)] pairs [OF t(1)] by simp
  qed
qed

lemma files_inv_expire:
  assumes "files_inv mapf n d0 files (s\<lparr>y_c := c\<rparr>)" and "\<forall>u x. y_att s u = Some x \<longrightarrow> u < length (c_tasks c)"
    and "i < length (c_tasks c)" and "t_status (c_tasks c ! i) = taskStatusInProgress"
  shows "files_inv mapf n d0 files (s\<lparr>y_c := expire i c\<rparr>)"
proof (rule files_inv_same_dir [OF assms(1)]; simp)
  show "length (c_tasks c) \<le> length (c_tasks (expire i c))" by (simp add: expire_def)
  show "t_files (c_tasks (expire i c) ! t) = t_files (c_tasks c ! t) \<and>
      (t_status (c_tasks (expire i c) ! t) = taskStatusCompleted \<longleftrightarrow> t_status (c_tasks c ! t) = taskStatusCompleted) \<and>
      (t_status (c_tasks (expire i c) ! t) = taskStatusIdle \<longrightarrow> t_status (c_tasks c ! t) = taskStatusIdle)"
    if "t < length (c_tasks c)" for t
    using that assms(3,4) by (cases "t = i") (simp_all add: expire_def nth_append)
  show "t_status (c_tasks (expire i c) ! t) \<noteq> taskStatusCompleted"
    if "length (c_tasks c) \<le> t" "t < length (c_tasks (expire i c))" for t
    using that by (simp add: expire_def nth_append)
qed (use assms(2) in blast)

subsection \<open>Steps that touch the temporary files of one attempt\<close>

lemma files_inv_temp:
  assumes inv: "files_inv mapf n d0 files s" and c: "y_c s' = y_c s"
    and other: "\<And>g. (\<And>r. g \<noteq> temp_file t r) \<Longrightarrow> read_file (y_d s') g = read_file (y_d s) g"
    and dist: "distinct (map fst (y_d s'))"
    and t: "t < length (c_tasks (y_c s))" "t_status (c_tasks (y_c s) ! t) \<noteq> taskStatusIdle"
    and att: "\<And>u. u \<noteq> t \<Longrightarrow> y_att s' u = y_att s u"
    and none: "\<And>res. y_att s' t \<noteq> Some (res, None)"
    and some: "\<And>res cr r. y_att s' t = Some (res, Some cr) \<Longrightarrow>
      distinct cr \<and> set cr = created_by n t (pairs_of mapf d0 (c_tasks (y_c s) ! t)) \<and>
      read_file (y_d s') (temp_file t r) = contents n (pairs_of mapf d0 (c_tasks (y_c s) ! t)) r"
  shows "files_inv mapf n d0 files s'"
  unfolding files_inv_def c
proof (intro conjI allI impI ballI)
  have temp: "read_file (y_d s') (temp_file u r) = read_file (y_d s) (temp_file u r)" if "u \<noteq> t" for u r
    using that by (intro other) (simp add: temp_file_inj)
  have out: "read_file (y_d s') (map_file u r) = read_file (y_d s) (map_file u r)" for u r
    by (intro other) (rule temp_neq_map [symmetric])
  show "distinct (map fst (y_d s'))" by (rule dist)
  show "read_file (y_d s') g = read_file d0 g" if "\<forall>t r. g \<noteq> temp_file t r \<and> g \<noteq> map_file t r" for g
    using other [of g] files_invD(2) [OF inv, of g] that by simp
  show "\<exists>u r. g = map_file u r \<and> u < length (c_tasks (y_c s)) \<and> t_status (c_tasks (y_c s) ! u) = taskStatusCompleted"
    if g: "glob_match ''m-out-*-*'' g" "read_file (y_d s') g \<noteq> None" for g
  proof -
    have "\<And>r. g \<noteq> temp_file t r" using g(1) glob_not_temp by blast
    with other g(2) have "read_file (y_d s) g \<noteq> None" by simp
    with files_invD(3) [OF inv g(1)] show ?thesis by blast
  qed
  show "read_file (y_d s') (map_file u r) = contents n (pairs_of mapf d0 (c_tasks (y_c s) ! u)) r"
    if "u < length (c_tasks (y_c s))" "t_status (c_tasks (y_c s) ! u) = taskStatusCompleted" for u r
    unfolding out by (rule files_invD(4) [OF inv that])
  show "read_file (y_d s') (temp_file u r) = None"
    if "u < length (c_tasks (y_c s)) \<longrightarrow> t_status (c_tasks (y_c s) ! u) = taskStatusIdle" for u r
  proof -
    have "u \<noteq> t" using that t by auto
    with temp files_invD(5) [OF inv, of u r] that show ?thesis by simp
  qed
  show "read_file (y_d s') (temp_file u r) = None" if "y_att s' u = Some (res, None)" for u res r
  proof -
    have "u \<noteq> t" using that none by blast
    with temp files_invD(6) [OF inv, of u res r] that att show ?thesis by simp
  qed
  fix u res cr assume a: "y_att s' u = Some (res, Some cr)"
  show "distinct cr" "set cr = created_by n u (pairs_of mapf d0 (c_tasks (y_c s) ! u))"
    using some [of res cr] files_invD(7,8) [OF inv, of u res cr] a att [of u] by (cases "u = t"; simp)+
  show "read_file (y_d s') (temp_file u r) = contents n (pairs_of mapf d0 (c_tasks (y_c s) ! u)) r" for r
    using some [of res cr r] files_invD(9) [OF inv, of u res cr r] a att [of u] temp [of u] by (cases "u = t") simp_all
qed

subsection \<open>A map task is reported in time\<close>

lemma rename_created:
  assumes inv: "files_inv mapf n d0 files s" and att: "y_att s t = Some (res, Some created)"
    and rn: "renameTempFiles (y_d s) created = (d', ok)"
  shows "ok" and "distinct (map fst d')"
    and "\<And>g. (\<And>r. g \<noteq> temp_file t r \<and> g \<noteq> map_file t r) \<Longrightarrow> read_file d' g = read_file (y_d s) g"
    and "read_file d' (map_file t r) =
      (if contents n (pairs_of mapf d0 (c_tasks (y_c s) ! t)) r = None then read_file (y_d s) (map_file t r)
       else contents n (pairs_of mapf d0 (c_tasks (y_c s) ! t)) r)"
proof -
  let ?kvs = "pairs_of mapf d0 (c_tasks (y_c s) ! t)"
  have set: "set created = created_by n t ?kvs" by (rule files_invD(8) [OF inv att])
  then obtain rs where created: "created = map (temp_file t) rs"
    using ex_map_conv [of created "temp_file t"] by (auto simp: created_by_def)
  have rs: "distinct rs" using files_invD(7) [OF inv att] by (simp add: created distinct_map)
  have mem: "r \<in> set rs \<longleftrightarrow> part n ?kvs r \<noteq> []" for r
  proof -
    have "r \<in> set rs \<longleftrightarrow> temp_file t r \<in> set created" by (auto simp: created temp_file_inj)
    then show ?thesis by (auto simp: set created_by_def temp_file_inj)
  qed
  have "\<forall>r \<in> set rs. read_file (y_d s) (temp_file t r) \<noteq> None"
    using files_invD(9) [OF inv att] mem by (simp add: contents_None)
  from rename_all [OF rs this] obtain e where e: "renameTempFiles (y_d s) (map (temp_file t) rs) = (e, True)"
    "\<forall>g. (\<forall>r. g \<noteq> temp_file t r \<and> g \<noteq> map_file t r) \<longrightarrow> read_file e g = read_file (y_d s) g"
    "\<forall>r. read_file e (map_file t r) = (if r \<in> set rs then read_file (y_d s) (temp_file t r) else read_file (y_d s) (map_file t r))"
    "distinct (map fst (y_d s)) \<longrightarrow> distinct (map fst e)"
    by blast
  have e': "e = d'" "ok" using e(1) rn created by simp_all
  show "ok" by (rule e'(2))
  show "distinct (map fst d')" using e(4) e'(1) files_invD(1) [OF inv] by blast
  show "read_file d' g = read_file (y_d s) g" if "\<And>r. g \<noteq> temp_file t r \<and> g \<noteq> map_file t r" for g
    using e(2) e'(1) that by blast
  show "read_file d' (map_file t r) =
      (if contents n ?kvs r = None then read_file (y_d s) (map_file t r) else contents n ?kvs r)"
    using e(3) e'(1) mem [of r] files_invD(9) [OF inv att, of r] by (simp add: contents_None)
qed

lemma files_inv_completed:
  assumes inv: "files_inv mapf n d0 files s" and ai: "att_inv n s"
    and att: "y_att s t = Some (res, Some created)"
    and ip: "t_status (c_tasks (y_c s) ! t) = taskStatusInProgress"
    and rn: "renameTempFiles (y_d s) created = (d', ok)"
    and c: "c_tasks c' = c_tasks (completed (y_c s) t) @ new" and new: "\<forall>u \<in> set new. t_status u = taskStatusIdle"
    and s': "y_c s' = c'" "y_d s' = d'" "y_att s' = (y_att s)(t := None)"
  shows "files_inv mapf n d0 files s'"
proof -
  let ?ts = "c_tasks (y_c s)"
  have t: "t < length ?ts" by (rule att_invD(1) [OF ai att])
  note ren = rename_created [OF inv att rn]
  have no_out: "read_file (y_d s) (map_file t r) = None" for r
  proof (rule ccontr)
    assume "read_file (y_d s) (map_file t r) \<noteq> None"
    from files_invD(3) [OF inv glob_map_file this] ip show False by (auto simp: map_file_inj)
  qed
  have out_t: "read_file d' (map_file t r) = contents n (pairs_of mapf d0 (?ts ! t)) r" for r
    using ren(4) no_out by simp
  have temp: "read_file d' (temp_file u r) = read_file (y_d s) (temp_file u r)" if "u \<noteq> t" for u r
    using that by (intro ren(3)) (simp add: temp_file_inj temp_neq_map)
  have out: "read_file d' (map_file u r) = read_file (y_d s) (map_file u r)" if "u \<noteq> t" for u r
    using that by (intro ren(3)) (simp add: map_file_inj temp_neq_map [symmetric])
  have same: "c_tasks c' ! u = ?ts ! u" if "u < length ?ts" "u \<noteq> t" for u
    using that by (simp add: c nth_append)
  have idle: "t_status (c_tasks c' ! u) = taskStatusIdle" if "length ?ts \<le> u" "u < length (c_tasks c')" for u
    using that new by (simp add: c nth_append)
  have self: "c_tasks c' ! t = (?ts ! t)\<lparr>t_status := taskStatusCompleted\<rparr>" using t by (simp add: c nth_append)
  have pairs_t: "pairs_of mapf d0 (c_tasks c' ! t) = pairs_of mapf d0 (?ts ! t)" by (simp add: self pairs_of_def)
  have len: "length ?ts \<le> length (c_tasks c')" by (simp add: c)
  show ?thesis
    unfolding files_inv_def s'
  proof (intro conjI allI impI ballI)
    show "distinct (map fst d')" by (rule ren(2))
    show "read_file d' g = read_file d0 g" if "\<forall>t r. g \<noteq> temp_file t r \<and> g \<noteq> map_file t r" for g
      using ren(3) [of g] files_invD(2) [OF inv, of g] that by simp
    show "\<exists>u r. g = map_file u r \<and> u < length (c_tasks c') \<and> t_status (c_tasks c' ! u) = taskStatusCompleted"
      if g: "glob_match ''m-out-*-*'' g" "read_file d' g \<noteq> None" for g
    proof (cases "\<exists>r. g = map_file t r")
      case True
      then obtain r where "g = map_file t r" by blast
      with t len self show ?thesis by (intro exI [of _ t] exI [of _ r]) simp
    next
      case False
      moreover have "\<And>r. g \<noteq> temp_file t r" using g(1) glob_not_temp by blast
      ultimately have "read_file (y_d s) g \<noteq> None" using ren(3) g(2) by metis
      from files_invD(3) [OF inv g(1) this] obtain u r where
        u: "g = map_file u r" "u < length ?ts" "t_status (?ts ! u) = taskStatusCompleted" by blast
      then have "u \<noteq> t" using False by blast
      with u same len show ?thesis by (intro exI [of _ u] exI [of _ r]) simp
    qed
    show "read_file d' (map_file u r) = contents n (pairs_of mapf d0 (c_tasks c' ! u)) r"
      if u: "u < length (c_tasks c')" "t_status (c_tasks c' ! u) = taskStatusCompleted" for u r
    proof (cases "u = t")
      case True
      then show ?thesis using out_t pairs_t by simp
    next
      case False
      then have "u < length ?ts" using idle [of u] u by (cases "u < length ?ts") auto
      with False out same files_invD(4) [OF inv, of u r] u(2) show ?thesis by simp
    qed
    show "read_file d' (temp_file u r) = None"
      if u: "u < length (c_tasks c') \<longrightarrow> t_status (c_tasks c' ! u) = taskStatusIdle" for u r
    proof -
      have "u \<noteq> t" using u self t len by auto
      moreover have "u < length ?ts \<Longrightarrow> t_status (?ts ! u) = taskStatusIdle" using u same [of u] \<open>u \<noteq> t\<close> len by auto
      ultimately show ?thesis using temp files_invD(5) [OF inv, of u r] by simp
    qed
    show "read_file d' (temp_file u r) = None" if "((y_att s)(t := None)) u = Some (res', None)" for u res' r
      using that temp files_invD(6) [OF inv, of u res' r] by (auto split: if_splits)
    fix u res' cr assume "((y_att s)(t := None)) u = Some (res', Some cr)"
    then have u: "u \<noteq> t" "y_att s u = Some (res', Some cr)" by (auto split: if_splits)
    note u' = same [OF att_invD(1) [OF ai u(2)] u(1)]
    show "distinct cr" "set cr = created_by n u (pairs_of mapf d0 (c_tasks c' ! u))"
      using files_invD(7,8) [OF inv u(2)] u' by simp_all
    show "read_file d' (temp_file u r) = contents n (pairs_of mapf d0 (c_tasks c' ! u)) r" for r
      using files_invD(9) [OF inv u(2)] u' temp [OF u(1)] by simp
  qed
qed

subsection \<open>Every step of the map phase\<close>

lemma att_map_task:
  assumes "coord_inv files n (y_c s)" and "att_inv n s" and "c_phase (y_c s) = phaseMap" and "y_att s t = Some (res, cr)"
  obtains f where "t_taskType (c_tasks (y_c s) ! t) = TaskTypeMap" "r_Files res = [f]" "f \<in> set files"
    "pairs_of mapf d0 (c_tasks (y_c s) ! t) = mapf f (the (read_file d0 f))"
proof -
  note a = att_invD [OF assms(2,4)]
  have mem: "c_tasks (y_c s) ! t \<in> set (c_tasks (y_c s))" using a(1) by simp
  then obtain f where f: "t_taskType (c_tasks (y_c s) ! t) = TaskTypeMap" "t_files (c_tasks (y_c s) ! t) = [f]" "f \<in> set files"
    using assms(1,3) by (auto simp: coord_inv_def)
  with that a(4) show ?thesis by (auto simp: pairs_of_def)
qed

lemma run_map_emit:
  assumes "runMapTask (int t) [f] n mapf it d = Inr (d', Some created)"
    and "read_file d f = Some content" and "fair_iter it"
  obtains cr where "runMapTask_emit (int t) n (mapf f content) d [] = Inr (d', cr)" "mset created = mset cr"
  using assms
  by (auto simp: runMapTask_def getFileContent_def go_bind_Inr_iff mapKeysToSlice_def fair_iter_def)

lemma files_inv_step:
  assumes clean: "clean_job files d0" and n: "0 < n"
    and step: "mr_step mapf reducef s s'" and ph: "c_phase (y_c s) = phaseMap"
    and ci: "coord_inv files n (y_c s)" and ai: "att_inv n s" and inv: "files_inv mapf n d0 files s"
  shows "files_inv mapf n d0 files s'"
  using step
proof cases
  case register
  then show ?thesis
    using att_invD(1) [OF ai] by (intro files_inv_same_dir [OF inv]) (auto simp: RegisterWorker_def)
next
  case (get_task w now c res att')
  from get_task(2) show ?thesis
  proof (cases rule: GetTask_cases)
    case none
    with get_task att_invD(1) [OF ai] show ?thesis by (intro files_inv_same_dir [OF inv]) auto
  next
    case (some i ws)
    show ?thesis
    proof (rule files_inv_same_dir [OF inv])
      show "u < length (c_tasks (y_c s)) \<and> (y_att s u = Some x \<or> snd x = None \<and> t_status (c_tasks (y_c s) ! u) = taskStatusIdle)"
        if "y_att s' u = Some x" for u x
        using that get_task some att_invD(1) [OF ai, of u "fst x" "snd x"] by (auto split: if_splits)
    qed (use get_task some in \<open>auto simp: nth_list_update\<close>)
  qed
next
  case (run_map t res it d created)
  obtain f where f: "r_Files res = [f]" "f \<in> set files"
    "pairs_of mapf d0 (c_tasks (y_c s) ! t) = mapf f (the (read_file d0 f))"
    using att_map_task [OF ci ai ph run_map(2)] by metis
  have rf: "read_file (y_d s) f = Some (the (read_file d0 f))"
    using clean f(2) files_invD(2) [OF inv, of f] by (auto simp: clean_job_def)
  note a = att_invD [OF ai run_map(2)]
  obtain cr where cr: "runMapTask_emit (int t) n (mapf f (the (read_file d0 f))) (y_d s) [] = Inr (d, cr)" "mset created = mset cr"
    using run_map_emit [OF _ rf run_map(4)] run_map(5) f(1) a(2,3) by metis
  show ?thesis
  proof (rule emit_files [OF n, of t "mapf f (the (read_file d0 f))" "y_d s"])
    fix e cr' assume e: "runMapTask_emit (int t) n (mapf f (the (read_file d0 f))) (y_d s) [] = Inr (e, cr')"
      "\<And>r. read_file e (temp_file t r) =
         appended (read_file (y_d s) (temp_file t r)) (map map_line (part n (mapf f (the (read_file d0 f))) r))"
      "\<And>g. (\<And>r. g \<noteq> temp_file t r) \<Longrightarrow> read_file e g = read_file (y_d s) g"
      "set cr' = created_by n t (mapf f (the (read_file d0 f)))" "distinct cr'"
      "distinct (map fst (y_d s)) \<Longrightarrow> distinct (map fst e)"
    have ed: "e = d" "cr' = cr" using e(1) cr(1) by simp_all
    have created: "set created = created_by n t (mapf f (the (read_file d0 f)))" "distinct created"
      using e(4,5) ed cr(2) mset_eq_setD mset_eq_imp_distinct_iff by blast+
    have s': "y_c s' = y_c s" "y_d s' = e" "y_att s' = (y_att s)(t \<mapsto> (res, Some created))"
      using run_map(1) ed(1) by simp_all
    show ?thesis
    proof (rule files_inv_temp [OF inv, where t = t])
      show "read_file (y_d s') g = read_file (y_d s) g" if "\<And>r. g \<noteq> temp_file t r" for g
        unfolding s' using that by (rule e(3))
      show "distinct (map fst (y_d s'))" unfolding s' by (rule e(6) [OF files_invD(1) [OF inv]])
      show "t_status (c_tasks (y_c s) ! t) \<noteq> taskStatusIdle" using a(6) by auto
      show "distinct cr \<and> set cr = created_by n t (pairs_of mapf d0 (c_tasks (y_c s) ! t)) \<and>
          read_file (y_d s') (temp_file t r) = contents n (pairs_of mapf d0 (c_tasks (y_c s) ! t)) r"
        if "y_att s' t = Some (res', Some cr)" for res' cr r
        using that created e(2) [of r] files_invD(6) [OF inv run_map(2), of r] f(3) by (simp add: s' contents_def)
    qed (simp_all add: s' a(1))
  qed
next
  case (run_reduce t res it d created)
  have "t_taskType (c_tasks (y_c s) ! t) = TaskTypeMap"
    by (rule att_map_task [OF ci ai ph run_reduce(2)])
  with run_reduce(3) att_invD(5) [OF ai run_reduce(2)] show ?thesis by simp
next
  case (crash_reduce t res m R it k d created)
  have "t_taskType (c_tasks (y_c s) ! t) = TaskTypeMap"
    by (rule att_map_task [OF ci ai ph crash_reduce(2)])
  with crash_reduce(3) att_invD(5) [OF ai crash_reduce(2)] show ?thesis by simp
next
  case (crash_map t res f content k d created)
  note a = att_invD [OF ai crash_map(2)]
  show ?thesis
  proof (rule emit_files [OF n, of t "take k (mapf f content)" "y_d s"])
    fix e cr' assume e: "runMapTask_emit (int t) n (take k (mapf f content)) (y_d s) [] = Inr (e, cr')"
      "\<And>g. (\<And>r. g \<noteq> temp_file t r) \<Longrightarrow> read_file e g = read_file (y_d s) g"
      "distinct (map fst (y_d s)) \<Longrightarrow> distinct (map fst e)"
    have ed: "e = d" using e(1) crash_map(6) a(2,3) by simp
    have s': "y_c s' = y_c s" "y_d s' = e" "y_att s' = (y_att s)(t := None)"
      using crash_map(1) ed by simp_all
    show ?thesis
    proof (rule files_inv_temp [OF inv, where t = t])
      show "read_file (y_d s') g = read_file (y_d s) g" if "\<And>r. g \<noteq> temp_file t r" for g
        unfolding s' using that by (rule e(2))
      show "distinct (map fst (y_d s'))" unfolding s' by (rule e(3) [OF files_invD(1) [OF inv]])
      show "t_status (c_tasks (y_c s) ! t) \<noteq> taskStatusIdle" using a(6) by auto
    qed (simp_all add: s' a(1))
  qed
next
  case (crash t)
  then show ?thesis
    using att_invD(1) [OF ai] by (intro files_inv_same_dir [OF inv]) (auto split: if_splits)
next
  case (poll now c d)
  have c: "c = timeoutTasks now (y_c s)" "d = y_d s" using Done_frame [OF poll(2)] by simp_all
  have "files_inv mapf n d0 files (s\<lparr>y_c := c\<rparr>) \<and> (\<forall>u x. y_att s u = Some x \<longrightarrow> u < length (c_tasks c))"
    unfolding c(1)
  proof (rule timeoutTasks_induct [where P = "\<lambda>c. files_inv mapf n d0 files (s\<lparr>y_c := c\<rparr>) \<and>
      (\<forall>u x. y_att s u = Some x \<longrightarrow> u < length (c_tasks c))"])
    have "s\<lparr>y_c := y_c s\<rparr> = s" by simp
    moreover have "u < length (c_tasks (y_c s))" if "y_att s u = Some x" for u x
      using att_invD(1) [OF ai, of u "fst x" "snd x"] that by simp
    ultimately show "files_inv mapf n d0 files (s\<lparr>y_c := y_c s\<rparr>) \<and> (\<forall>u x. y_att s u = Some x \<longrightarrow> u < length (c_tasks (y_c s)))"
      using inv by (simp only: simp_thms) blast
  next
    fix c i assume IH: "files_inv mapf n d0 files (s\<lparr>y_c := c\<rparr>) \<and> (\<forall>u x. y_att s u = Some x \<longrightarrow> u < length (c_tasks c))"
      and i: "i < length (c_tasks c)" "t_status (c_tasks c ! i) = taskStatusInProgress"
    have "u < length (c_tasks (expire i c))" if "y_att s u = Some x" for u x
      using IH that by (auto simp: expire_def intro: less_SucI)
    with IH i files_inv_expire show "files_inv mapf n d0 files (s\<lparr>y_c := expire i c\<rparr>) \<and>
        (\<forall>u x. y_att s u = Some x \<longrightarrow> u < length (c_tasks (expire i c)))"
      by blast
  qed
  with poll c show ?thesis by simp
next
  case (heartbeat w c stop)
  then obtain ws where "c = (y_c s)\<lparr>c_workers := ws\<rparr>" using Heartbeat_frame by blast
  with heartbeat att_invD(1) [OF ai] show ?thesis by (intro files_inv_same_dir [OF inv]) auto
next
  case (task_done t res created it c d ok)
  note a = att_invD [OF ai task_done(2)]
  have td: "TaskDone it (y_c s) (y_d s) (int t) created = Inr (c, d, ok)" using task_done(4) a(2) by simp
  have s': "y_c s' = c" "y_d s' = d" "y_att s' = (y_att s)(t := None)" using task_done(1) by simp_all
  have map_ty: "t_taskType (c_tasks (y_c s) ! t) = TaskTypeMap" using att_map_task [OF ci ai ph task_done(2)] by metis
  from td a(1,6) show ?thesis
  proof (cases rule: TaskDone_cases)
    case late
    have "set created \<subseteq> range (temp_file t)"
      using files_invD(8) [OF inv task_done(2)] by (auto simp: created_by_def)
    then have "read_file d g = read_file (y_d s) g" if "\<And>r. g \<noteq> temp_file t r" for g
      using remove_files_other(1) [OF late(3), of g] that by blast
    note same = this
    show ?thesis
    proof (rule files_inv_temp [OF inv, where t = t])
      show "read_file (y_d s') g = read_file (y_d s) g" if "\<And>r. g \<noteq> temp_file t r" for g
        unfolding s' using that by (rule same)
      show "distinct (map fst (y_d s'))"
        unfolding s' by (rule remove_files_other(2) [OF late(3) files_invD(1) [OF inv]])
    qed (simp_all add: s' a(1) late)
  next
    case failed
    then show ?thesis using rename_created(1) [OF inv task_done(2)] by blast
  next
    case map
    show ?thesis
      by (rule files_inv_completed [OF inv ai task_done(2) map(1,3) _ _ s', of "[]"]) (simp_all add: map(5))
  next
    case (last_map c1)
    from last_map(5) show ?thesis
    proof (rule createReduceTasks_Inr)
      fix m assume c1: "c1 = (completed (y_c s) t\<lparr>c_numMapTasks := 0\<rparr>)\<lparr>
          c_tasks := c_tasks (completed (y_c s) t\<lparr>c_numMapTasks := 0\<rparr>) @ map (\<lambda>k. reduce_task (vals_of m k)) (it (map fst m)),
          c_numReduceTasks := c_numReduceTasks (completed (y_c s) t\<lparr>c_numMapTasks := 0\<rparr>) + int (length (it (map fst m)))\<rparr>"
      show ?thesis
        by (rule files_inv_completed [OF inv ai task_done(2) last_map(1,3) _ _ s']) (auto simp: last_map(6) c1)
    qed
  qed (simp_all add: map_ty)
qed

lemma phase_never_back:
  assumes "mr_step mapf reducef s s'" and "c_phase (y_c s) \<noteq> phaseMap" and ai: "att_inv n s"
  shows "c_phase (y_c s') \<noteq> phaseMap"
  using assms(1)
proof cases
  case (get_task w now c res att')
  from get_task(2) show ?thesis
    by (cases rule: GetTask_cases) (use get_task(1) assms(2) in simp_all)
next
  case (task_done t res created it c d ok)
  note a = att_invD [OF ai task_done(2)]
  have td: "TaskDone it (y_c s) (y_d s) (int t) created = Inr (c, d, ok)" using task_done(4) a(2) by simp
  have "c_phase c \<noteq> phaseMap"
    using td a(1,6)
  proof (cases rule: TaskDone_cases)
    case other
    then show ?thesis
      using td a(1) assms(2) by (auto simp: TaskDone_def Let_def split: if_splits prod.splits TaskType.splits)
  qed (use assms(2) in simp_all)
  with task_done show ?thesis by simp
next
  case (poll now c d)
  then show ?thesis using Done_frame [OF poll(2)] timeoutTasks_frame [of now "y_c s"] assms(2) by simp
next
  case (heartbeat w c stop)
  then show ?thesis using Heartbeat_frame [OF heartbeat(2)] assms(2) by auto
qed (use assms(2) in \<open>simp_all add: RegisterWorker_def\<close>)

lemma files_inv_init: "clean_job files d0 \<Longrightarrow> files_inv mapf n d0 files (mr_init files n d0)"
  by (auto simp: files_inv_def mr_init_def clean_job_def MakeCoordinator_def createMapTasks_def)

lemma mr_reach_files:
  assumes "mr_reach mapf reducef (mr_init files n d0) s" and "clean_job files d0" and "0 < n"
    and "c_phase (y_c s) = phaseMap"
  shows "files_inv mapf n d0 files s"
  using assms
proof (induction rule: mr_reach.induct)
  case start
  then show ?case by (simp add: files_inv_init)
next
  case (more s t)
  note inv = mr_reach_inv [OF more(1)]
  have "c_phase (y_c s) = phaseMap" using phase_never_back [OF more(2)] inv more.prems(3) by blast
  with more inv show ?case by (intro files_inv_step [OF _ _ more(2)]) simp_all
qed

section \<open>What the reduce phase starts from\<close>

lemma part_sum: "0 < n \<Longrightarrow> (\<Sum>r < nat n. mset (part n kvs r)) = mset kvs"
proof (induction kvs)
  case (Cons kv kvs)
  have m: "0 \<le> ihash (mk_Key kv) mod n" "ihash (mk_Key kv) mod n < n" using Cons.prems by simp_all
  have "(\<Sum>r < nat n. mset (part n (kv # kvs) r)) =
      (\<Sum>r < nat n. (if r = nat (ihash (mk_Key kv) mod n) then {#kv#} else {#}) + mset (part n kvs r))"
    using m by (intro sum.cong) (auto simp: part_def)
  also have "\<dots> = {#kv#} + mset kvs"
    using Cons m by (simp add: sum.distrib nat_less_iff)
  finally show ?case by simp
qed (simp add: part_def)

lemma part_bound: "0 < n \<Longrightarrow> part n kvs r \<noteq> [] \<Longrightarrow> r < nat n"
proof -
  assume "0 < n" and "part n kvs r \<noteq> []"
  then obtain kv :: KeyValue where "ihash (mk_Key kv) mod n = int r" by (auto simp: part_def filter_empty_conv)
  with pos_mod_bound [OF \<open>0 < n\<close>, of "ihash (mk_Key kv)"] show "r < nat n" by simp
qed

lemma sum_filter_index:
  fixes g :: "'a \<Rightarrow> 'b :: comm_monoid_add"
  shows "sum_list (map g (filter P xs)) = (\<Sum>i \<in> {i. i < length xs \<and> P (xs ! i)}. g (xs ! i))"
proof (induction xs rule: rev_induct)
  case (snoc x xs)
  have "{i. i < length (xs @ [x]) \<and> P ((xs @ [x]) ! i)} =
      {i. i < length xs \<and> P (xs ! i)} \<union> (if P x then {length xs} else {})"
    by (auto simp: nth_append less_Suc_eq split: if_splits)
  moreover have "(\<Sum>i \<in> {i. i < length xs \<and> P (xs ! i)}. g ((xs @ [x]) ! i)) = (\<Sum>i \<in> {i. i < length xs \<and> P (xs ! i)}. g (xs ! i))"
    by (intro sum.cong) (auto simp: nth_append)
  ultimately show ?case using snoc by (simp add: add.commute)
qed simp

lemma sum_single_files:
  assumes "\<forall>t \<in> set L. \<exists>f. t_files t = [f]"
  shows "sum_list (map (\<lambda>t. h (hd (t_files t))) L) = (\<Sum>f \<in># mset (concat (map t_files L)). h f)"
  using assms by (induction L) auto

abbreviation reducer_of :: "string \<Rightarrow> string" where
  "reducer_of f \<equiv> strings_Split ''-'' f ! 3"

lemma group_files_spec:
  "\<forall>f \<in> set fs. 3 < length (strings_Split ''-'' f) \<Longrightarrow>
     group_files fs m = Inr (foldl (\<lambda>m f. map_append (reducer_of f) f m) m fs)"
  by (induction fs m rule: group_files.induct) (simp_all add: slice_get_def)

text \<open>The pairs in the file with a name of the form \<open>m-out-<task>-<reducer>\<close>.\<close>

definition file_pairs :: "mapf \<Rightarrow> int \<Rightarrow> dir \<Rightarrow> task list \<Rightarrow> string \<Rightarrow> KeyValue list" where
  "file_pairs mapf n d0 ts f =
     (let p = (SOME p. f = map_file (fst p) (snd p)) in part n (pairs_of mapf d0 (ts ! fst p)) (snd p))"

lemma file_pairs_map_file:
  "file_pairs mapf n d0 ts (map_file t r) = part n (pairs_of mapf d0 (ts ! t)) r"
proof -
  have "(SOME p. map_file t r = map_file (fst p) (snd p)) = (t, r)"
    by (rule some_equality) (auto simp: map_file_inj)
  then show ?thesis by (simp add: file_pairs_def)
qed

text \<open>All pairs, summed over the files of the completed tasks.\<close>

lemma glob_pairs_sum:
  fixes ts :: "task list"
  defines "T \<equiv> {t. t < length ts \<and> t_status (ts ! t) = taskStatusCompleted}"
  assumes n: "0 < n" and "distinct G"
    and G: "set G = {map_file t r |t r. t \<in> T \<and> part n (pairs_of mapf d0 (ts ! t)) r \<noteq> []}"
  shows "mset (concat (map (file_pairs mapf n d0 ts) G)) = (\<Sum>t \<in> T. mset (pairs_of mapf d0 (ts ! t)))"
proof -
  let ?P = "\<lambda>t r. part n (pairs_of mapf d0 (ts ! t)) r" and ?K = "file_pairs mapf n d0 ts"
  let ?U = "Sigma T (\<lambda>t. {r. ?P t r \<noteq> []})"
  have fin: "finite T" by (simp add: T_def)
  have finr: "finite {r. ?P t r \<noteq> []}" for t
    by (rule finite_subset [of _ "{..< nat n}"]) (use part_bound [OF n] in auto)
  have Gset: "set G = (\<lambda>(t, r). map_file t r) ` ?U" unfolding G by auto
  have inj: "inj_on (\<lambda>(t, r). map_file t r) ?U" by (auto simp: inj_on_def map_file_inj)
  have "mset (concat (map ?K G)) = (\<Sum>f \<in> set G. mset (?K f))"
    using \<open>distinct G\<close> by (simp add: mset_concat comp_def sum_list_distinct_conv_sum_set)
  also have "\<dots> = (\<Sum>(t, r) \<in> ?U. mset (?P t r))"
    unfolding Gset sum.reindex [OF inj] by (intro sum.cong) (auto simp: file_pairs_map_file)
  also have "\<dots> = (\<Sum>t \<in> T. \<Sum>r \<in> {r. ?P t r \<noteq> []}. mset (?P t r))"
    using fin finr by (simp add: sum.Sigma)
  also have "\<dots> = (\<Sum>t \<in> T. mset (pairs_of mapf d0 (ts ! t)))"
  proof (rule sum.cong [OF refl])
    fix t
    have "(\<Sum>r \<in> {r. ?P t r \<noteq> []}. mset (?P t r)) = (\<Sum>r < nat n. mset (?P t r))"
      by (rule sum.mono_neutral_left) (use part_bound [OF n] in auto)
    then show "(\<Sum>r \<in> {r. ?P t r \<noteq> []}. mset (?P t r)) = mset (pairs_of mapf d0 (ts ! t))"
      using part_sum [OF n] by simp
  qed
  finally show ?thesis .
qed

text \<open>The step that leaves the map phase is the report of the last map task.\<close>

lemma last_map_step:
  assumes step: "mr_step mapf reducef s s'" and "c_phase (y_c s) = phaseMap" and "c_phase (y_c s') \<noteq> phaseMap"
    and ci: "coord_inv files n (y_c s)" and ai: "att_inv n s"
  obtains it m ts where "fair_iter it" "group_files (filepath_Glob (y_d s') ''m-out-*-*'') [] = Inr m"
    "c_tasks (y_c s') = ts @ map (\<lambda>k. reduce_task (vals_of m k)) (it (map fst m))"
    "\<forall>t \<in> set ts. t_taskType t = TaskTypeMap"
  using step
proof cases
  case (get_task w now c res att')
  from get_task(2) have "c_phase c = phaseMap" by (cases rule: GetTask_cases) (use assms(2) in simp_all)
  with get_task(1) assms(3) show ?thesis by simp
next
  case (poll now c d)
  then show ?thesis using Done_frame [OF poll(2)] timeoutTasks_frame [of now "y_c s"] assms(2,3) by simp
next
  case (heartbeat w c stop)
  then show ?thesis using Heartbeat_frame [OF heartbeat(2)] assms(2,3) by auto
next
  case (task_done t res created it c d ok)
  note a = att_invD [OF ai task_done(2)]
  have td: "TaskDone it (y_c s) (y_d s) (int t) created = Inr (c, d, ok)" using task_done(4) a(2) by simp
  have maps: "\<forall>u \<in> set (c_tasks (y_c s)). t_taskType u = TaskTypeMap" using ci assms(2) by (auto simp: coord_inv_def)
  then have ty: "t_taskType (c_tasks (y_c s) ! t) = TaskTypeMap" using a(1) by simp
  have ph: "c_phase c \<noteq> phaseMap" using task_done(1) assms(3) by simp
  from td a(1,6) show ?thesis
  proof (cases rule: TaskDone_cases)
    case (last_map c1)
    from last_map(5) show ?thesis
    proof (rule createReduceTasks_Inr)
      fix m assume m: "group_files (filepath_Glob d ''m-out-*-*'') [] = Inr m"
        "c1 = (completed (y_c s) t\<lparr>c_numMapTasks := 0\<rparr>)\<lparr>
          c_tasks := c_tasks (completed (y_c s) t\<lparr>c_numMapTasks := 0\<rparr>) @ map (\<lambda>k. reduce_task (vals_of m k)) (it (map fst m)),
          c_numReduceTasks := c_numReduceTasks (completed (y_c s) t\<lparr>c_numMapTasks := 0\<rparr>) + int (length (it (map fst m)))\<rparr>"
      show ?thesis
      proof (rule that [OF task_done(3), of m "c_tasks (completed (y_c s) t)"])
        show "group_files (filepath_Glob (y_d s') ''m-out-*-*'') [] = Inr m" using m(1) task_done(1) by simp
        show "c_tasks (y_c s') = c_tasks (completed (y_c s) t) @ map (\<lambda>k. reduce_task (vals_of m k)) (it (map fst m))"
          using m(2) last_map(6) task_done(1) by simp
        show "\<forall>u \<in> set (c_tasks (completed (y_c s) t)). t_taskType u = TaskTypeMap"
          using maps ty by (auto dest!: in_set_update)
      qed
    qed
  qed (use ph assms(2) ty in simp_all)
qed (use assms(2,3) in \<open>simp_all add: RegisterWorker_def\<close>)

abbreviation done_map :: "task \<Rightarrow> bool" where
  "done_map t \<equiv> t_taskType t = TaskTypeMap \<and> t_status t = taskStatusCompleted"

lemma glob_completed:
  assumes fi: "files_inv mapf n d0 files s"
  shows "set (filepath_Glob (y_d s) ''m-out-*-*'') =
    {map_file t r |t r. t \<in> {t. t < length (c_tasks (y_c s)) \<and> t_status (c_tasks (y_c s) ! t) = taskStatusCompleted} \<and>
       part n (pairs_of mapf d0 (c_tasks (y_c s) ! t)) r \<noteq> []}" (is "_ = ?S")
proof (intro set_eqI iffI)
  let ?ts = "c_tasks (y_c s)"
  fix f assume f: "f \<in> set (filepath_Glob (y_d s) ''m-out-*-*'')"
  have ex: "read_file (y_d s) f \<noteq> None" "glob_match ''m-out-*-*'' f" using f unfolding set_Glob by blast+
  then obtain t r where t: "f = map_file t r" "t < length ?ts" "t_status (?ts ! t) = taskStatusCompleted"
    using files_invD(3) [OF fi] by blast
  have "contents n (pairs_of mapf d0 (?ts ! t)) r \<noteq> None"
    using ex(1) t files_invD(4) [OF fi t(2,3), of r] by simp
  then have "part n (pairs_of mapf d0 (?ts ! t)) r \<noteq> []" by (simp add: contents_None)
  with t show "f \<in> ?S" by blast
next
  let ?ts = "c_tasks (y_c s)"
  fix f assume "f \<in> ?S"
  then obtain t r where t: "f = map_file t r" "t < length ?ts" "t_status (?ts ! t) = taskStatusCompleted"
    "part n (pairs_of mapf d0 (?ts ! t)) r \<noteq> []" by blast
  then have "read_file (y_d s) f \<noteq> None" using files_invD(4) [OF fi t(2,3), of r] by (simp add: contents_None)
  with t(1) show "f \<in> set (filepath_Glob (y_d s) ''m-out-*-*'')" unfolding set_Glob using glob_map_file by blast
qed

lemma glob_total:
  assumes n: "0 < n" and fi: "files_inv mapf n d0 files s" and ci: "coord_inv files n (y_c s)"
    and ph: "c_phase (y_c s) \<noteq> phaseMap"
    and comp: "\<And>t. t \<in> set (c_tasks (y_c s)) \<Longrightarrow> t_status t = taskStatusCompleted \<Longrightarrow> t_taskType t = TaskTypeMap"
  shows "mset (concat (map (file_pairs mapf n d0 (c_tasks (y_c s))) (filepath_Glob (y_d s) ''m-out-*-*''))) =
    (\<Sum>f \<in># mset files. mset (mapf f (the (read_file d0 f))))"
proof -
  let ?ts = "c_tasks (y_c s)"
  have single: "\<forall>t \<in> set (filter done_map ?ts). \<exists>f. t_files t = [f]" using ci by (auto simp: coord_inv_def)
  have "mset (concat (map (file_pairs mapf n d0 ?ts) (filepath_Glob (y_d s) ''m-out-*-*''))) =
      (\<Sum>t \<in> {t. t < length ?ts \<and> t_status (?ts ! t) = taskStatusCompleted}. mset (pairs_of mapf d0 (?ts ! t)))"
    by (rule glob_pairs_sum [OF n distinct_Glob [OF files_invD(1) [OF fi]] glob_completed [OF fi]])
  also have "\<dots> = sum_list (map (\<lambda>t. mset (pairs_of mapf d0 t)) (filter (\<lambda>t. t_status t = taskStatusCompleted) ?ts))"
    by (rule sum_filter_index [symmetric])
  also have "filter (\<lambda>t. t_status t = taskStatusCompleted) ?ts = filter done_map ?ts"
    using comp by (intro filter_cong) auto
  also have "sum_list (map (\<lambda>t. mset (pairs_of mapf d0 t)) \<dots>) =
      (\<Sum>f \<in># mset (concat (map t_files (filter done_map ?ts))). mset (mapf f (the (read_file d0 f))))"
    unfolding pairs_of_def by (rule sum_single_files [OF single])
  also have "mset (concat (map t_files (filter done_map ?ts))) = mset files"
    by (rule completed_inputs [OF ci ph])
  finally show ?thesis .
qed

lemma glob_file_pairs:
  assumes fi: "files_inv mapf n d0 files s" and "f \<in> set (filepath_Glob (y_d s) ''m-out-*-*'')"
  shows "read_file (y_d s) f = Some (concat (map map_line (file_pairs mapf n d0 (c_tasks (y_c s)) f)))"
    and "3 < length (strings_Split ''-'' f)"
    and "kv \<in> set (file_pairs mapf n d0 (c_tasks (y_c s)) f) \<Longrightarrow> reducer_of f = digits (nat (ihash (mk_Key kv) mod n))"
proof -
  from assms(2) obtain t r where t: "f = map_file t r" "t < length (c_tasks (y_c s))"
    "t_status (c_tasks (y_c s) ! t) = taskStatusCompleted" "part n (pairs_of mapf d0 (c_tasks (y_c s) ! t)) r \<noteq> []"
    unfolding glob_completed [OF fi] by blast
  then show "read_file (y_d s) f = Some (concat (map map_line (file_pairs mapf n d0 (c_tasks (y_c s)) f)))"
    using files_invD(4) [OF fi t(2,3), of r] by (simp add: contents_Some file_pairs_map_file)
  show "3 < length (strings_Split ''-'' f)" by (simp add: t(1) Split_map_file)
  show "kv \<in> set (file_pairs mapf n d0 (c_tasks (y_c s)) f) \<Longrightarrow> reducer_of f = digits (nat (ihash (mk_Key kv) mod n))"
    by (simp add: t(1) file_pairs_map_file Split_map_file part_def)
qed

lemma reduce_tasks_of_groups:
  assumes "\<forall>f \<in> set G. 3 < length (strings_Split ''-'' f)" and "group_files G [] = Inr m" and "fair_iter it"
    and "\<forall>t \<in> set ts. t_taskType t = TaskTypeMap"
  shows "distinct (it (map fst m)) \<and> set (it (map fst m)) = reducer_of ` set G \<and>
    filter (\<lambda>t. t_taskType t = TaskTypeReduce) (ts @ map (\<lambda>k. reduce_task (vals_of m k)) (it (map fst m))) =
      map (\<lambda>R. reduce_task (filter (\<lambda>f. reducer_of f = R) G)) (it (map fst m))"
proof -
  have m: "m = group_by reducer_of (\<lambda>f. f) G"
    using group_files_spec [OF assms(1), of "[]"] assms(2) by (simp add: group_by_def)
  have Rs: "distinct (it (map fst m))" "set (it (map fst m)) = reducer_of ` set G"
    using assms(3) by (simp_all add: m)
  have "vals_of m R = filter (\<lambda>f. reducer_of f = R) G" if "R \<in> set (it (map fst m))" for R
    using that Rs(2) by (simp add: m map_of_group_by)
  then have "map (\<lambda>k. reduce_task (vals_of m k)) (it (map fst m)) =
      map (\<lambda>R. reduce_task (filter (\<lambda>f. reducer_of f = R) G)) (it (map fst m))"
    by (intro map_cong) simp_all
  moreover have "filter (\<lambda>t. t_taskType t = TaskTypeReduce) (ts @ map (\<lambda>k. reduce_task (vals_of m k)) ks) =
      map (\<lambda>k. reduce_task (vals_of m k)) ks" for ks
    using assms(4) by (auto simp: filter_empty_conv filter_id_conv)
  ultimately show ?thesis using Rs by simp
qed

text \<open>The directory and the tasks at the start of the reduce phase.\<close>

lemma map_phase_result:
  assumes clean: "clean_job files d0" and n: "0 < n"
    and reach: "mr_reach mapf reducef (mr_init files n d0) s" and ph: "c_phase (y_c s) = phaseMap"
    and step: "mr_step mapf reducef s s'" and ph': "c_phase (y_c s') \<noteq> phaseMap"
  obtains Rs where "files_inv mapf n d0 files s'"
    "mset (concat (map (file_pairs mapf n d0 (c_tasks (y_c s'))) (filepath_Glob (y_d s') ''m-out-*-*''))) =
      (\<Sum>f \<in># mset files. mset (mapf f (the (read_file d0 f))))"
    "distinct Rs" "set Rs = reducer_of ` set (filepath_Glob (y_d s') ''m-out-*-*'')"
    "filter (\<lambda>t. t_taskType t = TaskTypeReduce) (c_tasks (y_c s')) =
      map (\<lambda>R. reduce_task (filter (\<lambda>f. reducer_of f = R) (filepath_Glob (y_d s') ''m-out-*-*''))) Rs"
proof -
  let ?G = "filepath_Glob (y_d s') ''m-out-*-*''" and ?ts = "c_tasks (y_c s')"
  note inv = mr_reach_inv [OF reach]
  have ci: "coord_inv files n (y_c s')" using mr_step_inv [OF step] inv by blast
  have fi: "files_inv mapf n d0 files s'"
    using files_inv_step [OF clean n step ph] inv mr_reach_files [OF reach clean n ph] by blast
  obtain it m ts where lm: "fair_iter it" "group_files ?G [] = Inr m"
    "?ts = ts @ map (\<lambda>k. reduce_task (vals_of m k)) (it (map fst m))"
    "\<forall>t \<in> set ts. t_taskType t = TaskTypeMap"
    using last_map_step [OF step ph ph'] inv by metis
  have "t_taskType t = TaskTypeMap" if "t \<in> set ?ts" "t_status t = taskStatusCompleted" for t
    using that lm(3,4) by auto
  note sum = glob_total [OF n fi ci ph' this]
  have "\<forall>f \<in> set ?G. 3 < length (strings_Split ''-'' f)" using glob_file_pairs(2) [OF fi] by blast
  note tasks = reduce_tasks_of_groups [OF this lm(2,1,4)]
  show ?thesis
    by (rule that [OF fi sum]) (use tasks lm(3) in simp_all)
qed

text \<open>
  C4: the main theorem of the map phase. However workers crash, stop in the middle of their output or
  report too late, when the coordinator moves on to the reduce phase the intermediate files hold
  exactly the pairs that the map function emits for the input files, each exactly once; every pair is in a
  file of the reducer its key hashes to; and there is one reduce task for each reducer that has files, with
  all of them.
\<close>

theorem map_phase_delivers_all_pairs:
  assumes clean: "clean_job files d0" and n: "0 < n"
    and reach: "mr_reach mapf reducef (mr_init files n d0) s" and ph: "c_phase (y_c s) = phaseMap"
    and step: "mr_step mapf reducef s s'" and ph': "c_phase (y_c s') \<noteq> phaseMap"
  shows "\<exists>K Rs. let G = filepath_Glob (y_d s') ''m-out-*-*'' in
    (\<forall>f \<in> set G. read_file (y_d s') f = Some (concat (map map_line (K f))) \<and>
       (\<forall>kv \<in> set (K f). reducer_of f = digits (nat (ihash (mk_Key kv) mod n)))) \<and>
    mset (concat (map K G)) = (\<Sum>f \<in># mset files. mset (mapf f (the (read_file d0 f)))) \<and>
    distinct Rs \<and> set Rs = reducer_of ` set G \<and>
    filter (\<lambda>t. t_taskType t = TaskTypeReduce) (c_tasks (y_c s')) =
      map (\<lambda>R. reduce_task (filter (\<lambda>f. reducer_of f = R) G)) Rs"
proof (rule map_phase_result [OF assms])
  fix Rs
  let ?K = "file_pairs mapf n d0 (c_tasks (y_c s'))"
  assume "files_inv mapf n d0 files s'"
  note pairs = glob_file_pairs(1,3) [OF this]
  assume "mset (concat (map ?K (filepath_Glob (y_d s') ''m-out-*-*''))) =
      (\<Sum>f \<in># mset files. mset (mapf f (the (read_file d0 f))))"
    "distinct Rs" "set Rs = reducer_of ` set (filepath_Glob (y_d s') ''m-out-*-*'')"
    "filter (\<lambda>t. t_taskType t = TaskTypeReduce) (c_tasks (y_c s')) =
      map (\<lambda>R. reduce_task (filter (\<lambda>f. reducer_of f = R) (filepath_Glob (y_d s') ''m-out-*-*''))) Rs"
  with pairs show ?thesis unfolding Let_def by (intro exI [of _ ?K] exI [of _ Rs]) blast
qed

text \<open>A run: one input file, for which the map function emits one pair.\<close>

definition one_pair :: mapf where
  "one_pair f content = [\<lparr>mk_Key = ''x'', mk_Value = ''1''\<rparr>]"

definition pair_sys :: "Coordinator \<Rightarrow> dir \<Rightarrow> (nat \<Rightarrow> attempt_state option) \<Rightarrow> mr_sys" where
  "pair_sys c d att = \<lparr>y_c = c, y_d = (''a'', ''x'') # d, y_att = att\<rparr>"

definition pair_end :: Coordinator where
  "pair_end = (demo_job taskStatusCompleted 0 phaseReduce)\<lparr>
     c_tasks := c_tasks (demo_job taskStatusCompleted 0 phaseReduce) @ [reduce_task [''m-out-0-0'']],
     c_numReduceTasks := 1\<rparr>"

abbreviation pair_res :: GetTaskRes where
  "pair_res \<equiv> \<lparr>r_Files = [''a''], r_NReduce = 1, r_TaskType = TaskTypeMap, r_TaskId = 0\<rparr>"

abbreviation pair_pending :: mr_sys where
  "pair_pending \<equiv> pair_sys (demo_job taskStatusInProgress 1 phaseMap) [(''tempm-out-0-0'', ''x:::1\<newline>'')]
     [0 \<mapsto> (pair_res, Some [''tempm-out-0-0''])]"

lemma digits_0: "digits 0 = ''0''"
  by code_simp

lemma pair_reach:
  assumes "mapf ''a'' ''x'' = one_pair ''a'' ''x''"
  shows "mr_reach mapf reducef (mr_init [''a''] 1 [(''a'', ''x'')]) pair_pending"
proof -
  let ?s1 = "pair_sys (demo_job taskStatusIdle 1 phaseMap) [] (\<lambda>_. None)"
  let ?s2 = "pair_sys (demo_job taskStatusInProgress 1 phaseMap) [] [0 \<mapsto> (pair_res, None)]"
  have "mr_step mapf reducef (mr_init [''a''] 1 [(''a'', ''x'')]) ?s1"
    using mr_step.register [of mapf reducef "mr_init [''a''] 1 [(''a'', ''x'')]"]
    by (simp add: mr_init_def MakeCoordinator_def createMapTasks_def zero_Coordinator_def RegisterWorker_def
        demo_job_def pair_sys_def)
  moreover have "mr_step mapf reducef ?s1 ?s2"
    using mr_step.get_task [of ?s1 0 0 "demo_job taskStatusInProgress 1 phaseMap" pair_res _ mapf reducef]
    by (simp add: GetTask_def findIdleTask_def set_worker_task_def slice_get_def demo_job_def pair_sys_def)
  moreover have "mr_step mapf reducef ?s2 pair_pending"
    using mr_step.run_map [of ?s2 0 pair_res "\<lambda>ks. ks" mapf "y_d pair_pending" "[''tempm-out-0-0'']" reducef]
    by (simp add: runMapTask_def getFileContent_def read_file_def mapKeysToSlice_def fair_iter_def pair_sys_def
        one_pair_def assms temp_map_file_def strconv_Itoa_def digits_0 append_file_def map_line_def add_key_def Let_def)
  ultimately show ?thesis by (rule more [OF more [OF more [OF start]]])
qed

lemma pair_last_step:
  "mr_step mapf reducef pair_pending (pair_sys pair_end [(''m-out-0-0'', ''x:::1\<newline>'')] (\<lambda>_. None))"
  using mr_step.task_done [of pair_pending 0 pair_res "[''tempm-out-0-0'']" "\<lambda>ks. ks" pair_end
    "[(''a'', ''x''), (''m-out-0-0'', ''x:::1\<newline>'')]" True mapf reducef]
  by (simp add: TaskDone_def slice_get_def demo_job_def createReduceTasks_def filepath_Glob_def pair_sys_def
      fair_iter_def pair_end_def strings_ReplaceAll.simps os_Rename_def strings_Split.simps)

lemma pair_clean: "clean_job [''a''] [(''a'', ''x'')]"
proof -
  have neq: "temp_file t r \<noteq> ''a''" "map_file t r \<noteq> ''a''" for t r
    by (simp_all add: temp_map_file_def map_file_def)
  show ?thesis using neq neq [symmetric] by (auto simp: clean_job_def read_file_def)
qed

theorem map_phase_delivers_all_pairs_witness:
  "\<exists>(s' :: mr_sys) K. c_phase (y_c s') = phaseReduce \<and>
     mset (concat (map K (filepath_Glob (y_d s') ''m-out-*-*''))) = {#\<lparr>mk_Key = ''x'', mk_Value = ''1''\<rparr>#}"
proof -
  let ?s' = "pair_sys pair_end [(''m-out-0-0'', ''x:::1\<newline>'')] (\<lambda>_. None)"
  have ph: "c_phase (y_c pair_pending) = phaseMap" "c_phase (y_c ?s') = phaseReduce"
    by (simp_all add: pair_sys_def demo_job_def pair_end_def)
  from map_phase_delivers_all_pairs [OF pair_clean _ pair_reach [where mapf = one_pair, OF refl] ph(1) pair_last_step] ph(2)
  have "\<exists>K. mset (concat (map K (filepath_Glob (y_d ?s') ''m-out-*-*''))) = {#\<lparr>mk_Key = ''x'', mk_Value = ''1''\<rparr>#}"
    by (auto simp: Let_def one_pair_def)
  with ph(2) show ?thesis by blast
qed

end
