(* ===== verification/MrSequential.thy ===== *)
theory MrSequential
  imports MrMapPhase
begin

text \<open>
  The sequential MapReduce of \<^verbatim>\<open>src/main/mrsequential.go\<close> and its agreement with the reduce phase
  of the distributed one.

  \<open>sort.Sort\<close> is not stable, so the order of the pairs with one key after sorting is not determined. The
  model takes what the sort makes of the pairs as the argument \<open>srt\<close>, and the theorems ask that it is
  sorted by key and a rearrangement of its input. The command line, the plug-in loader and the methods that the sort
  calls are in \<open>MrPrograms\<close>.
\<close>

fun read_inputs :: "mapf \<Rightarrow> dir \<Rightarrow> string list \<Rightarrow> KeyValue list \<Rightarrow> KeyValue list go" where
  "read_inputs mapf d [] intermediate = Inr intermediate"
| "read_inputs mapf d (filename # files) intermediate =
     (case read_file d filename of
        None \<Rightarrow> Inl Fatal
      | Some content \<Rightarrow> read_inputs mapf d files (intermediate @ mapf filename content))"


text \<open>The loop over the runs of equal keys: \<open>i\<close> to \<open>j\<close> is the run that starts the rest of the list.\<close>

function reduce_runs :: "reducef \<Rightarrow> KeyValue list \<Rightarrow> string" where
  "reduce_runs reducef [] = ''''"
| "reduce_runs reducef (kv # rest) =
     (let same = takeWhile (\<lambda>x. mk_Key x = mk_Key kv) rest;
          vals = map mk_Value (kv # same)
      in reduce_line reducef (mk_Key kv) vals @
           reduce_runs reducef (drop (length same) rest))"
  by pat_completeness auto
termination
  by (relation "measure (\<lambda>(reducef, kvs). length kvs)") auto

declare reduce_runs.simps(2) [simp del]

definition mrsequential :: "mapf \<Rightarrow> reducef \<Rightarrow> (KeyValue list \<Rightarrow> KeyValue list) \<Rightarrow> string list \<Rightarrow> dir \<Rightarrow> dir go" where
  "mrsequential mapf reducef srt files d =
     go_bind (read_inputs mapf d files [])
       (\<lambda>intermediate. Inr (write_file d ''mr-out-0'' (reduce_runs reducef (srt intermediate))))"

section \<open>What the sequential program writes\<close>

lemma read_inputs_spec:
  "\<forall>f \<in> set files. read_file d f \<noteq> None \<Longrightarrow>
     read_inputs mapf d files kvs = Inr (kvs @ concat (map (\<lambda>f. mapf f (the (read_file d f))) files))"
  by (induction files arbitrary: kvs) auto

text \<open>For a sorted list, one line for each key.\<close>

abbreviation key_line :: "reducef \<Rightarrow> KeyValue list \<Rightarrow> string \<Rightarrow> string" where
  "key_line reducef kvs k \<equiv> reduce_line reducef k (map mk_Value (filter (\<lambda>kv. mk_Key kv = k) kvs))"

lemma first_run:
  assumes "sorted (map mk_Key (kv # rest))"
  defines "same \<equiv> takeWhile (\<lambda>x. mk_Key x = mk_Key kv) rest"
  defines "later \<equiv> drop (length same) rest"
  shows "rest = same @ later" and "sorted (map mk_Key later)"
    and "\<forall>x \<in> set same. mk_Key x = mk_Key kv" and "\<forall>x \<in> set later. mk_Key x \<noteq> mk_Key kv"
proof -
  have drop: "later = dropWhile (\<lambda>x. mk_Key x = mk_Key kv) rest"
    unfolding later_def same_def by (rule dropWhile_eq_drop [symmetric])
  show split: "rest = same @ later" by (simp add: drop same_def)
  show sorted: "sorted (map mk_Key later)" using assms(1) split by (simp add: sorted_append)
  show "\<forall>x \<in> set same. mk_Key x = mk_Key kv" by (auto simp: same_def dest: set_takeWhileD)
  show "\<forall>x \<in> set later. mk_Key x \<noteq> mk_Key kv"
  proof
    fix x assume x: "x \<in> set later"
    then obtain y ys where ys: "later = y # ys" by (cases later) auto
    then have "mk_Key y \<noteq> mk_Key kv"
      using hd_dropWhile [of "\<lambda>x. mk_Key x = mk_Key kv" rest] by (simp add: drop)
    moreover have "mk_Key kv \<le> mk_Key y" using assms(1) split ys by simp
    moreover have "mk_Key y \<le> mk_Key x" using sorted ys x by auto
    ultimately show "mk_Key x \<noteq> mk_Key kv" by auto
  qed
qed

lemma reduce_runs_sorted:
  assumes "sorted (map mk_Key kvs)"
  shows "\<exists>ks. sorted ks \<and> distinct ks \<and> set ks = mk_Key ` set kvs \<and>
    reduce_runs reducef kvs = concat (map (key_line reducef kvs) ks)"
  using assms
proof (induction reducef kvs rule: reduce_runs.induct)
  case (2 reducef kv rest)
  define same where "same = takeWhile (\<lambda>x. mk_Key x = mk_Key kv) rest"
  define later where "later = drop (length same) rest"
  note run = first_run [OF 2(2), folded same_def, folded later_def]
  have "\<exists>ks. sorted ks \<and> distinct ks \<and> set ks = mk_Key ` set later \<and>
      reduce_runs reducef later = concat (map (key_line reducef later) ks)"
    using 2(1) run(2) by (simp add: later_def same_def)
  then obtain ks where ks: "distinct ks" "set ks = mk_Key ` set later"
    "reduce_runs reducef later = concat (map (key_line reducef later) ks)" "sorted ks" by blast
  have new: "mk_Key kv \<notin> set ks" using ks(2) run(4) by auto
  have fil: "filter (\<lambda>x. mk_Key x = mk_Key kv) (kv # rest) = kv # same"
    using run(1,3,4) by (simp add: filter_empty_conv filter_id_conv)
  have "filter (\<lambda>x. mk_Key x = k) (kv # rest) = filter (\<lambda>x. mk_Key x = k) later" if "k \<in> set ks" for k
    using that new run(1,3) by (auto simp: filter_empty_conv)
  then have "map (key_line reducef (kv # rest)) ks = map (key_line reducef later) ks" by (intro map_cong) simp_all
  moreover have "reduce_runs reducef (kv # rest) =
      reduce_line reducef (mk_Key kv) (map mk_Value (kv # same)) @ reduce_runs reducef later"
    by (simp add: reduce_runs.simps(2) Let_def same_def later_def)
  ultimately have "reduce_runs reducef (kv # rest) = concat (map (key_line reducef (kv # rest)) (mk_Key kv # ks))"
    by (simp only: ks(3) fil list.map concat.simps)
  moreover have "set (mk_Key kv # ks) = mk_Key ` set (kv # rest)" using ks(2) run(1,3) by auto
  moreover have "sorted (mk_Key kv # ks)" using ks(2,4) 2(2) run(1) by auto
  ultimately show ?case using new ks(1) by (intro exI [of _ "mk_Key kv # ks"]) simp
qed simp

section \<open>The reduce phase without faults\<close>

text \<open>Every reduce task is run once and its output is renamed, as in \<open>Worker\<close> followed by \<open>TaskDone\<close>.\<close>

fun run_reduces :: "reducef \<Rightarrow> iter \<Rightarrow> dir \<Rightarrow> task list \<Rightarrow> dir go" where
  "run_reduces reducef it d [] = Inr d"
| "run_reduces reducef it d (t # ts) =
     go_bind (runReduceTask (t_files t) reducef it d)
       (\<lambda>(d, created). case created of
          None \<Rightarrow> Inl Fatal
        | Some created \<Rightarrow>
            (let (d, ok) = renameTempFiles d created
             in if ok then run_reduces reducef it d ts else Inl Fatal))"

definition out_file :: "string \<Rightarrow> string" where
  "out_file R = ''mr-out-'' @ R"

lemma Replace_reduce_file:
  assumes "CHR ''t'' \<notin> set R"
  shows "strings_ReplaceAll ''temp'' '''' (temp_reduce_file R) = out_file R"
proof -
  have "strings_Cut ''temp'' R = None" using assms by (rule strings_Cut_None)
  then have "strings_Cut ''temp'' (out_file R) = None" by (simp add: out_file_def)
  then have "strings_ReplaceAll ''temp'' '''' (out_file R) = out_file R" by (subst strings_ReplaceAll.simps) simp
  moreover have "strings_Cut ''temp'' (temp_reduce_file R) = Some ('''', out_file R)"
    by (simp add: temp_reduce_file_def out_file_def)
  ultimately show ?thesis by (subst strings_ReplaceAll.simps) simp
qed

lemma reduce_names:
  "temp_reduce_file R \<noteq> out_file R'" "map_file t r \<noteq> temp_reduce_file R" "map_file t r \<noteq> out_file R"
  "temp_reduce_file R = temp_reduce_file R' \<longleftrightarrow> R = R'" "out_file R = out_file R' \<longleftrightarrow> R = R'"
  by (simp_all add: temp_reduce_file_def out_file_def map_file_def)

lemma run_one_reduce:
  assumes "F \<noteq> []" and F: "\<forall>f \<in> set F. \<exists>t. f = map_file t r" and "fair_iter it"
    and pairs: "\<forall>f \<in> set F. read_file d f = Some (concat (map map_line (K f))) \<and> (\<forall>kv \<in> set (K f). plain kv)"
    and "concat (map K F) \<noteq> []" and "read_file d (temp_reduce_file (digits r)) = None"
  obtains d' where "run_reduces reducef it d (reduce_task F # ts) = run_reduces reducef it d' ts"
    "read_file d' (out_file (digits r)) = Some (concat (output_lines reducef it (concat (map K F))))"
    "\<And>g. g \<noteq> temp_reduce_file (digits r) \<Longrightarrow> g \<noteq> out_file (digits r) \<Longrightarrow> read_file d' g = read_file d g"
proof -
  let ?R = "digits r" and ?L = "output_lines reducef it (concat (map K F))"
  obtain t where t: "hd F = map_file t r" using F assms(1) by (meson hd_in_set)
  have "strings_Split ''-'' (hd F) = [''m'', ''out'', digits t, ?R]" by (simp add: t Split_map_file)
  from runReduceTask_spec [OF assms(1) this pairs assms(3), of reducef]
  obtain e cr where e0: "runReduceTask F reducef it d = Inr (e, Some cr)"
    "cr = (if concat (map K F) = [] then [] else [temp_reduce_file ?R])"
    and e2: "\<forall>f. read_file e f = (if f = temp_reduce_file ?R then appended (read_file d f) ?L else read_file d f)"
    by blast
  have e: "runReduceTask F reducef it d = Inr (e, Some [temp_reduce_file ?R])"
    unfolding e0(1) e0(2) if_not_P [OF assms(5)] ..
  have "?L \<noteq> []"
  proof -
    have "map fst (group_by mk_Key mk_Value (concat (map K F))) \<noteq> []"
      using assms(5) keys_group_by [of mk_Key mk_Value "concat (map K F)"] by (metis image_is_empty list.map_disc_iff set_empty)
    then show ?thesis using assms(3) by (simp add: output_lines_def)
  qed
  then have te: "read_file e (temp_reduce_file ?R) = Some (concat ?L)" using e2 assms(6) by (simp add: appended_def)
  then obtain d' where d': "os_Rename e (temp_reduce_file ?R) (out_file ?R) = Some d'"
    by (auto simp: os_Rename_def read_file_def)
  note rd = read_Rename [OF d']
  show ?thesis
  proof (rule that)
    show "run_reduces reducef it d (reduce_task F # ts) = run_reduces reducef it d' ts"
      by (simp add: e Replace_reduce_file d')
    show "read_file d' (out_file ?R) = Some (concat ?L)" using rd te by simp
    show "read_file d' g = read_file d g" if "g \<noteq> temp_reduce_file ?R" "g \<noteq> out_file ?R" for g
      using rd e2 that by simp
  qed
qed

lemma run_all_reduces:
  assumes "fair_iter it" and "distinct Rs" and "\<forall>R \<in> set Rs. \<exists>r. R = digits r \<and> F R \<noteq> [] \<and> (\<forall>f \<in> set (F R). \<exists>t. f = map_file t r)"
    and "\<forall>R \<in> set Rs. \<forall>f \<in> set (F R). read_file d f = Some (concat (map map_line (K f))) \<and> (\<forall>kv \<in> set (K f). plain kv)"
    and "\<forall>R \<in> set Rs. concat (map K (F R)) \<noteq> [] \<and> read_file d (temp_reduce_file R) = None"
  shows "\<exists>d'. run_reduces reducef it d (map (\<lambda>R. reduce_task (F R)) Rs) = Inr d' \<and>
    (\<forall>R \<in> set Rs. read_file d' (out_file R) = Some (concat (output_lines reducef it (concat (map K (F R)))))) \<and>
    (\<forall>g. (\<forall>R \<in> set Rs. g \<noteq> temp_reduce_file R \<and> g \<noteq> out_file R) \<longrightarrow> read_file d' g = read_file d g)"
  using assms
proof (induction Rs arbitrary: d)
  case (Cons R Rs)
  obtain r where r: "R = digits r" "F R \<noteq> []" "\<forall>f \<in> set (F R). \<exists>t. f = map_file t r"
    using Cons.prems(3) by auto
  obtain d1 where d1: "run_reduces reducef it d (reduce_task (F R) # map (\<lambda>R. reduce_task (F R)) Rs) =
      run_reduces reducef it d1 (map (\<lambda>R. reduce_task (F R)) Rs)"
    "read_file d1 (out_file R) = Some (concat (output_lines reducef it (concat (map K (F R)))))"
    "\<And>g. g \<noteq> temp_reduce_file R \<Longrightarrow> g \<noteq> out_file R \<Longrightarrow> read_file d1 g = read_file d g"
    using run_one_reduce [OF r(2,3) Cons.prems(1), of d K reducef "map (\<lambda>R. reduce_task (F R)) Rs"] Cons.prems(4,5) r(1)
    by auto
  have same: "read_file d1 f = read_file d f" if R': "R' \<in> set Rs" "f \<in> set (F R')" for R' f
  proof -
    obtain t r' where "f = map_file t r'" using Cons.prems(3) R' by (meson list.set_intros(2))
    then show ?thesis using d1(3) reduce_names by simp
  qed
  have temp: "read_file d1 (temp_reduce_file R') = read_file d (temp_reduce_file R')" if "R' \<in> set Rs" for R'
    using that Cons.prems(2) by (intro d1(3)) (auto simp: reduce_names)
  have "\<exists>d'. run_reduces reducef it d1 (map (\<lambda>R. reduce_task (F R)) Rs) = Inr d' \<and>
    (\<forall>R \<in> set Rs. read_file d' (out_file R) = Some (concat (output_lines reducef it (concat (map K (F R)))))) \<and>
    (\<forall>g. (\<forall>R \<in> set Rs. g \<noteq> temp_reduce_file R \<and> g \<noteq> out_file R) \<longrightarrow> read_file d' g = read_file d1 g)"
    by (rule Cons.IH) (use Cons.prems same temp in simp_all)
  then obtain d' where d': "run_reduces reducef it d1 (map (\<lambda>R. reduce_task (F R)) Rs) = Inr d'"
    "\<forall>R \<in> set Rs. read_file d' (out_file R) = Some (concat (output_lines reducef it (concat (map K (F R)))))"
    "\<forall>g. (\<forall>R \<in> set Rs. g \<noteq> temp_reduce_file R \<and> g \<noteq> out_file R) \<longrightarrow> read_file d' g = read_file d1 g"
    by blast
  have "read_file d' (out_file R) = read_file d1 (out_file R)"
    using d'(3) Cons.prems(2) reduce_names by (metis distinct.simps(2))
  with d' d1 show ?case by (intro exI [of _ d']) simp
qed simp

section \<open>Distributed and sequential results agree\<close>

text \<open>The reduce function does not depend on the order of the values.\<close>

definition order_free :: "reducef \<Rightarrow> bool" where
  "order_free reducef \<longleftrightarrow> (\<forall>k vs vs'. mset vs = mset vs' \<longrightarrow> reducef k vs = reducef k vs')"

lemma key_line_mset:
  assumes "order_free reducef" and "mset xs = mset ys"
  shows "key_line reducef xs k = key_line reducef ys k"
proof -
  have "mset (map mk_Value (filter (\<lambda>kv. mk_Key kv = k) xs)) = mset (map mk_Value (filter (\<lambda>kv. mk_Key kv = k) ys))"
    using assms(2) by simp
  then have "reducef k (map mk_Value (filter (\<lambda>kv. mk_Key kv = k) xs)) = reducef k (map mk_Value (filter (\<lambda>kv. mk_Key kv = k) ys))"
    using assms(1) unfolding order_free_def by blast
  then show ?thesis by (simp only: reduce_line_def)
qed

lemma mset_map_distinct: "distinct ks \<Longrightarrow> mset (map f ks) = image_mset f (mset_set (set ks))"
  by (simp add: mset_set_set)

lemma output_lines_mset:
  assumes "fair_iter it"
  shows "mset (output_lines reducef it kvs) = image_mset (key_line reducef kvs) (mset_set (mk_Key ` set kvs))"
  unfolding output_lines_def by (subst mset_map_distinct) (use assms in simp_all)

text \<open>The keys are partitioned over the reducers.\<close>

lemma mset_set_disjoint:
  assumes "distinct Rs" and "\<And>R R'. R \<in> set Rs \<Longrightarrow> R' \<in> set Rs \<Longrightarrow> R \<noteq> R' \<Longrightarrow> S R \<inter> S R' = {}"
    and "\<And>R. R \<in> set Rs \<Longrightarrow> finite (S R)"
  shows "sum_list (map (\<lambda>R. mset_set (S R)) Rs) = mset_set (\<Union>R \<in> set Rs. S R)"
  using assms
proof (induction Rs)
  case (Cons R Rs)
  have "S R \<inter> (\<Union>R \<in> set Rs. S R) = {}" using Cons.prems(1,2) by fastforce
  with Cons show ?case by (simp add: mset_set_Union)
qed simp

lemma partitioned_lines:
  assumes it: "fair_iter it" and Rs: "distinct Rs" "set Rs = reducer_of ` set G"
    and route: "\<And>f kv. f \<in> set G \<Longrightarrow> kv \<in> set (K f) \<Longrightarrow> reducer_of f = h (mk_Key kv)"
  defines "P \<equiv> \<lambda>R. concat (map K (filter (\<lambda>f. reducer_of f = R) G))"
  shows "mset (concat (map (\<lambda>R. output_lines reducef it (P R)) Rs)) =
    image_mset (key_line reducef (concat (map K G))) (mset_set (mk_Key ` set (concat (map K G))))"
proof -
  have keys: "k \<in> mk_Key ` set (P R) \<Longrightarrow> h k = R" for k R using route by (auto simp: P_def)
  have fil: "filter (\<lambda>kv. mk_Key kv = k) (concat (map K F)) =
      filter (\<lambda>kv. mk_Key kv = k) (concat (map K (filter (\<lambda>f. reducer_of f = h k) F)))" if "set F \<subseteq> set G" for F k
    using that
  proof (induction F)
    case (Cons f F)
    have "filter (\<lambda>kv. mk_Key kv = k) (K f) = []" if "reducer_of f \<noteq> h k"
      using route [of f] Cons.prems that by (auto simp: filter_empty_conv)
    with Cons show ?case by auto
  qed simp
  have "image_mset (key_line reducef (P R)) (mset_set (mk_Key ` set (P R))) =
      image_mset (key_line reducef (concat (map K G))) (mset_set (mk_Key ` set (P R)))" for R
  proof (rule image_mset_cong)
    fix k assume "k \<in># mset_set (mk_Key ` set (P R))"
    then have "h k = R" using keys by simp
    then show "key_line reducef (P R) k = key_line reducef (concat (map K G)) k"
      using fil [of G k] by (simp add: P_def)
  qed
  then have "mset (concat (map (\<lambda>R. output_lines reducef it (P R)) Rs)) =
      image_mset (key_line reducef (concat (map K G))) (sum_list (map (\<lambda>R. mset_set (mk_Key ` set (P R))) Rs))"
    by (induction Rs) (simp_all add: output_lines_mset [OF it])
  also have "sum_list (map (\<lambda>R. mset_set (mk_Key ` set (P R))) Rs) = mset_set (\<Union>R \<in> set Rs. mk_Key ` set (P R))"
  proof (rule mset_set_disjoint [OF Rs(1)])
    show "mk_Key ` set (P R) \<inter> mk_Key ` set (P R') = {}" if "R \<noteq> R'" for R R'
      using keys [of _ R] keys [of _ R'] that by fastforce
  qed simp
  also have "(\<Union>R \<in> set Rs. mk_Key ` set (P R)) = mk_Key ` set (concat (map K G))"
    using Rs(2) by (auto simp: P_def)
  finally show ?thesis .
qed

lemma sequential_lines:
  assumes ex: "\<forall>f \<in> set files. read_file d f \<noteq> None" and free: "order_free reducef"
    and srt: "\<And>xs. mset (srt xs) = mset xs \<and> sorted (map mk_Key (srt xs))"
    and all: "mset all = (\<Sum>f \<in># mset files. mset (mapf f (the (read_file d f))))"
  obtains d' ls where "mrsequential mapf reducef srt files d = Inr d'" "read_file d' ''mr-out-0'' = Some (concat ls)"
    "mset ls = image_mset (key_line reducef all) (mset_set (mk_Key ` set all))"
proof -
  let ?kvs = "concat (map (\<lambda>f. mapf f (the (read_file d f))) files)"
  have kvs: "mset ?kvs = mset all"
    by (simp add: all mset_concat comp_def sum_mset_sum_list [symmetric])
  obtain ks where ks: "distinct ks" "set ks = mk_Key ` set (srt ?kvs)"
    "reduce_runs reducef (srt ?kvs) = concat (map (key_line reducef (srt ?kvs)) ks)"
    using reduce_runs_sorted [of "srt ?kvs" reducef] srt [of ?kvs] by blast
  have "set (srt ?kvs) = set all" using srt [of ?kvs] kvs by (metis mset_eq_setD)
  moreover have "key_line reducef (srt ?kvs) = key_line reducef all"
    using key_line_mset [OF free, of "srt ?kvs" all] srt [of ?kvs] kvs by auto
  ultimately have ls: "mset (map (key_line reducef (srt ?kvs)) ks) = image_mset (key_line reducef all) (mset_set (mk_Key ` set all))"
    using mset_map_distinct [OF ks(1)] ks(2) by simp
  have "mrsequential mapf reducef srt files d = Inr (write_file d ''mr-out-0'' (reduce_runs reducef (srt ?kvs)))"
    using read_inputs_spec [OF ex, of mapf "[]"] by (simp add: mrsequential_def)
  then show ?thesis by (rule that [OF _ _ ls]) (simp add: read_write_file ks(3))
qed

text \<open>What the reduce tasks of the system find.\<close>

lemma reduce_inputs:
  assumes fi: "files_inv mapf n d0 files s"
    and sum: "mset (concat (map (file_pairs mapf n d0 (c_tasks (y_c s))) (filepath_Glob (y_d s) ''m-out-*-*''))) =
      (\<Sum>f \<in># mset files. mset (mapf f (the (read_file d0 f))))"
    and plain: "\<And>f kv. f \<in> set files \<Longrightarrow> kv \<in> set (mapf f (the (read_file d0 f))) \<Longrightarrow> plain kv"
    and fresh: "\<And>r. read_file d0 (temp_reduce_file (digits r)) = None"
    and Rs: "set Rs = reducer_of ` set (filepath_Glob (y_d s) ''m-out-*-*'')"
  defines "F \<equiv> \<lambda>R. filter (\<lambda>f. reducer_of f = R) (filepath_Glob (y_d s) ''m-out-*-*'')"
    and "K \<equiv> file_pairs mapf n d0 (c_tasks (y_c s))"
  shows "\<forall>R \<in> set Rs. \<exists>r. R = digits r \<and> F R \<noteq> [] \<and> (\<forall>f \<in> set (F R). \<exists>t. f = map_file t r)"
    and "\<forall>R \<in> set Rs. \<forall>f \<in> set (F R). read_file (y_d s) f = Some (concat (map map_line (K f))) \<and> (\<forall>kv \<in> set (K f). plain kv)"
    and "\<forall>R \<in> set Rs. concat (map K (F R)) \<noteq> [] \<and> read_file (y_d s) (temp_reduce_file R) = None"
proof -
  let ?G = "filepath_Glob (y_d s) ''m-out-*-*''"
  have all: "plain kv" if "f \<in> set ?G" "kv \<in> set (K f)" for f kv
  proof -
    have "kv \<in># mset (concat (map K ?G))" using that by auto
    then have "kv \<in># (\<Sum>f \<in># mset files. mset (mapf f (the (read_file d0 f))))" unfolding K_def sum .
    then show ?thesis using plain by auto
  qed
  have name: "\<exists>t r. f = map_file t r \<and> R = digits r \<and> K f \<noteq> []" if "f \<in> set (F R)" for f R
  proof -
    have "f \<in> set ?G" "reducer_of f = R" using that by (simp_all add: F_def)
    then obtain t r where "f = map_file t r" "part n (pairs_of mapf d0 (c_tasks (y_c s) ! t)) r \<noteq> []"
      unfolding glob_completed [OF fi] by blast
    then show ?thesis
      using \<open>reducer_of f = R\<close>
      by (intro exI [of _ t] exI [of _ r]) (simp add: Split_map_file K_def file_pairs_map_file)
  qed
  have ne: "F R \<noteq> []" if "R \<in> set Rs" for R
    using that Rs by (auto simp: F_def filter_empty_conv)
  show "\<forall>R \<in> set Rs. \<exists>r. R = digits r \<and> F R \<noteq> [] \<and> (\<forall>f \<in> set (F R). \<exists>t. f = map_file t r)"
  proof
    fix R assume R: "R \<in> set Rs"
    then obtain r where r: "R = digits r" using name ne by (meson hd_in_set)
    moreover have "\<exists>t. f = map_file t r" if "f \<in> set (F R)" for f
      using name [OF that] r digits_inj by metis
    ultimately show "\<exists>r. R = digits r \<and> F R \<noteq> [] \<and> (\<forall>f \<in> set (F R). \<exists>t. f = map_file t r)" using ne [OF R] by blast
  qed
  show "\<forall>R \<in> set Rs. \<forall>f \<in> set (F R). read_file (y_d s) f = Some (concat (map map_line (K f))) \<and> (\<forall>kv \<in> set (K f). plain kv)"
  proof (intro ballI conjI)
    fix R f assume "f \<in> set (F R)"
    then have f: "f \<in> set ?G" by (simp add: F_def del: set_Glob)
    show "read_file (y_d s) f = Some (concat (map map_line (K f)))"
      unfolding K_def by (rule glob_file_pairs(1) [OF fi f])
    show "plain kv" if "kv \<in> set (K f)" for kv using f that by (rule all)
  qed
  show "\<forall>R \<in> set Rs. concat (map K (F R)) \<noteq> [] \<and> read_file (y_d s) (temp_reduce_file R) = None"
  proof
    fix R assume R: "R \<in> set Rs"
    obtain t r where tr: "hd (F R) = map_file t r" "R = digits r" "K (hd (F R)) \<noteq> []"
      using name [OF hd_in_set [OF ne [OF R]]] by blast
    have "read_file (y_d s) (temp_reduce_file R) = read_file d0 (temp_reduce_file R)"
      by (rule files_invD(2) [OF fi]) (simp add: temp_reduce_file_def temp_map_file_def map_file_def)
    with fresh tr(2,3) ne [OF R] show "concat (map K (F R)) \<noteq> [] \<and> read_file (y_d s) (temp_reduce_file R) = None"
      by (cases "F R") auto
  qed
qed

text \<open>
  What a job whose reduce tasks are run once writes: one line for each key, from all the pairs that the map function emits
  for the inputs.
\<close>

lemma distributed_lines:
  assumes job: "clean_job files d0" "0 < n" "mr_reach mapf reducef (mr_init files n d0) s"
      "c_phase (y_c s) = phaseMap" "mr_step mapf reducef s s'" "c_phase (y_c s') \<noteq> phaseMap"
    and plain: "\<And>f kv. f \<in> set files \<Longrightarrow> kv \<in> set (mapf f (the (read_file d0 f))) \<Longrightarrow> plain kv"
    and fresh: "\<And>r. read_file d0 (temp_reduce_file (digits r)) = None"
    and free: "order_free reducef" and it: "fair_iter it"
  defines "all \<equiv> concat (map (\<lambda>f. mapf f (the (read_file d0 f))) files)"
  shows "\<exists>d' Rs outs.
    run_reduces reducef it (y_d s') (filter (\<lambda>t. t_taskType t = TaskTypeReduce) (c_tasks (y_c s'))) = Inr d' \<and>
    distinct Rs \<and> (\<forall>R \<in> set Rs. read_file d' (''mr-out-'' @ R) = Some (concat (outs R))) \<and>
    mset (concat (map outs Rs)) = image_mset (key_line reducef all) (mset_set (mk_Key ` set all))"
proof (rule map_phase_result [OF job])
  fix Rs
  let ?G = "filepath_Glob (y_d s') ''m-out-*-*''" and ?K = "file_pairs mapf n d0 (c_tasks (y_c s'))"
  let ?F = "\<lambda>R. filter (\<lambda>f. reducer_of f = R) ?G" and ?h = "\<lambda>k. digits (nat (ihash k mod n))"
  let ?outs = "\<lambda>R. output_lines reducef it (concat (map ?K (?F R)))"
  assume fi: "files_inv mapf n d0 files s'"
    and sum: "mset (concat (map ?K ?G)) = (\<Sum>f \<in># mset files. mset (mapf f (the (read_file d0 f))))"
    and Rs: "distinct Rs" "set Rs = reducer_of ` set ?G"
    and tasks: "filter (\<lambda>t. t_taskType t = TaskTypeReduce) (c_tasks (y_c s')) = map (\<lambda>R. reduce_task (?F R)) Rs"
  have all: "mset (concat (map ?K ?G)) = mset all"
    unfolding sum all_def by (simp add: mset_concat comp_def sum_mset_sum_list [symmetric])
  have "mset (concat (map ?outs Rs)) =
      image_mset (key_line reducef (concat (map ?K ?G))) (mset_set (mk_Key ` set (concat (map ?K ?G))))"
    by (rule partitioned_lines [OF it Rs, of ?K ?h]) (rule glob_file_pairs(3) [OF fi])
  also have "\<dots> = image_mset (key_line reducef all) (mset_set (mk_Key ` set all))"
    unfolding mset_eq_setD [OF all] by (rule image_mset_cong) (rule key_line_mset [OF free all])
  finally have lines: "mset (concat (map ?outs Rs)) = image_mset (key_line reducef all) (mset_set (mk_Key ` set all))" .
  have "\<exists>d'. run_reduces reducef it (y_d s') (map (\<lambda>R. reduce_task (?F R)) Rs) = Inr d' \<and>
      (\<forall>R \<in> set Rs. read_file d' (out_file R) = Some (concat (?outs R))) \<and>
      (\<forall>g. (\<forall>R \<in> set Rs. g \<noteq> temp_reduce_file R \<and> g \<noteq> out_file R) \<longrightarrow> read_file d' g = read_file (y_d s') g)"
    by (rule run_all_reduces [OF it Rs(1) reduce_inputs [OF fi sum plain fresh Rs(2)]])
  then obtain d' where "run_reduces reducef it (y_d s') (map (\<lambda>R. reduce_task (?F R)) Rs) = Inr d'"
    "\<forall>R \<in> set Rs. read_file d' (''mr-out-'' @ R) = Some (concat (?outs R))"
    unfolding out_file_def by blast
  with lines Rs(1) show ?thesis
    unfolding tasks by (intro exI [of _ d'] exI [of _ Rs] exI [of _ ?outs] conjI)
qed



end
