(* ===== verification/MrApps.thy ===== *)
theory MrApps
  imports MrSequential
begin

text \<open>
  The applications under \<^verbatim>\<open>src/mrapps/\<close>, each a map and a reduce function that the MapReduce programs load, and
  what a MapReduce job computes with them.

  Text is decoded from UTF-8 as Go's \<open>range\<close> over a string does it; \<open>unicode.IsLetter\<close> is a parameter, and what is assumed of
  it are its values on ASCII. Process identifiers, random numbers and the clock are arguments. Sleeping is not modelled.
  Writing a file, listing the directory and removing an existing file are taken to succeed, so the panics on their
  errors do not occur, but for the removal of a missing file.
\<close>

section \<open>Runes\<close>

text \<open>
  One step of the decoder: the rune that starts the text and its width in bytes. Bytes that do not encode a rune
  are read one at a time, as the rune \<open>U+FFFD\<close>.
\<close>

definition in_range :: "nat \<Rightarrow> nat \<Rightarrow> nat \<Rightarrow> bool" where
  "in_range lo hi b \<longleftrightarrow> lo \<le> b \<and> b \<le> hi"

text \<open>The bounds of the second byte.\<close>

definition second_lo :: "nat \<Rightarrow> nat" where
  "second_lo b0 = (if b0 = 224 then 160 else if b0 = 240 then 144 else 128)"

definition second_hi :: "nat \<Rightarrow> nat" where
  "second_hi b0 = (if b0 = 237 then 159 else if b0 = 244 then 143 else 191)"

fun decode_rune :: "nat list \<Rightarrow> nat \<times> nat" where
  "decode_rune [] = (65533, 0)"
| "decode_rune (b0 # bs) =
     (if b0 < 128 then (b0, 1)
      else if in_range 194 223 b0 \<and> 1 \<le> length bs \<and> in_range 128 191 (bs ! 0)
      then ((b0 - 192) * 64 + (bs ! 0 - 128), 2)
      else if in_range 224 239 b0 \<and> 2 \<le> length bs \<and> in_range (second_lo b0) (second_hi b0) (bs ! 0) \<and>
        in_range 128 191 (bs ! 1)
      then ((b0 - 224) * 4096 + (bs ! 0 - 128) * 64 + (bs ! 1 - 128), 3)
      else if in_range 240 244 b0 \<and> 3 \<le> length bs \<and> in_range (second_lo b0) (second_hi b0) (bs ! 0) \<and>
        in_range 128 191 (bs ! 1) \<and> in_range 128 191 (bs ! 2)
      then ((b0 - 240) * 262144 + (bs ! 0 - 128) * 4096 + (bs ! 1 - 128) * 64 + (bs ! 2 - 128), 4)
      else (65533, 1))"

lemma decode_rune_width: "s \<noteq> [] \<Longrightarrow> 0 < snd (decode_rune s) \<and> snd (decode_rune s) \<le> length s"
  by (cases s) simp_all

text \<open>An ASCII byte is only read as itself.\<close>

lemma decode_rune_ascii:
  assumes "b \<in> set (take (snd (decode_rune s)) s)" and "b < 128"
  shows "fst (decode_rune s) = b"
proof (cases s)
  case (Cons b0 bs)
  have lo: "128 \<le> second_lo b0" by (simp add: second_lo_def)
  have t: "set (take 1 bs) = {bs ! 0}" if "1 \<le> length bs" using that by (cases bs) auto
  have t2: "set (take 2 bs) = {bs ! 0, bs ! 1}" if "2 \<le> length bs"
    using that by (cases bs; cases "tl bs") (auto simp: numeral_2_eq_2)
  have t3: "set (take 3 bs) = {bs ! 0, bs ! 1, bs ! 2}" if "3 \<le> length bs"
    using that by (cases bs; cases "tl bs"; cases "tl (tl bs)") (auto simp: numeral_3_eq_3 numeral_2_eq_2)
  show ?thesis
  proof (cases "b0 < 128")
    case True
    with assms Cons show ?thesis by simp
  next
    case False
    have "b \<noteq> b0" using assms(2) False by simp
    with assms lo False t t2 t3 show ?thesis
      unfolding Cons by (auto simp: in_range_def take_Cons' split: if_splits)
  qed
qed (use assms in simp)

text \<open>The runes of a text, each with the bytes it was read from.\<close>

function runes :: "string \<Rightarrow> (nat \<times> string) list" where
  "runes s =
     (if s = [] then []
      else let (r, n) = decode_rune (map of_char s) in (r, take n s) # runes (drop n s))"
  by pat_completeness auto
termination
proof (relation "measure length")
  fix s :: string and x r n
  assume s: "s \<noteq> []" and "x = decode_rune (map of_char s)" "(r, n) = x"
  then have "snd (decode_rune (map of_char s)) = n" by (metis snd_conv)
  with s show "(drop n s, s) \<in> measure length" using decode_rune_width [of "map of_char s :: nat list"] by simp
qed simp

declare runes.simps [simp del]

lemma runes_bytes: "concat (map snd (runes s)) = s"
proof (induction s rule: runes.induct)
  case (1 s)
  then show ?case by (subst runes.simps) (auto split: prod.splits)
qed

text \<open>\<open>strings.FieldsFunc\<close>: the maximal pieces whose runes do not satisfy the predicate. \<open>cur\<close> is the piece being read.\<close>

fun fields_loop :: "(nat \<Rightarrow> bool) \<Rightarrow> (nat \<times> string) list \<Rightarrow> string option \<Rightarrow> string list" where
  "fields_loop f [] None = []"
| "fields_loop f [] (Some cur) = [cur]"
| "fields_loop f ((r, bytes) # rs) None = (if f r then fields_loop f rs None else fields_loop f rs (Some bytes))"
| "fields_loop f ((r, bytes) # rs) (Some cur) =
     (if f r then cur # fields_loop f rs None else fields_loop f rs (Some (cur @ bytes)))"

definition strings_FieldsFunc :: "string \<Rightarrow> (nat \<Rightarrow> bool) \<Rightarrow> string list" where
  "strings_FieldsFunc s f = fields_loop f (runes s) None"

section \<open>Word count: \<open>wc.go\<close>\<close>

definition words :: "(nat \<Rightarrow> bool) \<Rightarrow> string \<Rightarrow> string list" where
  "words isLetter content = strings_FieldsFunc content (\<lambda>r. \<not> isLetter r)"

definition wc_Map :: "(nat \<Rightarrow> bool) \<Rightarrow> mapf" where
  "wc_Map isLetter filename content = foldl (\<lambda>kva w. kva @ [\<lparr>mk_Key = w, mk_Value = ''1''\<rparr>]) [] (words isLetter content)"

definition wc_Reduce :: reducef where
  "wc_Reduce key values = strconv_Itoa (int (length values))"

section \<open>Index: \<open>indexer.go\<close>\<close>

text \<open>\<open>it\<close> is the order in which Go ranges over the map of words.\<close>

definition indexer_Map :: "(nat \<Rightarrow> bool) \<Rightarrow> iter \<Rightarrow> mapf" where
  "indexer_Map isLetter it document value =
     (let m = foldl (\<lambda>m w. if w \<in> set m then m else m @ [w]) [] (words isLetter value)
      in foldl (\<lambda>res w. res @ [\<lparr>mk_Key = w, mk_Value = document\<rparr>]) [] (it m))"

definition indexer_Reduce :: reducef where
  "indexer_Reduce key values =
     strconv_Itoa (int (length values)) @ '' '' @ strings_Join (sort values) '',''"

section \<open>Crashing applications: \<open>crash.go\<close>, \<open>nocrash.go\<close>\<close>

text \<open>\<open>rr\<close> is the random number that \<open>maybeCrash\<close> draws. The two files differ in \<open>maybeCrash\<close> only.\<close>

definition crash_maybeCrash :: "int \<Rightarrow> unit go" where
  "crash_maybeCrash rr = (if rr < 330 then Inl Fatal else Inr ())"

definition nocrash_maybeCrash :: "int \<Rightarrow> unit go" where
  "nocrash_maybeCrash rr = (if False \<and> rr < 500 then Inl Fatal else Inr ())"

definition test_Map :: "(int \<Rightarrow> unit go) \<Rightarrow> int \<Rightarrow> string \<Rightarrow> string \<Rightarrow> KeyValue list go" where
  "test_Map maybeCrash rr filename content =
     go_bind (maybeCrash rr) (\<lambda>_.
       let kva = [];
           kva = kva @ [\<lparr>mk_Key = ''a'', mk_Value = filename\<rparr>];
           kva = kva @ [\<lparr>mk_Key = ''b'', mk_Value = strconv_Itoa (int (length filename))\<rparr>];
           kva = kva @ [\<lparr>mk_Key = ''c'', mk_Value = strconv_Itoa (int (length content))\<rparr>];
           kva = kva @ [\<lparr>mk_Key = ''d'', mk_Value = ''xyzzy''\<rparr>]
       in Inr kva)"

definition sorted_values :: reducef where
  "sorted_values key values = strings_Join (sort values) '' ''"

definition test_Reduce :: "(int \<Rightarrow> unit go) \<Rightarrow> int \<Rightarrow> string \<Rightarrow> string list \<Rightarrow> string go" where
  "test_Reduce maybeCrash rr key values = go_bind (maybeCrash rr) (\<lambda>_. Inr (sorted_values key values))"

definition crash_Map :: "int \<Rightarrow> string \<Rightarrow> string \<Rightarrow> KeyValue list go" where
  "crash_Map = test_Map crash_maybeCrash"

definition crash_Reduce :: "int \<Rightarrow> string \<Rightarrow> string list \<Rightarrow> string go" where
  "crash_Reduce = test_Reduce crash_maybeCrash"

definition nocrash_Map :: "int \<Rightarrow> string \<Rightarrow> string \<Rightarrow> KeyValue list go" where
  "nocrash_Map = test_Map nocrash_maybeCrash"

definition nocrash_Reduce :: "int \<Rightarrow> string \<Rightarrow> string list \<Rightarrow> string go" where
  "nocrash_Reduce = test_Reduce nocrash_maybeCrash"

section \<open>Early exit: \<open>early_exit.go\<close>\<close>

definition early_exit_Map :: mapf where
  "early_exit_Map filename content = [\<lparr>mk_Key = filename, mk_Value = ''1''\<rparr>]"

definition early_exit_Reduce :: reducef where
  "early_exit_Reduce key values = strconv_Itoa (int (length values))"

section \<open>Counting jobs: \<open>jobcount.go\<close>\<close>

text \<open>The state is the directory and the process's own variable \<open>count\<close>.\<close>

definition jobcount_file :: "nat \<Rightarrow> nat \<Rightarrow> string" where
  "jobcount_file me cnt = ''mr-worker-jobcount-'' @ digits me @ ''-'' @ digits cnt"

definition jobcount_Map :: "nat \<Rightarrow> dir \<times> nat \<Rightarrow> (dir \<times> nat) \<times> KeyValue list" where
  "jobcount_Map me = (\<lambda>(d, cnt).
     ((write_file d (jobcount_file me cnt) ''x'', cnt + 1), [\<lparr>mk_Key = ''a'', mk_Value = ''x''\<rparr>]))"

definition jobcount_Reduce :: "dir \<Rightarrow> string \<Rightarrow> string list \<Rightarrow> string" where
  "jobcount_Reduce d key values =
     strconv_Itoa (foldl (\<lambda>invocations f. if prefix ''mr-worker-jobcount'' f then invocations + 1 else invocations) 0 (map fst d))"

section \<open>Parallelism: \<open>mtiming.go\<close>, \<open>rtiming.go\<close>\<close>

text \<open>
  \<open>fmt.Sscanf\<close> with a format that is literal text followed by \<open>%d\<close>: the text, blanks, a sign, and decimal digits that
  fit an \<open>int\<close>; what follows them is not looked at.
\<close>

definition Sscanf_int :: "string \<Rightarrow> string \<Rightarrow> int option" where
  "Sscanf_int lit name =
     (if \<not> prefix lit name then None
      else let s = dropWhile (\<lambda>c. is_space c \<and> c \<noteq> CHR 0x0A) (drop (length lit) name);
               neg = (s \<noteq> [] \<and> hd s = CHR ''-'');
               s = (if s \<noteq> [] \<and> (hd s = CHR ''-'' \<or> hd s = CHR ''+'') then tl s else s);
               ds = takeWhile is_digit s;
               v = (if neg then - digits_value ds else digits_value ds)
           in if ds = [] \<or> v < - (2 ^ 63) \<or> v \<ge> 2 ^ 63 then None else Some v)"

text \<open>\<open>alive\<close> tells which processes a signal reaches. The file is gone at the end only if no one else has removed it.\<close>

definition worker_file :: "string \<Rightarrow> nat \<Rightarrow> string" where
  "worker_file phase pid = ''mr-worker-'' @ phase @ ''-'' @ digits pid"

definition nparallel_count :: "(int \<Rightarrow> bool) \<Rightarrow> string \<Rightarrow> string list \<Rightarrow> int" where
  "nparallel_count alive phase names =
     foldl (\<lambda>ret name. case Sscanf_int (''mr-worker-'' @ phase @ ''-'') name of
              None \<Rightarrow> ret
            | Some xpid \<Rightarrow> if alive xpid then ret + 1 else ret) 0 names"

text \<open>The directory may change between the listing and the removal of the file: \<open>others\<close> is what other processes do to it.\<close>

definition nparallel :: "(int \<Rightarrow> bool) \<Rightarrow> nat \<Rightarrow> (dir \<Rightarrow> dir) \<Rightarrow> string \<Rightarrow> dir \<Rightarrow> (dir \<times> int) go" where
  "nparallel alive pid others phase d =
     (let myfilename = worker_file phase pid;
          d = write_file d myfilename ''x'';
          ret = nparallel_count alive phase (take 1000000 (map fst d))
      in case os_Remove (others d) myfilename of None \<Rightarrow> Inl Panic | Some d \<Rightarrow> Inr (d, ret))"

text \<open>\<open>ts\<close> is the time, formatted.\<close>

definition mtiming_Map :: "(int \<Rightarrow> bool) \<Rightarrow> nat \<Rightarrow> (dir \<Rightarrow> dir) \<Rightarrow> string \<Rightarrow> dir \<Rightarrow> string \<Rightarrow> string \<Rightarrow> (dir \<times> KeyValue list) go" where
  "mtiming_Map alive pid others ts d filename content =
     go_bind (nparallel alive pid others ''map'' d) (\<lambda>(d, n).
       Inr (d, [\<lparr>mk_Key = ''times-'' @ digits pid, mk_Value = ts\<rparr>,
                \<lparr>mk_Key = ''parallel-'' @ digits pid, mk_Value = strconv_Itoa n\<rparr>]))"

text \<open>Each of the two files has its own copy of \<open>nparallel\<close>.\<close>

definition rtiming_nparallel :: "(int \<Rightarrow> bool) \<Rightarrow> nat \<Rightarrow> (dir \<Rightarrow> dir) \<Rightarrow> string \<Rightarrow> dir \<Rightarrow> (dir \<times> int) go" where
  "rtiming_nparallel = nparallel"

definition mtiming_Reduce :: reducef where
  "mtiming_Reduce = sorted_values"

definition rtiming_Map :: mapf where
  "rtiming_Map filename content =
     map (\<lambda>k. \<lparr>mk_Key = k, mk_Value = ''1''\<rparr>) [''a'', ''b'', ''c'', ''d'', ''e'', ''f'', ''g'', ''h'', ''i'', ''j'']"

definition rtiming_Reduce :: "(int \<Rightarrow> bool) \<Rightarrow> nat \<Rightarrow> (dir \<Rightarrow> dir) \<Rightarrow> dir \<Rightarrow> string \<Rightarrow> string list \<Rightarrow> (dir \<times> string) go" where
  "rtiming_Reduce alive pid others d key values =
     go_bind (rtiming_nparallel alive pid others ''reduce'' d) (\<lambda>(d, n). Inr (d, strconv_Itoa n))"

section \<open>Words\<close>

text \<open>What is assumed of \<open>unicode.IsLetter\<close>: on ASCII, the letters are the 52 Latin letters.\<close>

definition ascii_letters :: "(nat \<Rightarrow> bool) \<Rightarrow> bool" where
  "ascii_letters isLetter \<longleftrightarrow> (\<forall>b < 128. isLetter b \<longleftrightarrow> 65 \<le> b \<and> b \<le> 90 \<or> 97 \<le> b \<and> b \<le> 122)"

lemma runes_unfold:
  "s \<noteq> [] \<Longrightarrow> runes s =
     (fst (decode_rune (map of_char s)), take (snd (decode_rune (map of_char s))) s) # runes (drop (snd (decode_rune (map of_char s))) s)"
  by (subst runes.simps) (simp add: case_prod_beta Let_def)

lemma runes_ascii: "(r, bytes) \<in> set (runes s) \<Longrightarrow> bytes \<noteq> [] \<and> (\<forall>c\<in>set bytes. of_char c < (128 :: nat) \<longrightarrow> r = of_char c)"
proof (induction s rule: runes.induct)
  case (1 s)
  let ?d = "decode_rune (map of_char s)"
  from 1(2) have s: "s \<noteq> []" by (subst (asm) runes.simps) auto
  with 1(2) have "r = fst ?d \<and> bytes = take (snd ?d) s \<or> (r, bytes) \<in> set (runes (drop (snd ?d) s))"
    by (simp add: runes_unfold)
  then show ?case
  proof
    assume d: "r = fst ?d \<and> bytes = take (snd ?d) s"
    then have "of_char c \<in> set (take (snd ?d) (map of_char s))" if "c \<in> set bytes" for c
      using that by (simp add: take_map)
    with d s decode_rune_ascii [of _ "map of_char s"] decode_rune_width [of "map of_char s :: nat list"] show ?thesis by auto
  next
    assume "(r, bytes) \<in> set (runes (drop (snd ?d) s))"
    with 1(1) [OF s refl prod.collapse] show ?thesis by simp
  qed
qed

lemma fields_loop_parts:
  assumes "w \<in> set (fields_loop f rs cur)" and "\<forall>x\<in>set rs. snd x \<noteq> []" and "cur \<noteq> Some []"
  shows "w \<noteq> [] \<and> (\<forall>c\<in>set w. c \<in> set (case cur of None \<Rightarrow> [] | Some u \<Rightarrow> u) \<or> (\<exists>r bytes. (r, bytes) \<in> set rs \<and> \<not> f r \<and> c \<in> set bytes))"
  using assms
proof (induction f rs cur rule: fields_loop.induct)
  case (3 f r bytes rs)
  show ?case
  proof (cases "f r")
    case True
    have "w \<noteq> [] \<and> (\<forall>c\<in>set w. \<exists>r bytes. (r, bytes) \<in> set rs \<and> \<not> f r \<and> c \<in> set bytes)"
      using 3(1) [OF True] 3(3-) True by simp
    then show ?thesis by (simp, blast)
  next
    case False
    have "bytes \<noteq> []" using 3(4) by simp
    then have "w \<noteq> [] \<and> (\<forall>c\<in>set w. c \<in> set bytes \<or> (\<exists>r bytes. (r, bytes) \<in> set rs \<and> \<not> f r \<and> c \<in> set bytes))"
      using 3(2) [OF False] 3(3-) False by simp
    with False show ?thesis by (simp, blast)
  qed
next
  case (4 f r bytes rs cur)
  show ?case
  proof (cases "f r")
    case True
    have "w \<noteq> [] \<and> (\<forall>c\<in>set w. \<exists>r bytes. (r, bytes) \<in> set rs \<and> \<not> f r \<and> c \<in> set bytes)" if "w \<noteq> cur"
      using 4(1) [OF True] 4(3-) True that by simp
    with 4(5) show ?thesis by (cases "w = cur") (simp, simp, blast)
  next
    case False
    then have "w \<noteq> [] \<and> (\<forall>c\<in>set w. c \<in> set (cur @ bytes) \<or> (\<exists>r bytes. (r, bytes) \<in> set rs \<and> \<not> f r \<and> c \<in> set bytes))"
      using 4(2) [OF False] 4(3-) by simp
    with False show ?thesis by (simp, blast)
  qed
qed auto

lemma words_letters:
  assumes "ascii_letters isLetter" and "w \<in> set (words isLetter content)"
  shows "w \<noteq> []" and "c \<in> set w \<Longrightarrow> of_char c < (128 :: nat) \<Longrightarrow> isLetter (of_char c)"
proof -
  have "w \<noteq> [] \<and> (\<forall>c\<in>set w. \<exists>r bytes. (r, bytes) \<in> set (runes content) \<and> isLetter r \<and> c \<in> set bytes)"
    using fields_loop_parts [of w "\<lambda>r. \<not> isLetter r" "runes content" None] assms(2) runes_ascii [of _ _ content]
    by (simp add: words_def strings_FieldsFunc_def split_paired_Ball_Sigma) (metis prod.collapse)
  then show "w \<noteq> []" "c \<in> set w \<Longrightarrow> of_char c < (128 :: nat) \<Longrightarrow> isLetter (of_char c)"
    using runes_ascii by blast+
qed

lemma word_plain:
  assumes "ascii_letters isLetter" and "w \<in> set (words isLetter content)"
  shows "plain \<lparr>mk_Key = w, mk_Value = ''1''\<rparr>"
proof -
  have no: "c \<notin> set w" if "of_char c < (128 :: nat)" "\<not> (65 \<le> (of_char c :: nat) \<and> (of_char c :: nat) \<le> 90 \<or> 97 \<le> (of_char c :: nat) \<and> (of_char c :: nat) \<le> 122)" for c
    using words_letters(2) [OF assms, of c] assms(1) that by (auto simp: ascii_letters_def)
  have "\<not> is_space (hd w)" using no [of "hd w"] words_letters(1) [OF assms] by (auto simp: is_space_def)
  moreover have "CHR '':'' \<notin> set w" "CHR 0x0A \<notin> set w" by (rule no; simp)+
  ultimately show ?thesis by (simp add: plain_def is_space_def)
qed

section \<open>What the applications compute\<close>

lemma wc_Map_eq: "wc_Map isLetter filename content = map (\<lambda>w. \<lparr>mk_Key = w, mk_Value = ''1''\<rparr>) (words isLetter content)"
proof -
  have "foldl (\<lambda>kva w. kva @ [\<lparr>mk_Key = w, mk_Value = ''1''\<rparr>]) acc ws = acc @ map (\<lambda>w. \<lparr>mk_Key = w, mk_Value = ''1''\<rparr>) ws" for acc ws
    by (induction ws arbitrary: acc) simp_all
  then show ?thesis by (simp add: wc_Map_def)
qed

lemma wc_Reduce_order_free: "order_free wc_Reduce"
  unfolding order_free_def wc_Reduce_def by (metis size_mset)

lemma sorted_values_order_free: "order_free sorted_values" "order_free indexer_Reduce"
proof -
  have "sort vs = sort vs'" if "mset vs = mset vs'" for vs vs' :: "string list"
    using that by (metis mset_sort properties_for_sort sorted_sort)
  then show "order_free sorted_values" "order_free indexer_Reduce"
    unfolding order_free_def sorted_values_def indexer_Reduce_def by (metis size_mset)+
qed

lemma wc_lines:
  fixes ws :: "string list list"
  defines "W \<equiv> concat ws"
  shows "key_line wc_Reduce (concat (map (map (\<lambda>w. \<lparr>mk_Key = w, mk_Value = ''1''\<rparr>)) ws)) w =
    w @ '' '' @ digits (count_list W w) @ ''\<newline>''"
proof -
  have "length (filter (\<lambda>kv. mk_Key kv = w) (map (\<lambda>w. \<lparr>mk_Key = w, mk_Value = ''1''\<rparr>) xs)) = count_list xs w" for xs
    by (induction xs) auto
  moreover have "concat (map (map (\<lambda>w. \<lparr>mk_Key = w, mk_Value = ''1''\<rparr>)) ws) = map (\<lambda>w. \<lparr>mk_Key = w, mk_Value = ''1''\<rparr>) W"
    by (simp add: W_def map_concat)
  ultimately show ?thesis by (simp add: reduce_line_def wc_Reduce_def)
qed

text \<open>
  C3: the distributed word count is right. Run the word-count application on any files, with any number of workers, crashes
  and timeouts in the map phase, and run every reduce task once. The output files together hold, for every word of the
  inputs and for nothing else, exactly one line, with the number of times the word occurs in all inputs.
\<close>

theorem word_count_correct:
  assumes "clean_job files d0" "0 < n" "mr_reach (wc_Map isLetter) wc_Reduce (mr_init files n d0) s"
      "c_phase (y_c s) = phaseMap" "mr_step (wc_Map isLetter) wc_Reduce s s'" "c_phase (y_c s') \<noteq> phaseMap"
    and "ascii_letters isLetter" and "\<And>r. read_file d0 (temp_reduce_file (digits r)) = None" and "fair_iter it"
  defines "W \<equiv> concat (map (\<lambda>f. words isLetter (the (read_file d0 f))) files)"
  shows "\<exists>d' Rs outs.
    run_reduces wc_Reduce it (y_d s') (filter (\<lambda>t. t_taskType t = TaskTypeReduce) (c_tasks (y_c s'))) = Inr d' \<and>
    distinct Rs \<and> (\<forall>R \<in> set Rs. read_file d' (''mr-out-'' @ R) = Some (concat (outs R))) \<and>
    mset (concat (map outs Rs)) = {# w @ '' '' @ digits (count_list W w) @ ''\<newline>''. w \<in># mset_set (set W) #}"
proof -
  let ?ws = "map (\<lambda>f. words isLetter (the (read_file d0 f))) files"
  let ?all = "concat (map (\<lambda>f. wc_Map isLetter f (the (read_file d0 f))) files)"
  have all: "?all = concat (map (map (\<lambda>w. \<lparr>mk_Key = w, mk_Value = ''1''\<rparr>)) ?ws)" by (simp add: wc_Map_eq comp_def)
  have keys: "mk_Key ` set ?all = set W" unfolding all W_def by force
  have plain: "plain kv" if "kv \<in> set (wc_Map isLetter f (the (read_file d0 f)))" for f kv
    using that word_plain [OF assms(7)] by (auto simp: wc_Map_eq)
  have lines: "key_line wc_Reduce ?all = (\<lambda>w. w @ '' '' @ digits (count_list W w) @ ''\<newline>'')"
    unfolding all W_def by (rule ext) (rule wc_lines)
  show ?thesis
    using distributed_lines [OF assms(1-6) plain assms(8) wc_Reduce_order_free assms(9)] unfolding keys lines .
qed

theorem word_count_correct_witness:
  "\<exists>d' Rs outs.
     run_reduces wc_Reduce (\<lambda>ks. ks) [(''a'', ''x''), (''m-out-0-0'', ''x:::1\<newline>'')] [reduce_task [''m-out-0-0'']] = Inr d' \<and>
     (\<forall>R \<in> set Rs. read_file d' (''mr-out-'' @ R) = Some (concat (outs R))) \<and>
     mset (concat (map outs Rs)) = {# ''x 1\<newline>'' #}"
proof -
  let ?L = "\<lambda>b. 65 \<le> b \<and> b \<le> 90 \<or> 97 \<le> b \<and> b \<le> (122 :: nat)"
  let ?s' = "pair_sys pair_end [(''m-out-0-0'', ''x:::1\<newline>'')] (\<lambda>_. None)"
  have w: "words ?L ''x'' = [''x'']" by (simp add: words_def strings_FieldsFunc_def runes_unfold) (simp add: runes.simps)
  then have m: "wc_Map ?L ''a'' ''x'' = one_pair ''a'' ''x''" by (simp add: wc_Map_eq one_pair_def)
  have ph: "c_phase (y_c pair_pending) = phaseMap" "c_phase (y_c ?s') \<noteq> phaseMap"
    by (simp_all add: pair_sys_def demo_job_def pair_end_def)
  have "ascii_letters ?L" "fair_iter (\<lambda>ks. ks)" by (simp_all add: ascii_letters_def fair_iter_def)
  moreover have "read_file [(''a'', ''x'')] (temp_reduce_file (digits r)) = None" for r
    by (simp add: read_file_def temp_reduce_file_def)
  moreover have "y_d ?s' = [(''a'', ''x''), (''m-out-0-0'', ''x:::1\<newline>'')]"
    "filter (\<lambda>t. t_taskType t = TaskTypeReduce) (c_tasks (y_c ?s')) = [reduce_task [''m-out-0-0'']]"
    by (simp_all add: pair_sys_def pair_end_def demo_job_def)
  moreover have "digits 1 = ''1''" by code_simp
  ultimately show ?thesis
    using word_count_correct [OF pair_clean _ pair_reach [where mapf = "wc_Map ?L", OF m] ph(1) pair_last_step ph(2), of "\<lambda>ks. ks"] w
    by (fastforce simp: read_file_def)
qed

text \<open>
  Calls of the job counter's map function by worker processes, in any order; \<open>cnt\<close> is the variable of each process.
  The reduce function then returns the number of calls.
\<close>

fun jobcount_calls :: "nat list \<Rightarrow> dir \<times> (nat \<Rightarrow> nat) \<Rightarrow> dir \<times> (nat \<Rightarrow> nat)" where
  "jobcount_calls [] st = st"
| "jobcount_calls (me # pids) (d, cnt) =
     (case jobcount_Map me (d, cnt me) of ((d, c), _) \<Rightarrow> jobcount_calls pids (d, cnt(me := c)))"

lemma jobcount_file_inj: "jobcount_file a b = jobcount_file a' b' \<longleftrightarrow> a = a' \<and> b = b'"
proof
  assume "jobcount_file a b = jobcount_file a' b'"
  then have "strings_Split ''-'' (digits a @ CHR ''-'' # digits b) = strings_Split ''-'' (digits a' @ CHR ''-'' # digits b')"
    by (simp add: jobcount_file_def)
  then show "a = a' \<and> b = b'" by (simp add: Split_char) (metis digits_inj)
qed simp

lemma jobcount_calls_names:
  assumes "jobcount_calls pids (d, cnt) = (d', cnt')" and "\<And>me c. map_of d (jobcount_file me c) \<noteq> None \<Longrightarrow> c < cnt me"
  shows "length (filter (prefix ''mr-worker-jobcount'') (map fst d')) =
    length pids + length (filter (prefix ''mr-worker-jobcount'') (map fst d))"
  using assms
proof (induction pids arbitrary: d cnt)
  case (Cons me pids)
  let ?d = "write_file d (jobcount_file me (cnt me)) ''x''"
  have new: "map_of d (jobcount_file me (cnt me)) = None" using Cons.prems(2) by blast
  then have "map fst ?d = map fst d @ [jobcount_file me (cnt me)]" by (simp add: write_file_def update_keys map_of_eq_None_iff)
  then have one: "length (filter (prefix ''mr-worker-jobcount'') (map fst ?d)) =
      Suc (length (filter (prefix ''mr-worker-jobcount'') (map fst d)))"
    by (simp add: jobcount_file_def)
  have "length (filter (prefix ''mr-worker-jobcount'') (map fst d')) =
      length pids + length (filter (prefix ''mr-worker-jobcount'') (map fst ?d))"
  proof (rule Cons.IH)
    show "jobcount_calls pids (?d, cnt(me := Suc (cnt me))) = (d', cnt')"
      using Cons.prems(1) by (simp add: jobcount_Map_def)
    show "c < (cnt(me := Suc (cnt me))) p" if "map_of ?d (jobcount_file p c) \<noteq> None" for p c
      using that Cons.prems(2) [of p c] by (auto simp: write_file_def update_conv jobcount_file_inj less_Suc_eq split: if_splits)
  qed
  with one show ?case by simp
qed simp

lemma jobcount_counts_calls:
  assumes "jobcount_calls pids (d, \<lambda>_. 0) = (d', cnt')" and "\<forall>f\<in>fst ` set d. \<not> prefix ''mr-worker-jobcount'' f"
  shows "jobcount_Reduce d' key vals = digits (length pids)"
proof -
  have "prefix ''mr-worker-jobcount'' (jobcount_file me c)" for me c by (simp add: jobcount_file_def)
  then have "map_of d (jobcount_file me c) = None" for me c
    using assms(2) unfolding map_of_eq_None_iff by blast
  then have "length (filter (prefix ''mr-worker-jobcount'') (map fst d')) = length pids"
    using jobcount_calls_names [OF assms(1)] assms(2) by (simp add: filter_empty_conv)
  moreover have "foldl (\<lambda>i f. if prefix ''mr-worker-jobcount'' f then i + 1 else i) n fs = n + int (length (filter (prefix ''mr-worker-jobcount'') fs))"
    for n fs by (induction fs arbitrary: n) simp_all
  ultimately show ?thesis by (simp add: jobcount_Reduce_def)
qed

text \<open>The crashing application and its control compute the same when they do not crash.\<close>

lemma crash_same_as_nocrash:
  "crash_Map rr f content \<in> {Inl Fatal, nocrash_Map rr' f content}"
  "crash_Reduce rr k vs \<in> {Inl Fatal, nocrash_Reduce rr' k vs}"
  by (simp_all add: crash_Map_def crash_Reduce_def nocrash_Map_def nocrash_Reduce_def test_Map_def test_Reduce_def
      crash_maybeCrash_def nocrash_maybeCrash_def)

end
