(* ===== verification/MrMain.thy ===== *)
theory MrMain
  imports MrSequential
begin

text \<open>
  The worker's main loop and its remote calls (\<open>Worker\<close>, \<open>heartbeat\<close> and the functions below them in
  \<^verbatim>\<open>src/mr/worker.go\<close>), the messages with their printed form and the socket's name (\<^verbatim>\<open>src/mr/rpc.go\<close>), and the main
  loop of the coordinator process (\<^verbatim>\<open>src/main/mrcoordinator.go\<close>), as functions on the coordinator's state and the
  directory. A round of the loop, with any failures of its calls, is a sequence of steps of the step relation.

  What happens to a call is an argument. A dial that fails ends the worker; a call that fails may have been executed
  or not. A panic is \<open>Inl\<close>.
\<close>

section \<open>Messages\<close>

record RegisterWorkerRes =
  rw_WorkerId :: int

record GetTaskReq =
  gq_WorkerId :: int

record TaskDoneReq =
  tq_WorkerId :: int
  tq_TaskId :: int
  tq_FilesCreated :: "string list"

record HeartbeatReq =
  hq_WorkerId :: int

record HeartbeatRes =
  hr_ShouldShutDown :: bool

definition TaskType_int :: "TaskType \<Rightarrow> int" where
  "TaskType_int ty = (case ty of TaskTypeMap \<Rightarrow> 0 | TaskTypeReduce \<Rightarrow> 1 | TaskTypeNoTask \<Rightarrow> 2 | TaskTypeShutdown \<Rightarrow> 3)"

definition RegisterWorkerRes_String :: "RegisterWorkerRes \<Rightarrow> string" where
  "RegisterWorkerRes_String r = ''{WorkerId: '' @ strconv_Itoa (rw_WorkerId r) @ ''}''"

definition GetTaskReq_String :: "GetTaskReq \<Rightarrow> string" where
  "GetTaskReq_String r = ''{WorkerId: '' @ strconv_Itoa (gq_WorkerId r) @ ''}''"

definition GetTaskRes_String :: "GetTaskRes \<Rightarrow> string" where
  "GetTaskRes_String r = ''{Files: ['' @ strings_Join (r_Files r) '', '' @ ''], NReduce: '' @ strconv_Itoa (r_NReduce r) @
     '', TaskType: '' @ strconv_Itoa (TaskType_int (r_TaskType r)) @ '', TaskId: '' @ strconv_Itoa (r_TaskId r) @ ''}''"

definition TaskDoneReq_String :: "TaskDoneReq \<Rightarrow> string" where
  "TaskDoneReq_String r = ''{WorkerId: '' @ strconv_Itoa (tq_WorkerId r) @ '', TaskId: '' @ strconv_Itoa (tq_TaskId r) @
     '', FilesCreated: ['' @ strings_Join (tq_FilesCreated r) '', '' @ '']}''"

definition coordinatorSock :: "int \<Rightarrow> string" where
  "coordinatorSock uid = (let s = ''/var/tmp/5840-mr-'' in s @ strconv_Itoa uid)"

section \<open>Calls\<close>

datatype call_fate = Answered | DialError | CallError bool

text \<open>What the caller sees: the reply, an error, or the end of its process.\<close>

datatype 'r called = Reply 'r | CallFailed | CallerDied

type_synonym job = "Coordinator \<times> dir"

definition call :: "call_fate \<Rightarrow> (job \<Rightarrow> (job \<times> 'r \<times> bool) go) \<Rightarrow> job \<Rightarrow> (job \<times> 'r called) go" where
  "call fate handler s =
     (case fate of
        DialError \<Rightarrow> Inr (s, CallerDied)
      | CallError False \<Rightarrow> Inr (s, CallFailed)
      | CallError True \<Rightarrow> go_bind (handler s) (\<lambda>(s, r, ok). Inr (s, CallFailed))
      | Answered \<Rightarrow> go_bind (handler s) (\<lambda>(s, r, ok). Inr (s, if ok then Reply r else CallFailed)))"

definition rpcRegisterWorker :: "call_fate \<Rightarrow> job \<Rightarrow> (job \<times> int called) go" where
  "rpcRegisterWorker fate = call fate (\<lambda>(c, d). let (c, workerId) = RegisterWorker c in Inr ((c, d), workerId, True))"

definition rpcGetTask :: "call_fate \<Rightarrow> int \<Rightarrow> int \<Rightarrow> job \<Rightarrow> (job \<times> GetTaskRes called) go" where
  "rpcGetTask fate now workerId =
     (let req = \<lparr>gq_WorkerId = workerId\<rparr>
      in call fate (\<lambda>(c, d). go_bind (GetTask c (gq_WorkerId req) now zero_GetTaskRes) (\<lambda>(c, res). Inr ((c, d), res, True))))"

definition rpcTaskDone :: "call_fate \<Rightarrow> iter \<Rightarrow> int \<Rightarrow> int \<Rightarrow> string list \<Rightarrow> job \<Rightarrow> (job \<times> unit called) go" where
  "rpcTaskDone fate jt workerId taskId filesCreated =
     (let req = \<lparr>tq_WorkerId = workerId, tq_TaskId = taskId, tq_FilesCreated = filesCreated\<rparr>
      in call fate (\<lambda>(c, d). go_bind (TaskDone jt c d (tq_TaskId req) (tq_FilesCreated req)) (\<lambda>(c, d, ok). Inr ((c, d), (), ok))))"

definition rpcHeartbeat :: "call_fate \<Rightarrow> int \<Rightarrow> job \<Rightarrow> (job \<times> HeartbeatRes called) go" where
  "rpcHeartbeat fate workerId =
     (let req = \<lparr>hq_WorkerId = workerId\<rparr>
      in call fate (\<lambda>(c, d). go_bind (Heartbeat c (hq_WorkerId req)) (\<lambda>(c, stop). Inr ((c, d), \<lparr>hr_ShouldShutDown = stop\<rparr>, True))))"

section \<open>The worker\<close>

datatype worker_end = Goes_on | Exits | Dies

text \<open>The part of a round after a task was received; \<open>created\<close> is \<open>None\<close> when the task returned an error.\<close>

definition Worker_report ::
  "call_fate \<Rightarrow> iter \<Rightarrow> int \<Rightarrow> int \<Rightarrow> Coordinator \<Rightarrow> dir \<times> string list option \<Rightarrow> (job \<times> worker_end) go" where
  "Worker_report fate jt workerId taskId c = (\<lambda>(d, created).
     case created of
       None \<Rightarrow> Inr ((c, d), Dies)
     | Some filesCreated \<Rightarrow>
         go_bind (rpcTaskDone fate jt workerId taskId filesCreated (c, d)) (\<lambda>(s, r).
           Inr (s, case r of Reply _ \<Rightarrow> Goes_on | _ \<Rightarrow> Dies)))"

definition Worker_task ::
  "mapf \<Rightarrow> reducef \<Rightarrow> iter \<Rightarrow> iter \<Rightarrow> call_fate \<Rightarrow> int \<Rightarrow> GetTaskRes \<Rightarrow> job \<Rightarrow> (job \<times> worker_end) go" where
  "Worker_task mapf reducef it jt fate workerId res = (\<lambda>(c, d).
     case r_TaskType res of
       TaskTypeMap \<Rightarrow>
         go_bind (runMapTask (r_TaskId res) (r_Files res) (r_NReduce res) mapf it d) (Worker_report fate jt workerId (r_TaskId res) c)
     | TaskTypeReduce \<Rightarrow>
         go_bind (runReduceTask (r_Files res) reducef it d) (Worker_report fate jt workerId (r_TaskId res) c)
     | TaskTypeNoTask \<Rightarrow> Inr ((c, d), Goes_on)
     | TaskTypeShutdown \<Rightarrow> Inr ((c, d), Exits))"

definition Worker_round ::
  "mapf \<Rightarrow> reducef \<Rightarrow> iter \<Rightarrow> iter \<Rightarrow> call_fate \<Rightarrow> call_fate \<Rightarrow> int \<Rightarrow> int \<Rightarrow> job \<Rightarrow> (job \<times> worker_end) go" where
  "Worker_round mapf reducef it jt fate1 fate2 now workerId s =
     go_bind (rpcGetTask fate1 now workerId s) (\<lambda>(s, r).
       case r of
         Reply res \<Rightarrow> Worker_task mapf reducef it jt fate2 workerId res s
       | _ \<Rightarrow> Inr (s, Dies))"

definition heartbeat_round :: "call_fate \<Rightarrow> int \<Rightarrow> job \<Rightarrow> (job \<times> worker_end) go" where
  "heartbeat_round fate workerId s =
     go_bind (rpcHeartbeat fate workerId s) (\<lambda>(s, r).
       Inr (s, case r of Reply res \<Rightarrow> if hr_ShouldShutDown res then Exits else Goes_on | _ \<Rightarrow> Dies))"

section \<open>The coordinator process\<close>

text \<open>\<open>None\<close> is the usage message. The loop polls \<open>Done\<close>, here once for each clock; the flag says whether it has ended.\<close>

definition mrcoordinator_start :: "string list \<Rightarrow> Coordinator option" where
  "mrcoordinator_start args = (if length args < 2 then None else Some (MakeCoordinator (drop 1 args) 10))"

fun mrcoordinator_loop :: "(nat \<Rightarrow> int) list \<Rightarrow> job \<Rightarrow> job \<times> bool" where
  "mrcoordinator_loop [] s = (s, False)"
| "mrcoordinator_loop (now # nows) (c, d) =
     (case Done now c d of (c, d, stop) \<Rightarrow> if stop = False then mrcoordinator_loop nows (c, d) else ((c, d), True))"

section \<open>Rounds are steps\<close>

lemma mr_reach_more2:
  "mr_reach mapf reducef s0 s \<Longrightarrow> mr_step mapf reducef s t \<Longrightarrow> mr_step mapf reducef t u \<Longrightarrow> mr_reach mapf reducef s0 u"
  by (blast intro: mr_reach.more)

abbreviation reaches :: "mapf \<Rightarrow> reducef \<Rightarrow> mr_sys \<Rightarrow> job \<Rightarrow> bool" where
  "reaches mapf reducef s0 s \<equiv> \<exists>t. mr_reach mapf reducef s0 t \<and> (y_c t, y_d t) = s"

lemma call_cases:
  assumes "call fate h s = Inr (s', r)"
  obtains (not_run) "s' = s" "\<forall>x. r \<noteq> Reply x"
  | (run) x ok where "h s = Inr (s', x, ok)" "\<forall>y. r = Reply y \<longrightarrow> y = x"
  using assms by (auto simp: call_def go_bind_Inr_iff split: call_fate.splits bool.splits if_splits)

lemma report_reaches:
  assumes "mr_reach mapf reducef s0 v" and "fair_iter jt"
    and "\<And>cr. created = Some cr \<Longrightarrow> y_att v k = Some (res, Some cr)"
    and "Worker_report fate jt workerId (r_TaskId res) (y_c v) (y_d v, created) = Inr (s', e)"
  shows "reaches mapf reducef s0 s'"
proof (cases created)
  case None
  then show ?thesis
    using assms(1,4) by (auto simp: Worker_report_def)
next
  case (Some cr)
  obtain r where "rpcTaskDone fate jt workerId (r_TaskId res) cr (y_c v, y_d v) = Inr (s', r)"
    using assms(4) Some by (auto simp: Worker_report_def go_bind_Inr_iff)
  then show ?thesis
    unfolding rpcTaskDone_def Let_def
  proof (cases rule: call_cases)
    case not_run
    then show ?thesis using assms(1) by auto
  next
    case (run x ok)
    obtain c d ok' where td: "TaskDone jt (y_c v) (y_d v) (r_TaskId res) cr = Inr (c, d, ok')" and s': "s' = (c, d)"
      using run(1) by (auto simp: go_bind_Inr_iff)
    have "mr_step mapf reducef v (v\<lparr>y_c := c, y_d := d, y_att := (y_att v)(k := None)\<rparr>)"
      by (rule mr_step.task_done [OF assms(3) assms(2) td]) (rule Some)
    from mr_reach.more [OF assms(1) this] show ?thesis
      using s' by (intro exI conjI) auto
  qed
qed

lemma task_reaches:
  assumes reach: "mr_reach mapf reducef (mr_init files n d0) v" and "fair_iter it" and "fair_iter jt"
    and att: "r_TaskType res \<noteq> TaskTypeNoTask \<Longrightarrow> y_att v k = Some (res, None)"
    and map: "r_TaskType res = TaskTypeMap \<Longrightarrow> \<exists>f. r_Files res = [f]"
    and run: "Worker_task mapf reducef it jt fate workerId res (y_c v, y_d v) = Inr (s', e)"
  shows "reaches mapf reducef (mr_init files n d0) s'"
proof (cases "r_TaskType res")
  case TaskTypeMap
  then obtain d created where d: "runMapTask (r_TaskId res) (r_Files res) (r_NReduce res) mapf it (y_d v) = Inr (d, created)"
    and rep: "Worker_report fate jt workerId (r_TaskId res) (y_c v) (d, created) = Inr (s', e)"
    using run by (auto simp: Worker_task_def go_bind_Inr_iff)
  show ?thesis
  proof (cases created)
    case None
    then have "d = y_d v"
      using d map [OF TaskTypeMap] by (auto simp: runMapTask_def go_bind_Inr_iff split: option.splits)
    then show ?thesis
      by (intro report_reaches [OF reach assms(3), where created = created and res = res and e = e]) (use rep None in auto)
  next
    case (Some cr)
    let ?w = "v\<lparr>y_d := d, y_att := (y_att v)(k \<mapsto> (res, Some cr))\<rparr>"
    have "mr_step mapf reducef v ?w"
      by (rule mr_step.run_map) (use att TaskTypeMap assms(2) d Some in simp_all)
    then have "mr_reach mapf reducef (mr_init files n d0) ?w"
      by (rule mr_reach.more [OF reach])
    then show ?thesis
      by (rule report_reaches [OF _ assms(3), where k = k and res = res and created = created]) (use rep Some in auto)
  qed
next
  case TaskTypeReduce
  then obtain d created where d: "runReduceTask (r_Files res) reducef it (y_d v) = Inr (d, created)"
    and rep: "Worker_report fate jt workerId (r_TaskId res) (y_c v) (d, created) = Inr (s', e)"
    using run by (auto simp: Worker_task_def go_bind_Inr_iff)
  show ?thesis
  proof (cases created)
    case None
    then have "d = y_d v"
      using d by (auto simp: runReduceTask_def go_bind_Inr_iff split: option.splits if_splits prod.splits)
    then show ?thesis
      by (intro report_reaches [OF reach assms(3), where created = created and res = res and e = e]) (use rep None in auto)
  next
    case (Some cr)
    let ?w = "v\<lparr>y_d := d, y_att := (y_att v)(k \<mapsto> (res, Some cr))\<rparr>"
    have "mr_step mapf reducef v ?w"
      by (rule mr_step.run_reduce) (use att TaskTypeReduce assms(2) d Some in simp_all)
    then have "mr_reach mapf reducef (mr_init files n d0) ?w"
      by (rule mr_reach.more [OF reach])
    then show ?thesis
      by (rule report_reaches [OF _ assms(3), where k = k and res = res and created = created]) (use rep Some in auto)
  qed
qed (use run reach in \<open>auto simp: Worker_task_def\<close>)


lemma round_reaches:
  assumes reach: "mr_reach mapf reducef (mr_init files n d0) s" and "fair_iter it" and "fair_iter jt"
    and run: "Worker_round mapf reducef it jt fate1 fate2 now workerId (y_c s, y_d s) = Inr (s', e)"
  shows "reaches mapf reducef (mr_init files n d0) s'"
proof -
  obtain s1 r where call: "rpcGetTask fate1 now workerId (y_c s, y_d s) = Inr (s1, r)"
    and rest: "(case r of Reply res \<Rightarrow> Worker_task mapf reducef it jt fate2 workerId res s1 | _ \<Rightarrow> Inr (s1, Dies)) = Inr (s', e)"
    using run by (auto simp: Worker_round_def go_bind_Inr_iff)
  from call show ?thesis
    unfolding rpcGetTask_def Let_def
  proof (cases rule: call_cases)
    case not_run
    then have "s' = s1"
      using rest by (cases r) auto
    then show ?thesis
      using not_run reach by auto
  next
    case (run res ok)
    obtain c where get: "GetTask (y_c s) workerId now zero_GetTaskRes = Inr (c, res)" and s1: "s1 = (c, y_d s)"
      using run(1) by (auto simp: go_bind_Inr_iff)
    let ?att = "if r_TaskType res = TaskTypeNoTask then y_att s else (y_att s)(nat (r_TaskId res) \<mapsto> (res, None))"
    let ?v = "s\<lparr>y_c := c, y_att := ?att\<rparr>"
    have v: "mr_reach mapf reducef (mr_init files n d0) ?v"
      by (rule mr_reach.more [OF reach]) (rule mr_step.get_task [OF get refl])
    show ?thesis
    proof (cases "\<exists>y. r = Reply y")
      case True
      have "\<exists>f. r_Files res = [f]" if "r_TaskType res = TaskTypeMap"
        using get
      proof (cases rule: GetTask_cases)
        case (some i ws)
        then have "c_tasks (y_c s) ! i \<in> set (c_tasks (y_c s))"
          by simp
        then show ?thesis
          using mr_reach_inv [OF reach] some that by (auto simp: coord_inv_def)
      qed (use that in simp)
      then show ?thesis
        using task_reaches [OF v assms(2,3), of res "nat (r_TaskId res)" fate2 workerId s' e] True run(2) rest s1 by auto
    next
      case False
      then have "s' = s1"
        using rest by (cases r) auto
      then show ?thesis
        using v s1 by (intro exI [of _ ?v]) simp
    qed
  qed
qed

lemma heartbeat_reaches:
  assumes reach: "mr_reach mapf reducef s0 s" and run: "heartbeat_round fate workerId (y_c s, y_d s) = Inr (s', e)"
  shows "reaches mapf reducef s0 s'"
proof -
  obtain r where "rpcHeartbeat fate workerId (y_c s, y_d s) = Inr (s', r)"
    using run by (auto simp: heartbeat_round_def go_bind_Inr_iff)
  then show ?thesis
    unfolding rpcHeartbeat_def Let_def
  proof (cases rule: call_cases)
    case not_run
    then show ?thesis using reach by auto
  next
    case (run x ok)
    then obtain c stop where "Heartbeat (y_c s) workerId = Inr (c, stop)" "s' = (c, y_d s)"
      by (auto simp: go_bind_Inr_iff)
    then show ?thesis
      using mr_reach.more [OF reach mr_step.heartbeat] by (intro exI conjI) auto
  qed
qed

lemma register_reaches:
  assumes reach: "mr_reach mapf reducef s0 s" and run: "rpcRegisterWorker fate (y_c s, y_d s) = Inr (s', r)"
  shows "reaches mapf reducef s0 s'"
  using run unfolding rpcRegisterWorker_def
proof (cases rule: call_cases)
  case not_run
  then show ?thesis using reach by auto
next
  case (run x ok)
  then have "s' = (fst (RegisterWorker (y_c s)), y_d s)"
    by (auto split: prod.splits)
  then show ?thesis
    using mr_reach.more [OF reach mr_step.register] by (intro exI conjI) auto
qed

lemma loop_reaches:
  assumes "mr_reach mapf reducef s0 s" and "mrcoordinator_loop nows (y_c s, y_d s) = (s', False)"
  shows "reaches mapf reducef s0 s'"
  using assms
proof (induction nows arbitrary: s)
  case Nil
  then show ?case by auto
next
  case (Cons now nows)
  obtain c d where d: "Done now (y_c s) (y_d s) = (c, d, False)" "mrcoordinator_loop nows (c, d) = (s', False)"
    using Cons.prems(2) by (auto split: prod.splits if_splits)
  then show ?case
    using Cons.IH [of "s\<lparr>y_c := c, y_d := d\<rparr>"] mr_reach.more [OF Cons.prems(1) mr_step.poll [OF d(1)]] by simp
qed

text \<open>
  C5: The step relation covers the program's loops. From every state of a job that can be reached, whatever a round of
  the worker's loop or of its heartbeat does, with any of its calls failing before or after the coordinator executed it, and the
  registration of a worker, the resulting coordinator and directory are reached by steps; and so is what the coordinator's main
  loop leaves when it has polled any number of times without ending.
\<close>

theorem worker_loop_refines_steps:
  assumes reach: "mr_reach mapf reducef (mr_init files n d0) s" and "fair_iter it" and "fair_iter jt"
  shows "(\<forall>s' e. Worker_round mapf reducef it jt fate1 fate2 now workerId (y_c s, y_d s) = Inr (s', e) \<longrightarrow>
      reaches mapf reducef (mr_init files n d0) s') \<and>
    (\<forall>s' e. heartbeat_round fate1 workerId (y_c s, y_d s) = Inr (s', e) \<longrightarrow> reaches mapf reducef (mr_init files n d0) s') \<and>
    (\<forall>s' r. rpcRegisterWorker fate1 (y_c s, y_d s) = Inr (s', r) \<longrightarrow> reaches mapf reducef (mr_init files n d0) s') \<and>
    (\<forall>s'. mrcoordinator_loop nows (y_c s, y_d s) = (s', False) \<longrightarrow> reaches mapf reducef (mr_init files n d0) s')"
  using round_reaches [OF assms] heartbeat_reaches [OF reach] register_reaches [OF reach] loop_reaches [OF reach] by blast


text \<open>A worker whose registration was executed but not answered.\<close>

theorem worker_loop_refines_steps_witness:
  "rpcRegisterWorker (CallError True) (MakeCoordinator [''a''] 1, [(''a'', ''x'')]) =
     Inr ((fst (RegisterWorker (MakeCoordinator [''a''] 1)), [(''a'', ''x'')]), CallFailed) \<and>
   reaches (\<lambda>f txt. []) (\<lambda>k vs. []) (mr_init [''a''] 1 [(''a'', ''x'')])
     (fst (RegisterWorker (MakeCoordinator [''a''] 1)), [(''a'', ''x'')])"
proof -
  have reg: "rpcRegisterWorker (CallError True) (MakeCoordinator [''a''] 1, [(''a'', ''x'')]) =
     Inr ((fst (RegisterWorker (MakeCoordinator [''a''] 1)), [(''a'', ''x'')]), CallFailed)"
    by (simp add: rpcRegisterWorker_def call_def RegisterWorker_def)
  have fair: "fair_iter (\<lambda>ks. ks)"
    by (simp add: fair_iter_def)
  have "\<forall>s' r. rpcRegisterWorker (CallError True) (y_c (mr_init [''a''] 1 [(''a'', ''x'')]), y_d (mr_init [''a''] 1 [(''a'', ''x'')])) = Inr (s', r) \<longrightarrow>
      reaches (\<lambda>f txt. []) (\<lambda>k vs. []) (mr_init [''a''] 1 [(''a'', ''x'')]) s'"
    using worker_loop_refines_steps [OF mr_reach.start fair fair] by blast
  then show ?thesis
    using reg by (simp add: mr_init_def)
qed

end
