(* ===== verification/MrJob.thy ===== *)
theory MrJob
  imports MrMain
begin

text \<open>
  A whole job with one worker whose calls are answered and whose tasks are not timed out: it ends, and its output is the one
  of the sequential program. The map phase is followed through the step relation, so that its invariants apply; the
  reduce phase by induction on the tasks that are left.
\<close>

section \<open>The program\<close>

text \<open>The loop of \<open>Worker\<close> for as many rounds as there are readings of the coordinator's clock.\<close>

fun Worker_run :: "mapf \<Rightarrow> reducef \<Rightarrow> iter \<Rightarrow> iter \<Rightarrow> int list \<Rightarrow> int \<Rightarrow> job \<Rightarrow> (job \<times> worker_end) go" where
  "Worker_run mapf reducef it jt [] workerId s = Inr (s, Goes_on)"
| "Worker_run mapf reducef it jt (now # nows) workerId s =
     go_bind (Worker_round mapf reducef it jt Answered Answered now workerId s) (\<lambda>(s, e).
       if e = Goes_on then Worker_run mapf reducef it jt nows workerId s else Inr (s, e))"

text \<open>On a coordinator that has started: start a worker, let it work, let it send a heartbeat, and poll \<open>Done\<close>.\<close>

definition run_job ::
  "mapf \<Rightarrow> reducef \<Rightarrow> iter \<Rightarrow> iter \<Rightarrow> int list \<Rightarrow> (nat \<Rightarrow> int) \<Rightarrow> job \<Rightarrow> (job \<times> bool) go" where
  "run_job mapf reducef it jt nows now s =
     go_bind (rpcRegisterWorker Answered s) (\<lambda>(s, r).
       case r of
         Reply workerId \<Rightarrow>
           go_bind (Worker_run mapf reducef it jt nows workerId s) (\<lambda>(s, e).
           go_bind (heartbeat_round Answered workerId s) (\<lambda>(s, e). Inr (mrcoordinator_loop [now] s)))
       | _ \<Rightarrow> Inl Fatal)"

lemma Worker_run_append:
  assumes "Worker_run mapf reducef it jt xs workerId s = Inr (s', Goes_on)"
  shows "Worker_run mapf reducef it jt (xs @ ys) workerId s = Worker_run mapf reducef it jt ys workerId s'"
  using assms by (induction xs arbitrary: s) (auto simp: go_bind_Inr_iff split: if_splits)

section \<open>One round\<close>

lemma findIdleTask_from_first:
  assumes "\<forall>i<j. t_status (ts ! i) \<noteq> taskStatusIdle" and "j < length ts" and "t_status (ts ! j) = taskStatusIdle"
  shows "findIdleTask_from k ts = Some (k + j)"
  using assms
proof (induction ts arbitrary: j k)
  case (Cons t ts)
  show ?case
  proof (cases j)
    case 0
    then show ?thesis using Cons.prems by simp
  next
    case (Suc i)
    have "t_status t \<noteq> taskStatusIdle"
      using Cons.prems(1) Suc by fastforce
    moreover have "\<forall>i'<i. t_status (ts ! i') \<noteq> taskStatusIdle"
      using Cons.prems(1) Suc by fastforce
    ultimately show ?thesis
      using Cons.IH [of i "Suc k"] Cons.prems(2,3) Suc by simp
  qed
qed simp

text \<open>What \<open>GetTask\<close> gives to worker 0 when the first idle task has number \<open>j\<close>.\<close>

abbreviation handed :: "Coordinator \<Rightarrow> nat \<Rightarrow> int \<Rightarrow> Coordinator" where
  "handed c j now \<equiv> (started c j now)\<lparr>c_workers := (c_workers c)[0 := (c_workers c ! 0)\<lparr>w_taskId := int j\<rparr>]\<rparr>"

abbreviation task_res :: "Coordinator \<Rightarrow> nat \<Rightarrow> GetTaskRes" where
  "task_res c j \<equiv> \<lparr>r_Files = t_files (c_tasks c ! j), r_NReduce = c_nReduce c, r_TaskType = t_taskType (c_tasks c ! j), r_TaskId = int j\<rparr>"

lemma GetTask_first:
  assumes "\<forall>i<j. t_status (c_tasks c ! i) \<noteq> taskStatusIdle" and "j < length (c_tasks c)"
    and "t_status (c_tasks c ! j) = taskStatusIdle" and "c_workers c \<noteq> []"
  shows "GetTask c 0 now zero_GetTaskRes = Inr (handed c j now, task_res c j)"
proof -
  have "findIdleTask c = Some j"
    using findIdleTask_from_first [OF assms(1-3), of 0] by (simp add: findIdleTask_def)
  then show ?thesis
    using assms(4) by (simp add: GetTask_def Let_def set_worker_task_def slice_get_def)
qed

lemma Worker_round_first:
  assumes "\<forall>i<j. t_status (c_tasks c ! i) \<noteq> taskStatusIdle" and "j < length (c_tasks c)"
    and "t_status (c_tasks c ! j) = taskStatusIdle" and "c_workers c \<noteq> []"
  shows "Worker_round mapf reducef it jt Answered Answered now 0 (c, d) =
    Worker_task mapf reducef it jt Answered 0 (task_res c j) (handed c j now, d)"
  by (simp add: Worker_round_def rpcGetTask_def Let_def call_def GetTask_first [OF assms])

lemma Worker_report_ok:
  assumes "TaskDone jt c d taskId created = Inr (c', d', True)"
  shows "Worker_report Answered jt workerId taskId c (d, Some created) = Inr ((c', d'), Goes_on)"
  by (simp add: Worker_report_def rpcTaskDone_def Let_def call_def assms)

section \<open>The reduce phase\<close>

lemma reduce_round:
  assumes tasks: "c_tasks c = ts @ reduce_task F # rest" and "\<forall>t \<in> set ts. t_status t \<noteq> taskStatusIdle" and "c_workers c \<noteq> []"
    and run: "runReduceTask F reducef it d = Inr (d1, Some created)" and rn: "renameTempFiles d1 created = (d2, True)"
  shows "\<exists>c'. Worker_round mapf reducef it jt Answered Answered now 0 (c, d) = Inr ((c', d2), Goes_on) \<and>
    c_tasks c' = ts @ (reduce_task F)\<lparr>t_status := taskStatusCompleted, t_startTime := now\<rparr> # rest \<and>
    c_numReduceTasks c' = c_numReduceTasks c - 1 \<and> length (c_workers c') = length (c_workers c) \<and>
    c_phase c' = (if c_numReduceTasks c = 1 then phaseShutdown else c_phase c)"
proof -
  let ?j = "length ts"
  have nth: "c_tasks c ! ?j = reduce_task F"
    by (simp add: tasks)
  define c1 where "c1 = handed c ?j now"
  have round: "Worker_round mapf reducef it jt Answered Answered now 0 (c, d) =
      Worker_task mapf reducef it jt Answered 0 (task_res c ?j) (c1, d)"
    unfolding c1_def by (rule Worker_round_first) (use assms(2,3) tasks in \<open>auto simp: nth_append\<close>)
  have c1: "c_tasks c1 = ts @ (reduce_task F)\<lparr>t_status := taskStatusInProgress, t_startTime := now\<rparr> # rest"
    "c_numReduceTasks c1 = c_numReduceTasks c" "c_phase c1 = c_phase c" "length (c_workers c1) = length (c_workers c)"
    by (simp_all add: c1_def tasks list_update_append)
  let ?c2 = "completed c1 ?j\<lparr>c_numReduceTasks := c_numReduceTasks c - 1\<rparr>"
  let ?c' = "if c_numReduceTasks c = 1 then ?c2\<lparr>c_phase := phaseShutdown\<rparr> else ?c2"
  have "TaskDone jt c1 d1 (int ?j) created = Inr (?c', d2, True)"
    using rn c1 by (simp add: TaskDone_def slice_get_def nth_append Let_def)
  from Worker_report_ok [OF this, of 0] have "Worker_round mapf reducef it jt Answered Answered now 0 (c, d) = Inr ((?c', d2), Goes_on)"
    unfolding round using run by (simp add: Worker_task_def nth)
  then show ?thesis
    using c1 by (intro exI [of _ ?c']) (simp add: list_update_append nth_append)
qed

lemma reduce_rounds:
  assumes "run_reduces reducef it d rts = Inr d'" and "c_tasks c = ts @ rts" and "\<forall>t \<in> set ts. \<not> live t"
    and "\<forall>t \<in> set rts. \<exists>F. t = reduce_task F" and "c_numReduceTasks c = int (length rts)" and "c_workers c \<noteq> []"
    and "length nows = length rts"
  shows "\<exists>c'. Worker_run mapf reducef it jt nows 0 (c, d) = Inr ((c', d'), Goes_on) \<and> (\<forall>t \<in> set (c_tasks c'). \<not> live t) \<and>
    c_phase c' = (if rts = [] then c_phase c else phaseShutdown) \<and> length (c_workers c') = length (c_workers c)"
  using assms
proof (induction rts arbitrary: d c ts nows)
  case Nil
  then show ?case by simp
next
  case (Cons t rts)
  obtain F where t: "t = reduce_task F"
    using Cons.prems(4) by auto
  obtain now nows' where nows: "nows = now # nows'"
    using Cons.prems(7) by (cases nows) auto
  obtain d1 created d2 where run: "runReduceTask F reducef it d = Inr (d1, Some created)" and rn: "renameTempFiles d1 created = (d2, True)"
    and rest: "run_reduces reducef it d2 rts = Inr d'"
    using Cons.prems(1) t by (auto simp: go_bind_Inr_iff case_prod_beta Let_def prod_eq_iff split: option.splits if_splits)
  have idle: "\<forall>t \<in> set ts. t_status t \<noteq> taskStatusIdle"
    using Cons.prems(3) by (auto simp: live_def)
  obtain c1 where c1: "Worker_round mapf reducef it jt Answered Answered now 0 (c, d) = Inr ((c1, d2), Goes_on)"
    "c_tasks c1 = (ts @ [(reduce_task F)\<lparr>t_status := taskStatusCompleted, t_startTime := now\<rparr>]) @ rts"
    "c_numReduceTasks c1 = c_numReduceTasks c - 1" "length (c_workers c1) = length (c_workers c)"
    "c_phase c1 = (if c_numReduceTasks c = 1 then phaseShutdown else c_phase c)"
    using reduce_round [OF _ idle Cons.prems(6) run rn, of rts mapf jt now] Cons.prems(2) t by auto
  have "\<exists>c'. Worker_run mapf reducef it jt nows' 0 (c1, d2) = Inr ((c', d'), Goes_on) \<and> (\<forall>t \<in> set (c_tasks c'). \<not> live t) \<and>
      c_phase c' = (if rts = [] then c_phase c1 else phaseShutdown) \<and> length (c_workers c') = length (c_workers c1)"
    by (rule Cons.IH [OF rest c1(2)]) (use Cons.prems c1 nows in \<open>auto simp: live_def\<close>)
  then show ?case
    using c1 nows Cons.prems(5) by auto
qed

section \<open>The map phase\<close>

text \<open>Between two rounds of the map phase: the first \<open>j\<close> tasks are completed, the others idle.\<close>

definition mapped :: "mapf \<Rightarrow> reducef \<Rightarrow> string list \<Rightarrow> int \<Rightarrow> dir \<Rightarrow> nat \<Rightarrow> mr_sys \<Rightarrow> bool" where
  "mapped mapf reducef files n d0 j s \<longleftrightarrow>
     mr_reach mapf reducef (mr_init files n d0) s \<and> c_phase (y_c s) = phaseMap \<and> j < length files \<and>
     c_numMapTasks (y_c s) = int (length files - j) \<and> length (c_tasks (y_c s)) = length files \<and>
     (\<forall>i<j. t_status (c_tasks (y_c s) ! i) = taskStatusCompleted) \<and>
     (\<forall>i<length files. t_taskType (c_tasks (y_c s) ! i) = TaskTypeMap \<and> t_files (c_tasks (y_c s) ! i) = [files ! i] \<and>
        (j \<le> i \<longrightarrow> t_status (c_tasks (y_c s) ! i) = taskStatusIdle)) \<and>
     length (c_workers (y_c s)) = 1"

lemma mapped_start:
  assumes "files \<noteq> []"
  shows "mapped mapf reducef files n d0 0 ((mr_init files n d0)\<lparr>y_c := fst (RegisterWorker (MakeCoordinator files n))\<rparr>)"
proof -
  have "mr_step mapf reducef (mr_init files n d0) ((mr_init files n d0)\<lparr>y_c := fst (RegisterWorker (MakeCoordinator files n))\<rparr>)"
    using mr_step.register [of mapf reducef "mr_init files n d0"] by (simp add: mr_init_def)
  from mr_reach.more [OF mr_reach.start this] show ?thesis
    using assms by (simp add: mapped_def RegisterWorker_def MakeCoordinator_def createMapTasks_def zero_Coordinator_def)
qed

text \<open>The task is handed out and run: the state before it is reported, and what reporting it does.\<close>

lemma map_round:
  assumes m: "mapped mapf reducef files n d0 j s" and clean: "clean_job files d0" and n: "0 < n" and it: "fair_iter it"
  obtains s2 created d3 where "mr_reach mapf reducef (mr_init files n d0) s2" "c_phase (y_c s2) = phaseMap"
    "y_c s2 = handed (y_c s) j now" "y_att s2 j = Some (task_res (y_c s) j, Some created)"
    "renameTempFiles (y_d s2) created = (d3, True)"
    "Worker_round mapf reducef it jt Answered Answered now 0 (y_c s, y_d s) =
       Worker_report Answered jt 0 (int j) (y_c s2) (y_d s2, Some created)"
proof -
  let ?c = "y_c s" and ?d = "y_d s" and ?f = "files ! j"
  have reach: "mr_reach mapf reducef (mr_init files n d0) s" and ph: "c_phase ?c = phaseMap" and j: "j < length files"
    and len: "length (c_tasks ?c) = length files" and ws: "c_workers ?c \<noteq> []"
    and tj: "t_taskType (c_tasks ?c ! j) = TaskTypeMap" "t_files (c_tasks ?c ! j) = [?f]" "t_status (c_tasks ?c ! j) = taskStatusIdle"
    and before: "\<forall>i<j. t_status (c_tasks ?c ! i) \<noteq> taskStatusIdle"
    using m by (auto simp: mapped_def)
  have nR: "c_nReduce ?c = n"
    using mr_reach_inv [OF reach] by (simp add: coord_inv_def)
  note get = GetTask_first [OF before _ tj(3) ws, of now] and first = Worker_round_first [OF before _ tj(3) ws, of mapf reducef it jt now ?d]
  let ?s1 = "s\<lparr>y_c := handed ?c j now, y_att := (y_att s)(j \<mapsto> (task_res ?c j, None))\<rparr>"
  have "mr_step mapf reducef s ?s1"
    using mr_step.get_task [OF get refl, of mapf reducef] j len tj(1) by simp
  then have r1: "mr_reach mapf reducef (mr_init files n d0) ?s1"
    by (rule mr_reach.more [OF reach])
  have "read_file ?d ?f = read_file d0 ?f" "read_file d0 ?f \<noteq> None"
    using files_invD(2) [OF mr_reach_files [OF reach clean n ph], of ?f] clean j by (auto simp: clean_job_def)
  then obtain content where content: "read_file ?d ?f = Some content"
    by auto
  obtain d2 cr where "runMapTask_emit (int j) n (mapf ?f content) ?d [] = Inr (d2, cr)"
    using runMapTask_emit_spec [of n "int j" "mapf ?f content" ?d "[]"] n by auto
  then have run: "runMapTask (int j) [?f] n mapf it ?d = Inr (d2, Some (it cr))"
    using content by (simp add: runMapTask_def getFileContent_def mapKeysToSlice_def)
  let ?s2 = "?s1\<lparr>y_d := d2, y_att := (y_att ?s1)(j \<mapsto> (task_res ?c j, Some (it cr)))\<rparr>"
  have "mr_step mapf reducef ?s1 ?s2"
    by (rule mr_step.run_map) (use it run tj nR in simp_all)
  then have r2: "mr_reach mapf reducef (mr_init files n d0) ?s2"
    by (rule mr_reach.more [OF r1])
  have fi: "files_inv mapf n d0 files ?s2"
    by (rule mr_reach_files [OF r2 clean n]) (simp add: ph)
  obtain d3 ok where rn: "renameTempFiles d2 (it cr) = (d3, ok)"
    by (cases "renameTempFiles d2 (it cr)")
  have ok: "ok"
    by (rule rename_created(1) [OF fi, of j "task_res ?c j" "it cr" d3]) (simp_all add: rn)
  show thesis
    by (rule that [OF r2, of "it cr" d3])
      (use ph rn ok first j len tj run nR in \<open>simp_all add: Worker_task_def\<close>)
qed

lemma map_round_next:
  assumes m: "mapped mapf reducef files n d0 j s" and clean: "clean_job files d0" and n: "0 < n" and it: "fair_iter it" "fair_iter jt"
    and j: "Suc j < length files"
  shows "\<exists>s'. mapped mapf reducef files n d0 (Suc j) s' \<and>
    Worker_round mapf reducef it jt Answered Answered now 0 (y_c s, y_d s) = Inr ((y_c s', y_d s'), Goes_on)"
proof -
  obtain s2 created d3 where s2: "mr_reach mapf reducef (mr_init files n d0) s2" "c_phase (y_c s2) = phaseMap"
    "y_c s2 = handed (y_c s) j now" "y_att s2 j = Some (task_res (y_c s) j, Some created)"
    "renameTempFiles (y_d s2) created = (d3, True)"
    "Worker_round mapf reducef it jt Answered Answered now 0 (y_c s, y_d s) =
       Worker_report Answered jt 0 (int j) (y_c s2) (y_d s2, Some created)"
    by (rule map_round [OF m clean n it(1), of now jt])
  let ?c = "completed (y_c s2) j\<lparr>c_numMapTasks := int (length files - Suc j)\<rparr>"
  have len: "length (c_tasks (y_c s2)) = length files" and num: "c_numMapTasks (y_c s2) = int (length files - j)"
    and tj: "t_status (c_tasks (y_c s2) ! j) = taskStatusInProgress" "t_taskType (c_tasks (y_c s2) ! j) = TaskTypeMap"
    using m j s2(3) by (simp_all add: mapped_def)
  have td: "TaskDone jt (y_c s2) (y_d s2) (int j) created = Inr (?c, d3, True)"
    using s2(5) len num tj j by (simp add: TaskDone_def slice_get_def Let_def of_nat_diff)
  let ?s' = "s2\<lparr>y_c := ?c, y_d := d3, y_att := (y_att s2)(j := None)\<rparr>"
  have "mr_step mapf reducef s2 ?s'"
    using mr_step.task_done [OF s2(4) it(2), of ?c d3 True] td by simp
  then have "mr_reach mapf reducef (mr_init files n d0) ?s'"
    by (rule mr_reach.more [OF s2(1)])
  then have "mapped mapf reducef files n d0 (Suc j) ?s'"
    using m s2(2,3) j by (auto simp: mapped_def nth_list_update less_Suc_eq)
  then show ?thesis
    using s2(6) Worker_report_ok [OF td, of 0] by (intro exI [of _ ?s']) simp
qed

lemma group_files_ok:
  assumes fi: "files_inv mapf n d0 files s"
  shows "\<exists>m. group_files (filepath_Glob (y_d s) ''m-out-*-*'') [] = Inr m"
  using group_files_spec [of "filepath_Glob (y_d s) ''m-out-*-*''" "[]"] glob_file_pairs(2) [OF fi] by auto

lemma map_round_last:
  assumes m: "mapped mapf reducef files n d0 j s" and clean: "clean_job files d0" and n: "0 < n" and it: "fair_iter it" "fair_iter jt"
    and j: "Suc j = length files"
  shows "\<exists>s2 s' ts rts. mr_reach mapf reducef (mr_init files n d0) s2 \<and> c_phase (y_c s2) = phaseMap \<and> mr_step mapf reducef s2 s' \<and>
    c_phase (y_c s') = phaseReduce \<and> c_tasks (y_c s') = ts @ map reduce_task rts \<and>
    (\<forall>t \<in> set ts. \<not> live t \<and> t_taskType t = TaskTypeMap) \<and> c_numReduceTasks (y_c s') = int (length rts) \<and>
    length (c_workers (y_c s')) = 1 \<and>
    Worker_round mapf reducef it jt Answered Answered now 0 (y_c s, y_d s) = Inr ((y_c s', y_d s'), Goes_on)"
proof -
  obtain s2 created d3 where s2: "mr_reach mapf reducef (mr_init files n d0) s2" "c_phase (y_c s2) = phaseMap"
    "y_c s2 = handed (y_c s) j now" "y_att s2 j = Some (task_res (y_c s) j, Some created)"
    "renameTempFiles (y_d s2) created = (d3, True)"
    "Worker_round mapf reducef it jt Answered Answered now 0 (y_c s, y_d s) =
       Worker_report Answered jt 0 (int j) (y_c s2) (y_d s2, Some created)"
    by (rule map_round [OF m clean n it(1), of now jt])
  have len: "length (c_tasks (y_c s2)) = length files" and num: "c_numMapTasks (y_c s2) = 1"
    and tj: "t_status (c_tasks (y_c s2) ! j) = taskStatusInProgress" "t_taskType (c_tasks (y_c s2) ! j) = TaskTypeMap"
    and ws: "length (c_workers (y_c s2)) = 1"
    using m j s2(3) by (auto simp: mapped_def)
  have inv: "coord_inv files n (y_c s2)" "att_inv n s2"
    using mr_reach_inv [OF s2(1)] by simp_all
  have red: "c_numReduceTasks (y_c s2) = 0"
    using inv(1) s2(2) by (simp add: coord_inv_def)
  let ?c2 = "completed (y_c s2) j\<lparr>c_numMapTasks := 0\<rparr>"
  have "files_inv mapf n d0 files (s2\<lparr>y_c := ?c2, y_d := d3, y_att := (y_att s2)(j := None)\<rparr>)"
    by (rule files_inv_completed [OF mr_reach_files [OF s2(1) clean n s2(2)] inv(2) s2(4) tj(1) s2(5), where new = "[]"]) simp_all
  then obtain g where g: "group_files (filepath_Glob d3 ''m-out-*-*'') [] = Inr g"
    using group_files_ok by fastforce
  let ?rts = "map (vals_of g) (jt (map fst g))"
  obtain c3 where crt: "createReduceTasks jt d3 ?c2 = Inr c3"
    using g by (simp add: createReduceTasks_def)
  have c3: "c3 = ?c2\<lparr>c_tasks := c_tasks ?c2 @ map reduce_task ?rts, c_numReduceTasks := int (length ?rts)\<rparr>"
    by (rule createReduceTasks_Inr [OF crt]) (use g red in \<open>simp add: comp_def\<close>)
  let ?c = "c3\<lparr>c_phase := phaseReduce\<rparr>"
  have td: "TaskDone jt (y_c s2) (y_d s2) (int j) created = Inr (?c, d3, True)"
    using s2(5) len num tj j crt by (simp add: TaskDone_def slice_get_def Let_def)
  let ?s' = "s2\<lparr>y_c := ?c, y_d := d3, y_att := (y_att s2)(j := None)\<rparr>"
  have step: "mr_step mapf reducef s2 ?s'"
    using mr_step.task_done [OF s2(4) it(2), of ?c d3 True] td by simp
  have done_: "\<not> live t \<and> t_taskType t = TaskTypeMap" if t: "t \<in> set (c_tasks ?c2)" for t
  proof -
    obtain i where "i < length (c_tasks ?c2)" and i: "t = c_tasks ?c2 ! i"
      using t unfolding in_set_conv_nth by blast
    then have "i < length files"
      by (simp add: len)
    show ?thesis
    proof (cases "i = j")
      case True
      then show ?thesis
        using i tj(2) \<open>i < length files\<close> by (simp add: len live_def)
    next
      case False
      then have "i < j" and "t = c_tasks (y_c s) ! i"
        using j \<open>i < length files\<close> i s2(3) by simp_all
      then show ?thesis
        using m \<open>i < length files\<close> by (simp add: mapped_def live_def)
    qed
  qed
  have "Worker_round mapf reducef it jt Answered Answered now 0 (y_c s, y_d s) = Inr ((?c, d3), Goes_on)"
    using s2(6) Worker_report_ok [OF td, of 0] by simp
  then show ?thesis
    using s2(1,2) step done_ ws
    by (intro exI [of _ s2] exI [of _ ?s'] exI [of _ "c_tasks ?c2"] exI [of _ ?rts]) (simp add: c3)
qed


section \<open>The whole job\<close>

lemma map_rounds:
  assumes "mapped mapf reducef files n d0 j s" and clean: "clean_job files d0" and n: "0 < n" and it: "fair_iter it" "fair_iter jt"
    and "length nows = length files - j"
  shows "\<exists>s2 s' ts rts. mr_reach mapf reducef (mr_init files n d0) s2 \<and> c_phase (y_c s2) = phaseMap \<and> mr_step mapf reducef s2 s' \<and>
    c_phase (y_c s') = phaseReduce \<and> c_tasks (y_c s') = ts @ map reduce_task rts \<and>
    (\<forall>t \<in> set ts. \<not> live t \<and> t_taskType t = TaskTypeMap) \<and> c_numReduceTasks (y_c s') = int (length rts) \<and>
    length (c_workers (y_c s')) = 1 \<and>
    Worker_run mapf reducef it jt nows 0 (y_c s, y_d s) = Inr ((y_c s', y_d s'), Goes_on)"
  using assms(1,6)
proof (induction nows arbitrary: j s)
  case Nil
  then show ?case by (simp add: mapped_def)
next
  case (Cons now nows)
  show ?case
  proof (cases "Suc j = length files")
    case True
    then have "nows = []"
      using Cons.prems(2) by (metis One_nat_def Suc_diff_Suc diff_self_eq_0 length_Cons lessI list.size(3) length_0_conv old.nat.inject)
    then show ?thesis
      using map_round_last [OF Cons.prems(1) clean n it True, of now] by fastforce
  next
    case False
    then have "Suc j < length files"
      using Cons.prems(1) by (simp add: mapped_def)
    from map_round_next [OF Cons.prems(1) clean n it this, of now]
    obtain s1 where s1: "mapped mapf reducef files n d0 (Suc j) s1"
      "Worker_round mapf reducef it jt Answered Answered now 0 (y_c s, y_d s) = Inr ((y_c s1, y_d s1), Goes_on)"
      by blast
    have "length nows = length files - Suc j"
      using Cons.prems(2) by simp
    from Cons.IH [OF s1(1) this] s1(2) show ?thesis
      by simp
  qed
qed

lemma timeoutTasks_none:
  assumes "\<forall>t \<in> set (c_tasks c). \<not> live t"
  shows "timeoutTasks now c = c"
proof -
  have "timeoutTasks_loop now i ts c = c" if "\<forall>t \<in> set ts. \<not> live t" for i ts
    using that by (induction ts arbitrary: i) (simp_all add: live_def)
  then show ?thesis
    using assms by (simp add: timeoutTasks_def)
qed

lemma job_ends:
  assumes "\<forall>t \<in> set (c_tasks c). \<not> live t" and "c_phase c \<in> {phaseReduce, phaseShutdown}" and "length (c_workers c) = 1"
  shows "\<exists>c'. go_bind (heartbeat_round Answered 0 (c, d)) (\<lambda>(s, e). Inr (mrcoordinator_loop [now] s)) =
    (Inr ((c', fst (deleteFiles d ''m-out*'')), True) :: (job \<times> bool) go)"
proof -
  obtain w where w: "c_workers c = [w]"
    using assms(3) by (auto simp: length_Suc_conv)
  have idle: "\<not> (\<exists>t \<in> set (c_tasks c). t_status t = taskStatusIdle \<or> t_status t = taskStatusInProgress)"
    using assms(1) by (auto simp: live_def)
  let ?c = "if c_phase c = phaseShutdown then c\<lparr>c_workers := [w\<lparr>w_isRunning := False\<rparr>]\<rparr> else c"
  have hb: "\<exists>e. heartbeat_round Answered 0 (c, d) = Inr ((?c, d), e)"
    using w by (simp add: heartbeat_round_def rpcHeartbeat_def Let_def call_def Heartbeat_def slice_get_def)
  have "Done now ?c d = (?c, fst (deleteFiles d ''m-out*''), True)"
    using assms(1,2) idle by (auto simp: Done_def Let_def timeoutTasks_none)
  then show ?thesis
    using hb by auto
qed

text \<open>There are at most as many reduce tasks as reducers.\<close>

lemma few_reduce_tasks:
  assumes clean: "clean_job files d0" and n: "0 < n" and reach: "mr_reach mapf reducef (mr_init files n d0) s"
    and ph: "c_phase (y_c s) = phaseMap" and step: "mr_step mapf reducef s s'" and ph': "c_phase (y_c s') \<noteq> phaseMap"
  shows "length (filter (\<lambda>t. t_taskType t = TaskTypeReduce) (c_tasks (y_c s'))) \<le> nat n"
proof -
  let ?G = "filepath_Glob (y_d s') ''m-out-*-*''"
  obtain Rs where fi: "files_inv mapf n d0 files s'" and Rs: "distinct Rs" "set Rs = reducer_of ` set ?G"
    and tasks: "filter (\<lambda>t. t_taskType t = TaskTypeReduce) (c_tasks (y_c s')) = map (\<lambda>R. reduce_task (filter (\<lambda>f. reducer_of f = R) ?G)) Rs"
    by (rule map_phase_result [OF clean n reach ph step ph']) blast
  have "reducer_of f \<in> digits ` {..<nat n}" if "f \<in> set ?G" for f
    using that part_bound [OF n] unfolding glob_completed [OF fi] by (auto simp: Split_map_file)
  then have "set Rs \<subseteq> digits ` {..<nat n}"
    using Rs(2) by auto
  then have "card (set Rs) \<le> card {..<nat n}"
    using card_mono card_image_le by (metis finite_imageI finite_lessThan le_trans)
  then show ?thesis
    unfolding tasks using distinct_card [OF Rs(1)] by simp
qed

text \<open>A worker that gets no task goes on.\<close>

lemma idle_rounds:
  assumes "\<forall>t \<in> set (c_tasks c). \<not> live t" and "length (c_workers c) = 1"
  shows "\<exists>ws. Worker_run mapf reducef it jt nows 0 (c, d) = Inr ((c\<lparr>c_workers := ws\<rparr>, d), Goes_on) \<and> length ws = 1"
  using assms
proof (induction nows arbitrary: c)
  case Nil
  then show ?case by (intro exI [of _ "c_workers c"]) simp
next
  case (Cons now nows)
  let ?c = "c\<lparr>c_workers := (c_workers c)[0 := (c_workers c ! 0)\<lparr>w_taskId := 0\<rparr>]\<rparr>"
  have "findIdleTask_from i ts = None" if "\<forall>t \<in> set ts. \<not> live t" for i ts
    using that by (induction ts arbitrary: i) (simp_all add: live_def)
  then have "GetTask c 0 now zero_GetTaskRes = Inr (?c, zero_GetTaskRes\<lparr>r_TaskType := TaskTypeNoTask\<rparr>)"
    using Cons.prems by (simp add: GetTask_def findIdleTask_def set_worker_task_def slice_get_def)
  then have "Worker_round mapf reducef it jt Answered Answered now 0 (c, d) = Inr ((?c, d), Goes_on)"
    by (simp add: Worker_round_def rpcGetTask_def Let_def call_def Worker_task_def)
  then show ?case
    using Cons.IH [of ?c] Cons.prems by simp
qed

lemma phases_run:
  assumes clean: "clean_job files d0" and n: "0 < n" and ne: "files \<noteq> []"
    and plain: "\<And>f kv. f \<in> set files \<Longrightarrow> kv \<in> set (mapf f (the (read_file d0 f))) \<Longrightarrow> plain kv"
    and fresh: "\<And>r. read_file d0 (temp_reduce_file (digits r)) = None"
    and free: "order_free reducef" and it: "fair_iter it" "fair_iter jt" and rounds: "length files + nat n \<le> length nows"
  defines "all \<equiv> concat (map (\<lambda>f. mapf f (the (read_file d0 f))) files)"
  shows "\<exists>c d Rs outs. Worker_run mapf reducef it jt nows 0 (fst (RegisterWorker (MakeCoordinator files n)), d0) = Inr ((c, d), Goes_on) \<and>
    (\<forall>t \<in> set (c_tasks c). \<not> live t) \<and> c_phase c \<in> {phaseReduce, phaseShutdown} \<and> length (c_workers c) = 1 \<and>
    distinct Rs \<and> (\<forall>R \<in> set Rs. read_file d (''mr-out-'' @ R) = Some (concat (outs R))) \<and>
    mset (concat (map outs Rs)) = image_mset (key_line reducef all) (mset_set (mk_Key ` set all))"
proof -
  let ?s = "(mr_init files n d0)\<lparr>y_c := fst (RegisterWorker (MakeCoordinator files n))\<rparr>"
  let ?run = "Worker_run mapf reducef it jt"
  define xs ys where "xs = take (length files) nows" and "ys = drop (length files) nows"
  have nows: "nows = xs @ ys" "length xs = length files" "nat n \<le> length ys"
    using rounds by (simp_all add: xs_def ys_def)
  obtain s2 s' ts rts where m: "mr_reach mapf reducef (mr_init files n d0) s2" "c_phase (y_c s2) = phaseMap" "mr_step mapf reducef s2 s'"
    "c_phase (y_c s') = phaseReduce" "c_tasks (y_c s') = ts @ map reduce_task rts"
    "\<forall>t \<in> set ts. \<not> live t \<and> t_taskType t = TaskTypeMap" "c_numReduceTasks (y_c s') = int (length rts)"
    "length (c_workers (y_c s')) = 1" "?run xs 0 (y_c ?s, y_d ?s) = Inr ((y_c s', y_d s'), Goes_on)"
    using map_rounds [OF mapped_start [OF ne, of mapf reducef n d0] clean n it, of xs] nows(2) by auto
  have ph: "c_phase (y_c s') \<noteq> phaseMap"
    using m(4) by simp
  have red: "filter (\<lambda>t. t_taskType t = TaskTypeReduce) (c_tasks (y_c s')) = map reduce_task rts"
    using m(6) by (simp add: m(5) filter_empty_conv comp_def)
  have few: "length rts \<le> nat n"
    using few_reduce_tasks [OF clean n m(1-3) ph] by (simp add: red)
  have "\<exists>d Rs outs. run_reduces reducef it (y_d s') (map reduce_task rts) = Inr d \<and> distinct Rs \<and>
      (\<forall>R \<in> set Rs. read_file d (''mr-out-'' @ R) = Some (concat (outs R))) \<and>
      mset (concat (map outs Rs)) = image_mset (key_line reducef all) (mset_set (mk_Key ` set all))"
    unfolding red [symmetric] all_def by (rule distributed_lines [OF clean n m(1-3) ph _ fresh free it(1)]) (rule plain)
  then obtain d Rs outs where d: "run_reduces reducef it (y_d s') (map reduce_task rts) = Inr d" "distinct Rs"
    "\<forall>R \<in> set Rs. read_file d (''mr-out-'' @ R) = Some (concat (outs R))"
    "mset (concat (map outs Rs)) = image_mset (key_line reducef all) (mset_set (mk_Key ` set all))"
    by blast
  define us vs where "us = take (length rts) ys" and "vs = drop (length rts) ys"
  have ys: "ys = us @ vs" "length us = length rts"
    using nows(3) few by (simp_all add: us_def vs_def)
  have "\<exists>c. ?run us 0 (y_c s', y_d s') = Inr ((c, d), Goes_on) \<and> (\<forall>t \<in> set (c_tasks c). \<not> live t) \<and>
      c_phase c = (if map reduce_task rts = [] then c_phase (y_c s') else phaseShutdown) \<and> length (c_workers c) = length (c_workers (y_c s'))"
    by (rule reduce_rounds [OF d(1) m(5)]) (use m(6-8) ys(2) in auto)
  then obtain c where c: "?run us 0 (y_c s', y_d s') = Inr ((c, d), Goes_on)" "\<forall>t \<in> set (c_tasks c). \<not> live t"
    "c_phase c \<in> {phaseReduce, phaseShutdown}" "length (c_workers c) = 1"
    using m(4,8) by auto
  obtain ws where ws: "?run vs 0 (c, d) = Inr ((c\<lparr>c_workers := ws\<rparr>, d), Goes_on)" "length ws = 1"
    using idle_rounds [OF c(2,4)] by blast
  have "?run nows 0 (y_c ?s, d0) = Inr ((c\<lparr>c_workers := ws\<rparr>, d), Goes_on)"
    using Worker_run_append [OF m(9), of ys] Worker_run_append [OF c(1), of vs] ws(1) nows(1) ys(1) by (simp add: mr_init_def)
  then show ?thesis
    using c ws(2) d(2-4) by (intro exI [of _ "c\<lparr>c_workers := ws\<rparr>"] exI [of _ d] exI [of _ Rs] exI [of _ outs]) simp
qed


text \<open>
  One worker finishes the job. On a directory with the input files and no left-overs, with at least one file
  and one reducer, a coordinator and one worker whose calls are answered and whose tasks are not timed out need
  at most one round for each file and each reducer: then, after the worker's next heartbeat, the coordinator's next poll
  ends its process, and the output files, which the final clean-up leaves in place, together hold the lines that \<open>mrsequential\<close> writes. The map function must emit pairs that fit the file format, and the reduce
  function must not depend on the order of values; the order in which Go iterates over maps is arbitrary.
\<close>

lemma one_worker_finishes:
  assumes clean: "clean_job files d0" and n: "0 < n" and ne: "files \<noteq> []"
    and plain: "\<And>f kv. f \<in> set files \<Longrightarrow> kv \<in> set (mapf f (the (read_file d0 f))) \<Longrightarrow> plain kv"
    and fresh: "\<And>r. read_file d0 (temp_reduce_file (digits r)) = None"
    and free: "order_free reducef" and it: "fair_iter it" "fair_iter jt" and rounds: "length files + nat n \<le> length nows"
    and srt: "\<And>xs. mset (srt xs) = mset xs \<and> sorted (map mk_Key (srt xs))"
  shows "\<exists>c d Rs outs d'' ls. run_job mapf reducef it jt nows now (MakeCoordinator files n, d0) = Inr ((c, d), True) \<and>
    distinct Rs \<and> (\<forall>R \<in> set Rs. read_file d (''mr-out-'' @ R) = Some (concat (outs R))) \<and>
    mrsequential mapf reducef srt files d0 = Inr d'' \<and> read_file d'' ''mr-out-0'' = Some (concat ls) \<and>
    mset (concat (map outs Rs)) = mset ls"
proof -
  let ?all = "concat (map (\<lambda>f. mapf f (the (read_file d0 f))) files)"
  note phases = phases_run [where mapf = mapf, OF clean n ne _ fresh free it rounds]
  obtain c d Rs outs where
    run: "Worker_run mapf reducef it jt nows 0 (fst (RegisterWorker (MakeCoordinator files n)), d0) = Inr ((c, d), Goes_on)"
    and c: "\<forall>t \<in> set (c_tasks c). \<not> live t" "c_phase c \<in> {phaseReduce, phaseShutdown}" "length (c_workers c) = 1"
    and out: "distinct Rs" "\<forall>R \<in> set Rs. read_file d (''mr-out-'' @ R) = Some (concat (outs R))"
      "mset (concat (map outs Rs)) = image_mset (key_line reducef ?all) (mset_set (mk_Key ` set ?all))"
    using phases plain by blast
  obtain c' where "go_bind (heartbeat_round Answered 0 (c, d)) (\<lambda>(s, e). Inr (mrcoordinator_loop [now] s)) =
      (Inr ((c', fst (deleteFiles d ''m-out*'')), True) :: (job \<times> bool) go)"
    using job_ends [OF c] by blast
  then have job: "run_job mapf reducef it jt nows now (MakeCoordinator files n, d0) = Inr ((c', fst (deleteFiles d ''m-out*'')), True)"
    using run by (simp add: run_job_def rpcRegisterWorker_def call_def RegisterWorker_def MakeCoordinator_def createMapTasks_def
        zero_Coordinator_def)
  have "''mr-out-'' @ R \<notin> set (filepath_Glob d ''m-out*'')" for R
    by (auto simp: filepath_Glob_def)
  then have kept: "read_file (fst (deleteFiles d ''m-out*'')) (''mr-out-'' @ R) = read_file d (''mr-out-'' @ R)" for R
    using remove_files_other(1) [of d "filepath_Glob d ''m-out*''"] by (simp add: deleteFiles_def prod_eq_iff)
  have ex: "\<forall>f \<in> set files. read_file d0 f \<noteq> None"
    using clean by (auto simp: clean_job_def)
  have all: "mset ?all = (\<Sum>f \<in># mset files. mset (mapf f (the (read_file d0 f))))"
    by (simp add: mset_concat comp_def sum_mset_sum_list [symmetric])
  obtain d'' ls where seq: "mrsequential mapf reducef srt files d0 = Inr d''" "read_file d'' ''mr-out-0'' = Some (concat ls)"
    "mset ls = image_mset (key_line reducef ?all) (mset_set (mk_Key ` set ?all))"
    by (rule sequential_lines [where mapf = mapf and srt = srt and reducef = reducef, OF ex free srt all]) blast
  have outs: "\<forall>R \<in> set Rs. read_file (fst (deleteFiles d ''m-out*'')) (''mr-out-'' @ R) = Some (concat (outs R))"
    unfolding kept by (rule out(2))
  have same: "mset (concat (map outs Rs)) = mset ls"
    unfolding out(3) seq(3) ..
  show ?thesis
    by (intro exI conjI) (rule job out(1) outs seq(1) seq(2) same)+
qed

lemma one_worker_finishes_example:
  "\<exists>c d Rs outs d'' ls. run_job one_pair (\<lambda>k vs. ''1'') (\<lambda>ks. ks) rev [0, 0] (\<lambda>_. 0) (MakeCoordinator [''a''] 1, [(''a'', ''x'')]) = Inr ((c, d), True) \<and>
     distinct Rs \<and> (\<forall>R \<in> set Rs. read_file d (''mr-out-'' @ R) = Some (concat (outs R))) \<and>
     mrsequential one_pair (\<lambda>k vs. ''1'') (sort_key mk_Key) [''a''] [(''a'', ''x'')] = Inr d'' \<and>
     read_file d'' ''mr-out-0'' = Some (concat ls) \<and> mset (concat (map outs Rs)) = mset ls"
proof (rule one_worker_finishes)
  show "clean_job [''a''] [(''a'', ''x'')]"
    by (rule pair_clean)
  show "plain kv" if "kv \<in> set (one_pair f (the (read_file [(''a'', ''x'')] f)))" for f kv
    using that by (simp add: one_pair_def plain_def is_space_def)
  show "read_file [(''a'', ''x'')] (temp_reduce_file (digits r)) = None" for r
    by (simp add: read_file_def temp_reduce_file_def)
qed (simp_all add: order_free_def fair_iter_def)

end
