(* ===== verification/MrPrograms.thy ===== *)
theory MrPrograms
  imports MrJob
begin

text \<open>
  The MapReduce programs as processes: \<^verbatim>\<open>src/main/mrworker.go\<close>, the start of \<^verbatim>\<open>src/main/mrsequential.go\<close> with its sort, and what
  they compute together with \<^verbatim>\<open>src/main/mrcoordinator.go\<close> from their command lines.

  What \<open>plugin.Open\<close> finds in a file is an argument: nothing, or its symbols with their types. \<open>sort.Sort\<close> is a
  parameter; it is assumed to exchange elements with \<open>Swap\<close> only and to leave no element that is \<open>Less\<close> than the one before it.
  The usage message and \<open>log.Fatalf\<close> both end the process, which is \<open>Fatal\<close>.
\<close>

section \<open>Sorting by key\<close>

definition ByKey_Len :: "KeyValue list \<Rightarrow> int" where
  "ByKey_Len a = int (length a)"

definition ByKey_Swap :: "KeyValue list \<Rightarrow> int \<Rightarrow> int \<Rightarrow> KeyValue list go" where
  "ByKey_Swap a i j =
     go_bind (slice_get a j) (\<lambda>x. go_bind (slice_get a i) (\<lambda>y. go_bind (slice_set a i x) (\<lambda>a. slice_set a j y)))"

definition ByKey_Less :: "KeyValue list \<Rightarrow> int \<Rightarrow> int \<Rightarrow> bool go" where
  "ByKey_Less a i j = go_bind (slice_get a i) (\<lambda>x. go_bind (slice_get a j) (\<lambda>y. Inr (mk_Key x < mk_Key y)))"

inductive swapped :: "KeyValue list \<Rightarrow> KeyValue list \<Rightarrow> bool" for a where
  start: "swapped a a"
| swap: "swapped a b \<Longrightarrow> ByKey_Swap b i j = Inr c \<Longrightarrow> swapped a c"

text \<open>What \<open>sort.Sort\<close> promises.\<close>

definition Sort_spec :: "(KeyValue list \<Rightarrow> KeyValue list) \<Rightarrow> bool" where
  "Sort_spec srt \<longleftrightarrow> (\<forall>a. swapped a (srt a) \<and> (\<forall>i. 0 \<le> i \<longrightarrow> i + 1 < ByKey_Len (srt a) \<longrightarrow> ByKey_Less (srt a) (i + 1) i = Inr False))"

lemma ByKey_Swap_Inr:
  "ByKey_Swap a i j = Inr b \<longleftrightarrow>
     0 \<le> i \<and> i < int (length a) \<and> 0 \<le> j \<and> j < int (length a) \<and> b = a[nat i := a ! nat j, nat j := a ! nat i]"
  by (auto simp: ByKey_Swap_def go_bind_Inr_iff slice_set_def)

lemma swapped_mset: "swapped a b \<Longrightarrow> mset b = mset a"
  by (induction rule: swapped.induct) (auto simp: ByKey_Swap_Inr mset_swap)

lemma Sort_spec_sorts:
  assumes "Sort_spec srt"
  shows "mset (srt a) = mset a" and "sorted (map mk_Key (srt a))"
proof -
  show "mset (srt a) = mset a"
    using assms swapped_mset by (simp add: Sort_spec_def)
  have "mk_Key (srt a ! i) \<le> mk_Key (srt a ! Suc i)" if "Suc i < length (srt a)" for i
  proof -
    have "ByKey_Less (srt a) (int i + 1) (int i) = Inr False"
      using assms that by (simp add: Sort_spec_def ByKey_Len_def)
    then show ?thesis
      using that by (simp add: ByKey_Less_def go_bind_Inr_iff nat_add_distrib)
  qed
  then show "sorted (map mk_Key (srt a))"
    by (simp add: sorted_iff_nth_Suc)
qed

text \<open>The promise can be kept: every rearrangement is a sequence of exchanges.\<close>

lemma swapped_trans: "swapped b c \<Longrightarrow> swapped a b \<Longrightarrow> swapped a c"
  by (induction rule: swapped.induct) (auto intro: swapped.intros)

lemma swapped_Cons: "swapped a b \<Longrightarrow> swapped (x # a) (x # b)"
proof (induction rule: swapped.induct)
  case (swap b i j c)
  have "ByKey_Swap (x # b) (i + 1) (j + 1) = Inr (x # c)"
    using swap.hyps(2) by (auto simp: ByKey_Swap_Inr nat_add_distrib)
  with swap.IH show ?case by (rule swapped.swap)
qed (rule swapped.start)

lemma mset_swapped: "mset a = mset b \<Longrightarrow> swapped a b"
proof (induction b arbitrary: a)
  case (Cons x b)
  obtain i where i: "i < length a" "a ! i = x"
    using Cons.prems by (metis in_set_conv_nth list.set_intros(1) mset_eq_setD)
  let ?c = "a[0 := a ! i, i := a ! 0]"
  have "ByKey_Swap a 0 (int i) = Inr ?c"
    using i by (auto simp: ByKey_Swap_Inr)
  then have c: "swapped a ?c"
    by (rule swapped.swap [OF swapped.start])
  obtain y a' where a: "a = y # a'" using i(1) by (cases a) auto
  have hd: "?c = x # tl ?c"
    using i a by (cases i) auto
  have "mset (tl ?c) = mset b"
    using swapped_mset [OF c] Cons.prems by (subst (asm) hd) simp
  then have "swapped ?c (x # b)"
    using swapped_Cons [OF Cons.IH] by (subst hd)
  then show ?case using c by (rule swapped_trans)
qed (simp add: swapped.start)

lemma sort_key_Sort_spec: "Sort_spec (sort_key mk_Key)"
proof -
  have "ByKey_Less (sort_key mk_Key a) (i + 1) i = Inr False" if i: "0 \<le> i" "i + 1 < ByKey_Len (sort_key mk_Key a)" for a i
  proof -
    have n: "Suc (nat i) < length a" using i by (simp add: ByKey_Len_def)
    then have "mk_Key (sort_key mk_Key a ! nat i) \<le> mk_Key (sort_key mk_Key a ! Suc (nat i))"
      using sorted_nth_mono [OF sorted_sort_key [of mk_Key a], of "nat i" "Suc (nat i)"] by simp
    then show ?thesis
      using i n by (simp add: ByKey_Less_def go_bind_Inr_iff ByKey_Len_def nat_add_distrib not_less)
  qed
  then show ?thesis
    by (simp add: Sort_spec_def mset_swapped)
qed

section \<open>Plug-ins and programs\<close>

text \<open>A symbol of a plug-in: a function of the type of \<open>Map\<close>, one of the type of \<open>Reduce\<close>, or anything else.\<close>

datatype Symbol = MapSymbol mapf | ReduceSymbol reducef | OtherSymbol

type_synonym plugins = "string \<Rightarrow> (string \<Rightarrow> Symbol option) option"

definition loadPlugin :: "plugins \<Rightarrow> string \<Rightarrow> (mapf \<times> reducef) go" where
  "loadPlugin plugin_Open filename =
     (case plugin_Open filename of
        None \<Rightarrow> Inl Fatal
      | Some p \<Rightarrow>
          (case p ''Map'' of
             None \<Rightarrow> Inl Fatal
           | Some (MapSymbol mapf) \<Rightarrow>
               (case p ''Reduce'' of
                  None \<Rightarrow> Inl Fatal
                | Some (ReduceSymbol reducef) \<Rightarrow> Inr (mapf, reducef)
                | Some _ \<Rightarrow> Inl Panic)
           | Some _ \<Rightarrow> Inl Panic))"

text \<open>The function of the same name and with the same text in \<^verbatim>\<open>mrsequential.go\<close>.\<close>

definition mrsequential_loadPlugin :: "plugins \<Rightarrow> string \<Rightarrow> (mapf \<times> reducef) go" where
  "mrsequential_loadPlugin plugin_Open filename =
     (case plugin_Open filename of
        None \<Rightarrow> Inl Fatal
      | Some p \<Rightarrow>
          (case p ''Map'' of
             None \<Rightarrow> Inl Fatal
           | Some (MapSymbol mapf) \<Rightarrow>
               (case p ''Reduce'' of
                  None \<Rightarrow> Inl Fatal
                | Some (ReduceSymbol reducef) \<Rightarrow> Inr (mapf, reducef)
                | Some _ \<Rightarrow> Inl Panic)
           | Some _ \<Rightarrow> Inl Panic))"

text \<open>\<open>main\<close> of the worker, up to the call of \<open>Worker\<close>, which is its argument.\<close>

definition mrworker_main :: "plugins \<Rightarrow> (mapf \<Rightarrow> reducef \<Rightarrow> 'a go) \<Rightarrow> string list \<Rightarrow> 'a go" where
  "mrworker_main plugin_Open Worker args =
     (if length args \<noteq> 2 then Inl Fatal
      else go_bind (loadPlugin plugin_Open (args ! 1)) (\<lambda>(mapf, reducef). Worker mapf reducef))"

definition mrsequential_main :: "plugins \<Rightarrow> (KeyValue list \<Rightarrow> KeyValue list) \<Rightarrow> string list \<Rightarrow> dir \<Rightarrow> dir go" where
  "mrsequential_main plugin_Open srt args d =
     (if length args < 3 then Inl Fatal
      else go_bind (mrsequential_loadPlugin plugin_Open (args ! 1)) (\<lambda>(mapf, reducef). mrsequential mapf reducef srt (drop 2 args) d))"

text \<open>
  A coordinator process and a worker process with their command lines, run in the way of \<open>run_job\<close>.
\<close>

definition run_programs ::
  "plugins \<Rightarrow> iter \<Rightarrow> iter \<Rightarrow> int list \<Rightarrow> (nat \<Rightarrow> int) \<Rightarrow> string list \<Rightarrow> string list \<Rightarrow> dir \<Rightarrow> (job \<times> bool) go" where
  "run_programs plugin_Open it jt nows now cargs wargs d =
     (case mrcoordinator_start cargs of
        None \<Rightarrow> Inl Fatal
      | Some c \<Rightarrow> mrworker_main plugin_Open (\<lambda>mapf reducef. run_job mapf reducef it jt nows now (c, d)) wargs)"

lemma loadPlugin_Inr:
  "loadPlugin plugin_Open f = Inr (mapf, reducef) \<longleftrightarrow>
     (\<exists>p. plugin_Open f = Some p \<and> p ''Map'' = Some (MapSymbol mapf) \<and> p ''Reduce'' = Some (ReduceSymbol reducef))"
  by (auto simp: loadPlugin_def split: option.splits Symbol.splits)

lemma mrsequential_loadPlugin_same: "mrsequential_loadPlugin = loadPlugin"
  by (simp add: fun_eq_iff mrsequential_loadPlugin_def loadPlugin_def)


text \<open>A plug-in file, and a job with one input file.\<close>

definition one_plugin :: plugins where
  "one_plugin f =
     (if f = ''one.so'' then Some [''Map'' \<mapsto> MapSymbol one_pair, ''Reduce'' \<mapsto> ReduceSymbol (\<lambda>k vs. ''1'')] else None)"


text \<open>A plug-in that cannot be loaded: the programs end.\<close>

lemma no_plugin:
  assumes "plugin_Open so = None"
  shows "mrworker_main plugin_Open W [w, so] = Inl Fatal" and "mrsequential_main plugin_Open srt (m # so # f # fs) d = Inl Fatal"
  using assms by (simp_all add: mrworker_main_def mrsequential_main_def loadPlugin_def mrsequential_loadPlugin_def)

end
