(* ===== verification/Labrpc.thy ===== *)
theory Labrpc
  imports GoStrings KVClerk
begin

text \<open>
  The simulated network: \<^verbatim>\<open>src/labrpc/labrpc.go\<close>. End-points are connected to servers by name,
  requests and replies are dropped at random when the network is not reliable, and servers can be disconnected
  or deleted at any time.

  Server objects live in a store, because the code compares them by identity. A goroutine that
  handles a request (\<open>processReq\<close>) meets the rest of the program at a few points: the random numbers it draws,
  the network as it finds it whenever its timer fires while the handler runs, and the network at the end. These
  are its schedule. The handler runs in a goroutine of its own: when the network gives up on it, it may
  not have run yet (\<open>sd_late\<close>), and its run is then an event of its own, after this request. When the network has been
  cleaned up, a request may still be received (\<open>sd_sent\<close>): both cases of the \<open>select\<close> are ready.
  Delays only change the times at which things happen. The methods of a service take the
  encoded arguments and return the encoded reply: the reflection that decodes, calls and encodes
  is one function for each method.
\<close>

definition SHORTDELAY :: int where "SHORTDELAY = 27"
definition LONGDELAY :: int where "LONGDELAY = 7000"
definition MAXDELAY :: int where "MAXDELAY = LONGDELAY + 100"

record reqMsg =
  rq_endname :: string
  rq_svcMeth :: string
  rq_args :: string

record replyMsg =
  rp_ok :: bool
  rp_reply :: string

section \<open>Services and servers\<close>

type_synonym 's handler = "'s \<Rightarrow> string \<Rightarrow> 's \<times> string"

text \<open>What \<open>reflect\<close> tells about a method of a receiver.\<close>

record 's Method =
  me_Name :: string
  me_PkgPath :: string
  me_NumIn :: nat
  me_In2IsPtr :: bool
  me_NumOut :: nat
  me_Func :: "'s handler"

record 's Service =
  svc_name :: string
  svc_methods :: "string \<Rightarrow> 's handler option"

fun MakeService_methods :: "'s Method list \<Rightarrow> (string \<Rightarrow> 's handler option) \<Rightarrow> (string \<Rightarrow> 's handler option)" where
  "MakeService_methods [] ms = ms"
| "MakeService_methods (m # rest) ms =
     MakeService_methods rest
       (if me_PkgPath m \<noteq> '''' \<or> me_NumIn m \<noteq> 3 \<or> \<not> me_In2IsPtr m \<or> me_NumOut m \<noteq> 0 then ms
        else ms(me_Name m \<mapsto> me_Func m))"

definition MakeService :: "string \<Rightarrow> 's Method list \<Rightarrow> 's Service" where
  "MakeService name methods = \<lparr>svc_name = name, svc_methods = MakeService_methods methods (\<lambda>_. None)\<rparr>"

text \<open>An unknown method ends the process.\<close>

definition Service_dispatch :: "'s Service \<Rightarrow> string \<Rightarrow> reqMsg \<Rightarrow> 's \<Rightarrow> ('s \<times> replyMsg) go" where
  "Service_dispatch svc methname req st =
     (case svc_methods svc methname of
        Some function \<Rightarrow> (let (st, rb) = function st (rq_args req) in Inr (st, \<lparr>rp_ok = True, rp_reply = rb\<rparr>))
      | None \<Rightarrow> Inl Fatal)"

record 's Server =
  sv_services :: "string \<Rightarrow> 's Service option"
  sv_count :: int

definition MakeServer :: "'s Server" where
  "MakeServer = \<lparr>sv_services = (\<lambda>_. None), sv_count = 0\<rparr>"

definition AddService :: "'s Server \<Rightarrow> 's Service \<Rightarrow> 's Server" where
  "AddService rs svc = rs\<lparr>sv_services := (sv_services rs)(svc_name svc \<mapsto> svc)\<rparr>"

text \<open>\<open>strings.LastIndex\<close> of a one-byte string, and the slices around it: \<open>None\<close> if it does not occur.\<close>

definition split_last :: "char \<Rightarrow> string \<Rightarrow> (string \<times> string) option" where
  "split_last c s =
     (if c \<in> set s
      then Some (rev (drop 1 (dropWhile (\<lambda>x. x \<noteq> c) (rev s))), rev (takeWhile (\<lambda>x. x \<noteq> c) (rev s)))
      else None)"

text \<open>A name without a dot makes the slice expression panic; an unknown service ends the process.\<close>

definition Server_dispatch :: "'s Server \<Rightarrow> reqMsg \<Rightarrow> 's \<Rightarrow> ('s Server \<times> 's \<times> replyMsg) go" where
  "Server_dispatch rs req st =
     (let rs = rs\<lparr>sv_count := sv_count rs + 1\<rparr>
      in case split_last CHR ''.'' (rq_svcMeth req) of
           None \<Rightarrow> Inl Panic
         | Some (serviceName, methodName) \<Rightarrow>
             (case sv_services rs serviceName of
                Some service \<Rightarrow>
                  go_bind (Service_dispatch service methodName req st) (\<lambda>(st, reply). Inr (rs, st, reply))
              | None \<Rightarrow> Inl Fatal))"

definition Server_GetCount :: "'s Server \<Rightarrow> int" where
  "Server_GetCount rs = sv_count rs"

section \<open>The network\<close>

text \<open>A missing entry and a nil entry of \<open>servers\<close> and \<open>connections\<close> read the same: \<open>None\<close>.\<close>

record Network =
  n_reliable :: bool
  n_longDelays :: bool
  n_longReordering :: bool
  n_ends :: "string set"
  n_enabled :: "string \<Rightarrow> bool"
  n_servers :: "string \<Rightarrow> nat option"
  n_connections :: "string \<Rightarrow> string option"
  n_done :: bool
  n_count :: "32 word"
  n_bytes :: "64 word"

definition MakeNetwork :: Network where
  "MakeNetwork = \<lparr>n_reliable = True, n_longDelays = False, n_longReordering = False, n_ends = {},
     n_enabled = (\<lambda>_. False), n_servers = (\<lambda>_. None), n_connections = (\<lambda>_. None), n_done = False,
     n_count = 0, n_bytes = 0\<rparr>"

text \<open>The goroutine of the network, for one request: it counts the request before it is processed.\<close>

definition MakeNetwork_serve :: "Network \<Rightarrow> reqMsg \<Rightarrow> Network" where
  "MakeNetwork_serve rn xreq =
     rn\<lparr>n_count := n_count rn + 1, n_bytes := n_bytes rn + of_nat (length (rq_args xreq))\<rparr>"

text \<open>Closing the channel a second time panics.\<close>

definition Cleanup :: "Network \<Rightarrow> Network go" where
  "Cleanup rn = (if n_done rn then Inl Panic else Inr (rn\<lparr>n_done := True\<rparr>))"

definition Reliable :: "Network \<Rightarrow> bool \<Rightarrow> Network" where
  "Reliable rn yes = rn\<lparr>n_reliable := yes\<rparr>"

definition IsReliable :: "Network \<Rightarrow> bool" where
  "IsReliable rn = n_reliable rn"

definition LongReordering :: "Network \<Rightarrow> bool \<Rightarrow> Network" where
  "LongReordering rn yes = rn\<lparr>n_longReordering := yes\<rparr>"

definition LongDelays :: "Network \<Rightarrow> bool \<Rightarrow> Network" where
  "LongDelays rn yes = rn\<lparr>n_longDelays := yes\<rparr>"

definition readEndnameInfo :: "Network \<Rightarrow> string \<Rightarrow> bool \<times> string option \<times> nat option \<times> bool \<times> bool" where
  "readEndnameInfo rn endname =
     (let enabled = n_enabled rn endname;
          servername = n_connections rn endname;
          server = (case servername of None \<Rightarrow> None | Some sn \<Rightarrow> n_servers rn sn)
      in (enabled, servername, server, n_reliable rn, n_longReordering rn))"

definition isServerDead :: "Network \<Rightarrow> string \<Rightarrow> string \<Rightarrow> nat \<Rightarrow> bool" where
  "isServerDead rn endname servername server \<longleftrightarrow>
     n_enabled rn endname = False \<or> n_servers rn servername \<noteq> Some server"

definition MakeEnd :: "Network \<Rightarrow> string \<Rightarrow> Network go" where
  "MakeEnd rn endname =
     (if endname \<in> n_ends rn then Inl Fatal
      else Inr (rn\<lparr>n_ends := insert endname (n_ends rn),
                   n_enabled := (n_enabled rn)(endname := False),
                   n_connections := (n_connections rn)(endname := None)\<rparr>))"

definition DeleteEnd :: "Network \<Rightarrow> string \<Rightarrow> Network go" where
  "DeleteEnd rn endname =
     (if endname \<notin> n_ends rn then Inl Fatal
      else Inr (rn\<lparr>n_ends := n_ends rn - {endname},
                   n_enabled := (n_enabled rn)(endname := False),
                   n_connections := (n_connections rn)(endname := None)\<rparr>))"

definition AddServer :: "Network \<Rightarrow> string \<Rightarrow> nat \<Rightarrow> Network" where
  "AddServer rn servername rs = rn\<lparr>n_servers := (n_servers rn)(servername := Some rs)\<rparr>"

definition DeleteServer :: "Network \<Rightarrow> string \<Rightarrow> Network" where
  "DeleteServer rn servername = rn\<lparr>n_servers := (n_servers rn)(servername := None)\<rparr>"

definition Connect :: "Network \<Rightarrow> string \<Rightarrow> string \<Rightarrow> Network" where
  "Connect rn endname servername = rn\<lparr>n_connections := (n_connections rn)(endname := Some servername)\<rparr>"

definition Enable :: "Network \<Rightarrow> string \<Rightarrow> bool \<Rightarrow> Network" where
  "Enable rn endname enabled = rn\<lparr>n_enabled := (n_enabled rn)(endname := enabled)\<rparr>"

definition GetTotalCount :: "Network \<Rightarrow> int" where
  "GetTotalCount rn = sint (n_count rn)"

definition GetTotalBytes :: "Network \<Rightarrow> 64 word" where
  "GetTotalBytes rn = n_bytes rn"

section \<open>A request\<close>

text \<open>The network, the server objects by their address, and the state of the application behind them.\<close>

record 's world =
  w_net :: Network
  w_srv :: "nat \<Rightarrow> 's Server"
  w_st :: 's

text \<open>\<open>svr.GetCount()\<close> on a nil server panics.\<close>

definition GetCount :: "'s world \<Rightarrow> string \<Rightarrow> int go" where
  "GetCount w servername =
     (case n_servers (w_net w) servername of None \<Rightarrow> Inl Panic | Some a \<Rightarrow> Inr (Server_GetCount (w_srv w a)))"

datatype wait_event = HandlerDone | Tick Network

record sched =
  sd_drop_request :: int
  sd_drop_reply :: int
  sd_reorder :: int
  sd_events :: "wait_event list"
  sd_late :: bool
  sd_sent :: bool
  sd_net :: Network

text \<open>The loop that waits for the handler: \<open>replyOK\<close> and \<open>serverDead\<close>, or \<open>None\<close> while it waits.\<close>

fun wait_handler :: "string \<Rightarrow> string \<Rightarrow> nat \<Rightarrow> wait_event list \<Rightarrow> (bool \<times> bool) option" where
  "wait_handler endname servername server [] = None"
| "wait_handler endname servername server (HandlerDone # es) = Some (True, False)"
| "wait_handler endname servername server (Tick rn # es) =
     (if isServerDead rn endname servername server then Some (False, True)
      else wait_handler endname servername server es)"

abbreviation failed_reply :: replyMsg where
  "failed_reply \<equiv> \<lparr>rp_ok = False, rp_reply = ''''\<rparr>"

definition processReq :: "'s world \<Rightarrow> reqMsg \<Rightarrow> sched \<Rightarrow> ('s world \<times> replyMsg) go option" where
  "processReq w req sd =
     (case readEndnameInfo (w_net w) (rq_endname req) of
        (True, Some servername, Some server, reliable, longreordering) \<Rightarrow>
          if reliable = False \<and> sd_drop_request sd mod 1000 < 100
          then Some (Inr (w\<lparr>w_net := sd_net sd\<rparr>, failed_reply))
          else
            (case Server_dispatch (w_srv w server) req (w_st w) of
               Inl e \<Rightarrow> Some (Inl e)
             | Inr (rs, st, reply) \<Rightarrow>
                 (case wait_handler (rq_endname req) servername server (sd_events sd) of
                    None \<Rightarrow> None
                  | Some (replyOK, serverDead) \<Rightarrow>
                      (let w = (if replyOK = False \<and> sd_late sd then w
                                else w\<lparr>w_srv := (w_srv w)(server := rs), w_st := st\<rparr>)\<lparr>w_net := sd_net sd\<rparr>;
                           serverDead = isServerDead (w_net w) (rq_endname req) servername server
                       in if replyOK = False \<or> serverDead = True then Some (Inr (w, failed_reply))
                          else if reliable = False \<and> sd_drop_reply sd mod 1000 < 100
                          then Some (Inr (w, failed_reply))
                          else if longreordering = True \<and> sd_reorder sd < 600
                          then Some (Inr (w\<lparr>w_net := (w_net w)\<lparr>n_bytes := n_bytes (w_net w) + of_nat (length (rp_reply reply))\<rparr>\<rparr>, reply))
                          else Some (Inr (w\<lparr>w_net := (w_net w)\<lparr>n_bytes := n_bytes (w_net w) + of_nat (length (rp_reply reply))\<rparr>\<rparr>, reply)))))
      | _ \<Rightarrow> Some (Inr (w\<lparr>w_net := sd_net sd\<rparr>, failed_reply)))"

text \<open>
  \<open>ClientEnd.Call\<close>, with the encoder of the arguments and the decoder of the reply, which updates the
  caller's variable.
\<close>

definition ClientEnd_Call ::
  "('a \<Rightarrow> string) \<Rightarrow> (string \<Rightarrow> 'r \<Rightarrow> 'r) \<Rightarrow> string \<Rightarrow> string \<Rightarrow> 'a \<Rightarrow> 'r \<Rightarrow> sched \<Rightarrow> 's world \<Rightarrow>
     ('s world \<times> 'r \<times> bool) go option" where
  "ClientEnd_Call encode decode endname svcMeth args reply sd w =
     (let req = \<lparr>rq_endname = endname, rq_svcMeth = svcMeth, rq_args = encode args\<rparr>
      in if n_done (w_net w) \<and> \<not> sd_sent sd then Some (Inr (w, reply, False))
         else case processReq (w\<lparr>w_net := MakeNetwork_serve (w_net w) req\<rparr>) req sd of
                None \<Rightarrow> None
              | Some (Inl e) \<Rightarrow> Some (Inl e)
              | Some (Inr (w, rep)) \<Rightarrow>
                  if rp_ok rep then Some (Inr (w, decode (rp_reply rep) reply, True))
                  else Some (Inr (w, reply, False)))"

section \<open>What can happen to a request\<close>

lemma wait_handler_result:
  "wait_handler e sn sv es = Some (ok, dead) \<Longrightarrow> ok \<noteq> dead \<and> (ok \<longrightarrow> HandlerDone \<in> set es)"
  by (induction e sn sv es rule: wait_handler.induct) (auto split: if_splits)

lemma wait_handler_alive:
  "(\<And>rn. Tick rn \<in> set es \<Longrightarrow> \<not> isServerDead rn e sn sv) \<Longrightarrow> HandlerDone \<in> set es \<Longrightarrow>
     wait_handler e sn sv es = Some (True, False)"
  by (induction e sn sv es rule: wait_handler.induct) auto

lemma processReq_cases:
  assumes "processReq w req sd = Some (Inr (w', rep))"
  obtains (lost) "w_st w' = w_st w" "w_srv w' = w_srv w" "rep = failed_reply"
  | (executed) a rs st reply where "n_enabled (w_net w) (rq_endname req)"
      "Server_dispatch (w_srv w a) req (w_st w) = Inr (rs, st, reply)" "w_st w' = st"
      "w_srv w' = (w_srv w)(a := rs)" "rep = failed_reply \<or> rep = reply"
proof -
  obtain en sn sv rel lr where info: "readEndnameInfo (w_net w) (rq_endname req) = (en, sn, sv, rel, lr)"
    by (rule prod_cases5)
  show ?thesis
  proof (cases "en \<and> sn \<noteq> None \<and> sv \<noteq> None \<and> \<not> (rel = False \<and> sd_drop_request sd mod 1000 < 100)")
    case False
    then have "w' = w\<lparr>w_net := sd_net sd\<rparr>" "rep = failed_reply"
      using assms info by (auto simp: processReq_def split: bool.splits option.splits)
    then show ?thesis using lost by simp
  next
    case True
    then obtain n a where na: "sn = Some n" "sv = Some a" by auto
    have en: "n_enabled (w_net w) (rq_endname req)" using True info by (auto simp: readEndnameInfo_def Let_def)
    obtain rs st reply where d: "Server_dispatch (w_srv w a) req (w_st w) = Inr (rs, st, reply)"
      using assms info True na by (cases "Server_dispatch (w_srv w a) req (w_st w)") (auto simp: processReq_def)
    have "w_st w' = w_st w \<and> w_srv w' = w_srv w \<and> rep = failed_reply \<or>
        w_st w' = st \<and> w_srv w' = (w_srv w)(a := rs) \<and> (rep = failed_reply \<or> rep = reply)"
      using assms info True na d by (auto simp: processReq_def Let_def split: option.splits if_splits)
    with lost executed [OF en d] show ?thesis by blast
  qed
qed

text \<open>
  A disabled end-point is cut off: no handler runs, no server sees the request, and the caller gets a failure.
\<close>

lemma cut_off_fails:
  assumes "\<not> n_enabled (w_net w) (rq_endname req) \<or>
    (case n_connections (w_net w) (rq_endname req) of None \<Rightarrow> True | Some sn \<Rightarrow> n_servers (w_net w) sn = None)"
  shows "processReq w req sd = Some (Inr (w\<lparr>w_net := sd_net sd\<rparr>, failed_reply))"
  using assms by (auto simp: processReq_def readEndnameInfo_def Let_def split: option.splits bool.splits)

text \<open>
  A reliable network delivers. If the network is reliable, the end-point enabled and connected, the
  server not deleted while the handler runs, and the handler returns, then the handler runs exactly
  once (the server's counter goes up by one) and the caller gets its reply.
\<close>

lemma reliable_call_delivers:
  assumes "n_reliable (w_net w)" and "n_enabled (w_net w) (rq_endname req)"
    and "n_connections (w_net w) (rq_endname req) = Some sn" and "n_servers (w_net w) sn = Some a"
    and "\<And>rn. Tick rn \<in> set (sd_events sd) \<Longrightarrow> \<not> isServerDead rn (rq_endname req) sn a"
    and "HandlerDone \<in> set (sd_events sd)" and "\<not> isServerDead (sd_net sd) (rq_endname req) sn a"
    and "Server_dispatch (w_srv w a) req (w_st w) = Inr (rs, st, reply)"
  shows "\<exists>w'. processReq w req sd = Some (Inr (w', reply)) \<and> w_st w' = st \<and>
    Server_GetCount (w_srv w' a) = Server_GetCount (w_srv w a) + 1"
proof -
  have "wait_handler (rq_endname req) sn a (sd_events sd) = Some (True, False)"
    using assms(5,6) by (rule wait_handler_alive)
  moreover have "sv_count rs = sv_count (w_srv w a) + 1"
    using assms(8) by (auto simp: Server_dispatch_def Let_def go_bind_Inr_iff split: option.splits)
  ultimately show ?thesis
    using assms(1-4,7,8) by (auto simp: processReq_def readEndnameInfo_def Let_def Server_GetCount_def)
qed

section \<open>The key/value service on this network\<close>

text \<open>
  The service that \<open>MakeService\<close> builds for a \<open>KVServer\<close>. The decoders and encoders of the handlers
  (package \<open>labgob\<close>) are parameters; \<open>Kill\<close> has no arguments and is not a handler.
\<close>

definition kv_methods ::
  "(string \<Rightarrow> GetArgs) \<Rightarrow> (GetReply \<Rightarrow> string) \<Rightarrow> (string \<Rightarrow> PutArgs) \<Rightarrow> (PutReply \<Rightarrow> string) \<Rightarrow> KVServer Method list" where
  "kv_methods decG encG decP encP =
     [\<lparr>me_Name = ''Get'', me_PkgPath = '''', me_NumIn = 3, me_In2IsPtr = True, me_NumOut = 0,
       me_Func = (\<lambda>kv b. (kv, encG (KVServer_Get kv (decG b) zero_GetReply)))\<rparr>,
      \<lparr>me_Name = ''Kill'', me_PkgPath = '''', me_NumIn = 1, me_In2IsPtr = False, me_NumOut = 0,
       me_Func = (\<lambda>kv b. (KVServer_Kill kv, ''''))\<rparr>,
      \<lparr>me_Name = ''Put'', me_PkgPath = '''', me_NumIn = 3, me_In2IsPtr = True, me_NumOut = 0,
       me_Func = (\<lambda>kv b. let (kv, r) = KVServer_Put kv (decP b) zero_PutReply in (kv, encP r))\<rparr>]"

definition kv_service ::
  "(string \<Rightarrow> GetArgs) \<Rightarrow> (GetReply \<Rightarrow> string) \<Rightarrow> (string \<Rightarrow> PutArgs) \<Rightarrow> (PutReply \<Rightarrow> string) \<Rightarrow> KVServer Service" where
  "kv_service decG encG decP encP = MakeService ''KVServer'' (kv_methods decG encG decP encP)"

lemma split_last_KVServer:
  "split_last CHR ''.'' ''KVServer.Put'' = Some (''KVServer'', ''Put'')"
  "split_last CHR ''.'' ''KVServer.Get'' = Some (''KVServer'', ''Get'')"
  by (simp_all add: split_last_def)

lemma kv_service_methods:
  "svc_methods (kv_service decG encG decP encP) =
     [''Get'' \<mapsto> (\<lambda>kv b. (kv, encG (KVServer_Get kv (decG b) zero_GetReply))),
      ''Put'' \<mapsto> (\<lambda>kv b. let (kv, r) = KVServer_Put kv (decP b) zero_PutReply in (kv, encP r))]"
  by (simp add: kv_service_def MakeService_def kv_methods_def)

lemma kv_dispatch_Put:
  assumes "sv_services rs ''KVServer'' = Some (kv_service decG encG decP encP)"
    and "rq_svcMeth req = ''KVServer.Put''" and "decP (rq_args req) = args"
  shows "Server_dispatch rs req kv =
    Inr (rs\<lparr>sv_count := sv_count rs + 1\<rparr>, put_state kv args,
      \<lparr>rp_ok = True, rp_reply = encP (snd (KVServer_Put kv args zero_PutReply))\<rparr>)"
  using assms
  by (simp add: Server_dispatch_def split_last_KVServer Service_dispatch_def kv_service_methods case_prod_beta Let_def)

text \<open>
  One \<open>Put\<close> call on this network, whatever it does to the call (drops, disconnections, deletions of
  the server while the handler runs): \<open>None\<close> when the call does not return or panics.
\<close>

definition labrpc_Put ::
  "(PutArgs \<Rightarrow> string) \<Rightarrow> (string \<Rightarrow> PutReply \<Rightarrow> PutReply) \<Rightarrow> string \<Rightarrow> sched \<Rightarrow> KVServer world \<Rightarrow> PutArgs \<Rightarrow> PutReply \<Rightarrow>
     (KVServer world \<times> PutReply \<times> bool) option" where
  "labrpc_Put encode decode e sd w args reply =
     (case ClientEnd_Call encode decode e ''KVServer.Put'' args reply sd w of Some (Inr r) \<Rightarrow> Some r | _ \<Rightarrow> None)"

definition kv_world ::
  "(string \<Rightarrow> GetArgs) \<Rightarrow> (GetReply \<Rightarrow> string) \<Rightarrow> (string \<Rightarrow> PutArgs) \<Rightarrow> (PutReply \<Rightarrow> string) \<Rightarrow> KVServer world \<Rightarrow> bool" where
  "kv_world decG encG decP encP w \<longleftrightarrow>
     (\<forall>a. sv_services (w_srv w a) ''KVServer'' = Some (kv_service decG encG decP encP))"

definition other_puts :: "KVServer world \<Rightarrow> PutArgs list \<Rightarrow> KVServer world" where
  "other_puts w ps = w\<lparr>w_st := run_puts (w_st w) ps\<rparr>"

lemma processReq_Put_fate:
  assumes "kv_world decG encG decP encP w" and "decP (rq_args req) = args"
    and "rq_svcMeth req = ''KVServer.Put''" and p: "processReq w req sd = Some (Inr (w', rep))"
  shows "kv_world decG encG decP encP w' \<and>
    (\<exists>f r. Call_Put f (w_st w) args reply = (w_st w', r, rp_ok rep) \<and> (rp_ok rep \<longrightarrow> rp_reply rep = encP r) \<and>
       (\<not> rp_ok rep \<longrightarrow> r = reply))"
  using p
proof (cases rule: processReq_cases)
  case lost
  with assms(1) show ?thesis by (auto simp: kv_world_def intro: exI [of _ LostRequest])
next
  case (executed a rs st rep')
  have d: "Server_dispatch (w_srv w a) req (w_st w) = Inr ((w_srv w a)\<lparr>sv_count := sv_count (w_srv w a) + 1\<rparr>,
      put_state (w_st w) args, \<lparr>rp_ok = True, rp_reply = encP (snd (KVServer_Put (w_st w) args zero_PutReply))\<rparr>)"
    by (rule kv_dispatch_Put [of _ decG encG decP]) (use assms in \<open>auto simp: kv_world_def\<close>)
  then have "kv_world decG encG decP encP w'" using executed assms(1) by (auto simp: kv_world_def)
  moreover have "\<exists>f r. Call_Put f (w_st w) args reply = (w_st w', r, rp_ok rep) \<and>
      (rp_ok rep \<longrightarrow> rp_reply rep = encP r) \<and> (\<not> rp_ok rep \<longrightarrow> r = reply)"
  proof (cases "rep = failed_reply")
    case True
    with d executed show ?thesis by (intro exI [of _ LostReply] exI [of _ reply]) simp
  next
    case False
    with d executed show ?thesis
      by (intro exI [of _ Delivered] exI [of _ "snd (KVServer_Put (w_st w) args zero_PutReply)"]) auto
  qed
  ultimately show ?thesis ..
qed

lemma labrpc_Put_fate:
  assumes "kv_world decG encG decP encP w" and "decP (encode args) = args" and "\<And>r. decode (encP r) reply = r"
    and "labrpc_Put encode decode e sd w args reply = Some (w', reply', ok)"
  shows "kv_world decG encG decP encP w' \<and> (\<exists>f. Call_Put f (w_st w) args reply = (w_st w', reply', ok))"
proof (cases "n_done (w_net w) \<and> \<not> sd_sent sd")
  case True
  with assms(1,4) show ?thesis
    by (auto simp: labrpc_Put_def ClientEnd_Call_def Let_def intro: exI [of _ LostRequest])
next
  case False
  let ?req = "\<lparr>rq_endname = e, rq_svcMeth = ''KVServer.Put'', rq_args = encode args\<rparr>"
  let ?w = "w\<lparr>w_net := MakeNetwork_serve (w_net w) ?req\<rparr>"
  obtain rep where p: "processReq ?w ?req sd = Some (Inr (w', rep))"
    and r: "reply' = (if rp_ok rep then decode (rp_reply rep) reply else reply)" "ok = rp_ok rep"
    using assms(4) False
    by (auto simp: labrpc_Put_def ClientEnd_Call_def Let_def split: option.splits sum.splits if_splits)
  have "kv_world decG encG decP encP ?w" using assms(1) by (simp add: kv_world_def)
  from processReq_Put_fate [OF this _ _ p, of args reply] assms(2) obtain f r where
    "kv_world decG encG decP encP w'" "Call_Put f (w_st w) args reply = (w_st w', r, rp_ok rep)"
    "rp_ok rep \<longrightarrow> rp_reply rep = encP r" "\<not> rp_ok rep \<longrightarrow> r = reply" by auto
  with r assms(3) show ?thesis by (cases "rp_ok rep") auto
qed

section \<open>The clerk on any network\<close>

text \<open>
  The same loop as in the clerk's model, over any \<open>Call\<close>. Each attempt names the other clients'
  writes before it and what the network does to it.
\<close>

fun Clerk_Put_retry_on ::
  "('w \<Rightarrow> PutArgs list \<Rightarrow> 'w) \<Rightarrow> ('x \<Rightarrow> 'w \<Rightarrow> PutArgs \<Rightarrow> PutReply \<Rightarrow> ('w \<times> PutReply \<times> bool) option) \<Rightarrow>
     PutArgs \<Rightarrow> PutReply \<Rightarrow> 'w \<Rightarrow> (PutArgs list \<times> 'x) list \<Rightarrow> (PutReply \<times> 'w \<times> (PutArgs list \<times> 'x) list) option" where
  "Clerk_Put_retry_on env Call args reply w [] = None"
| "Clerk_Put_retry_on env Call args reply w ((ps, x) # script) =
     (case Call x (env w ps) args reply of
        None \<Rightarrow> None
      | Some (w, reply, ok) \<Rightarrow>
          if ok then Some (reply, w, script) else Clerk_Put_retry_on env Call args reply w script)"

definition Clerk_Put_on ::
  "('w \<Rightarrow> PutArgs list \<Rightarrow> 'w) \<Rightarrow> ('x \<Rightarrow> 'w \<Rightarrow> PutArgs \<Rightarrow> PutReply \<Rightarrow> ('w \<times> PutReply \<times> bool) option) \<Rightarrow>
     string \<Rightarrow> string \<Rightarrow> Tversion \<Rightarrow> 'w \<Rightarrow> (PutArgs list \<times> 'x) list \<Rightarrow> (Err \<times> 'w \<times> (PutArgs list \<times> 'x) list) option" where
  "Clerk_Put_on env Call key val version w script =
     (let args = \<lparr>pa_Key = key, pa_Value = val, pa_Version = version\<rparr>
      in case script of
           [] \<Rightarrow> None
         | (ps, x) # script \<Rightarrow>
             (case Call x (env w ps) args zero_PutReply of
                None \<Rightarrow> None
              | Some (w, reply, ok) \<Rightarrow>
                  if ok then Some (Clerk_Put_result reply False, w, script)
                  else case Clerk_Put_retry_on env Call args reply w script of
                         None \<Rightarrow> None
                       | Some (reply, w, rest) \<Rightarrow> Some (Clerk_Put_result reply True, w, rest)))"

text \<open>
  What the clerk relies on: a call that returns is executed at most once, and a reply it brings is the
  server's; other clients' writes are writes on the server.
\<close>

locale put_network =
  fixes args :: PutArgs
    and inv :: "'w \<Rightarrow> bool"
    and server :: "'w \<Rightarrow> KVServer"
    and env :: "'w \<Rightarrow> PutArgs list \<Rightarrow> 'w"
    and Call :: "'x \<Rightarrow> 'w \<Rightarrow> PutArgs \<Rightarrow> PutReply \<Rightarrow> ('w \<times> PutReply \<times> bool) option"
  assumes call_fate: "inv w \<Longrightarrow> Call x w args zero_PutReply = Some (w', reply, ok) \<Longrightarrow>
      inv w' \<and> (\<exists>f. Call_Put f (server w) args zero_PutReply = (server w', reply, ok))"
    and env_writes: "inv w \<Longrightarrow> inv (env w ps) \<and> server (env w ps) = run_puts (server w) ps"
begin

lemma call_step:
  assumes "inv w" "Call x (env w ps) args zero_PutReply = Some (w', reply, ok)"
  obtains f where "inv w'" "Call_Put f (run_puts (server w) ps) args zero_PutReply = (server w', reply, ok)"
    "ok \<or> reply = zero_PutReply"
proof -
  from call_fate [OF _ assms(2)] env_writes [OF assms(1), of ps] obtain f where
    f: "inv w'" "Call_Put f (run_puts (server w) ps) args zero_PutReply = (server w', reply, ok)" by auto
  then have "ok \<or> reply = zero_PutReply" by (cases f) auto
  with f that show thesis by blast
qed

lemma retry_fates:
  "inv w \<Longrightarrow> Clerk_Put_retry_on env Call args zero_PutReply w script = Some (reply, w', rest) \<Longrightarrow>
     \<exists>fs. Clerk_Put_retry args zero_PutReply (server w) fs = Some (reply, server w', []) \<and>
       map fst fs @ map fst rest = map fst script"
proof (induction script arbitrary: w)
  case (Cons a script)
  obtain ps x where a: "a = (ps, x)" by (cases a)
  with Cons.prems(2) obtain w1 r ok where c: "Call x (env w ps) args zero_PutReply = Some (w1, r, ok)"
    by (auto split: option.splits)
  from call_step [OF Cons.prems(1) c] obtain f where
    f: "inv w1" "Call_Put f (run_puts (server w) ps) args zero_PutReply = (server w1, r, ok)"
    "ok \<or> r = zero_PutReply" by blast
  show ?case
  proof (cases ok)
    case True
    with a c f(2) Cons.prems(2) show ?thesis by (intro exI [of _ "[(ps, f)]"]) simp
  next
    case False
    with a c f Cons.prems(2) Cons.IH [OF f(1)] obtain fs where
      "Clerk_Put_retry args zero_PutReply (server w1) fs = Some (reply, server w', [])"
      "map fst fs @ map fst rest = map fst script" by auto
    with a f False show ?thesis by (intro exI [of _ "(ps, f) # fs"]) simp
  qed
qed simp

lemma put_fates:
  assumes "inv w" "Clerk_Put_on env Call key val version w script = Some (err, w', rest)"
    and args: "args = \<lparr>pa_Key = key, pa_Value = val, pa_Version = version\<rparr>"
  shows "\<exists>fs. Clerk_Put key val version (server w) fs = Some (err, server w', []) \<and>
    map fst fs @ map fst rest = map fst script"
proof -
  obtain ps x script' w1 r ok where s: "script = (ps, x) # script'"
    and c: "Call x (env w ps) args zero_PutReply = Some (w1, r, ok)"
    using assms(2) by (auto simp: args Clerk_Put_on_def Let_def split: list.splits option.splits)
  from call_step [OF assms(1) c] obtain f where
    f: "inv w1" "Call_Put f (run_puts (server w) ps) args zero_PutReply = (server w1, r, ok)"
    "ok \<or> r = zero_PutReply" by blast
  show ?thesis
  proof (cases ok)
    case True
    with s c f(2) assms(2) show ?thesis
      by (intro exI [of _ "[(ps, f)]"]) (auto simp: args Clerk_Put_on_def Clerk_Put_def)
  next
    case False
    with s c f assms(2) obtain reply where e: "err = Clerk_Put_result reply True"
      and t: "Clerk_Put_retry_on env Call args zero_PutReply w1 script' = Some (reply, w', rest)"
      by (auto simp: args Clerk_Put_on_def split: option.splits)
    from retry_fates [OF f(1) t] obtain fs where
      "Clerk_Put_retry args zero_PutReply (server w1) fs = Some (reply, server w', [])"
      "map fst fs @ map fst rest = map fst script'" by blast
    with s e f False show ?thesis by (intro exI [of _ "(ps, f) # fs"]) (simp add: args Clerk_Put_def)
  qed
qed

end

text \<open>The fates of the clerk's own model are such a network.\<close>

interpretation fates: put_network args "\<lambda>_. True" id run_puts "\<lambda>f kv args reply. Some (Call_Put f kv args reply)"
  for args :: PutArgs
  by unfold_locales auto

lemma labrpc_put_network:
  assumes "decP (encode args) = args" and "\<And>r. decode (encP r) zero_PutReply = r"
  shows "put_network args (kv_world decG encG decP encP) w_st other_puts (labrpc_Put encode decode e)"
proof unfold_locales
  fix x w w' reply ok
  assume "kv_world decG encG decP encP w" "labrpc_Put encode decode e x w args zero_PutReply = Some (w', reply, ok)"
  then show "kv_world decG encG decP encP w' \<and> (\<exists>f. Call_Put f (w_st w) args zero_PutReply = (w_st w', reply, ok))"
    using labrpc_Put_fate assms by blast
qed (auto simp: other_puts_def kv_world_def)

text \<open>
  The clerk's model of the network is right. Take the clerk's \<open>Put\<close> loop over \<open>ClientEnd.Call\<close> on the
  simulated network, with the key/value service that \<open>MakeService\<close> builds, whatever the network does
  to each call (drops, disconnections, deletions of the server while the handler runs) and whatever
  other clients write in between, where a handler that only runs after the network has given up on it counts as such a
  write. If it returns, the clerk's model returns the same error and the same server
  state for some sequence of fates with the same interleaved writes. So every result on the
  clerk's model holds on the network.
\<close>

lemma clerk_put_on_labrpc:
  assumes "kv_world decG encG decP encP w"
    and "\<And>args. args = \<lparr>pa_Key = key, pa_Value = val, pa_Version = version\<rparr> \<Longrightarrow> decP (encode args) = args"
    and "\<And>r. decode (encP r) zero_PutReply = r"
    and "Clerk_Put_on other_puts (labrpc_Put encode decode e) key val version w script = Some (err, w', rest)"
  shows "\<exists>fs. Clerk_Put key val version (w_st w) fs = Some (err, w_st w', []) \<and>
    map fst fs @ map fst rest = map fst script"
  by (rule put_network.put_fates [OF labrpc_put_network assms(1) assms(4) refl]) (simp_all add: assms)

text \<open>A network with one client end-point \<open>e\<close> connected to a server \<open>s\<close> at address 0.\<close>

definition demo_net :: "bool \<Rightarrow> Network" where
  "demo_net rel = Enable (Connect (AddServer (MakeNetwork\<lparr>n_reliable := rel\<rparr>) ''s'' 0) ''e'' ''s'') ''e'' True"

definition demo_world :: "bool \<Rightarrow> (string \<Rightarrow> PutArgs) \<Rightarrow> KVServer world" where
  "demo_world rel decP = \<lparr>w_net = demo_net rel,
     w_srv = (\<lambda>_. AddService MakeServer (kv_service (\<lambda>b. \<lparr>ga_Key = b\<rparr>) gr_Value decP pr_Err)), w_st = MakeKVServer\<rparr>"

definition demo_sched :: "int \<Rightarrow> int \<Rightarrow> bool \<Rightarrow> sched" where
  "demo_sched drq drp rel = \<lparr>sd_drop_request = drq, sd_drop_reply = drp, sd_reorder = 0,
     sd_events = [Tick (demo_net rel), HandlerDone], sd_late = False, sd_sent = True, sd_net = demo_net rel\<rparr>"

abbreviation demo_put :: "string \<Rightarrow> PutArgs" where
  "demo_put k \<equiv> \<lparr>pa_Key = k, pa_Value = ''v'', pa_Version = 0\<rparr>"

lemmas demo_net_defs = demo_world_def demo_sched_def demo_net_def Enable_def Connect_def AddServer_def
  MakeNetwork_def MakeNetwork_serve_def AddService_def MakeServer_def isServerDead_def readEndnameInfo_def

lemma demo_services:
  "sv_services (w_srv (demo_world rel decP) a) ''KVServer'' = Some (kv_service (\<lambda>b. \<lparr>ga_Key = b\<rparr>) gr_Value decP pr_Err)"
  by (simp add: demo_net_defs kv_service_def MakeService_def)

lemma demo_kv_world: "kv_world (\<lambda>b. \<lparr>ga_Key = b\<rparr>) gr_Value decP pr_Err (demo_world rel decP)"
  unfolding kv_world_def by (simp add: demo_services)

abbreviation demo_result where
  "demo_result \<equiv> Clerk_Put_on other_puts (labrpc_Put pa_Key (\<lambda>b _. \<lparr>pr_Err = b\<rparr>) ''e'') ''k'' ''v'' 0
     (demo_world False demo_put) [([], demo_sched 100 99 False), ([], demo_sched 100 999 False)]"

lemma demo_retries: "map_option fst demo_result = Some ErrMaybe"
  by code_simp

lemma clerk_put_on_labrpc_example:
  "\<exists>w'. demo_result = Some (ErrMaybe, w', []) \<and>
     (\<exists>fs. Clerk_Put ''k'' ''v'' 0 MakeKVServer fs = Some (ErrMaybe, w_st w', []) \<and> map fst fs = [[], []])"
proof -
  obtain err w' rest where r: "demo_result = Some (err, w', rest)" "err = ErrMaybe"
    using demo_retries by (cases demo_result) auto
  have "map_option (length \<circ> snd \<circ> snd) demo_result = Some 0" by code_simp
  with r have e: "demo_result = Some (ErrMaybe, w', [])" by simp
  have "\<exists>fs. Clerk_Put ''k'' ''v'' 0 (w_st (demo_world False demo_put)) fs = Some (ErrMaybe, w_st w', []) \<and>
      map fst fs @ map fst ([] :: (PutArgs list \<times> sched) list) =
        map fst [([], demo_sched 100 99 False), ([], demo_sched 100 999 False)]"
    by (rule clerk_put_on_labrpc [OF demo_kv_world _ _ e]) simp_all
  with e show ?thesis by (auto simp: demo_world_def)
qed

text \<open>The counter of a reliable call, on the same network.\<close>

abbreviation demo_req :: reqMsg where
  "demo_req \<equiv> \<lparr>rq_endname = ''e'', rq_svcMeth = ''KVServer.Put'', rq_args = ''k''\<rparr>"

lemma reliable_call_delivers_example:
  "\<exists>w'. processReq (demo_world True demo_put) demo_req (demo_sched 0 0 True) =
       Some (Inr (w', \<lparr>rp_ok = True, rp_reply = OK\<rparr>)) \<and> Server_GetCount (w_srv w' 0) = 1"
proof -
  let ?w = "demo_world True demo_put"
  have "\<exists>w'. processReq ?w demo_req (demo_sched 0 0 True) =
       Some (Inr (w', \<lparr>rp_ok = True, rp_reply = pr_Err (snd (KVServer_Put (w_st ?w) (demo_put ''k'') zero_PutReply))\<rparr>)) \<and>
     w_st w' = put_state (w_st ?w) (demo_put ''k'') \<and>
     Server_GetCount (w_srv w' 0) = Server_GetCount (w_srv ?w 0) + 1"
    by (rule reliable_call_delivers [where sn = "''s''", OF _ _ _ _ _ _ _ kv_dispatch_Put [OF demo_services]])
      (auto simp: demo_net_defs)
  moreover have "pr_Err (snd (KVServer_Put (w_st ?w) (demo_put ''k'') zero_PutReply)) = OK" by code_simp
  moreover have "Server_GetCount (w_srv ?w 0) = 0" by code_simp
  ultimately show ?thesis by auto
qed

end
