(* ===== verification/Tester.thy ===== *)
theory Tester
  imports Labrpc
begin

text \<open>
  The test harness that starts, stops, connects and partitions servers: \<^verbatim>\<open>src/tester1/persister.go\<close>,
  \<^verbatim>\<open>srv.go\<close> and \<^verbatim>\<open>group.go\<close>.

  What all groups share (the network, the persisters and the RPC servers, which the code uses by
  reference) is an environment that the operations pass along; a persister or an RPC server is
  its address there. The random end-point names come from a supply of names. The services under test are
  a parameter: what \<open>mks\<close> starts, what reflection finds in a service, and what \<open>Kill\<close> does to the
  persisters.
\<close>

section \<open>Persisters\<close>

text \<open>Slices are only replaced, never written to, so they are values; nil and empty slices are not told apart.\<close>

record Persister =
  ps_raftstate :: string
  ps_snapshot :: string

definition MakePersister :: Persister where
  "MakePersister = \<lparr>ps_raftstate = '''', ps_snapshot = ''''\<rparr>"

definition clone :: "string \<Rightarrow> string" where
  "clone orig = take (length orig) orig"

definition Persister_Copy :: "Persister \<Rightarrow> Persister" where
  "Persister_Copy ps = MakePersister\<lparr>ps_raftstate := ps_raftstate ps, ps_snapshot := ps_snapshot ps\<rparr>"

definition ReadRaftState :: "Persister \<Rightarrow> string" where
  "ReadRaftState ps = clone (ps_raftstate ps)"

definition RaftStateSize :: "Persister \<Rightarrow> nat" where
  "RaftStateSize ps = length (ps_raftstate ps)"

definition Save :: "Persister \<Rightarrow> string \<Rightarrow> string \<Rightarrow> Persister" where
  "Save ps raftstate snapshot = ps\<lparr>ps_raftstate := clone raftstate, ps_snapshot := clone snapshot\<rparr>"

definition ReadSnapshot :: "Persister \<Rightarrow> string" where
  "ReadSnapshot ps = clone (ps_snapshot ps)"

definition Persister_SnapshotSize :: "Persister \<Rightarrow> nat" where
  "Persister_SnapshotSize ps = length (ps_snapshot ps)"

lemma Persister_Copy_id [simp]: "Persister_Copy ps = ps"
  by (simp add: Persister_Copy_def MakePersister_def)

lemma persister_read_save [simp]:
  "ReadRaftState (Save ps r s) = r" "ReadSnapshot (Save ps r s) = s"
  "RaftStateSize (Save ps r s) = length r" "Persister_SnapshotSize (Save ps r s) = length s"
  by (simp_all add: ReadRaftState_def ReadSnapshot_def RaftStateSize_def Persister_SnapshotSize_def Save_def clone_def)

section \<open>What the groups share\<close>

record 's env =
  e_net :: Network
  e_rnd :: nat
  e_pers :: "Persister list"
  e_labs :: "'s Server list"

section \<open>Servers\<close>

definition ServerName :: "int \<Rightarrow> int \<Rightarrow> string" where
  "ServerName gid i = ''server-'' @ strconv_Itoa gid @ ''-'' @ strconv_Itoa i"

text \<open>A \<open>ClientEnd\<close> is identified by its name.\<close>

record 'svc Srv =
  sr_saved :: "nat option"
  sr_svcs :: "'svc list"
  sr_endNames :: "string list"
  sr_clntEnds :: "string list"

definition makeServer_end :: "(nat \<Rightarrow> string) \<Rightarrow> int \<Rightarrow> nat \<Rightarrow> 's env \<times> 'svc Srv \<Rightarrow> ('s env \<times> 'svc Srv) go" where
  "makeServer_end rnd gid j = (\<lambda>(e, srv).
     let name = rnd (e_rnd e)
     in go_bind (MakeEnd (e_net e) name)
          (\<lambda>net. Inr (e\<lparr>e_net := Connect net name (ServerName gid (int j)), e_rnd := Suc (e_rnd e)\<rparr>,
                      srv\<lparr>sr_endNames := (sr_endNames srv)[j := name], sr_clntEnds := (sr_clntEnds srv)[j := name]\<rparr>)))"

definition makeServer :: "(nat \<Rightarrow> string) \<Rightarrow> int \<Rightarrow> nat \<Rightarrow> 's env \<Rightarrow> ('s env \<times> 'svc Srv) go" where
  "makeServer rnd gid nsrv e =
     go_fold (makeServer_end rnd gid) [0..<nsrv]
       (e, \<lparr>sr_saved = None, sr_svcs = [], sr_endNames = replicate nsrv '''', sr_clntEnds = replicate nsrv ''''\<rparr>)"

definition startServer :: "(nat \<Rightarrow> string) \<Rightarrow> int \<Rightarrow> 'svc Srv \<Rightarrow> 's env \<Rightarrow> ('s env \<times> 'svc Srv) go" where
  "startServer rnd gid s e =
     go_bind (makeServer rnd gid (length (sr_endNames s)) e)
       (\<lambda>(e, srv).
          let saved = (case sr_saved s of Some a \<Rightarrow> Persister_Copy (e_pers e ! a) | None \<Rightarrow> MakePersister)
          in Inr (e\<lparr>e_pers := e_pers e @ [saved]\<rparr>, srv\<lparr>sr_saved := Some (length (e_pers e))\<rparr>))"

definition Srv_enable :: "bool \<Rightarrow> string list \<Rightarrow> int \<Rightarrow> Network \<Rightarrow> Network go" where
  "Srv_enable b names k net = go_bind (slice_get names k) (\<lambda>endname. Inr (Enable net endname b))"

definition Srv_connect :: "'svc Srv \<Rightarrow> int list \<Rightarrow> Network \<Rightarrow> Network go" where
  "Srv_connect s to net = go_fold (Srv_enable True (sr_endNames s)) to net"

definition Srv_disconnect :: "'svc Srv \<Rightarrow> int list \<Rightarrow> Network \<Rightarrow> Network go" where
  "Srv_disconnect s from net = go_fold (Srv_enable False (sr_endNames s)) from net"

text \<open>The services are told to stop only after the server has got its fresh persister.\<close>

definition shutdownServer :: "('svc \<Rightarrow> Persister list \<Rightarrow> Persister list) \<Rightarrow> 'svc Srv \<Rightarrow> 's env \<Rightarrow> 's env \<times> 'svc Srv" where
  "shutdownServer Kill s e =
     (let (e, s) = (case sr_saved s of
                      Some a \<Rightarrow> (e\<lparr>e_pers := e_pers e @ [Persister_Copy (e_pers e ! a)]\<rparr>, s\<lparr>sr_saved := Some (length (e_pers e))\<rparr>)
                    | None \<Rightarrow> (e, s))
      in (e\<lparr>e_pers := foldl (\<lambda>h svc. Kill svc h) (e_pers e) (sr_svcs s)\<rparr>, s\<lparr>sr_svcs := []\<rparr>))"

section \<open>Groups of servers\<close>

record 'svc ServerGrp =
  sg_srvs :: "'svc Srv list"
  sg_servernames :: "string list"
  sg_gid :: int
  sg_connected :: "bool list"

definition makeSrvGrp_server ::
  "(nat \<Rightarrow> string) \<Rightarrow> int \<Rightarrow> nat \<Rightarrow> nat \<Rightarrow> 's env \<times> 'svc Srv list \<Rightarrow> ('s env \<times> 'svc Srv list) go" where
  "makeSrvGrp_server rnd gid n i = (\<lambda>(e, srvs). go_bind (makeServer rnd gid n e) (\<lambda>(e, srv). Inr (e, srvs @ [srv])))"

definition makeSrvGrp :: "(nat \<Rightarrow> string) \<Rightarrow> int \<Rightarrow> nat \<Rightarrow> 's env \<Rightarrow> ('s env \<times> 'svc ServerGrp) go" where
  "makeSrvGrp rnd gid n e =
     go_bind (go_fold (makeSrvGrp_server rnd gid n) [0..<n] (e, []))
       (\<lambda>(e, srvs). Inr (e, \<lparr>sg_srvs = srvs, sg_servernames = map (\<lambda>i. ServerName gid (int i)) [0..<n],
                            sg_gid = gid, sg_connected = replicate n False\<rparr>))"

definition sg_N :: "'svc ServerGrp \<Rightarrow> nat" where
  "sg_N sg = length (sg_srvs sg)"

definition SrvNames :: "'svc ServerGrp \<Rightarrow> string list" where
  "SrvNames sg = sg_servernames sg"

definition Services :: "'svc ServerGrp \<Rightarrow> 'svc list list" where
  "Services sg = map sr_svcs (sg_srvs sg)"

definition SrvNamesTo :: "'svc ServerGrp \<Rightarrow> int list \<Rightarrow> string list go" where
  "SrvNamesTo sg to = go_fold (\<lambda>i ns. go_bind (slice_get (sg_servernames sg) i) (\<lambda>n. Inr (ns @ [n]))) to []"

definition sg_all :: "'svc ServerGrp \<Rightarrow> int list" where
  "sg_all sg = map int [0..<length (sg_srvs sg)]"

definition IsConnected :: "'svc ServerGrp \<Rightarrow> int \<Rightarrow> bool go" where
  "IsConnected sg i = slice_get (sg_connected sg) i"

text \<open>\<open>IsConnected\<close> gets the position in \<open>to\<close>, not the server at that position.\<close>

definition connect_in :: "'svc ServerGrp \<Rightarrow> int \<Rightarrow> int list \<Rightarrow> int \<Rightarrow> Network \<Rightarrow> Network go" where
  "connect_in sg i to j net =
     go_bind (IsConnected sg j)
       (\<lambda>c. if c
            then go_bind (slice_get to j) (\<lambda>k.
                 go_bind (slice_get (sg_srvs sg) k) (\<lambda>s.
                 go_bind (slice_get (sr_endNames s) i) (\<lambda>endname. Inr (Enable net endname True))))
            else Inr net)"

definition connect :: "int \<Rightarrow> int list \<Rightarrow> Network \<times> 'svc ServerGrp \<Rightarrow> (Network \<times> 'svc ServerGrp) go" where
  "connect i to = (\<lambda>(net, sg).
     go_bind (slice_set (sg_connected sg) i True) (\<lambda>connected.
     let sg = sg\<lparr>sg_connected := connected\<rparr> in
     go_bind (slice_get (sg_srvs sg) i) (\<lambda>s.
     go_bind (Srv_connect s to net) (\<lambda>net.
     go_bind (go_fold (connect_in sg i to) (map int [0..<length to]) net) (\<lambda>net.
     Inr (net, sg))))))"

definition disconnect_in :: "'svc ServerGrp \<Rightarrow> int \<Rightarrow> int \<Rightarrow> Network \<Rightarrow> Network go" where
  "disconnect_in sg i k net =
     go_bind (slice_get (sg_srvs sg) k) (\<lambda>s.
     go_bind (slice_get (sr_endNames s) i) (\<lambda>endname. Inr (Enable net endname False)))"

definition disconnect :: "int \<Rightarrow> int list \<Rightarrow> Network \<times> 'svc ServerGrp \<Rightarrow> (Network \<times> 'svc ServerGrp) go" where
  "disconnect i from = (\<lambda>(net, sg).
     go_bind (slice_set (sg_connected sg) i False) (\<lambda>connected.
     let sg = sg\<lparr>sg_connected := connected\<rparr> in
     go_bind (slice_get (sg_srvs sg) i) (\<lambda>s.
     go_bind (Srv_disconnect s from net) (\<lambda>net.
     go_bind (go_fold (disconnect_in sg i) from net) (\<lambda>net.
     Inr (net, sg))))))"

definition ConnectOne :: "int \<Rightarrow> Network \<times> 'svc ServerGrp \<Rightarrow> (Network \<times> 'svc ServerGrp) go" where
  "ConnectOne i = (\<lambda>(net, sg). connect i (sg_all sg) (net, sg))"

definition sg_ConnectAll :: "Network \<times> 'svc ServerGrp \<Rightarrow> (Network \<times> 'svc ServerGrp) go" where
  "sg_ConnectAll = (\<lambda>(net, sg). go_fold ConnectOne (sg_all sg) (net, sg))"

definition sg_DisconnectAll :: "int \<Rightarrow> Network \<times> 'svc ServerGrp \<Rightarrow> (Network \<times> 'svc ServerGrp) go" where
  "sg_DisconnectAll i = (\<lambda>(net, sg). disconnect i (sg_all sg) (net, sg))"

definition Partition_side :: "int list \<Rightarrow> int list \<Rightarrow> int \<Rightarrow> Network \<times> 'svc ServerGrp \<Rightarrow> (Network \<times> 'svc ServerGrp) go" where
  "Partition_side p q i s = go_bind (disconnect i q s) (connect i p)"

definition Partition :: "int list \<Rightarrow> int list \<Rightarrow> Network \<times> 'svc ServerGrp \<Rightarrow> (Network \<times> 'svc ServerGrp) go" where
  "Partition p1 p2 s =
     go_bind (go_fold (Partition_side p1 p2) p1 s) (go_fold (Partition_side p2 p1) p2)"

section \<open>Starting and stopping servers\<close>

type_synonym 'svc starter = "string list \<Rightarrow> int \<Rightarrow> int \<Rightarrow> nat \<Rightarrow> Persister list \<Rightarrow> 'svc list \<times> Persister list"

definition on_net ::
  "(Network \<times> 'svc ServerGrp \<Rightarrow> (Network \<times> 'svc ServerGrp) go) \<Rightarrow> 's env \<times> 'svc ServerGrp \<Rightarrow> ('s env \<times> 'svc ServerGrp) go" where
  "on_net f = (\<lambda>(e, sg). go_bind (f (e_net e, sg)) (\<lambda>(net, sg). Inr (e\<lparr>e_net := net\<rparr>, sg)))"

definition StartServer ::
  "(nat \<Rightarrow> string) \<Rightarrow> 'svc starter \<Rightarrow> ('svc \<Rightarrow> 's Service) \<Rightarrow> int \<Rightarrow> 's env \<times> 'svc ServerGrp \<Rightarrow> ('s env \<times> 'svc ServerGrp) go" where
  "StartServer rnd mks reflect i = (\<lambda>(e, sg).
     go_bind (slice_get (sg_srvs sg) i) (\<lambda>old.
     go_bind (startServer rnd (sg_gid sg) old e) (\<lambda>(e, srv).
     let (svcs, pers) = mks (sr_clntEnds srv) (sg_gid sg) i (the (sr_saved srv)) (e_pers e);
         labsrv = foldl (\<lambda>ls svc. AddService ls (reflect svc)) MakeServer svcs
     in Inr (e\<lparr>e_pers := pers, e_labs := e_labs e @ [labsrv],
               e_net := AddServer (e_net e) (ServerName (sg_gid sg) i) (length (e_labs e))\<rparr>,
             sg\<lparr>sg_srvs := (sg_srvs sg)[nat i := srv\<lparr>sr_svcs := svcs\<rparr>]\<rparr>))))"

definition start ::
  "(nat \<Rightarrow> string) \<Rightarrow> 'svc starter \<Rightarrow> ('svc \<Rightarrow> 's Service) \<Rightarrow> 's env \<times> 'svc ServerGrp \<Rightarrow> ('s env \<times> 'svc ServerGrp) go" where
  "start rnd mks reflect = (\<lambda>(e, sg). go_fold (StartServer rnd mks reflect) (sg_all sg) (e, sg))"

definition StartServers ::
  "(nat \<Rightarrow> string) \<Rightarrow> 'svc starter \<Rightarrow> ('svc \<Rightarrow> 's Service) \<Rightarrow> 's env \<times> 'svc ServerGrp \<Rightarrow> ('s env \<times> 'svc ServerGrp) go" where
  "StartServers rnd mks reflect s = go_bind (start rnd mks reflect s) (on_net sg_ConnectAll)"

definition ShutdownServer ::
  "('svc \<Rightarrow> Persister list \<Rightarrow> Persister list) \<Rightarrow> int \<Rightarrow> 's env \<times> 'svc ServerGrp \<Rightarrow> ('s env \<times> 'svc ServerGrp) go" where
  "ShutdownServer Kill i s =
     go_bind (on_net (sg_DisconnectAll i) s) (\<lambda>(e, sg).
     let e = e\<lparr>e_net := DeleteServer (e_net e) (ServerName (sg_gid sg) i)\<rparr> in
     go_bind (slice_get (sg_srvs sg) i) (\<lambda>old.
     let (e, srv) = shutdownServer Kill old e in
     Inr (e, sg\<lparr>sg_srvs := (sg_srvs sg)[nat i := srv]\<rparr>)))"

definition Shutdown ::
  "('svc \<Rightarrow> Persister list \<Rightarrow> Persister list) \<Rightarrow> 's env \<times> 'svc ServerGrp \<Rightarrow> ('s env \<times> 'svc ServerGrp) go" where
  "Shutdown Kill = (\<lambda>(e, sg). go_fold (ShutdownServer Kill) (sg_all sg) (e, sg))"

definition sg_cleanup :: "('svc \<Rightarrow> Persister list \<Rightarrow> Persister list) \<Rightarrow> 's env \<Rightarrow> 'svc ServerGrp \<Rightarrow> 's env" where
  "sg_cleanup Kill e sg = e\<lparr>e_pers := foldl (\<lambda>h svc. Kill svc h) (e_pers e) (concat (map sr_svcs (sg_srvs sg)))\<rparr>"

text \<open>A server that was never started has no persister: a nil dereference.\<close>

definition sg_max :: "(Persister \<Rightarrow> nat) \<Rightarrow> 's env \<Rightarrow> 'svc ServerGrp \<Rightarrow> nat go" where
  "sg_max sz e sg =
     go_fold (\<lambda>s m. case sr_saved s of
                      None \<Rightarrow> Inl Panic
                    | Some a \<Rightarrow> Inr (let n = sz (e_pers e ! a) in if n > m then n else m)) (sg_srvs sg) 0"

definition LogSize :: "'s env \<Rightarrow> 'svc ServerGrp \<Rightarrow> nat go" where
  "LogSize e sg = sg_max RaftStateSize e sg"

definition SnapshotSize :: "'s env \<Rightarrow> 'svc ServerGrp \<Rightarrow> nat go" where
  "SnapshotSize e sg = sg_max Persister_SnapshotSize e sg"

definition RpcCount :: "'s env \<Rightarrow> 'svc ServerGrp \<Rightarrow> int \<Rightarrow> int go" where
  "RpcCount e sg server =
     (case n_servers (e_net e) (ServerName (sg_gid sg) server) of
        None \<Rightarrow> Inl Panic
      | Some a \<Rightarrow> Inr (Server_GetCount (e_labs e ! a)))"

section \<open>Choosing a partition\<close>

definition MakePartition_step :: "int \<Rightarrow> int \<Rightarrow> int \<times> int list \<times> int list \<Rightarrow> (int \<times> int list \<times> int list) go" where
  "MakePartition_step l i = (\<lambda>(j, p1, p2).
     if i \<noteq> l
     then if j < int (length p1)
          then go_bind (slice_set p1 j i) (\<lambda>p1. Inr (j + 1, p1, p2))
          else go_bind (slice_set p2 (j - int (length p1)) i) (\<lambda>p2. Inr (j + 1, p1, p2))
     else Inr (j, p1, p2))"

definition MakePartition :: "'svc ServerGrp \<Rightarrow> int \<Rightarrow> (int list \<times> int list) go" where
  "MakePartition sg l =
     (let n = length (sg_srvs sg) in
      go_bind (go_fold (MakePartition_step l) (map int [0..<n]) (0, replicate (n div 2 + 1) 0, replicate (n div 2) 0))
        (\<lambda>(j, p1, p2). go_bind (slice_set p2 (int (length p2) - 1) l) (\<lambda>p2. Inr (p1, p2))))"

section \<open>All groups\<close>

record ('s, 'svc) Groups =
  gs_env :: "'s env"
  gs_grps :: "int \<Rightarrow> 'svc ServerGrp option"

definition newGroups :: "'s env \<Rightarrow> ('s, 'svc) Groups" where
  "newGroups e = \<lparr>gs_env = e, gs_grps = (\<lambda>_. None)\<rparr>"

definition MakeGroup :: "(nat \<Rightarrow> string) \<Rightarrow> int \<Rightarrow> nat \<Rightarrow> ('s, 'svc) Groups \<Rightarrow> ('s, 'svc) Groups go" where
  "MakeGroup rnd gid nsrv gs =
     go_bind (makeSrvGrp rnd gid nsrv (gs_env gs)) (\<lambda>(e, sg). Inr \<lparr>gs_env = e, gs_grps = (gs_grps gs)(gid \<mapsto> sg)\<rparr>)"

text \<open>A group that does not exist is a nil pointer, and every operation on it panics.\<close>

definition lookupGroup :: "('s, 'svc) Groups \<Rightarrow> int \<Rightarrow> 'svc ServerGrp go" where
  "lookupGroup gs gid = (case gs_grps gs gid of None \<Rightarrow> Inl Panic | Some sg \<Rightarrow> Inr sg)"

definition on_group ::
  "('s env \<times> 'svc ServerGrp \<Rightarrow> ('s env \<times> 'svc ServerGrp) go) \<Rightarrow> int \<Rightarrow> ('s, 'svc) Groups \<Rightarrow> ('s, 'svc) Groups go" where
  "on_group f gid gs =
     go_bind (lookupGroup gs gid) (\<lambda>sg.
     go_bind (f (gs_env gs, sg)) (\<lambda>(e, sg). Inr \<lparr>gs_env = e, gs_grps = (gs_grps gs)(gid \<mapsto> sg)\<rparr>))"

definition Groups_delete :: "('s, 'svc) Groups \<Rightarrow> int \<Rightarrow> ('s, 'svc) Groups" where
  "Groups_delete gs gid = gs\<lparr>gs_grps := (gs_grps gs)(gid := None)\<rparr>"

text \<open>Go ranges over the groups in any order; \<open>gids\<close> is the order taken.\<close>

definition Groups_cleanup ::
  "('svc \<Rightarrow> Persister list \<Rightarrow> Persister list) \<Rightarrow> int list \<Rightarrow> ('s, 'svc) Groups \<Rightarrow> ('s, 'svc) Groups" where
  "Groups_cleanup Kill gids gs =
     gs\<lparr>gs_env := foldl (\<lambda>e gid. case gs_grps gs gid of None \<Rightarrow> e | Some sg \<Rightarrow> sg_cleanup Kill e sg) (gs_env gs) gids\<rparr>"

definition MakeGroupStart ::
  "(nat \<Rightarrow> string) \<Rightarrow> 'svc starter \<Rightarrow> ('svc \<Rightarrow> 's Service) \<Rightarrow> int \<Rightarrow> nat \<Rightarrow> ('s, 'svc) Groups \<Rightarrow> ('s, 'svc) Groups go" where
  "MakeGroupStart rnd mks reflect gid nsrv gs =
     go_bind (MakeGroup rnd gid nsrv gs) (on_group (StartServers rnd mks reflect) gid)"

definition ExitGroup :: "('svc \<Rightarrow> Persister list \<Rightarrow> Persister list) \<Rightarrow> int \<Rightarrow> ('s, 'svc) Groups \<Rightarrow> ('s, 'svc) Groups go" where
  "ExitGroup Kill gid gs = go_bind (on_group (Shutdown Kill) gid gs) (\<lambda>gs. Inr (Groups_delete gs gid))"

end
