(* ===== verification/TesterClnt.thy ===== *)
theory TesterClnt
  imports Tester GoFiles
begin

text \<open>
  The clients of the test harness, \<^verbatim>\<open>src/tester1/clnts.go\<close>, and the configuration of a test,
  \<^verbatim>\<open>src/tester1/config.go\<close>.

  A client makes an end-point for a server the first time it calls the server. Its operations work on the network and
  the supply of names; the client itself is a value that they return updated. The map of end-points is an
  association list: the code ranges over it only to enable or disable all of them, and the result does not depend on
  the order.
\<close>

section \<open>Clients\<close>

record Clnt =
  cl_ends :: "(string \<times> string) list"
  cl_srvs :: "string list option"

definition makeClntTo :: "string list option \<Rightarrow> Clnt" where
  "makeClntTo srvs = \<lparr>cl_ends = [], cl_srvs = srvs\<rparr>"

fun allowed_in :: "string \<Rightarrow> string list \<Rightarrow> bool" where
  "allowed_in server [] = False"
| "allowed_in server (n # ns) = (if n = server then True else allowed_in server ns)"

definition allowedL :: "Clnt \<Rightarrow> string \<Rightarrow> bool" where
  "allowedL clnt server = (case cl_srvs clnt of None \<Rightarrow> True | Some ns \<Rightarrow> allowed_in server ns)"

definition Clnt_makeEnd :: "(nat \<Rightarrow> string) \<Rightarrow> string \<Rightarrow> Network \<times> nat \<times> Clnt \<Rightarrow> ((Network \<times> nat \<times> Clnt) \<times> string) go" where
  "Clnt_makeEnd rnd server = (\<lambda>(net, r, clnt).
     case map_of (cl_ends clnt) server of
       Some end \<Rightarrow> Inr ((net, r, clnt), end)
     | None \<Rightarrow>
         (let name = rnd r in
          go_bind (MakeEnd net name) (\<lambda>net.
          let net = Connect net name server;
              net = (if allowedL clnt server then Enable net name True else Enable net name False)
          in Inr ((net, Suc r, clnt\<lparr>cl_ends := (server, name) # cl_ends clnt\<rparr>), name))))"

definition Clnt_Call ::
  "('a \<Rightarrow> string) \<Rightarrow> (string \<Rightarrow> 'r \<Rightarrow> 'r) \<Rightarrow> (nat \<Rightarrow> string) \<Rightarrow> string \<Rightarrow> string \<Rightarrow> 'a \<Rightarrow> 'r \<Rightarrow> sched \<Rightarrow> 's world \<Rightarrow> nat \<Rightarrow> Clnt \<Rightarrow>
     ('s world \<times> nat \<times> Clnt \<times> 'r \<times> bool) go option" where
  "Clnt_Call encode decode rnd server meth args reply sd w r clnt =
     (case Clnt_makeEnd rnd server (w_net w, r, clnt) of
        Inl x \<Rightarrow> Some (Inl x)
      | Inr ((net, r, clnt), end) \<Rightarrow>
          (case ClientEnd_Call encode decode end meth args reply sd (w\<lparr>w_net := net\<rparr>) of
             None \<Rightarrow> None
           | Some (Inl x) \<Rightarrow> Some (Inl x)
           | Some (Inr (w, reply, ok)) \<Rightarrow> Some (Inr (w, r, clnt, reply, ok))))"

definition enable_ends :: "bool \<Rightarrow> (string \<times> string) list \<Rightarrow> Network \<Rightarrow> Network" where
  "enable_ends b ends net = foldl (\<lambda>net (s, name). Enable net name b) net ends"

definition Clnt_ConnectAll :: "Network \<times> nat \<times> Clnt \<Rightarrow> Network \<times> nat \<times> Clnt" where
  "Clnt_ConnectAll = (\<lambda>(net, r, clnt). (enable_ends True (cl_ends clnt) net, r, clnt\<lparr>cl_srvs := None\<rparr>))"

definition Clnt_DisconnectAll :: "Network \<times> nat \<times> Clnt \<Rightarrow> Network \<times> nat \<times> Clnt" where
  "Clnt_DisconnectAll = (\<lambda>(net, r, clnt). (enable_ends False (cl_ends clnt) net, r, clnt\<lparr>cl_srvs := Some []\<rparr>))"

text \<open>Files named like the end-points are removed, if there are any; the error is ignored.\<close>

definition Clnt_remove :: "Clnt \<Rightarrow> dir \<Rightarrow> dir" where
  "Clnt_remove clnt d = foldl (\<lambda>d (s, name). case os_Remove d name of None \<Rightarrow> d | Some d \<Rightarrow> d) d (cl_ends clnt)"

section \<open>All clients of a test\<close>

record Clnts =
  cs_store :: "Clnt list"
  cs_clerks :: "nat set"

definition makeClnts :: Clnts where
  "makeClnts = \<lparr>cs_store = [], cs_clerks = {}\<rparr>"

definition Clnts_makeEnd :: "(nat \<Rightarrow> string) \<Rightarrow> string \<Rightarrow> Network \<times> nat \<Rightarrow> ((Network \<times> nat) \<times> string) go" where
  "Clnts_makeEnd rnd servername = (\<lambda>(net, r).
     let name = rnd r in
     go_bind (MakeEnd net name) (\<lambda>net. Inr ((Enable (Connect net name servername) name True, Suc r), name)))"

definition MakeClientTo :: "string list option \<Rightarrow> Clnts \<Rightarrow> Clnts \<times> nat" where
  "MakeClientTo srvs clnts =
     (\<lparr>cs_store = cs_store clnts @ [makeClntTo srvs], cs_clerks = insert (length (cs_store clnts)) (cs_clerks clnts)\<rparr>,
      length (cs_store clnts))"

definition MakeClient :: "Clnts \<Rightarrow> Clnts \<times> nat" where
  "MakeClient clnts = MakeClientTo None clnts"

text \<open>Go ranges over the clients in any order; \<open>cs\<close> is the order taken.\<close>

definition Clnts_cleanup :: "nat list \<Rightarrow> Clnts \<Rightarrow> dir \<Rightarrow> dir" where
  "Clnts_cleanup cs clnts d = foldl (\<lambda>d c. Clnt_remove (cs_store clnts ! c) d) d cs"

definition DeleteClient :: "nat \<Rightarrow> Clnts \<Rightarrow> dir \<Rightarrow> Clnts \<times> dir" where
  "DeleteClient c clnts d = (clnts\<lparr>cs_clerks := cs_clerks clnts - {c}\<rparr>, Clnt_remove (cs_store clnts ! c) d)"

section \<open>A client reaches the servers it is allowed to reach\<close>

lemma allowed_in_set: "allowed_in server ns \<longleftrightarrow> server \<in> set ns"
  by (induction ns) auto

lemma enable_ends_eq:
  "enable_ends b ends net = net\<lparr>n_enabled := (\<lambda>x. if x \<in> snd ` set ends then b else n_enabled net x)\<rparr>"
proof (induction ends arbitrary: net)
  case (Cons a ends)
  obtain s name where a: "a = (s, name)" by (cases a)
  have f: "(\<lambda>x. if x \<in> snd ` set (a # ends) then b else n_enabled net x) =
      (\<lambda>x. if x \<in> snd ` set ends then b else n_enabled (Enable net name b) x)"
    using a by (auto simp: Enable_def)
  have "enable_ends b (a # ends) net = enable_ends b ends (Enable net name b)" using a by (simp add: enable_ends_def)
  then show ?case unfolding Cons f by (simp add: Enable_def)
qed (simp add: enable_ends_def)

lemma enable_ends_order: "mset ends = mset ends' \<Longrightarrow> enable_ends b ends net = enable_ends b ends' net"
  by (drule mset_eq_setD) (simp add: enable_ends_eq)

text \<open>
  Every end-point of the client leads to its server and is enabled exactly when the client is allowed to reach that
  server. The names drawn so far are the only end-points of the network.
\<close>

definition clnt_inv :: "(nat \<Rightarrow> string) \<Rightarrow> Network \<times> nat \<times> Clnt \<Rightarrow> bool" where
  "clnt_inv rnd = (\<lambda>(net, r, clnt).
     n_ends net \<subseteq> rnd ` {..<r} \<and> distinct (map snd (cl_ends clnt)) \<and> snd ` set (cl_ends clnt) \<subseteq> rnd ` {..<r} \<and>
     (\<forall>(s, name) \<in> set (cl_ends clnt). n_connections net name = Some s \<and> n_enabled net name = allowedL clnt s))"

lemma clnt_invI:
  assumes "n_ends net \<subseteq> rnd ` {..<r}" "distinct (map snd (cl_ends clnt))" "snd ` set (cl_ends clnt) \<subseteq> rnd ` {..<r}"
    and "\<And>s name. (s, name) \<in> set (cl_ends clnt) \<Longrightarrow> n_connections net name = Some s \<and> n_enabled net name = allowedL clnt s"
  shows "clnt_inv rnd (net, r, clnt)"
  using assms by (auto simp: clnt_inv_def)

lemma clnt_invD:
  assumes "clnt_inv rnd (net, r, clnt)"
  shows "n_ends net \<subseteq> rnd ` {..<r}" "distinct (map snd (cl_ends clnt))" "snd ` set (cl_ends clnt) \<subseteq> rnd ` {..<r}"
    "(s, name) \<in> set (cl_ends clnt) \<Longrightarrow> n_connections net name = Some s"
    "(s, name) \<in> set (cl_ends clnt) \<Longrightarrow> n_enabled net name = allowedL clnt s"
  using assms by (auto simp: clnt_inv_def)

text \<open>
  The life of a client; in between, the rest of the program draws more names and changes the network, but leaves
  this client's end-points alone.
\<close>

inductive clnt_reach :: "(nat \<Rightarrow> string) \<Rightarrow> Network \<times> nat \<times> Clnt \<Rightarrow> bool" for rnd where
  made: "n_ends net \<subseteq> rnd ` {..<r} \<Longrightarrow> clnt_reach rnd (net, r, makeClntTo srvs)"
| called: "clnt_reach rnd s \<Longrightarrow> Clnt_makeEnd rnd server s = Inr (s', name) \<Longrightarrow> clnt_reach rnd s'"
| connects: "clnt_reach rnd s \<Longrightarrow> clnt_reach rnd (Clnt_ConnectAll s)"
| disconnects: "clnt_reach rnd s \<Longrightarrow> clnt_reach rnd (Clnt_DisconnectAll s)"
| others: "clnt_reach rnd (net, r, clnt) \<Longrightarrow> r \<le> r' \<Longrightarrow> n_ends net' \<subseteq> rnd ` {..<r'} \<Longrightarrow>
    (\<And>x. x \<in> snd ` set (cl_ends clnt) \<Longrightarrow>
      n_enabled net' x = n_enabled net x \<and> n_connections net' x = n_connections net x) \<Longrightarrow>
    clnt_reach rnd (net', r', clnt)"

lemma allowedL_ends [simp]: "allowedL (clnt\<lparr>cl_ends := ends\<rparr>) = allowedL clnt"
  by (simp add: allowedL_def fun_eq_iff)

lemma Clnt_makeEnd_spec:
  assumes "inj rnd" "clnt_inv rnd (net, r, clnt)"
  shows "\<exists>net' r' clnt' name. Clnt_makeEnd rnd server (net, r, clnt) = Inr ((net', r', clnt'), name) \<and>
    clnt_inv rnd (net', r', clnt') \<and> n_enabled net' name = allowedL clnt server \<and>
    n_connections net' name = Some server \<and> n_done net' = n_done net"
proof (cases "map_of (cl_ends clnt) server")
  case (Some name)
  note m = map_of_SomeD [OF Some]
  have "Clnt_makeEnd rnd server (net, r, clnt) = Inr ((net, r, clnt), name)" using Some by (simp add: Clnt_makeEnd_def)
  with assms(2) clnt_invD(4,5) [OF assms(2) m] show ?thesis by blast
next
  case None
  note inv = clnt_invD [OF assms(2)]
  let ?net = "net\<lparr>n_ends := insert (rnd r) (n_ends net), n_enabled := (n_enabled net)(rnd r := allowedL clnt server),
      n_connections := (n_connections net)(rnd r := Some server)\<rparr>"
  let ?clnt = "clnt\<lparr>cl_ends := (server, rnd r) # cl_ends clnt\<rparr>"
  have new: "rnd r \<notin> rnd ` {..<r}" using inj_eq [OF assms(1)] by auto
  have old: "rnd r \<notin> snd ` set (cl_ends clnt)" using inv(3) new by blast
  have "rnd r \<notin> n_ends net" using inv(1) new by blast
  then have m: "Clnt_makeEnd rnd server (net, r, clnt) = Inr ((?net, Suc r, ?clnt), rnd r)"
    using None by (simp add: Clnt_makeEnd_def MakeEnd_def Connect_def Enable_def Let_def)
  have up: "rnd ` {..<Suc r} = insert (rnd r) (rnd ` {..<r})" by (simp add: lessThan_Suc)
  have "clnt_inv rnd (?net, Suc r, ?clnt)"
  proof (rule clnt_invI)
    show "n_ends ?net \<subseteq> rnd ` {..<Suc r}" "snd ` set (cl_ends ?clnt) \<subseteq> rnd ` {..<Suc r}"
      unfolding up using inv(1,3) by auto
    show "distinct (map snd (cl_ends ?clnt))" using inv(2) old by simp
    fix s name assume a: "(s, name) \<in> set (cl_ends ?clnt)"
    show "n_connections ?net name = Some s \<and> n_enabled ?net name = allowedL ?clnt s"
    proof (cases "(s, name) = (server, rnd r)")
      case False
      with a have "(s, name) \<in> set (cl_ends clnt)" by auto
      moreover from this old have "name \<noteq> rnd r" by (metis image_eqI snd_conv)
      ultimately show ?thesis using inv(4,5) by simp
    qed simp
  qed
  with m show ?thesis by (intro exI [of _ ?net] exI [of _ "Suc r"] exI [of _ ?clnt] exI [of _ "rnd r"]) simp
qed

lemma set_all_inv:
  assumes "clnt_inv rnd (net, r, clnt)" "\<And>s. allowedL (clnt\<lparr>cl_srvs := srvs\<rparr>) s = b"
  shows "clnt_inv rnd (enable_ends b (cl_ends clnt) net, r, clnt\<lparr>cl_srvs := srvs\<rparr>)"
proof (rule clnt_invI)
  note inv = clnt_invD [OF assms(1)]
  show "n_ends (enable_ends b (cl_ends clnt) net) \<subseteq> rnd ` {..<r}" using inv(1) by (simp add: enable_ends_eq)
  show "distinct (map snd (cl_ends (clnt\<lparr>cl_srvs := srvs\<rparr>)))" "snd ` set (cl_ends (clnt\<lparr>cl_srvs := srvs\<rparr>)) \<subseteq> rnd ` {..<r}"
    using inv(2,3) by simp_all
  fix s name assume "(s, name) \<in> set (cl_ends (clnt\<lparr>cl_srvs := srvs\<rparr>))"
  then have a: "(s, name) \<in> set (cl_ends clnt)" by simp
  then have "name \<in> snd ` set (cl_ends clnt)" by (metis image_eqI snd_conv)
  with inv(4) [OF a] assms(2)
  show "n_connections (enable_ends b (cl_ends clnt) net) name = Some s \<and>
      n_enabled (enable_ends b (cl_ends clnt) net) name = allowedL (clnt\<lparr>cl_srvs := srvs\<rparr>) s"
    by (simp add: enable_ends_eq)
qed

lemma clnt_reach_inv:
  assumes "inj rnd" "clnt_reach rnd s"
  shows "clnt_inv rnd s"
  using assms(2)
proof induction
  case (made net r srvs)
  then show ?case by (simp add: clnt_inv_def makeClntTo_def)
next
  case (called s server s' name)
  obtain net r clnt where s: "s = (net, r, clnt)" by (cases s)
  from Clnt_makeEnd_spec [OF assms(1) called(3) [unfolded s], of server] obtain net' r' clnt' name' where
    "Clnt_makeEnd rnd server s = Inr ((net', r', clnt'), name')" "clnt_inv rnd (net', r', clnt')"
    unfolding s by blast
  with called(2) show ?case by simp
next
  case (connects s)
  obtain net r clnt where s: "s = (net, r, clnt)" by (cases s)
  show ?case unfolding s Clnt_ConnectAll_def prod.case
    using set_all_inv [OF connects(2) [unfolded s]] by (simp add: allowedL_def)
next
  case (disconnects s)
  obtain net r clnt where s: "s = (net, r, clnt)" by (cases s)
  show ?case unfolding s Clnt_DisconnectAll_def prod.case
    using set_all_inv [OF disconnects(2) [unfolded s]] by (simp add: allowedL_def)
next
  case (others net r clnt r' net')
  note inv = clnt_invD [OF others(5)]
  have "rnd ` {..<r} \<subseteq> rnd ` {..<r'}" using others(2) by (intro image_mono) auto
  with inv(3) have "snd ` set (cl_ends clnt) \<subseteq> rnd ` {..<r'}" by (rule order_trans)
  with others(3) inv(2) show ?case
  proof (rule clnt_invI)
    fix s name assume a: "(s, name) \<in> set (cl_ends clnt)"
    then have "name \<in> snd ` set (cl_ends clnt)" by (metis image_eqI snd_conv)
    with others(4) inv(4,5) [OF a] show "n_connections net' name = Some s \<and> n_enabled net' name = allowedL clnt s" by simp
  qed
qed

lemma disabled_call_fails:
  assumes "\<not> n_enabled (w_net w) e"
  shows "\<exists>w'. ClientEnd_Call encode decode e meth args reply sd w = Some (Inr (w', reply, False)) \<and>
    w_st w' = w_st w \<and> w_srv w' = w_srv w"
proof (cases "n_done (w_net w) \<and> \<not> sd_sent sd")
  case False
  let ?req = "\<lparr>rq_endname = e, rq_svcMeth = meth, rq_args = encode args\<rparr>"
  let ?w = "w\<lparr>w_net := MakeNetwork_serve (w_net w) ?req\<rparr>"
  have "processReq ?w ?req sd = Some (Inr (?w\<lparr>w_net := sd_net sd\<rparr>, failed_reply))"
    by (rule cut_off_fails) (use assms in \<open>simp add: MakeNetwork_serve_def\<close>)
  with False show ?thesis by (auto simp: ClientEnd_Call_def Let_def)
qed (auto simp: ClientEnd_Call_def Let_def)

text \<open>
  A client reaches exactly the servers it is allowed to reach. Take a client in any state that its calls, \<open>ConnectAll\<close>
  and \<open>DisconnectAll\<close> can bring about, with end-point names that never repeat. A call to a server goes out through an
  end-point that is connected to that server, and enabled if and only if the server is allowed. If it
  is not allowed, the call returns false, the reply variable is untouched, and no handler runs.
\<close>

lemma clnt_reaches_only_allowed:
  assumes "inj rnd" and "clnt_reach rnd (w_net w, r, clnt)"
  shows "\<exists>net' r' clnt' name. Clnt_makeEnd rnd server (w_net w, r, clnt) = Inr ((net', r', clnt'), name) \<and>
    n_connections net' name = Some server \<and> n_enabled net' name = allowedL clnt server \<and>
    (\<not> allowedL clnt server \<longrightarrow>
      (\<exists>w'. Clnt_Call encode decode rnd server meth args reply sd w r clnt = Some (Inr (w', r', clnt', reply, False)) \<and>
         w_st w' = w_st w \<and> w_srv w' = w_srv w))"
proof -
  from Clnt_makeEnd_spec [OF assms(1) clnt_reach_inv [OF assms]] obtain net' r' clnt' name where
    m: "Clnt_makeEnd rnd server (w_net w, r, clnt) = Inr ((net', r', clnt'), name)"
    and e: "n_enabled net' name = allowedL clnt server" "n_connections net' name = Some server" by blast
  have "\<exists>w'. Clnt_Call encode decode rnd server meth args reply sd w r clnt = Some (Inr (w', r', clnt', reply, False)) \<and>
      w_st w' = w_st w \<and> w_srv w' = w_srv w" if "\<not> allowedL clnt server"
    using disabled_call_fails [of "w\<lparr>w_net := net'\<rparr>" name encode decode meth args reply sd] that e(1) m
    by (auto simp: Clnt_Call_def)
  with m e show ?thesis by blast
qed

lemma clnt_reaches_only_allowed_example:
  "\<exists>w' r' clnt'. Clnt_Call (\<lambda>_ :: unit. '''') (\<lambda>_ x. x) digits ''server-0-1'' ''KVServer.Get'' () (7 :: nat)
       \<lparr>sd_drop_request = 500, sd_drop_reply = 500, sd_reorder = 0, sd_events = [HandlerDone], sd_late = False, sd_sent = True,
         sd_net = MakeNetwork\<rparr>
       \<lparr>w_net = MakeNetwork, w_srv = (\<lambda>_. MakeServer), w_st = (0 :: nat)\<rparr> 0 (makeClntTo (Some [''server-0-0''])) =
     Some (Inr (w', r', clnt', 7, False)) \<and> w_st w' = 0"
proof -
  have "inj digits" by (auto intro!: injI dest: digits_inj)
  moreover have "clnt_reach digits (w_net \<lparr>w_net = MakeNetwork, w_srv = (\<lambda>_. MakeServer), w_st = (0 :: nat)\<rparr>, 0,
      makeClntTo (Some [''server-0-0'']))"
    by (simp add: clnt_reach.made MakeNetwork_def)
  moreover have "\<not> allowedL (makeClntTo (Some [''server-0-0''])) ''server-0-1''"
    by (simp add: allowedL_def makeClntTo_def)
  ultimately show ?thesis
    using clnt_reaches_only_allowed [of digits "\<lparr>w_net = MakeNetwork, w_srv = (\<lambda>_. MakeServer), w_st = (0 :: nat)\<rparr>" 0
        "makeClntTo (Some [''server-0-0''])" "''server-0-1''" "\<lambda>_ :: unit. ''''" "\<lambda>_ x. x" "''KVServer.Get''" "()" 7]
    by fastforce
qed

section \<open>The configuration of a test\<close>

text \<open>Times are in nanoseconds, read from a clock that is passed in; the supply of names, the services and the order
  of iteration are parameters as before. \<open>Fatalf\<close> and a failed check end the test.\<close>

definition GRP0 :: int where "GRP0 = 0"

record ('s, 'svc) Config =
  cf_groups :: "('s, 'svc) Groups"
  cf_clnts :: Clnts
  cf_start :: int
  cf_t0 :: int
  cf_rpcs0 :: int
  cf_ops :: "32 word"
  cf_failed :: bool

abbreviation cf_net :: "('s, 'svc) Config \<Rightarrow> Network" where
  "cf_net cfg \<equiv> e_net (gs_env (cf_groups cfg))"

definition set_net :: "(Network \<Rightarrow> Network) \<Rightarrow> ('s, 'svc) Config \<Rightarrow> ('s, 'svc) Config" where
  "set_net f cfg = cfg\<lparr>cf_groups := (cf_groups cfg)\<lparr>gs_env := (gs_env (cf_groups cfg))\<lparr>e_net := f (cf_net cfg)\<rparr>\<rparr>\<rparr>"

definition MakeConfig ::
  "(nat \<Rightarrow> string) \<Rightarrow> 'svc starter \<Rightarrow> ('svc \<Rightarrow> 's Service) \<Rightarrow> nat \<Rightarrow> bool \<Rightarrow> int \<Rightarrow> ('s, 'svc) Config go" where
  "MakeConfig rnd mks reflect n reliable now =
     go_bind (MakeGroupStart rnd mks reflect GRP0 n (newGroups \<lparr>e_net = MakeNetwork, e_rnd = 0, e_pers = [], e_labs = []\<rparr>))
       (\<lambda>gs. Inr (set_net (\<lambda>net. Reliable net reliable)
               \<lparr>cf_groups = gs, cf_clnts = makeClnts, cf_start = now, cf_t0 = 0, cf_rpcs0 = 0, cf_ops = 0, cf_failed = False\<rparr>))"

definition SetReliable :: "bool \<Rightarrow> ('s, 'svc) Config \<Rightarrow> ('s, 'svc) Config" where
  "SetReliable reliable = set_net (\<lambda>net. Reliable net reliable)"

definition Config_IsReliable :: "('s, 'svc) Config \<Rightarrow> bool" where
  "Config_IsReliable cfg = IsReliable (cf_net cfg)"

definition SetLongReordering :: "bool \<Rightarrow> ('s, 'svc) Config \<Rightarrow> ('s, 'svc) Config" where
  "SetLongReordering longrel = set_net (\<lambda>net. LongReordering net longrel)"

definition SetLongDelays :: "bool \<Rightarrow> ('s, 'svc) Config \<Rightarrow> ('s, 'svc) Config" where
  "SetLongDelays longdel = set_net (\<lambda>net. LongDelays net longdel)"

definition Config_Group :: "('s, 'svc) Config \<Rightarrow> int \<Rightarrow> 'svc ServerGrp go" where
  "Config_Group cfg gid = lookupGroup (cf_groups cfg) gid"

definition RpcTotal :: "('s, 'svc) Config \<Rightarrow> int" where
  "RpcTotal cfg = GetTotalCount (cf_net cfg)"

definition BytesTotal :: "('s, 'svc) Config \<Rightarrow> 64 word" where
  "BytesTotal cfg = GetTotalBytes (cf_net cfg)"

definition Begin :: "int \<Rightarrow> ('s, 'svc) Config \<Rightarrow> ('s, 'svc) Config" where
  "Begin now cfg = cfg\<lparr>cf_t0 := now, cf_rpcs0 := RpcTotal cfg, cf_ops := 0\<rparr>"

definition Op :: "('s, 'svc) Config \<Rightarrow> ('s, 'svc) Config" where
  "Op cfg = cfg\<lparr>cf_ops := cf_ops cfg + 1\<rparr>"

definition CheckTimeout :: "int \<Rightarrow> ('s, 'svc) Config \<Rightarrow> ('s, 'svc) Config go" where
  "CheckTimeout now cfg =
     (if \<not> cf_failed cfg \<and> now - cf_start cfg > 120 * 1000000000 then Inl Fatal else Inr cfg)"

text \<open>\<open>End\<close>: what is printed for a test that has passed: nanoseconds, servers, RPCs and operations.\<close>

definition End :: "int \<Rightarrow> ('s, 'svc) Config \<Rightarrow> (int \<times> nat \<times> int \<times> int) option go" where
  "End now cfg =
     go_bind (CheckTimeout now cfg) (\<lambda>cfg.
     if cf_failed cfg = False
     then go_bind (Config_Group cfg GRP0) (\<lambda>g.
          Inr (Some (now - cf_t0 cfg, sg_N g, RpcTotal cfg - cf_rpcs0 cfg, sint (cf_ops cfg))))
     else Inr None)"

definition Config_Cleanup ::
  "('svc \<Rightarrow> Persister list \<Rightarrow> Persister list) \<Rightarrow> int list \<Rightarrow> nat list \<Rightarrow> int \<Rightarrow> ('s, 'svc) Config \<Rightarrow> dir \<Rightarrow> (('s, 'svc) Config \<times> dir) go" where
  "Config_Cleanup Kill gids cs now cfg d =
     (let d = Clnts_cleanup cs (cf_clnts cfg) d;
          cfg = cfg\<lparr>cf_groups := Groups_cleanup Kill gids (cf_groups cfg)\<rparr>
      in go_bind (Cleanup (cf_net cfg)) (\<lambda>net.
         go_bind (CheckTimeout now (set_net (\<lambda>_. net) cfg)) (\<lambda>cfg. Inr (cfg, d))))"

section \<open>Random strings and handles\<close>

text \<open>
  \<open>base64.URLEncoding\<close> with padding: three bytes are four characters. The random bytes and the
  random indices are arguments.
\<close>

definition b64_alphabet :: string where
  "b64_alphabet = ''ABCDEFGHIJKLMNOPQRSTUVWXYZabcdefghijklmnopqrstuvwxyz0123456789-_''"

definition b64 :: "nat \<Rightarrow> char" where
  "b64 i = b64_alphabet ! (i mod 64)"

fun base64_URL :: "string \<Rightarrow> string" where
  "base64_URL [] = []"
| "base64_URL [a] = (let v = of_char a * 65536 in [b64 (v div 262144), b64 (v div 4096), CHR ''='', CHR ''=''])"
| "base64_URL [a, b] =
     (let v = of_char a * 65536 + of_char b * 256 in [b64 (v div 262144), b64 (v div 4096), b64 (v div 64), CHR ''=''])"
| "base64_URL (a # b # c # rest) =
     (let v = of_char a * 65536 + of_char b * 256 + of_char c
      in b64 (v div 262144) # b64 (v div 4096) # b64 (v div 64) # b64 v # base64_URL rest)"

definition Randstring :: "nat \<Rightarrow> string \<Rightarrow> string go" where
  "Randstring n bytes = (let s = base64_URL bytes in if n \<le> length s then Inr (take n s) else Inl Panic)"

definition swap_handles :: "(nat \<Rightarrow> nat) \<Rightarrow> 'e list \<Rightarrow> nat \<Rightarrow> 'e list" where
  "swap_handles js sa i = (let j = js i in sa[i := sa ! j, j := sa ! i])"

definition random_handles :: "(nat \<Rightarrow> nat) \<Rightarrow> 'e list \<Rightarrow> 'e list" where
  "random_handles js kvh = foldl (swap_handles js) kvh [0..<length kvh]"

lemma b64_in: "b64 i \<in> set b64_alphabet"
  unfolding b64_def by (rule nth_mem) (simp add: b64_alphabet_def)

lemma base64_URL_length: "3 * length (base64_URL bs) \<ge> 4 * length bs"
  by (induction bs rule: base64_URL.induct) (auto simp: Let_def)

lemma set_take_1: "k \<le> 1 \<Longrightarrow> set (take k (x # xs)) \<subseteq> {x}"
  by (auto simp: take_Cons' split: if_splits)

lemma set_take_2: "k \<le> 2 \<Longrightarrow> set (take k (x # y # xs)) \<subseteq> {x, y}"
  by (auto simp: take_Cons' split: if_splits)

lemma set_take_4: "set (take k (w # x # y # z # zs)) \<subseteq> {w, x, y, z} \<union> set (take (k - 4) zs)"
  by (auto simp: take_Cons' eval_nat_numeral split: if_splits)

lemma base64_URL_prefix: "3 * k \<le> 4 * length bs \<Longrightarrow> set (take k (base64_URL bs)) \<subseteq> set b64_alphabet"
proof (induction bs arbitrary: k rule: base64_URL.induct)
  case (2 a)
  then have "k \<le> 1" by simp
  show ?case unfolding base64_URL.simps Let_def
    by (rule order_trans [OF set_take_1 [OF \<open>k \<le> 1\<close>]]) (simp only: insert_subset b64_in, simp)
next
  case (3 a b)
  then have "k \<le> 2" by simp
  show ?case unfolding base64_URL.simps Let_def
    by (rule order_trans [OF set_take_2 [OF \<open>k \<le> 2\<close>]]) (simp only: insert_subset b64_in, simp)
next
  case (4 a b c rest)
  from 4(2) have r: "3 * (k - 4) \<le> 4 * length rest" by simp
  show ?case unfolding base64_URL.simps Let_def
    by (rule order_trans [OF set_take_4]) (simp only: insert_subset Un_insert_left Un_empty_left b64_in 4(1) [OF refl r] simp_thms)
qed simp

text \<open>
  C40: a random name has the length asked for. With the twice as many random bytes that the code draws, the
  slice of the encoding is within bounds, the name has \<open>n\<close> characters, and they are all characters of the URL alphabet:
  the padding is never part of it.
\<close>

theorem randstring_bounds:
  assumes "length bytes = 2 * n"
  shows "\<exists>s. Randstring n bytes = Inr s \<and> length s = n \<and> set s \<subseteq> set b64_alphabet"
proof -
  have "n \<le> length (base64_URL bytes)" using base64_URL_length [of bytes] assms by simp
  moreover have "set (take n (base64_URL bytes)) \<subseteq> set b64_alphabet" by (rule base64_URL_prefix) (simp add: assms)
  ultimately show ?thesis by (simp add: Randstring_def)
qed

theorem randstring_bounds_witness:
  "\<exists>s. Randstring 2 ''Man!'' = Inr s \<and> length s = 2 \<and> set s \<subseteq> set b64_alphabet"
  by (rule randstring_bounds) simp

lemma swap_handles_mset:
  "js i \<le> i \<Longrightarrow> i < length sa \<Longrightarrow> mset (swap_handles js sa i) = mset sa \<and> length (swap_handles js sa i) = length sa"
  unfolding swap_handles_def Let_def by (simp add: mset_swap)

lemma random_handles_permutes:
  assumes "\<And>i. js i \<le> i"
  shows "mset (random_handles js kvh) = mset kvh"
proof -
  have "k \<le> length kvh \<Longrightarrow> mset (foldl (swap_handles js) kvh [0..<k]) = mset kvh \<and>
      length (foldl (swap_handles js) kvh [0..<k]) = length kvh" for k
    by (induction k) (simp_all add: swap_handles_mset assms)
  then show ?thesis by (simp add: random_handles_def)
qed

end
