(* ===== verification/KvTest.thy ===== *)
theory KvTest
  imports KVClerk GoJson TesterClnt
begin

text \<open>
  The library of the key/value tests, \<^verbatim>\<open>src/kvtest1/kvtest.go\<close> and \<^verbatim>\<open>src/kvtest1/porcupine.go\<close>: logged
  clerk operations, the client programs that tests run concurrently, and the checks on what they leave behind.

  A clerk is the interface \<open>IKVClerk\<close>, two functions on a world that holds the servers and the network. The outer option
  of a result is a loop or a call that does not return; \<open>Fatal\<close> is the failure of the test. The clock and random numbers
  are arguments. Where a client program is used both alone and in a system of many clients, the code between two clerk
  calls is a definition of its own.
\<close>

section \<open>The operation log\<close>

type_synonym OpLog = "Operation list"

definition OpLog_Len :: "OpLog \<Rightarrow> int" where
  "OpLog_Len log = int (length log)"

definition OpLog_Append :: "OpLog \<Rightarrow> Operation \<Rightarrow> OpLog" where
  "OpLog_Append log oper = log @ [oper]"

definition OpLog_Read :: "OpLog \<Rightarrow> Operation list" where
  "OpLog_Read log = log"

section \<open>Clerks and tests\<close>

record 'w IKVClerk =
  ik_Get :: "string \<Rightarrow> 'w \<Rightarrow> ((string \<times> Tversion \<times> Err) \<times> 'w) option"
  ik_Put :: "string \<Rightarrow> string \<Rightarrow> Tversion \<Rightarrow> 'w \<Rightarrow> (Err \<times> 'w) option"

text \<open>A test: the world, the configuration's count of operations, and the log, which may be nil.\<close>

record 'w Test =
  ts_world :: 'w
  ts_ops :: int
  ts_oplog :: "OpLog option"

definition MakeTest :: "'w \<Rightarrow> 'w Test" where
  "MakeTest w = \<lparr>ts_world = w, ts_ops = 0, ts_oplog = Some []\<rparr>"

type_synonym ('a, 'w) run = "('a \<times> 'w Test) go option"

definition run_bind :: "('a, 'w) run \<Rightarrow> ('a \<Rightarrow> 'w Test \<Rightarrow> ('b, 'w) run) \<Rightarrow> ('b, 'w) run" where
  "run_bind r f = (case r of None \<Rightarrow> None | Some (Inl e) \<Rightarrow> Some (Inl e) | Some (Inr (a, ts)) \<Rightarrow> f a ts)"

text \<open>A computation without clerk calls, in a run.\<close>

definition run_lift :: "'a go \<Rightarrow> 'w Test \<Rightarrow> ('a, 'w) run" where
  "run_lift x ts = Some (map_sum id (\<lambda>a. (a, ts)) x)"

text \<open>
  \<open>ts.Get\<close> and \<open>ts.Put\<close>. The functions \<open>Get\<close> and \<open>Put\<close> of the package have the same text, with the configuration and the
  log as arguments; all their callers pass those of the test.
\<close>

definition Test_Get :: "('w \<Rightarrow> int) \<Rightarrow> 'w IKVClerk \<Rightarrow> string \<Rightarrow> int \<Rightarrow> 'w Test \<Rightarrow> (string \<times> Tversion \<times> Err, 'w) run" where
  "Test_Get clock ck key cli ts =
     (let start = clock (ts_world ts)
      in case ik_Get ck key (ts_world ts) of
           None \<Rightarrow> None
         | Some ((val, ver, err), w) \<Rightarrow>
             (let oper = \<lparr>op_Input = \<lparr>ki_Op = 0, ki_Key = key, ki_Value = '''', ki_Version = 0\<rparr>,
                          op_Output = \<lparr>ko_Value = val, ko_Version = ver, ko_Err = err\<rparr>,
                          op_Call = start, op_Return = clock w, op_ClientId = cli\<rparr>
              in Some (Inr ((val, ver, err),
                   \<lparr>ts_world = w, ts_ops = ts_ops ts + 1,
                    ts_oplog = map_option (\<lambda>log. OpLog_Append log oper) (ts_oplog ts)\<rparr>))))"

definition Test_Put ::
  "('w \<Rightarrow> int) \<Rightarrow> 'w IKVClerk \<Rightarrow> string \<Rightarrow> string \<Rightarrow> Tversion \<Rightarrow> int \<Rightarrow> 'w Test \<Rightarrow> (Err, 'w) run" where
  "Test_Put clock ck key val ver cli ts =
     (let start = clock (ts_world ts)
      in case ik_Put ck key val ver (ts_world ts) of
           None \<Rightarrow> None
         | Some (err, w) \<Rightarrow>
             (let oper = \<lparr>op_Input = \<lparr>ki_Op = 1, ki_Key = key, ki_Value = val, ki_Version = ver\<rparr>,
                          op_Output = \<lparr>ko_Value = '''', ko_Version = 0, ko_Err = err\<rparr>,
                          op_Call = start, op_Return = clock w, op_ClientId = cli\<rparr>
              in Some (Inr (err,
                   \<lparr>ts_world = w, ts_ops = ts_ops ts + 1,
                    ts_oplog = map_option (\<lambda>log. OpLog_Append log oper) (ts_oplog ts)\<rparr>))))"

definition kvtest_Get :: "('w \<Rightarrow> int) \<Rightarrow> 'w IKVClerk \<Rightarrow> string \<Rightarrow> int \<Rightarrow> 'w Test \<Rightarrow> (string \<times> Tversion \<times> Err, 'w) run" where
  "kvtest_Get = Test_Get"

definition kvtest_Put ::
  "('w \<Rightarrow> int) \<Rightarrow> 'w IKVClerk \<Rightarrow> string \<Rightarrow> string \<Rightarrow> Tversion \<Rightarrow> int \<Rightarrow> 'w Test \<Rightarrow> (Err, 'w) run" where
  "kvtest_Put = Test_Put"

text \<open>The verdict of the linearizability checker is a parameter: the history, or the partition of it, goes to third-party code.\<close>

datatype CheckResult = CheckOk | CheckIllegal | CheckUnknown

definition checkPorcupine :: "(Operation list \<Rightarrow> CheckResult) \<Rightarrow> OpLog \<Rightarrow> unit go" where
  "checkPorcupine check opLog = (if check (OpLog_Read opLog) = CheckIllegal then Inl Fatal else Inr ())"

section \<open>Single operations\<close>

partial_function (option) PutAtLeastOnce ::
  "('w \<Rightarrow> int) \<Rightarrow> 'w IKVClerk \<Rightarrow> string \<Rightarrow> string \<Rightarrow> Tversion \<Rightarrow> int \<Rightarrow> 'w Test \<Rightarrow> (Tversion, 'w) run" where
  "PutAtLeastOnce clock ck key val ver me ts =
     (case Test_Put clock ck key val ver me ts of
        None \<Rightarrow> None
      | Some (Inl e) \<Rightarrow> Some (Inl e)
      | Some (Inr (err, ts)) \<Rightarrow>
          if err = OK then Some (Inr (ver, ts)) else PutAtLeastOnce clock ck key val (ver + 1) me ts)"

text \<open>The second test of the condition compares the version that was read with itself.\<close>

definition CheckGet_got :: "string \<Rightarrow> Tversion \<Rightarrow> string \<times> Tversion \<times> Err \<Rightarrow> unit go" where
  "CheckGet_got val0 version = (\<lambda>(val, ver, err).
     if err \<noteq> OK then Inl Fatal else if val \<noteq> val0 \<or> ver \<noteq> ver then Inl Fatal else Inr ())"

definition CheckGet :: "('w \<Rightarrow> int) \<Rightarrow> 'w IKVClerk \<Rightarrow> string \<Rightarrow> string \<Rightarrow> Tversion \<Rightarrow> 'w Test \<Rightarrow> (unit, 'w) run" where
  "CheckGet clock ck key val version ts =
     run_bind (Test_Get clock ck key 0 ts) (\<lambda>r. run_lift (CheckGet_got val version r))"

text \<open>\<open>GetJson\<close> after its \<open>Get\<close>; \<open>unmarshal\<close> is the decoder for the type of its last argument.\<close>

definition GetJson_got :: "(string \<Rightarrow> 'a option) \<Rightarrow> string \<times> Tversion \<times> Err \<Rightarrow> ('a \<times> Tversion) go" where
  "GetJson_got unmarshal = (\<lambda>(val, ver, err).
     if err = OK then (case unmarshal val of None \<Rightarrow> Inl Fatal | Some v \<Rightarrow> Inr (v, ver)) else Inl Fatal)"

definition GetJson ::
  "('w \<Rightarrow> int) \<Rightarrow> (string \<Rightarrow> 'a option) \<Rightarrow> 'w IKVClerk \<Rightarrow> string \<Rightarrow> int \<Rightarrow> 'w Test \<Rightarrow> ('a \<times> Tversion, 'w) run" where
  "GetJson clock unmarshal ck key me ts =
     run_bind (kvtest_Get clock ck key me ts) (\<lambda>r. run_lift (GetJson_got unmarshal r))"

text \<open>\<open>marshal\<close> does not fail on the types it is used with.\<close>

definition PutJson ::
  "('w \<Rightarrow> int) \<Rightarrow> ('a \<Rightarrow> string) \<Rightarrow> 'w IKVClerk \<Rightarrow> string \<Rightarrow> 'a \<Rightarrow> Tversion \<Rightarrow> int \<Rightarrow> 'w Test \<Rightarrow> (Err, 'w) run" where
  "PutJson clock marshal ck key v ver me ts = kvtest_Put clock ck key (marshal v) ver me ts"

partial_function (option) PutAtLeastOnceJson ::
  "('w \<Rightarrow> int) \<Rightarrow> ('a \<Rightarrow> string) \<Rightarrow> 'w IKVClerk \<Rightarrow> string \<Rightarrow> 'a \<Rightarrow> Tversion \<Rightarrow> int \<Rightarrow> 'w Test \<Rightarrow> (Tversion, 'w) run" where
  "PutAtLeastOnceJson clock marshal ck key v ver me ts =
     (case PutJson clock marshal ck key v 0 me ts of
        None \<Rightarrow> None
      | Some (Inl e) \<Rightarrow> Some (Inl e)
      | Some (Inr (err, ts)) \<Rightarrow>
          if err \<noteq> ErrMaybe then Some (Inr (ver, ts))
          else PutAtLeastOnceJson clock marshal ck key v (ver + 1) me ts)"

section \<open>Clients that put\<close>

record EntryV =
  ev_Id :: int
  ev_V :: Tversion

definition marshal_EntryV :: "EntryV \<Rightarrow> string" where
  "marshal_EntryV e = json_pair ''Id'' ''V'' (ev_Id e, uint (ev_V e))"

definition unmarshal_EntryV :: "string \<Rightarrow> EntryV option" where
  "unmarshal_EntryV s =
     (case unjson_pair ''Id'' ''V'' s of
        None \<Rightarrow> None
      | Some (x, y) \<Rightarrow> if 0 \<le> y \<and> y < 2 ^ 64 then Some \<lparr>ev_Id = x, ev_V = word_of_int y\<rparr> else None)"

text \<open>\<open>OnePut\<close> after its \<open>Put\<close>, and after its \<open>Get\<close>: the new version, and what to return, or \<open>None\<close> to try again.\<close>

definition OnePut_put :: "Err \<Rightarrow> unit go" where
  "OnePut_put err = (if \<not> (err = OK \<or> err = ErrVersion \<or> err = ErrMaybe) then Inl Fatal else Inr ())"

definition OnePut_got :: "int \<Rightarrow> Tversion \<Rightarrow> Err \<Rightarrow> EntryV \<times> Tversion \<Rightarrow> (Tversion \<times> bool option) go" where
  "OnePut_got me ver err = (\<lambda>(e, ver0).
     if err = OK \<and> ver0 = ver + 1 \<and> ev_Id e \<noteq> me \<and> ev_V e \<noteq> ver then Inl Fatal
     else Inr (ver0, if err = OK \<or> err = ErrMaybe then Some (err = OK) else None))"

definition OnePut_round ::
  "('w \<Rightarrow> int) \<Rightarrow> int \<Rightarrow> 'w IKVClerk \<Rightarrow> string \<Rightarrow> Tversion \<Rightarrow> 'w Test \<Rightarrow> (Tversion \<times> bool option, 'w) run" where
  "OnePut_round clock me ck key ver ts =
     run_bind (PutJson clock marshal_EntryV ck key \<lparr>ev_Id = me, ev_V = ver\<rparr> ver me ts) (\<lambda>err ts.
     run_bind (run_lift (OnePut_put err) ts) (\<lambda>_ ts.
     run_bind (GetJson clock unmarshal_EntryV ck key me ts) (\<lambda>r.
     run_lift (OnePut_got me ver err r))))"

partial_function (option) OnePut ::
  "('w \<Rightarrow> int) \<Rightarrow> int \<Rightarrow> 'w IKVClerk \<Rightarrow> string \<Rightarrow> Tversion \<Rightarrow> 'w Test \<Rightarrow> (Tversion \<times> bool, 'w) run" where
  "OnePut clock me ck key ver ts =
     (case OnePut_round clock me ck key ver ts of
        None \<Rightarrow> None
      | Some (Inl e) \<Rightarrow> Some (Inl e)
      | Some (Inr ((ver, Some ok), ts)) \<Rightarrow> Some (Inr ((ver, ok), ts))
      | Some (Inr ((ver, None), ts)) \<Rightarrow> OnePut clock me ck key ver ts)"

record ClntRes =
  cr_Nok :: int
  cr_Nmaybe :: int

definition count_put :: "bool \<Rightarrow> ClntRes \<Rightarrow> ClntRes" where
  "count_put ok res = (if ok then res\<lparr>cr_Nok := cr_Nok res + 1\<rparr> else res\<lparr>cr_Nmaybe := cr_Nmaybe res + 1\<rparr>)"

text \<open>
  The rounds of \<open>OneClientPut\<close> before the signal on \<open>done\<close>: one random number for each, and \<open>verm\<close> the version last
  seen for each key.
\<close>

fun OneClientPut_loop ::
  "('w \<Rightarrow> int) \<Rightarrow> bool \<Rightarrow> int \<Rightarrow> 'w IKVClerk \<Rightarrow> string list \<Rightarrow> nat list \<Rightarrow> ClntRes \<Rightarrow> (string \<Rightarrow> Tversion) \<Rightarrow> 'w Test \<Rightarrow> (ClntRes, 'w) run" where
  "OneClientPut_loop clock randomkeys cli ck ka [] res verm ts = Some (Inr (res, ts))"
| "OneClientPut_loop clock randomkeys cli ck ka (rnd # rs) res verm ts =
     run_bind (run_lift (slice_get ka 0) ts) (\<lambda>k0 ts.
     run_bind (run_lift (if randomkeys then slice_get ka (int (rnd mod length ka)) else Inr k0) ts) (\<lambda>k ts.
     run_bind (OnePut clock cli ck k (verm k) ts) (\<lambda>(ver, ok) ts.
     OneClientPut_loop clock randomkeys cli ck ka rs (count_put ok res) (verm(k := ver)) ts)))"

definition OneClientPut ::
  "('w \<Rightarrow> int) \<Rightarrow> bool \<Rightarrow> int \<Rightarrow> 'w IKVClerk \<Rightarrow> string list \<Rightarrow> nat list \<Rightarrow> 'w Test \<Rightarrow> (ClntRes, 'w) run" where
  "OneClientPut clock randomkeys cli ck ka rs ts =
     OneClientPut_loop clock randomkeys cli ck ka rs \<lparr>cr_Nok = 0, cr_Nmaybe = 0\<rparr> (\<lambda>_. 0) ts"

text \<open>\<open>CheckPutConcurrent\<close>, its check alone and with its \<open>Get\<close>.\<close>

definition CheckPutConcurrent_got :: "bool \<Rightarrow> ClntRes list \<Rightarrow> ClntRes \<Rightarrow> EntryV \<times> Tversion \<Rightarrow> ClntRes go" where
  "CheckPutConcurrent_got reliable rs res = (\<lambda>(e, ver0).
     let res = foldl (\<lambda>res r. res\<lparr>cr_Nok := cr_Nok res + cr_Nok r, cr_Nmaybe := cr_Nmaybe res + cr_Nmaybe r\<rparr>) res rs
     in if \<not> reliable \<and> ver0 > word_of_int (cr_Nok res + cr_Nmaybe res) then Inl Fatal
        else if reliable \<and> ver0 \<noteq> word_of_int (cr_Nok res) then Inl Fatal
        else Inr res)"

definition CheckPutConcurrent ::
  "('w \<Rightarrow> int) \<Rightarrow> bool \<Rightarrow> 'w IKVClerk \<Rightarrow> string \<Rightarrow> ClntRes list \<Rightarrow> ClntRes \<Rightarrow> 'w Test \<Rightarrow> (ClntRes, 'w) run" where
  "CheckPutConcurrent clock reliable ck key rs res ts =
     run_bind (GetJson clock unmarshal_EntryV ck key (-1) ts) (\<lambda>r. run_lift (CheckPutConcurrent_got reliable rs res r))"

section \<open>Clients that append\<close>

record Entry =
  en_Id :: int
  en_N :: int

definition marshal_entries :: "Entry list \<Rightarrow> string" where
  "marshal_entries es = json_pairs ''Id'' ''N'' (map (\<lambda>e. (en_Id e, en_N e)) es)"

definition unmarshal_entries :: "string \<Rightarrow> Entry list option" where
  "unmarshal_entries s = map_option (map (\<lambda>(x, y). \<lparr>en_Id = x, en_N = y\<rparr>)) (unjson_pairs ''Id'' ''N'' s)"

text \<open>The value that is put after a \<open>Get\<close>, and the counts after a \<open>Put\<close>, with whether the inner loop ends.\<close>

definition append_got :: "int \<Rightarrow> int \<Rightarrow> Entry list \<Rightarrow> Entry list" where
  "append_got me i es = es @ [\<lparr>en_Id = me, en_N = i\<rparr>]"

definition append_put :: "Err \<Rightarrow> ClntRes \<Rightarrow> bool \<times> ClntRes" where
  "append_put err res =
     (if err = OK then (True, res\<lparr>cr_Nok := cr_Nok res + 1\<rparr>)
      else if err = ErrMaybe then (True, res\<lparr>cr_Nmaybe := cr_Nmaybe res + 1\<rparr>)
      else (False, res))"

definition append_round ::
  "('w \<Rightarrow> int) \<Rightarrow> int \<Rightarrow> 'w IKVClerk \<Rightarrow> int \<Rightarrow> ClntRes \<Rightarrow> 'w Test \<Rightarrow> (bool \<times> ClntRes, 'w) run" where
  "append_round clock me ck i res ts =
     run_bind (GetJson clock unmarshal_entries ck ''k'' me ts) (\<lambda>(es, ver) ts.
     run_bind (PutJson clock marshal_entries ck ''k'' (append_got me i es) ver me ts) (\<lambda>err.
     run_lift (Inr (append_put err res))))"

partial_function (option) append_loop ::
  "('w \<Rightarrow> int) \<Rightarrow> int \<Rightarrow> 'w IKVClerk \<Rightarrow> int \<Rightarrow> ClntRes \<Rightarrow> 'w Test \<Rightarrow> (ClntRes, 'w) run" where
  "append_loop clock me ck i res ts =
     (case append_round clock me ck i res ts of
        None \<Rightarrow> None
      | Some (Inl e) \<Rightarrow> Some (Inl e)
      | Some (Inr ((stop, res), ts)) \<Rightarrow> if stop then Some (Inr (res, ts)) else append_loop clock me ck i res ts)"

text \<open>\<open>n\<close> is the number of iterations before the signal on \<open>done\<close>.\<close>

fun OneClientAppend_loop ::
  "('w \<Rightarrow> int) \<Rightarrow> int \<Rightarrow> 'w IKVClerk \<Rightarrow> nat \<Rightarrow> int \<Rightarrow> ClntRes \<Rightarrow> 'w Test \<Rightarrow> (ClntRes, 'w) run" where
  "OneClientAppend_loop clock me ck 0 i res ts = Some (Inr (res, ts))"
| "OneClientAppend_loop clock me ck (Suc n) i res ts =
     run_bind (append_loop clock me ck i res ts) (\<lambda>res ts. OneClientAppend_loop clock me ck n (i + 1) res ts)"

definition OneClientAppend :: "('w \<Rightarrow> int) \<Rightarrow> int \<Rightarrow> 'w IKVClerk \<Rightarrow> nat \<Rightarrow> 'w Test \<Rightarrow> (ClntRes, 'w) run" where
  "OneClientAppend clock me ck n ts = OneClientAppend_loop clock me ck n 0 \<lparr>cr_Nok = 0, cr_Nmaybe = 0\<rparr> ts"

text \<open>
  \<open>CheckAppends\<close>: its two maps, read as 0 where they have no entry, the loop over the entries, and the loop over
  \<open>expect\<close> in the order \<open>it\<close> in which Go ranges over it.
\<close>

type_synonym int_map = "int \<Rightarrow> int option"

definition mget :: "int_map \<Rightarrow> int \<Rightarrow> int" where
  "mget m c = (case m c of None \<Rightarrow> 0 | Some n \<Rightarrow> n)"

definition CheckAppends_entry :: "Entry \<Rightarrow> int_map \<times> int_map \<Rightarrow> (int_map \<times> int_map) go" where
  "CheckAppends_entry e = (\<lambda>(expect, skipped).
     if mget expect (en_Id e) > en_N e then Inl Fatal
     else if mget expect (en_Id e) = en_N e then Inr (expect(en_Id e \<mapsto> mget expect (en_Id e) + 1), skipped)
     else (let s = en_N e - mget expect (en_Id e)
           in Inr (expect(en_Id e \<mapsto> en_N e + 1), skipped(en_Id e \<mapsto> mget skipped (en_Id e) + s))))"

definition CheckAppends_clnt :: "int_map \<Rightarrow> int_map \<Rightarrow> ClntRes list \<Rightarrow> int \<Rightarrow> unit \<Rightarrow> unit go" where
  "CheckAppends_clnt expect skipped rs c u =
     go_bind (slice_get rs c) (\<lambda>r.
       if mget skipped c > cr_Nmaybe r then Inl Fatal
       else if mget expect c > cr_Nok r + cr_Nmaybe r then Inl Fatal
       else Inr ())"

definition CheckAppends :: "(int_map \<Rightarrow> int list) \<Rightarrow> Entry list \<Rightarrow> nat \<Rightarrow> ClntRes list \<Rightarrow> Tversion \<Rightarrow> unit go" where
  "CheckAppends it es nclnt rs ver =
     (let zero = (\<lambda>c. if 0 \<le> c \<and> c < int nclnt then Some 0 else None)
      in go_bind (go_fold CheckAppends_entry es (zero, zero)) (\<lambda>(expect, skipped).
         if int (length es) + 1 \<noteq> sint ver then Inl Fatal
         else go_fold (CheckAppends_clnt expect skipped rs) (it expect) ()))"

section \<open>Keys, values and partitions\<close>

definition letterBytes :: string where
  "letterBytes = ''abcdefghijklmnopqrstuvwxyzABCDEFGHIJKLMNOPQRSTUVWXYZ''"

definition RandValue :: "nat list \<Rightarrow> string" where
  "RandValue rs = map (\<lambda>r. letterBytes ! (r mod length letterBytes)) rs"

definition MakeKeys :: "nat \<Rightarrow> string list" where
  "MakeKeys n = map (\<lambda>i. ''k'' @ strconv_Itoa (int i)) [0..<n]"

text \<open>\<open>SpreadPuts\<close> calls the clerk itself and does not look at the errors; \<open>bytes\<close> are the random bytes of each value.\<close>

fun SpreadPuts_put :: "'w IKVClerk \<Rightarrow> (string \<times> string) list \<Rightarrow> 'w Test \<Rightarrow> (unit, 'w) run" where
  "SpreadPuts_put ck [] ts = Some (Inr ((), ts))"
| "SpreadPuts_put ck ((k, v) # kvs) ts =
     (case ik_Put ck k v 0 (ts_world ts) of
        None \<Rightarrow> None
      | Some (err, w) \<Rightarrow> SpreadPuts_put ck kvs (ts\<lparr>ts_world := w\<rparr>))"

fun SpreadPuts_check :: "('w \<Rightarrow> int) \<Rightarrow> 'w IKVClerk \<Rightarrow> (string \<times> string) list \<Rightarrow> 'w Test \<Rightarrow> (unit, 'w) run" where
  "SpreadPuts_check clock ck [] ts = Some (Inr ((), ts))"
| "SpreadPuts_check clock ck ((k, v) # kvs) ts =
     run_bind (CheckGet clock ck k v 1 ts) (\<lambda>_. SpreadPuts_check clock ck kvs)"

definition SpreadPuts ::
  "('w \<Rightarrow> int) \<Rightarrow> 'w IKVClerk \<Rightarrow> nat \<Rightarrow> (nat \<Rightarrow> string) \<Rightarrow> 'w Test \<Rightarrow> (string list \<times> string list, 'w) run" where
  "SpreadPuts clock ck n bytes ts =
     (let ka = MakeKeys n
      in run_bind (run_lift (go_fold (\<lambda>i va. go_bind (Randstring 20 (bytes i)) (\<lambda>v. Inr (va @ [v]))) [0..<n] []) ts) (\<lambda>va ts.
         run_bind (SpreadPuts_put ck (zip ka va) ts) (\<lambda>_ ts.
         run_bind (SpreadPuts_check clock ck (zip ka va) ts) (\<lambda>_.
         run_lift (Inr (ka, va))))))"

text \<open>The two sides of a random partition, and one round of the partitioner; \<open>a\<close> are the random bits.\<close>

definition Partitioner_sides :: "(nat \<Rightarrow> nat) \<Rightarrow> nat \<Rightarrow> int list \<times> int list" where
  "Partitioner_sides a n =
     (map int (filter (\<lambda>j. a j mod 2 = 0) [0..<n]), map int (filter (\<lambda>j. a j mod 2 = 1) [0..<n]))"

definition Partitioner_round :: "(nat \<Rightarrow> nat) \<Rightarrow> Network \<times> 'svc ServerGrp \<Rightarrow> (Network \<times> 'svc ServerGrp) go" where
  "Partitioner_round a = (\<lambda>(net, sg).
     case Partitioner_sides a (sg_N sg) of (p1, p2) \<Rightarrow> Partition p1 p2 (net, sg))"

end
