(* ===== verification/KvTestRuns.thy ===== *)
theory KvTestRuns
  imports KvTest KVLock
begin

text \<open>
  Many clients of the key/value tests at once, against the server of \<^verbatim>\<open>src/kvsrv1/server.go\<close>: the clients that put
  (\<open>OneClientPut\<close>) and the clients that append (\<open>OneClientAppend\<close>), and that the checks of the tests accept what they leave
  behind. As for the lock, a clerk operation is one step, in which a put takes effect at one point and the error is what
  a clerk may report for it; on a reliable network no call is retried, and the clerk reports the server's answer.
\<close>

lemma sum_one_changed:
  assumes "i < (N :: nat)"
  shows "(\<Sum>j<N. f ((c(i := x)) j)) = (\<Sum>j<N. f (c j)) + (f x - f (c i) :: int)"
proof -
  have "(\<Sum>j<N. f (g j)) = f (g i) + (\<Sum>j\<in>{..<N} - {i}. f (g j))" for g
    using assms by (simp add: sum.remove [of _ i])
  note this [of "c(i := x)"] this [of c]
  moreover have "(\<Sum>j\<in>{..<N} - {i}. f ((c(i := x)) j)) = (\<Sum>j\<in>{..<N} - {i}. f (c j))"
    by (rule sum.cong) auto
  ultimately show ?thesis by simp
qed

lemma uint_of_int_64: "0 \<le> x \<Longrightarrow> x < 2 ^ 64 \<Longrightarrow> uint (word_of_int x :: 64 word) = x"
  by (simp add: unsigned_of_int take_bit_int_eq_self)

lemma unat_of_nat_64: "n < 2 ^ 64 \<Longrightarrow> unat (of_nat n :: 64 word) = n"
  by (simp add: unat_of_nat)

lemma sint_of_nat_64:
  assumes "n < 2 ^ 63"
  shows "sint (of_nat n :: 64 word) = int n"
  using assms by (simp add: signed_of_nat signed_take_bit_int_eq_self)

lemma word_of_unat: "unat (v :: 64 word) = n \<Longrightarrow> v = of_nat n"
  by auto

lemma unmarshal_EntryV_marshal [simp]: "unmarshal_EntryV (marshal_EntryV e) = Some e"
  using uint_lt2p [of "ev_V e"] by (simp add: unmarshal_EntryV_def marshal_EntryV_def)

lemma unmarshal_entries_marshal [simp]: "unmarshal_entries (marshal_entries es) = Some es"
  by (simp add: unmarshal_entries_def marshal_entries_def comp_def map_idI)

section \<open>Clients that put\<close>

text \<open>Where a client is in \<open>OnePut\<close>: before its \<open>Put\<close>, or before its \<open>Get\<close> with what the \<open>Put\<close> returned.\<close>

datatype put_pc = AtPut | AtGet Err

record put_clnt =
  pt_pc :: put_pc
  pt_ver :: Tversion
  pt_res :: ClntRes

record put_sys =
  us_kv :: KVServer
  us_c :: "nat \<Rightarrow> put_clnt"
  us_failed :: bool

definition put_start :: put_sys where
  "put_start = \<lparr>us_kv = MakeKVServer,
     us_c = (\<lambda>_. \<lparr>pt_pc = AtPut, pt_ver = 0, pt_res = \<lparr>cr_Nok = 0, cr_Nmaybe = 0\<rparr>\<rparr>), us_failed = False\<rparr>"

abbreviation entry_args :: "string \<Rightarrow> nat \<Rightarrow> Tversion \<Rightarrow> PutArgs" where
  "entry_args key i ver \<equiv> \<lparr>pa_Key = key, pa_Value = marshal_EntryV \<lparr>ev_Id = int i, ev_V = ver\<rparr>, pa_Version = ver\<rparr>"

text \<open>What the client makes of the answer to its \<open>Get\<close>.\<close>

definition put_after_get :: "KVServer \<Rightarrow> string \<Rightarrow> nat \<Rightarrow> put_clnt \<Rightarrow> Err \<Rightarrow> (Tversion \<times> bool option) go" where
  "put_after_get kv key i c e = go_bind (GetJson_got unmarshal_EntryV (clerk_get kv key)) (OnePut_got (int i) (pt_ver c) e)"

definition put_counted :: "put_clnt \<Rightarrow> Tversion \<Rightarrow> bool option \<Rightarrow> put_clnt" where
  "put_counted c ver ret =
     \<lparr>pt_pc = AtPut, pt_ver = ver, pt_res = (case ret of None \<Rightarrow> pt_res c | Some ok \<Rightarrow> count_put ok (pt_res c))\<rparr>"

inductive put_step :: "bool \<Rightarrow> string \<Rightarrow> nat \<Rightarrow> put_sys \<Rightarrow> put_sys \<Rightarrow> bool" for reliable key N where
  put: "i < N \<Longrightarrow> pt_pc (us_c s i) = AtPut \<Longrightarrow> a = entry_args key i (pt_ver (us_c s i)) \<Longrightarrow>
     clerk_err (put_err (us_kv s) a) e \<Longrightarrow> (reliable \<longrightarrow> e = put_err (us_kv s) a) \<Longrightarrow>
     put_step reliable key N s
       \<lparr>us_kv = put_state (us_kv s) a, us_c = (us_c s)(i := (us_c s i)\<lparr>pt_pc := AtGet e\<rparr>),
        us_failed = (us_failed s \<or> OnePut_put e \<noteq> Inr ())\<rparr>"
| got: "i < N \<Longrightarrow> pt_pc (us_c s i) = AtGet e \<Longrightarrow> put_after_get (us_kv s) key i (us_c s i) e = Inr (ver, ret) \<Longrightarrow>
     put_step reliable key N s (s\<lparr>us_c := (us_c s)(i := put_counted (us_c s i) ver ret)\<rparr>)"
| fail: "i < N \<Longrightarrow> pt_pc (us_c s i) = AtGet e \<Longrightarrow> put_after_get (us_kv s) key i (us_c s i) e = Inl x \<Longrightarrow>
     put_step reliable key N s (s\<lparr>us_failed := True\<rparr>)"
| other_key: "pa_Key a \<noteq> key \<Longrightarrow> put_step reliable key N s (s\<lparr>us_kv := put_state (us_kv s) a\<rparr>)"

inductive put_reach :: "bool \<Rightarrow> string \<Rightarrow> nat \<Rightarrow> nat \<Rightarrow> put_sys \<Rightarrow> bool" for reliable key N where
  start: "put_reach reliable key N 0 put_start"
| step: "put_reach reliable key N n s \<Longrightarrow> put_step reliable key N s t \<Longrightarrow> put_reach reliable key N (Suc n) t"

text \<open>The puts of a client that have surely taken effect, and those that may have, counted by it or about to be.\<close>

definition sure_puts :: "put_clnt \<Rightarrow> int" where
  "sure_puts c = cr_Nok (pt_res c) + (if pt_pc c = AtGet OK then 1 else 0)"

definition poss_puts :: "put_clnt \<Rightarrow> int" where
  "poss_puts c = cr_Nok (pt_res c) + cr_Nmaybe (pt_res c) + (if pt_pc c = AtGet OK \<or> pt_pc c = AtGet ErrMaybe then 1 else 0)"

text \<open>
  The invariant of one client, given what the key holds: its version is not ahead of the key's, a \<open>Get\<close> will find the key,
  and after a \<open>Put\<close> answered \<open>OK\<close>, if no one else has written since, the key holds its entry.
\<close>

definition clnt_ok :: "bool \<Rightarrow> (string \<times> Tversion) option \<Rightarrow> nat \<Rightarrow> put_clnt \<Rightarrow> bool" where
  "clnt_ok reliable kx i c \<longleftrightarrow>
     unat (pt_ver c) \<le> (case kx of None \<Rightarrow> 0 | Some (x, v) \<Rightarrow> unat v) \<and>
     0 \<le> cr_Nok (pt_res c) \<and> 0 \<le> cr_Nmaybe (pt_res c) \<and>
     (reliable \<longrightarrow> cr_Nmaybe (pt_res c) = 0 \<and> pt_pc c \<noteq> AtGet ErrMaybe) \<and>
     (0 < cr_Nok (pt_res c) + cr_Nmaybe (pt_res c) \<longrightarrow> kx \<noteq> None) \<and>
     (case pt_pc c of AtPut \<Rightarrow> True
      | AtGet e \<Rightarrow> e \<in> {OK, ErrVersion, ErrMaybe} \<and>
          (\<exists>x v. kx = Some (x, v) \<and>
             (e = OK \<longrightarrow> unat (pt_ver c) < unat v \<and>
                (v = pt_ver c + 1 \<longrightarrow> x = marshal_EntryV \<lparr>ev_Id = int i, ev_V = pt_ver c\<rparr>))))"

definition put_inv :: "bool \<Rightarrow> string \<Rightarrow> nat \<Rightarrow> nat \<Rightarrow> put_sys \<Rightarrow> bool" where
  "put_inv reliable key N n s \<longleftrightarrow>
     \<not> us_failed s \<and> unat (kvs.ver (us_kv s) key) \<le> n \<and>
     (\<forall>x v. kv_lookup (us_kv s) key = Some (x, v) \<longrightarrow> v \<noteq> 0 \<and> (\<exists>e. x = marshal_EntryV e)) \<and>
     (\<forall>i<N. clnt_ok reliable (kv_lookup (us_kv s) key) i (us_c s i)) \<and>
     (\<Sum>i<N. sure_puts (us_c s i)) \<le> int (unat (kvs.ver (us_kv s) key)) \<and>
     int (unat (kvs.ver (us_kv s) key)) \<le> (\<Sum>i<N. poss_puts (us_c s i)) \<and> (\<Sum>i<N. poss_puts (us_c s i)) \<le> int n"

lemma put_inv_start: "put_inv reliable key N 0 put_start"
  by (simp add: put_inv_def put_start_def MakeKVServer_def kv_lookup_def kvs.ver_def clnt_ok_def sure_puts_def poss_puts_def)

lemma put_invD:
  assumes "put_inv reliable key N n s"
  shows "\<not> us_failed s" and "unat (kvs.ver (us_kv s) key) \<le> n"
    and "kv_lookup (us_kv s) key = Some (x, v) \<Longrightarrow> v \<noteq> 0 \<and> (\<exists>e. x = marshal_EntryV e)"
    and "i < N \<Longrightarrow> clnt_ok reliable (kv_lookup (us_kv s) key) i (us_c s i)"
    and "(\<Sum>i<N. sure_puts (us_c s i)) \<le> int (unat (kvs.ver (us_kv s) key))"
    and "int (unat (kvs.ver (us_kv s) key)) \<le> (\<Sum>i<N. poss_puts (us_c s i))"
    and "(\<Sum>i<N. poss_puts (us_c s i)) \<le> int n"
  using assms by (auto simp: put_inv_def)

text \<open>Another client's write to the key does not hurt a client.\<close>

lemma clnt_ok_written:
  assumes "clnt_ok reliable kx j c" and "v = (case kx of None \<Rightarrow> 0 | Some (x, v) \<Rightarrow> v)" and "unat v < 2 ^ 64 - 1"
  shows "clnt_ok reliable (Some (x', v + 1)) j c"
proof -
  have u: "unat (v + 1) = Suc (unat v)" using assms(3) by (rule unat_plus_1)
  have "unat (pt_ver c) \<le> unat v" using assms(1,2) by (auto simp: clnt_ok_def split: option.splits)
  moreover have "x' = marshal_EntryV \<lparr>ev_Id = int j, ev_V = pt_ver c\<rparr>" if "pt_pc c = AtGet OK" "v + 1 = pt_ver c + 1"
    using assms(1,2) that by (auto simp: clnt_ok_def split: option.splits)
  ultimately show ?thesis using assms(1) u by (auto simp: clnt_ok_def split: put_pc.splits)
qed

text \<open>A put: refused, or applied.\<close>

lemma put_step_stale:
  assumes inv: "put_inv reliable key N n s" and i: "i < N" "pt_pc (us_c s i) = AtPut"
    and a: "a = entry_args key i (pt_ver (us_c s i))" and stale: "kvs.ver (us_kv s) key \<noteq> pa_Version a"
    and e: "clerk_err (put_err (us_kv s) a) e" "reliable \<longrightarrow> e = put_err (us_kv s) a"
  shows "put_inv reliable key N (Suc n)
    \<lparr>us_kv = put_state (us_kv s) a, us_c = (us_c s)(i := (us_c s i)\<lparr>pt_pc := AtGet e\<rparr>),
     us_failed = (us_failed s \<or> OnePut_put e \<noteq> Inr ())\<rparr>"
proof -
  let ?c = "us_c s i"
  note ok = put_invD(4) [OF inv i(1)]
  obtain x v where xv: "kv_lookup (us_kv s) key = Some (x, v)"
    using ok stale a by (cases "kv_lookup (us_kv s) key") (auto simp: clnt_ok_def kvs.ver_def unat_eq_0)
  have st: "put_state (us_kv s) a = us_kv s" "put_err (us_kv s) a = ErrVersion"
    using kvs.put_fail [of "us_kv s" a] kvs.put_fail_err [of "us_kv s" a] stale xv a by simp_all
  have e': "e = ErrVersion \<or> \<not> reliable \<and> e = ErrMaybe" using e by (auto simp: st clerk_err_def)
  have sum: "(\<Sum>j<N. f (((us_c s)(i := ?c\<lparr>pt_pc := AtGet e\<rparr>)) j)) = (\<Sum>j<N. f (us_c s j)) + (f (?c\<lparr>pt_pc := AtGet e\<rparr>) - f ?c)"
    for f :: "put_clnt \<Rightarrow> int" by (rule sum_one_changed [OF i(1)])
  have "sure_puts (?c\<lparr>pt_pc := AtGet e\<rparr>) = sure_puts ?c" "poss_puts ?c \<le> poss_puts (?c\<lparr>pt_pc := AtGet e\<rparr>)"
    "poss_puts (?c\<lparr>pt_pc := AtGet e\<rparr>) \<le> poss_puts ?c + 1"
    using e' i(2) by (auto simp: sure_puts_def poss_puts_def)
  then have "(\<Sum>j<N. sure_puts (((us_c s)(i := ?c\<lparr>pt_pc := AtGet e\<rparr>)) j)) \<le> int (unat (kvs.ver (us_kv s) key))"
    "int (unat (kvs.ver (us_kv s) key)) \<le> (\<Sum>j<N. poss_puts (((us_c s)(i := ?c\<lparr>pt_pc := AtGet e\<rparr>)) j))"
    "(\<Sum>j<N. poss_puts (((us_c s)(i := ?c\<lparr>pt_pc := AtGet e\<rparr>)) j)) \<le> int (Suc n)"
    unfolding sum using put_invD(5-7) [OF inv] by simp_all
  moreover have "clnt_ok reliable (kv_lookup (us_kv s) key) j (((us_c s)(i := ?c\<lparr>pt_pc := AtGet e\<rparr>)) j)" if "j < N" for j
    using put_invD(4) [OF inv that] e' xv by (auto simp: clnt_ok_def)
  moreover have "OnePut_put e = Inr ()" using e' by (auto simp: OnePut_put_def)
  ultimately show ?thesis
    using put_invD(1-3) [OF inv] st(1) by (simp add: put_inv_def)
qed

lemma put_step_applied:
  assumes inv: "put_inv reliable key N n s" and few: "Suc n < 2 ^ 64" and i: "i < N" "pt_pc (us_c s i) = AtPut"
    and a: "a = entry_args key i (pt_ver (us_c s i))" and app: "kvs.ver (us_kv s) key = pa_Version a"
    and e: "clerk_err (put_err (us_kv s) a) e" "reliable \<longrightarrow> e = put_err (us_kv s) a"
  shows "put_inv reliable key N (Suc n)
    \<lparr>us_kv = put_state (us_kv s) a, us_c = (us_c s)(i := (us_c s i)\<lparr>pt_pc := AtGet e\<rparr>),
     us_failed = (us_failed s \<or> OnePut_put e \<noteq> Inr ())\<rparr>"
proof -
  let ?c = "us_c s i" and ?c' = "(us_c s i)\<lparr>pt_pc := AtGet e\<rparr>" and ?v = "kvs.ver (us_kv s) key"
  let ?x = "marshal_EntryV \<lparr>ev_Id = int i, ev_V = pt_ver ?c\<rparr>"
  have v: "?v = pt_ver ?c" using app a by simp
  have err: "put_err (us_kv s) a = OK" and look: "kv_lookup (put_state (us_kv s) a) key = Some (?x, ?v + 1)"
    using kvs.put_OK_iff [of "us_kv s" a] kvs.put_ok_lookup [of "us_kv s" a] app a by simp_all
  have ver: "kvs.ver (put_state (us_kv s) a) key = ?v + 1" using look by (simp add: kvs.ver_def)
  have lt: "unat ?v < 2 ^ 64 - 1" using put_invD(2) [OF inv] few by simp
  have u: "unat (?v + 1) = Suc (unat ?v)" using lt by (rule unat_plus_1)
  have e': "e = OK \<or> \<not> reliable \<and> e = ErrMaybe" using e by (auto simp: err clerk_err_def)
  have sum: "(\<Sum>j<N. f (((us_c s)(i := ?c')) j)) = (\<Sum>j<N. f (us_c s j)) + (f ?c' - f ?c)"
    for f :: "put_clnt \<Rightarrow> int" by (rule sum_one_changed [OF i(1)])
  have "sure_puts ?c' \<le> sure_puts ?c + 1" "poss_puts ?c' = poss_puts ?c + 1"
    using e' i(2) by (auto simp: sure_puts_def poss_puts_def)
  then have sums: "(\<Sum>j<N. sure_puts (((us_c s)(i := ?c')) j)) \<le> int (unat (?v + 1))"
    "int (unat (?v + 1)) \<le> (\<Sum>j<N. poss_puts (((us_c s)(i := ?c')) j))"
    "(\<Sum>j<N. poss_puts (((us_c s)(i := ?c')) j)) \<le> int (Suc n)"
    unfolding sum u using put_invD(5-7) [OF inv] by simp_all
  have "clnt_ok reliable (Some (?x, ?v + 1)) j (((us_c s)(i := ?c')) j)" if j: "j < N" for j
  proof (cases "j = i")
    case True
    with put_invD(4) [OF inv i(1)] e' u v show ?thesis by (auto simp: clnt_ok_def)
  next
    case False
    with clnt_ok_written [OF put_invD(4) [OF inv j] kvs.ver_def lt] show ?thesis by simp
  qed
  moreover have "OnePut_put e = Inr ()" using e' by (auto simp: OnePut_put_def)
  moreover have "?v + 1 \<noteq> 0" using u by auto
  moreover have b: "unat (?v + 1) \<le> Suc n" using u put_invD(2) [OF inv] by simp
  moreover have "\<exists>e. ?x = marshal_EntryV e" by blast
  ultimately show ?thesis
    using put_invD(1) [OF inv] sums by (simp add: put_inv_def look ver b)
qed

text \<open>A get succeeds, its check passes, and it only turns an expected put into a counted one.\<close>

lemma put_after_get_ok:
  assumes inv: "put_inv reliable key N n s" and i: "i < N" "pt_pc (us_c s i) = AtGet e"
  shows "put_after_get (us_kv s) key i (us_c s i) e =
    Inr (kvs.ver (us_kv s) key, if e = OK \<or> e = ErrMaybe then Some (e = OK) else None)"
proof -
  let ?c = "us_c s i"
  obtain x v where xv: "kv_lookup (us_kv s) key = Some (x, v)"
    and mine: "e = OK \<Longrightarrow> v = pt_ver ?c + 1 \<Longrightarrow> x = marshal_EntryV \<lparr>ev_Id = int i, ev_V = pt_ver ?c\<rparr>"
    using put_invD(4) [OF inv i(1)] i(2) by (auto simp: clnt_ok_def)
  obtain en where en: "x = marshal_EntryV en" using put_invD(3) [OF inv xv] by blast
  then have "GetJson_got unmarshal_EntryV (clerk_get (us_kv s) key) = Inr (en, v)"
    by (simp add: clerk_get_def xv GetJson_got_def)
  moreover have "en = \<lparr>ev_Id = int i, ev_V = pt_ver ?c\<rparr>" if "e = OK" "v = pt_ver ?c + 1"
    using mine [OF that] en by (metis option.inject unmarshal_EntryV_marshal)
  moreover have "kvs.ver (us_kv s) key = v" by (simp add: kvs.ver_def xv)
  ultimately show ?thesis by (auto simp: put_after_get_def OnePut_got_def)
qed

lemma put_step_got:
  assumes inv: "put_inv reliable key N n s" and i: "i < N" "pt_pc (us_c s i) = AtGet e"
    and got: "put_after_get (us_kv s) key i (us_c s i) e = Inr (ver, ret)"
  shows "put_inv reliable key N (Suc n) (s\<lparr>us_c := (us_c s)(i := put_counted (us_c s i) ver ret)\<rparr>)"
proof -
  let ?c = "us_c s i" and ?c' = "put_counted (us_c s i) ver ret"
  have ver: "ver = kvs.ver (us_kv s) key" and ret: "ret = (if e = OK \<or> e = ErrMaybe then Some (e = OK) else None)"
    using put_after_get_ok [OF inv i] got by auto
  note ok = put_invD(4) [OF inv i(1)]
  have sum: "(\<Sum>j<N. f (((us_c s)(i := ?c')) j)) = (\<Sum>j<N. f (us_c s j)) + (f ?c' - f ?c)"
    for f :: "put_clnt \<Rightarrow> int" by (rule sum_one_changed [OF i(1)])
  have "sure_puts ?c' = sure_puts ?c" "poss_puts ?c' = poss_puts ?c"
    using i(2) ret by (auto simp: sure_puts_def poss_puts_def put_counted_def count_put_def)
  then have "(\<Sum>j<N. sure_puts (((us_c s)(i := ?c')) j)) \<le> int (unat (kvs.ver (us_kv s) key))"
    "int (unat (kvs.ver (us_kv s) key)) \<le> (\<Sum>j<N. poss_puts (((us_c s)(i := ?c')) j))"
    "(\<Sum>j<N. poss_puts (((us_c s)(i := ?c')) j)) \<le> int (Suc n)"
    unfolding sum using put_invD(5-7) [OF inv] by simp_all
  moreover have "clnt_ok reliable (kv_lookup (us_kv s) key) i ?c'"
    using ok i(2) by (auto simp: clnt_ok_def put_counted_def count_put_def ver ret kvs.ver_def split: option.splits)
  ultimately show ?thesis using inv by (simp add: put_inv_def)
qed

lemma put_step_inv:
  assumes "put_step reliable key N s t" and inv: "put_inv reliable key N n s" and few: "Suc n < 2 ^ 64"
  shows "put_inv reliable key N (Suc n) t"
  using assms(1)
proof cases
  case (put i a e)
  then show ?thesis using put_step_stale [OF inv] put_step_applied [OF inv few] by blast
next
  case (got i e ver ret)
  then show ?thesis using put_step_got [OF inv] by blast
next
  case (fail i e x)
  then show ?thesis using put_after_get_ok [OF inv] by simp
next
  case (other_key a)
  with inv show ?thesis by (simp add: put_inv_def put_other_key)
qed

lemma put_reach_inv: "put_reach reliable key N n s \<Longrightarrow> n < 2 ^ 64 \<Longrightarrow> put_inv reliable key N n s"
proof (induction rule: put_reach.induct)
  case start
  show ?case by (rule put_inv_start)
next
  case (step n s t)
  then show ?case using put_step_inv by simp
qed

text \<open>The sums that the check forms.\<close>

lemma check_sums:
  "foldl (\<lambda>res r. res\<lparr>cr_Nok := cr_Nok res + cr_Nok r, cr_Nmaybe := cr_Nmaybe res + cr_Nmaybe r\<rparr>) res (map g [0..<N]) =
     res\<lparr>cr_Nok := cr_Nok res + (\<Sum>i<N. cr_Nok (g i)), cr_Nmaybe := cr_Nmaybe res + (\<Sum>i<N. cr_Nmaybe (g i))\<rparr>"
  by (induction N) simp_all

lemma check_accepts:
  assumes "foldl (\<lambda>res r. res\<lparr>cr_Nok := cr_Nok res + cr_Nok r, cr_Nmaybe := cr_Nmaybe res + cr_Nmaybe r\<rparr>) res rs =
      \<lparr>cr_Nok = ok, cr_Nmaybe = maybe\<rparr>"
    and "ok \<le> uint v" "uint v \<le> ok + maybe" "ok + maybe < 2 ^ 64" "reliable \<Longrightarrow> maybe = 0"
  shows "CheckPutConcurrent_got reliable rs res (e, v) = Inr \<lparr>cr_Nok = ok, cr_Nmaybe = maybe\<rparr>"
proof -
  have "0 \<le> ok + maybe" using assms(3) uint_ge_0 [of v] by linarith
  then have "v \<le> word_of_int (ok + maybe)" using uint_of_int_64 [of "ok + maybe"] assms(3,4) by (simp add: word_le_def del: of_int_add)
  moreover have "v = word_of_int ok" if reliable
  proof -
    have "uint v = ok" using assms(2,3) assms(5) [OF that] by simp
    then have "word_of_int ok = (word_of_int (uint v) :: 64 word)" by simp
    then show ?thesis by simp
  qed
  ultimately show ?thesis by (auto simp: CheckPutConcurrent_got_def Let_def assms(1))
qed

text \<open>The check, when all clients are between two puts and one of them has counted a put.\<close>

lemma put_check_passes:
  assumes inv: "put_inv reliable key N n s" and n: "n < 2 ^ 64" and idle: "\<forall>i<N. pt_pc (us_c s i) = AtPut"
    and counted: "\<exists>i<N. 0 < cr_Nok (pt_res (us_c s i)) + cr_Nmaybe (pt_res (us_c s i))"
  shows "go_bind (GetJson_got unmarshal_EntryV (clerk_get (us_kv s) key))
      (CheckPutConcurrent_got reliable (map (\<lambda>i. pt_res (us_c s i)) [0..<N]) \<lparr>cr_Nok = 0, cr_Nmaybe = 0\<rparr>) =
    Inr \<lparr>cr_Nok = (\<Sum>i<N. cr_Nok (pt_res (us_c s i))), cr_Nmaybe = (\<Sum>i<N. cr_Nmaybe (pt_res (us_c s i)))\<rparr>"
proof -
  obtain i where i: "i < N" "0 < cr_Nok (pt_res (us_c s i)) + cr_Nmaybe (pt_res (us_c s i))" using counted by blast
  obtain x v where xv: "kv_lookup (us_kv s) key = Some (x, v)"
    using put_invD(4) [OF inv i(1)] i(2) by (auto simp: clnt_ok_def)
  obtain en where en: "x = marshal_EntryV en" using put_invD(3) [OF inv xv] by blast
  let ?ok = "\<Sum>i<N. cr_Nok (pt_res (us_c s i))" and ?maybe = "\<Sum>i<N. cr_Nmaybe (pt_res (us_c s i))"
  have sure: "(\<Sum>i<N. sure_puts (us_c s i)) = ?ok" and poss: "(\<Sum>i<N. poss_puts (us_c s i)) = ?ok + ?maybe"
    using idle by (simp_all add: sure_puts_def poss_puts_def sum.distrib)
  have v: "?ok \<le> uint v" "uint v \<le> ?ok + ?maybe" "?ok + ?maybe < 2 ^ 64"
    using put_invD(5-7) [OF inv] n unfolding sure poss by (simp_all add: kvs.ver_def xv)
  have rel: "?maybe = 0" if reliable using put_invD(4) [OF inv] that by (intro sum.neutral) (auto simp: clnt_ok_def)
  have "GetJson_got unmarshal_EntryV (clerk_get (us_kv s) key) = Inr (en, v)"
    by (simp add: clerk_get_def xv GetJson_got_def en)
  then show ?thesis
    using check_accepts [OF _ v rel] by (simp add: check_sums)
qed

text \<open>
  The put test accepts the key/value server. Take any number of clients that put to one key through clerks, on a
  network that loses messages, interleaved in any way and with writes to other keys. The tests inside \<open>OnePut\<close> never fail. When
  all clients are between two puts and one of them has counted a put, \<open>CheckPutConcurrent\<close> finds a number of writes at the server
  that agrees with what the clients counted.
\<close>

lemma put_test_passes:
  assumes "put_reach reliable key N n s" and "n < 2 ^ 64"
  shows "\<not> us_failed s \<and>
    ((\<forall>i<N. pt_pc (us_c s i) = AtPut) \<longrightarrow> (\<exists>i<N. 0 < cr_Nok (pt_res (us_c s i)) + cr_Nmaybe (pt_res (us_c s i))) \<longrightarrow>
     go_bind (GetJson_got unmarshal_EntryV (clerk_get (us_kv s) key))
       (CheckPutConcurrent_got reliable (map (\<lambda>i. pt_res (us_c s i)) [0..<N]) \<lparr>cr_Nok = 0, cr_Nmaybe = 0\<rparr>) =
     Inr \<lparr>cr_Nok = (\<Sum>i<N. cr_Nok (pt_res (us_c s i))), cr_Nmaybe = (\<Sum>i<N. cr_Nmaybe (pt_res (us_c s i)))\<rparr>)"
  using put_reach_inv [OF assms] put_check_passes [OF _ assms(2)] put_invD(1) by blast

text \<open>Two clients: the first puts and reads, the reply of the second is lost, so that its clerk reports \<open>ErrMaybe\<close>.\<close>

abbreviation put_kv :: "string \<Rightarrow> Tversion \<Rightarrow> KVServer" where
  "put_kv x v \<equiv> \<lparr>kv_m = [''k'' \<mapsto> \<lparr>kv_val = x, kv_ver = v\<rparr>]\<rparr>"

abbreviation put_idle :: "Tversion \<Rightarrow> int \<Rightarrow> int \<Rightarrow> put_clnt" where
  "put_idle v ok maybe \<equiv> \<lparr>pt_pc = AtPut, pt_ver = v, pt_res = \<lparr>cr_Nok = ok, cr_Nmaybe = maybe\<rparr>\<rparr>"

definition put_end :: put_sys where
  "put_end = \<lparr>us_kv = put_kv (marshal_EntryV \<lparr>ev_Id = 0, ev_V = 0\<rparr>) 1,
     us_c = (\<lambda>_. put_idle 0 0 0)(0 := put_idle 1 1 0, 1 := put_idle 1 0 1), us_failed = False\<rparr>"

lemma put_end_reach: "put_reach False ''k'' 2 4 put_end"
proof -
  let ?x = "marshal_EntryV \<lparr>ev_Id = 0, ev_V = 0\<rparr>"
  let ?g = "\<lambda>e. \<lparr>pt_pc = AtGet e, pt_ver = 0, pt_res = \<lparr>cr_Nok = 0, cr_Nmaybe = 0\<rparr>\<rparr>"
  let ?s1 = "\<lparr>us_kv = put_kv ?x 1, us_c = (\<lambda>_. put_idle 0 0 0)(0 := ?g OK), us_failed = False\<rparr>"
  let ?s2 = "\<lparr>us_kv = put_kv ?x 1, us_c = (\<lambda>_. put_idle 0 0 0)(0 := put_idle 1 1 0), us_failed = False\<rparr>"
  let ?s3 = "\<lparr>us_kv = put_kv ?x 1, us_c = (\<lambda>_. put_idle 0 0 0)(0 := put_idle 1 1 0, 1 := ?g ErrMaybe), us_failed = False\<rparr>"
  have "put_step False ''k'' 2 put_start ?s1"
    using put_step.put [of 0 2 put_start "entry_args ''k'' 0 0" "''k''" OK False]
    by (simp add: put_start_def kv_defs clerk_err_def OnePut_put_def)
  moreover have "put_step False ''k'' 2 ?s1 ?s2"
    using put_step.got [of 0 2 ?s1 OK "''k''" 1 "Some True" False]
    by (simp add: put_after_get_def GetJson_got_def clerk_get_def kv_lookup_def OnePut_got_def put_counted_def count_put_def)
  moreover have "put_step False ''k'' 2 ?s2 ?s3"
    using put_step.put [of 1 2 ?s2 "entry_args ''k'' 1 0" "''k''" ErrMaybe False]
    by (simp add: kv_defs clerk_err_def OnePut_put_def)
  moreover have "put_step False ''k'' 2 ?s3 put_end"
    using put_step.got [of 1 2 ?s3 ErrMaybe "''k''" 1 "Some False" False]
    by (simp add: put_after_get_def GetJson_got_def clerk_get_def kv_lookup_def OnePut_got_def put_counted_def count_put_def
        put_end_def)
  ultimately show ?thesis
    using put_reach.step [OF put_reach.step [OF put_reach.step [OF put_reach.step [OF put_reach.start]]]]
    by (simp add: numeral_eq_Suc)
qed

lemma put_test_passes_example:
  "go_bind (GetJson_got unmarshal_EntryV (clerk_get (us_kv put_end) ''k''))
     (CheckPutConcurrent_got False [\<lparr>cr_Nok = 1, cr_Nmaybe = 0\<rparr>, \<lparr>cr_Nok = 0, cr_Nmaybe = 1\<rparr>] \<lparr>cr_Nok = 0, cr_Nmaybe = 0\<rparr>) =
   Inr \<lparr>cr_Nok = 1, cr_Nmaybe = 1\<rparr>"
proof -
  have c: "us_c put_end 0 = put_idle 1 1 0" "us_c put_end 1 = put_idle 1 0 1" by (simp_all add: put_end_def)
  have two: "i < 2 \<longleftrightarrow> i = 0 \<or> i = 1" "[0..<2] = [0, 1]" "{..<2} = {0, 1 :: nat}" for i :: nat
    by (auto simp: upt_rec)
  show ?thesis
    using put_test_passes [OF put_end_reach] unfolding two by (simp add: c [simplified] conj_disj_distribR ex_disj_distrib)
qed

section \<open>Clients that append\<close>

text \<open>
  Where a client is in the inner loop of \<open>OneClientAppend\<close>: before its \<open>Get\<close>, or before its \<open>Put\<close> with the entries it will put
  and the version. The number \<open>i\<close> of its iteration is the number of puts it has counted.
\<close>

datatype app_pc = AppGet | AppPut "Entry list" Tversion

record app_clnt =
  ap_pc :: app_pc
  ap_i :: int
  ap_res :: ClntRes

record app_sys =
  as_kv :: KVServer
  as_c :: "nat \<Rightarrow> app_clnt"
  as_failed :: bool

text \<open>The test starts by putting the empty slice.\<close>

definition app_start :: app_sys where
  "app_start = \<lparr>as_kv = put_state MakeKVServer \<lparr>pa_Key = ''k'', pa_Value = marshal_entries [], pa_Version = 0\<rparr>,
     as_c = (\<lambda>_. \<lparr>ap_pc = AppGet, ap_i = 0, ap_res = \<lparr>cr_Nok = 0, cr_Nmaybe = 0\<rparr>\<rparr>), as_failed = False\<rparr>"

abbreviation append_args :: "Entry list \<Rightarrow> Tversion \<Rightarrow> PutArgs" where
  "append_args es ver \<equiv> \<lparr>pa_Key = ''k'', pa_Value = marshal_entries es, pa_Version = ver\<rparr>"

inductive app_step :: "nat \<Rightarrow> app_sys \<Rightarrow> app_sys \<Rightarrow> bool" for N where
  get: "i < N \<Longrightarrow> ap_pc (as_c s i) = AppGet \<Longrightarrow>
     GetJson_got unmarshal_entries (clerk_get (as_kv s) ''k'') = Inr (es, ver) \<Longrightarrow>
     app_step N s (s\<lparr>as_c := (as_c s)(i := (as_c s i)\<lparr>ap_pc := AppPut (append_got (int i) (ap_i (as_c s i)) es) ver\<rparr>)\<rparr>)"
| fail: "i < N \<Longrightarrow> ap_pc (as_c s i) = AppGet \<Longrightarrow>
     GetJson_got unmarshal_entries (clerk_get (as_kv s) ''k'') = Inl x \<Longrightarrow>
     app_step N s (s\<lparr>as_failed := True\<rparr>)"
| put: "i < N \<Longrightarrow> ap_pc (as_c s i) = AppPut es ver \<Longrightarrow> a = append_args es ver \<Longrightarrow>
     clerk_err (put_err (as_kv s) a) e \<Longrightarrow> append_put e (ap_res (as_c s i)) = (stop, res) \<Longrightarrow>
     app_step N s (s\<lparr>as_kv := put_state (as_kv s) a,
       as_c := (as_c s)(i := \<lparr>ap_pc = AppGet, ap_i = (if stop then ap_i (as_c s i) + 1 else ap_i (as_c s i)), ap_res = res\<rparr>)\<rparr>)"
| other_key: "pa_Key a \<noteq> ''k'' \<Longrightarrow> app_step N s (s\<lparr>as_kv := put_state (as_kv s) a\<rparr>)"

inductive app_reach :: "nat \<Rightarrow> nat \<Rightarrow> app_sys \<Rightarrow> bool" for N where
  start: "app_reach N 0 app_start"
| step: "app_reach N n s \<Longrightarrow> app_step N s t \<Longrightarrow> app_reach N (Suc n) t"

text \<open>The numbers of a client's entries, in order.\<close>

definition numbers_of :: "int \<Rightarrow> Entry list \<Rightarrow> int list" where
  "numbers_of c es = map en_N (filter (\<lambda>e. en_Id e = c) es)"

lemma numbers_of_simps [simp]:
  "numbers_of c [] = []"
  "numbers_of c (es @ [e]) = (if en_Id e = c then numbers_of c es @ [en_N e] else numbers_of c es)"
  by (simp_all add: numbers_of_def)

text \<open>
  A client's entries on the server have increasing numbers, all from past iterations, and every put that was answered
  \<open>OK\<close> is there.
\<close>

definition app_clnt_ok :: "Entry list \<Rightarrow> nat \<Rightarrow> app_clnt \<Rightarrow> bool" where
  "app_clnt_ok es i c \<longleftrightarrow>
     ap_i c = cr_Nok (ap_res c) + cr_Nmaybe (ap_res c) \<and> 0 \<le> cr_Nok (ap_res c) \<and> 0 \<le> cr_Nmaybe (ap_res c) \<and>
     sorted_wrt (<) (numbers_of (int i) es) \<and> (\<forall>m\<in>set (numbers_of (int i) es). 0 \<le> m \<and> m < ap_i c) \<and>
     cr_Nok (ap_res c) \<le> int (length (numbers_of (int i) es))"

definition app_pc_ok :: "Entry list \<Rightarrow> nat \<Rightarrow> app_clnt \<Rightarrow> bool" where
  "app_pc_ok es i c \<longleftrightarrow>
     (case ap_pc c of AppGet \<Rightarrow> True
      | AppPut es' ver \<Rightarrow> unat ver \<le> length es + 1 \<and> (unat ver = length es + 1 \<longrightarrow> es' = append_got (int i) (ap_i c) es))"

definition app_inv :: "nat \<Rightarrow> nat \<Rightarrow> app_sys \<Rightarrow> Entry list \<Rightarrow> bool" where
  "app_inv N n s es \<longleftrightarrow>
     \<not> as_failed s \<and> kv_lookup (as_kv s) ''k'' = Some (marshal_entries es, of_nat (length es + 1)) \<and> length es \<le> n \<and>
     (\<forall>e\<in>set es. 0 \<le> en_Id e \<and> en_Id e < int N) \<and> (\<forall>i<N. app_clnt_ok es i (as_c s i) \<and> app_pc_ok es i (as_c s i))"

lemma app_inv_start: "app_inv N 0 app_start []"
  by (simp add: app_inv_def app_start_def kv_defs kv_lookup_def app_clnt_ok_def app_pc_ok_def)

lemma app_get_ok:
  assumes "app_inv N n s es"
  shows "GetJson_got unmarshal_entries (clerk_get (as_kv s) ''k'') = Inr (es, of_nat (length es + 1))"
  using assms by (simp add: app_inv_def clerk_get_def GetJson_got_def)

text \<open>An append that takes effect.\<close>

lemma app_put_applied:
  assumes inv: "app_inv N n s es" and few: "n + 2 < 2 ^ 64" and i: "i < N" "ap_pc (as_c s i) = AppPut es' ver"
    and v: "unat ver = length es + 1" and a: "a = append_args es' ver" and e: "e = OK \<or> e = ErrMaybe"
    and p: "append_put e (ap_res (as_c s i)) = (stop, res)"
  shows "app_inv N (Suc n) (s\<lparr>as_kv := put_state (as_kv s) a,
      as_c := (as_c s)(i := \<lparr>ap_pc = AppGet, ap_i = (if stop then ap_i (as_c s i) + 1 else ap_i (as_c s i)), ap_res = res\<rparr>)\<rparr>)
    (append_got (int i) (ap_i (as_c s i)) es)"
proof -
  let ?c = "as_c s i" and ?es = "append_got (int i) (ap_i (as_c s i)) es"
  have es': "es' = ?es" using inv i v by (auto simp: app_inv_def app_pc_ok_def)
  have ver: "ver = of_nat (length es + 1)" using v by (rule word_of_unat)
  have "kvs.ver (as_kv s) ''k'' = pa_Version a" using inv a ver by (simp add: app_inv_def kvs.ver_def)
  then have look: "kv_lookup (put_state (as_kv s) a) ''k'' = Some (marshal_entries ?es, of_nat (length ?es + 1))"
    using kvs.put_ok_lookup [of "as_kv s" a] a ver es' by (simp add: append_got_def)
  have c: "app_clnt_ok es i ?c" using inv i(1) by (simp add: app_inv_def)
  have "app_clnt_ok ?es i \<lparr>ap_pc = AppGet, ap_i = (if stop then ap_i ?c + 1 else ap_i ?c), ap_res = res\<rparr>"
    using c e p by (auto simp: app_clnt_ok_def append_got_def append_put_def sorted_wrt_append)
  moreover have "app_clnt_ok ?es j (as_c s j) \<and> app_pc_ok ?es j (as_c s j)" if "j < N" "j \<noteq> i" for j
    using inv that by (auto simp: app_inv_def app_clnt_ok_def app_pc_ok_def append_got_def split: app_pc.splits)
  ultimately show ?thesis
    using inv i(1) look by (auto simp: app_inv_def app_pc_ok_def append_got_def)
qed

text \<open>An append that is refused.\<close>

lemma app_put_stale:
  assumes inv: "app_inv N n s es" and few: "n + 2 < 2 ^ 64" and i: "i < N" "ap_pc (as_c s i) = AppPut es' ver"
    and v: "unat ver \<noteq> length es + 1" and a: "a = append_args es' ver" and e: "clerk_err (put_err (as_kv s) a) e"
    and p: "append_put e (ap_res (as_c s i)) = (stop, res)"
  shows "app_inv N (Suc n) (s\<lparr>as_kv := put_state (as_kv s) a,
      as_c := (as_c s)(i := \<lparr>ap_pc = AppGet, ap_i = (if stop then ap_i (as_c s i) + 1 else ap_i (as_c s i)), ap_res = res\<rparr>)\<rparr>) es"
proof -
  let ?c = "as_c s i"
  have len: "length es + 1 < 2 ^ 64" using inv few by (simp add: app_inv_def)
  have ver: "kvs.ver (as_kv s) ''k'' = of_nat (length es + 1)" using inv by (simp add: app_inv_def kvs.ver_def)
  then have "unat (kvs.ver (as_kv s) ''k'') = length es + 1" using len unat_of_nat_64 by (simp only:)
  then have "kvs.ver (as_kv s) ''k'' \<noteq> pa_Version a" using v a by auto
  then have st: "put_state (as_kv s) a = as_kv s" "put_err (as_kv s) a = ErrVersion"
    using kvs.put_fail [of "as_kv s" a] kvs.put_fail_err [of "as_kv s" a] inv a by (simp_all add: app_inv_def)
  have e': "e = ErrVersion \<or> e = ErrMaybe" using e by (auto simp: st clerk_err_def)
  have c: "app_clnt_ok es i ?c" using inv i(1) by (simp add: app_inv_def)
  have "app_clnt_ok es i \<lparr>ap_pc = AppGet, ap_i = (if stop then ap_i ?c + 1 else ap_i ?c), ap_res = res\<rparr>"
    using c e' p by (auto simp: app_clnt_ok_def append_put_def)
  then show ?thesis using inv i(1) st(1) by (auto simp: app_inv_def app_pc_ok_def)
qed

lemma app_step_inv:
  assumes "app_step N s t" and inv: "app_inv N n s es" and few: "n + 2 < 2 ^ 64"
  shows "\<exists>es'. app_inv N (Suc n) t es'"
  using assms(1)
proof cases
  case (get i es' ver)
  then have "es' = es" "ver = of_nat (length es + 1)" using app_get_ok [OF inv] by auto
  moreover have "unat (of_nat (length es + 1) :: 64 word) = length es + 1"
    by (rule unat_of_nat_64) (use inv few in \<open>simp add: app_inv_def\<close>)
  ultimately have "app_inv N (Suc n) t es"
    using get inv by (auto simp: app_inv_def app_clnt_ok_def app_pc_ok_def)
  then show ?thesis ..
next
  case (fail i x)
  then show ?thesis using app_get_ok [OF inv] by simp
next
  case (put i es' ver a e stop res)
  show ?thesis
  proof (cases "unat ver = length es + 1")
    case True
    then have "ver = of_nat (length es + 1)" by (rule word_of_unat)
    then have "kvs.ver (as_kv s) ''k'' = pa_Version a" using inv put by (simp add: app_inv_def kvs.ver_def)
    then have "put_err (as_kv s) a = OK" using kvs.put_OK_iff [of "as_kv s" a] put by simp
    then have "e = OK \<or> e = ErrMaybe" using put by (auto simp: clerk_err_def)
    from app_put_applied [OF inv few put(2,3) True put(4) this put(6)] show ?thesis unfolding put(1) by blast
  next
    case False
    from app_put_stale [OF inv few put(2,3) False put(4-6)] show ?thesis unfolding put(1) by blast
  qed
next
  case (other_key a)
  with inv have "app_inv N (Suc n) t es" by (simp add: app_inv_def put_other_key)
  then show ?thesis ..
qed

lemma app_reach_inv: "app_reach N n s \<Longrightarrow> n + 1 < 2 ^ 64 \<Longrightarrow> \<exists>es. app_inv N n s es"
proof (induction rule: app_reach.induct)
  case start
  show ?case using app_inv_start by blast
next
  case (step n s t)
  then obtain es where "app_inv N n s es" by auto
  with step show ?case using app_step_inv by simp
qed

text \<open>
  The loop of \<open>CheckAppends\<close> over the entries succeeds exactly if the numbers of every client increase from 0; then \<open>expect\<close>
  holds the number after the last one and \<open>skipped\<close> how many are missing before it.
\<close>

definition increasing :: "Entry list \<Rightarrow> bool" where
  "increasing es \<longleftrightarrow> (\<forall>c. sorted_wrt (<) ((-1) # numbers_of c es))"

definition next_number :: "int \<Rightarrow> Entry list \<Rightarrow> int" where
  "next_number c es = last ((-1) # numbers_of c es) + 1"

lemma next_number_snoc [simp]:
  "next_number c [] = 0" "next_number c (es @ [e]) = (if en_Id e = c then en_N e + 1 else next_number c es)"
  by (auto simp: next_number_def)

lemma sorted_wrt_snoc:
  fixes xs :: "int list"
  shows "sorted_wrt (<) (xs @ [y]) \<longleftrightarrow> sorted_wrt (<) xs \<and> (xs = [] \<or> last xs < y)"
proof (cases xs rule: rev_cases)
  case (snoc zs z)
  then show ?thesis by (auto simp: sorted_wrt_append dest: less_trans)
qed simp

lemma increasing_snoc: "increasing (es @ [e]) \<longleftrightarrow> increasing es \<and> next_number (en_Id e) es \<le> en_N e"
proof -
  have "sorted_wrt (<) ((-1) # numbers_of c (es @ [e])) \<longleftrightarrow>
      sorted_wrt (<) ((-1) # numbers_of c es) \<and> (en_Id e = c \<longrightarrow> next_number c es \<le> en_N e)" for c
    using sorted_wrt_snoc [of "(-1) # numbers_of c es" "en_N e"] by (auto simp: next_number_def simp del: sorted_wrt.simps)
  then show ?thesis unfolding increasing_def by blast
qed

definition check_state :: "nat \<Rightarrow> Entry list \<Rightarrow> int_map \<times> int_map \<Rightarrow> bool" where
  "check_state N es = (\<lambda>(expect, skipped).
     dom expect = {0..<int N} \<union> en_Id ` set es \<and>
     (\<forall>c. mget expect c = next_number c es \<and> mget skipped c = next_number c es - int (length (numbers_of c es))))"

lemma CheckAppends_entry_spec:
  assumes "check_state N es st"
  shows "if next_number (en_Id e) es \<le> en_N e then \<exists>st'. CheckAppends_entry e st = Inr st' \<and> check_state N (es @ [e]) st'
         else CheckAppends_entry e st = Inl Fatal"
proof -
  obtain expect skipped where st: "st = (expect, skipped)" by (cases st)
  have m: "mget expect c = next_number c es" "mget skipped c = next_number c es - int (length (numbers_of c es))" for c
    using assms by (simp_all add: check_state_def st)
  have upd: "mget (m(k \<mapsto> x)) c = (if c = k then x else mget m c)" for m k x c by (simp add: mget_def)
  consider "next_number (en_Id e) es > en_N e" | "next_number (en_Id e) es = en_N e" | "next_number (en_Id e) es < en_N e" by linarith
  then show ?thesis
  proof cases
    case 1
    then show ?thesis by (simp add: st CheckAppends_entry_def m)
  next
    case 2
    with assms m show ?thesis by (auto simp: st CheckAppends_entry_def check_state_def upd)
  next
    case 3
    with assms m show ?thesis by (auto simp: st CheckAppends_entry_def check_state_def upd Let_def)
  qed
qed

abbreviation zero_map :: "nat \<Rightarrow> int_map" where
  "zero_map N \<equiv> (\<lambda>c. if 0 \<le> c \<and> c < int N then Some 0 else None)"

lemma CheckAppends_loop:
  "if increasing es then \<exists>st. go_fold CheckAppends_entry es (zero_map N, zero_map N) = Inr st \<and> check_state N es st
   else go_fold CheckAppends_entry es (zero_map N, zero_map N) = Inl Fatal"
proof (induction es rule: rev_induct)
  case Nil
  have "dom (zero_map N) = {0..<int N}" by (auto split: if_splits)
  then show ?case by (auto simp: increasing_def check_state_def mget_def)
next
  case (snoc e es)
  show ?case
  proof (cases "increasing es")
    case True
    with snoc obtain st where st: "go_fold CheckAppends_entry es (zero_map N, zero_map N) = Inr st" "check_state N es st" by auto
    have "go_fold CheckAppends_entry (es @ [e]) (zero_map N, zero_map N) = CheckAppends_entry e st"
      by (cases "CheckAppends_entry e st") (simp_all add: go_fold_append st(1))
    then show ?thesis using CheckAppends_entry_spec [OF st(2), of e] True unfolding increasing_snoc by presburger
  next
    case False
    with snoc show ?thesis by (simp add: go_fold_append increasing_snoc)
  qed
qed

text \<open>The whole check, on entries of the clients that took part.\<close>

lemma CheckAppends_accepts:
  assumes "increasing es" and "\<forall>e\<in>set es. 0 \<le> en_Id e \<and> en_Id e < int N" and "int (length es) + 1 = sint ver"
    and it: "\<forall>m. finite (dom m) \<longrightarrow> set (it m) = dom m" and "length rs = N"
    and "\<forall>i<N. next_number (int i) es - int (length (numbers_of (int i) es)) \<le> cr_Nmaybe (rs ! i) \<and>
           next_number (int i) es \<le> cr_Nok (rs ! i) + cr_Nmaybe (rs ! i)"
  shows "CheckAppends it es N rs ver = Inr ()"
proof -
  obtain expect skipped where st: "go_fold CheckAppends_entry es (zero_map N, zero_map N) = Inr (expect, skipped)"
    "check_state N es (expect, skipped)" using CheckAppends_loop [of es N] assms(1) by auto
  have "dom expect = {0..<int N}" using st(2) assms(2) by (auto simp: check_state_def)
  then have "set (it expect) = {0..<int N}" using it by simp
  moreover have "CheckAppends_clnt expect skipped rs c u = Inr ()" if c: "c \<in> {0..<int N}" for c u
  proof -
    obtain i where "c = int i" "i < N" using c by (cases c) auto
    then show ?thesis using st(2) assms(5,6) by (simp add: CheckAppends_clnt_def check_state_def not_less)
  qed
  ultimately have ok: "CheckAppends_clnt expect skipped rs c u = Inr ()" if "c \<in> set (it expect)" for c u
    using that by blast
  have "go_fold (CheckAppends_clnt expect skipped rs) xs () = Inr ()" if "set xs \<subseteq> set (it expect)" for xs
    using that by (induction xs) (simp_all add: ok)
  then show ?thesis using st(1) assms(3) by (simp add: CheckAppends_def)
qed

text \<open>The check, at any moment.\<close>

lemma append_check_passes:
  assumes inv: "app_inv N n s es" and n: "n + 1 < 2 ^ 63" and it: "\<forall>m. finite (dom m) \<longrightarrow> set (it m) = dom m"
  shows "\<not> as_failed s \<and>
    (\<exists>es ver. GetJson_got unmarshal_entries (clerk_get (as_kv s) ''k'') = Inr (es, ver) \<and>
       CheckAppends it es N (map (\<lambda>i. ap_res (as_c s i)) [0..<N]) ver = Inr ())"
proof -
  have ok: "app_clnt_ok es i (as_c s i)" if "i < N" for i using inv that by (simp add: app_inv_def)
  have ids: "\<forall>e\<in>set es. 0 \<le> en_Id e \<and> en_Id e < int N" using inv by (simp add: app_inv_def)
  have "numbers_of c es = []" if "\<not> (0 \<le> c \<and> c < int N)" for c
    using ids that by (auto simp: numbers_of_def filter_empty_conv)
  moreover have "sorted_wrt (<) ((-1) # numbers_of (int i) es)" if "i < N" for i
    using ok [OF that] by (auto simp: app_clnt_ok_def)
  ultimately have "sorted_wrt (<) ((-1) # numbers_of c es)" for c
    by (cases "0 \<le> c \<and> c < int N") (metis nonneg_int_cases of_nat_less_iff, simp)
  then have inc: "increasing es" by (simp add: increasing_def)
  have last: "last (numbers_of (int i) es) < ap_i (as_c s i)" if "i < N" "numbers_of (int i) es \<noteq> []" for i
    using ok [OF that(1)] last_in_set [OF that(2)] unfolding app_clnt_ok_def by blast
  have nums: "next_number (int i) es \<le> ap_i (as_c s i)" "cr_Nok (ap_res (as_c s i)) \<le> int (length (numbers_of (int i) es))"
    "ap_i (as_c s i) = cr_Nok (ap_res (as_c s i)) + cr_Nmaybe (ap_res (as_c s i))" if "i < N" for i
    using ok [OF that] last [OF that] by (auto simp: app_clnt_ok_def next_number_def)
  have len: "length es + 1 < 2 ^ 63" using inv n by (simp add: app_inv_def)
  have "CheckAppends it es N (map (\<lambda>i. ap_res (as_c s i)) [0..<N]) (of_nat (length es + 1)) = Inr ()"
  proof (rule CheckAppends_accepts [OF inc ids _ it])
    show "int (length es) + 1 = sint (word_of_nat (length es + 1) :: 64 word)" using sint_of_nat_64 [OF len] by simp
    show "\<forall>i<N. next_number (int i) es - int (length (numbers_of (int i) es)) \<le> cr_Nmaybe (map (\<lambda>i. ap_res (as_c s i)) [0..<N] ! i) \<and>
       next_number (int i) es \<le> cr_Nok (map (\<lambda>i. ap_res (as_c s i)) [0..<N] ! i) + cr_Nmaybe (map (\<lambda>i. ap_res (as_c s i)) [0..<N] ! i)"
      using nums by fastforce
  qed simp
  then show ?thesis using inv app_get_ok [OF inv] by (auto simp: app_inv_def)
qed

text \<open>
  The append test accepts the key/value server. Take any number of clients that append to the key through clerks, on a network
  that loses messages, interleaved in any way. No \<open>Get\<close> fails, and at any moment the entries on the server pass \<open>CheckAppends\<close> with
  what the clients have counted, in whatever order Go ranges over the map.
\<close>

lemma append_test_passes:
  assumes "app_reach N n s" and "n + 1 < 2 ^ 63" and "\<forall>m. finite (dom m) \<longrightarrow> set (it m) = dom m"
  shows "\<not> as_failed s \<and>
    (\<exists>es ver. GetJson_got unmarshal_entries (clerk_get (as_kv s) ''k'') = Inr (es, ver) \<and>
       CheckAppends it es N (map (\<lambda>i. ap_res (as_c s i)) [0..<N]) ver = Inr ())"
proof -
  obtain es where "app_inv N n s es" using app_reach_inv [OF assms(1)] assms(2) by auto
  then show ?thesis by (rule append_check_passes [OF _ assms(2,3)])
qed

text \<open>Two clients: both read the empty slice, the first appends, the second is refused but its clerk reports \<open>ErrMaybe\<close>.\<close>

abbreviation app_idle :: "int \<Rightarrow> int \<Rightarrow> app_clnt" where
  "app_idle ok maybe \<equiv> \<lparr>ap_pc = AppGet, ap_i = ok + maybe, ap_res = \<lparr>cr_Nok = ok, cr_Nmaybe = maybe\<rparr>\<rparr>"

abbreviation app_ready :: "nat \<Rightarrow> app_clnt" where
  "app_ready i \<equiv> \<lparr>ap_pc = AppPut [\<lparr>en_Id = int i, en_N = 0\<rparr>] 1, ap_i = 0, ap_res = \<lparr>cr_Nok = 0, cr_Nmaybe = 0\<rparr>\<rparr>"

definition app_end :: app_sys where
  "app_end = \<lparr>as_kv = put_kv (marshal_entries [\<lparr>en_Id = 0, en_N = 0\<rparr>]) 2,
     as_c = (\<lambda>_. app_idle 0 0)(0 := app_idle 1 0, 1 := app_idle 0 1), as_failed = False\<rparr>"

lemma app_end_reach: "app_reach 2 4 app_end"
proof -
  let ?kv = "put_kv (marshal_entries []) 1"
  let ?s1 = "\<lparr>as_kv = ?kv, as_c = (\<lambda>_. app_idle 0 0)(0 := app_ready 0), as_failed = False\<rparr>"
  let ?s2 = "\<lparr>as_kv = ?kv, as_c = (\<lambda>_. app_idle 0 0)(0 := app_ready 0, 1 := app_ready 1), as_failed = False\<rparr>"
  let ?s3 = "\<lparr>as_kv = put_kv (marshal_entries [\<lparr>en_Id = 0, en_N = 0\<rparr>]) 2,
    as_c = (\<lambda>_. app_idle 0 0)(0 := app_idle 1 0, 1 := app_ready 1), as_failed = False\<rparr>"
  have start: "app_start = \<lparr>as_kv = ?kv, as_c = (\<lambda>_. app_idle 0 0), as_failed = False\<rparr>"
    by (simp add: app_start_def kv_defs)
  have "app_step 2 app_start ?s1"
    using app_step.get [of 0 2 app_start "[]" 1] by (simp add: start GetJson_got_def clerk_get_def kv_lookup_def append_got_def)
  moreover have "app_step 2 ?s1 ?s2"
    using app_step.get [of 1 2 ?s1 "[]" 1] by (simp add: GetJson_got_def clerk_get_def kv_lookup_def append_got_def)
  moreover have "app_step 2 ?s2 ?s3"
    using app_step.put [of 0 2 ?s2 "[\<lparr>en_Id = 0, en_N = 0\<rparr>]" 1 "append_args [\<lparr>en_Id = 0, en_N = 0\<rparr>] 1" OK True "\<lparr>cr_Nok = 1, cr_Nmaybe = 0\<rparr>"]
    by (simp add: kv_defs clerk_err_def append_put_def fun_upd_twist)
  moreover have "app_step 2 ?s3 app_end"
    using app_step.put [of 1 2 ?s3 "[\<lparr>en_Id = 1, en_N = 0\<rparr>]" 1 "append_args [\<lparr>en_Id = 1, en_N = 0\<rparr>] 1" ErrMaybe True "\<lparr>cr_Nok = 0, cr_Nmaybe = 1\<rparr>"]
    by (simp add: kv_defs clerk_err_def append_put_def app_end_def)
  ultimately show ?thesis
    using app_reach.step [OF app_reach.step [OF app_reach.step [OF app_reach.step [OF app_reach.start]]]]
    by (simp add: numeral_eq_Suc)
qed

lemma append_test_passes_example:
  "\<exists>es ver. GetJson_got unmarshal_entries (clerk_get (as_kv app_end) ''k'') = Inr (es, ver) \<and>
     CheckAppends (\<lambda>m. sorted_list_of_set (dom m)) es 2 [\<lparr>cr_Nok = 1, cr_Nmaybe = 0\<rparr>, \<lparr>cr_Nok = 0, cr_Nmaybe = 1\<rparr>] ver = Inr ()"
proof -
  have c: "ap_res (as_c app_end 0) = \<lparr>cr_Nok = 1, cr_Nmaybe = 0\<rparr>" "ap_res (as_c app_end 1) = \<lparr>cr_Nok = 0, cr_Nmaybe = 1\<rparr>"
    and two: "[0..<2] = [0, 1]" by (simp_all add: app_end_def upt_rec)
  show ?thesis
    using append_test_passes [OF app_end_reach, of "\<lambda>m. sorted_list_of_set (dom m)"] unfolding two by (simp add: c [simplified])
qed

end
