(* ===== verification/KvSpawn.thy ===== *)
theory KvSpawn
  imports KvTestRuns
begin

text \<open>
  The goroutines and channels of the key/value tests in \<^verbatim>\<open>src/kvtest1/kvtest.go\<close>: \<open>runClient\<close>, \<open>SpawnClientsAndWait\<close> and
  \<open>Partitioner\<close>. All channels there are unbuffered, so that a send and the receive that takes it are one step. The first part is
  about \<open>SpawnClientsAndWait\<close> for any client function; the second runs it on the clients that put and the clients that append,
  up to the check of the test; the third is about the partitioner.
\<close>

section \<open>\<open>runClient\<close> and \<open>SpawnClientsAndWait\<close>\<close>

text \<open>The clerk of a client is named by the client's number; making and deleting it may change the world.\<close>

record 'w IClerkMaker =
  mkc_MakeClerk :: "nat \<Rightarrow> 'w \<Rightarrow> 'w"
  mkc_DeleteClerk :: "nat \<Rightarrow> 'w \<Rightarrow> 'w"

text \<open>
  A client function: its state when it is called, the states in which it is at its \<open>select\<close> on \<open>done\<close>, the steps it takes otherwise
  or on the default branch, and what it returns when the signal is there. A step to \<open>None\<close> is a call of \<open>Fatalf\<close>, whose
  \<open>FailNow\<close> ends the goroutine.
\<close>

record ('c, 'w) Fclnt =
  fc_start :: "nat \<Rightarrow> 'c"
  fc_polls :: "'c \<Rightarrow> bool"
  fc_step :: "nat \<Rightarrow> 'w \<times> 'c \<Rightarrow> 'w \<times> 'c option \<Rightarrow> bool"
  fc_res :: "'c \<Rightarrow> ClntRes"

text \<open>
  A goroutine of \<open>runClient\<close>: not yet started, before \<open>MakeClerk\<close>, in its function, sending its result, before \<open>DeleteClerk\<close>,
  returned, or ended by \<open>FailNow\<close>. The states after its function keep the state in which that returned.
\<close>

datatype 'c runClient = Unborn | Starting | Running 'c | Sending 'c | Deleting 'c | Ended 'c | Exited

text \<open>The caller: in its first loop, in the loop that signals, in the loop that collects, or back.\<close>

datatype spawn_pc = Spawning nat | Signalling nat | Collecting "ClntRes list" | Returned "ClntRes list"

record ('c, 'w) spawned =
  sp_pc :: spawn_pc
  sp_go :: "nat \<Rightarrow> 'c runClient"
  sp_w :: 'w

definition spawn_start :: "'w \<Rightarrow> ('c, 'w) spawned" where
  "spawn_start w = \<lparr>sp_pc = Spawning 0, sp_go = (\<lambda>_. Unborn), sp_w = w\<rparr>"

text \<open>
  A client at its \<open>select\<close> may take the default branch also while the caller is in its second loop, since the caller need not
  have arrived at its send yet.
\<close>

inductive SpawnClientsAndWait_step ::
  "'w IClerkMaker \<Rightarrow> ('c, 'w) Fclnt \<Rightarrow> nat \<Rightarrow> ('c, 'w) spawned \<Rightarrow> ('c, 'w) spawned \<Rightarrow> bool" for mkc fn nclnt where
  spawn: "sp_pc s = Spawning cli \<Longrightarrow> cli < nclnt \<Longrightarrow>
     SpawnClientsAndWait_step mkc fn nclnt s (s\<lparr>sp_pc := Spawning (cli + 1), sp_go := (sp_go s)(cli := Starting)\<rparr>)"
| slept: "sp_pc s = Spawning nclnt \<Longrightarrow> SpawnClientsAndWait_step mkc fn nclnt s (s\<lparr>sp_pc := Signalling 0\<rparr>)"
| make: "sp_go s cli = Starting \<Longrightarrow>
     SpawnClientsAndWait_step mkc fn nclnt s
       (s\<lparr>sp_go := (sp_go s)(cli := Running (fc_start fn cli)), sp_w := mkc_MakeClerk mkc cli (sp_w s)\<rparr>)"
| work: "sp_go s cli = Running c \<Longrightarrow> fc_step fn cli (sp_w s, c) (w, Some c') \<Longrightarrow>
     SpawnClientsAndWait_step mkc fn nclnt s (s\<lparr>sp_go := (sp_go s)(cli := Running c'), sp_w := w\<rparr>)"
| fail: "sp_go s cli = Running c \<Longrightarrow> fc_step fn cli (sp_w s, c) (w, None) \<Longrightarrow>
     SpawnClientsAndWait_step mkc fn nclnt s (s\<lparr>sp_go := (sp_go s)(cli := Exited), sp_w := w\<rparr>)"
| signal: "sp_pc s = Signalling i \<Longrightarrow> i < nclnt \<Longrightarrow> sp_go s cli = Running c \<Longrightarrow> fc_polls fn c \<Longrightarrow>
     SpawnClientsAndWait_step mkc fn nclnt s (s\<lparr>sp_pc := Signalling (i + 1), sp_go := (sp_go s)(cli := Sending c)\<rparr>)"
| signalled: "sp_pc s = Signalling nclnt \<Longrightarrow> SpawnClientsAndWait_step mkc fn nclnt s (s\<lparr>sp_pc := Collecting []\<rparr>)"
| collect: "sp_pc s = Collecting rs \<Longrightarrow> length rs < nclnt \<Longrightarrow> sp_go s (length rs) = Sending c \<Longrightarrow>
     SpawnClientsAndWait_step mkc fn nclnt s
       (s\<lparr>sp_pc := Collecting (rs @ [fc_res fn c]), sp_go := (sp_go s)(length rs := Deleting c)\<rparr>)"
| return: "sp_pc s = Collecting rs \<Longrightarrow> length rs = nclnt \<Longrightarrow> SpawnClientsAndWait_step mkc fn nclnt s (s\<lparr>sp_pc := Returned rs\<rparr>)"
| delete: "sp_go s cli = Deleting c \<Longrightarrow>
     SpawnClientsAndWait_step mkc fn nclnt s (s\<lparr>sp_go := (sp_go s)(cli := Ended c), sp_w := mkc_DeleteClerk mkc cli (sp_w s)\<rparr>)"

text \<open>\<open>n\<close> steps of the test.\<close>

inductive SpawnClientsAndWait ::
  "'w IClerkMaker \<Rightarrow> ('c, 'w) Fclnt \<Rightarrow> nat \<Rightarrow> ('c, 'w) spawned \<Rightarrow> nat \<Rightarrow> ('c, 'w) spawned \<Rightarrow> bool" for mkc fn nclnt s0 where
  start: "SpawnClientsAndWait mkc fn nclnt s0 0 s0"
| step: "SpawnClientsAndWait mkc fn nclnt s0 n s \<Longrightarrow> SpawnClientsAndWait_step mkc fn nclnt s t \<Longrightarrow>
     SpawnClientsAndWait mkc fn nclnt s0 (Suc n) t"

section \<open>The protocol of the channels\<close>

text \<open>
  The invariant: while the caller signals, as many clients as it has signalled are about to send; while it collects, the first
  clients have delivered their results and all others are about to send. Whoever has returned was at its \<open>select\<close>.
\<close>

fun is_sending :: "'c runClient \<Rightarrow> bool" where
  "is_sending (Sending c) = True"
| "is_sending _ = False"

fun in_function :: "'c runClient \<Rightarrow> bool" where
  "in_function Starting = True"
| "in_function (Running c) = True"
| "in_function Exited = True"
| "in_function _ = False"

definition delivered :: "('c, 'w) Fclnt \<Rightarrow> ('c, 'w) spawned \<Rightarrow> nat \<Rightarrow> ClntRes \<Rightarrow> bool" where
  "delivered fn s cli r \<longleftrightarrow> (\<exists>c. sp_go s cli \<in> {Deleting c, Ended c} \<and> fc_polls fn c \<and> r = fc_res fn c)"

definition spawn_inv :: "('c, 'w) Fclnt \<Rightarrow> nat \<Rightarrow> ('c, 'w) spawned \<Rightarrow> bool" where
  "spawn_inv fn N s \<longleftrightarrow>
     (\<forall>cli c. sp_go s cli = Sending c \<longrightarrow> fc_polls fn c) \<and> (\<forall>cli\<ge>N. sp_go s cli = Unborn) \<and>
     (case sp_pc s of
        Spawning k \<Rightarrow> k \<le> N \<and> (\<forall>cli<N. if cli < k then in_function (sp_go s cli) else sp_go s cli = Unborn)
      | Signalling k \<Rightarrow> (\<forall>cli<N. in_function (sp_go s cli) \<or> is_sending (sp_go s cli)) \<and>
          card {cli. cli < N \<and> is_sending (sp_go s cli)} = k
      | Collecting rs \<Rightarrow> length rs \<le> N \<and>
          (\<forall>cli<N. if cli < length rs then delivered fn s cli (rs ! cli) else is_sending (sp_go s cli))
      | Returned rs \<Rightarrow> length rs = N \<and> (\<forall>cli<N. delivered fn s cli (rs ! cli)))"

lemma spawn_inv_start: "spawn_inv fn N (spawn_start w)"
  by (simp add: spawn_inv_def spawn_start_def)

text \<open>The signal: one more client is about to send.\<close>

lemma card_one_more:
  assumes "x \<notin> A" "finite A" "card A = k" "B = insert x A"
  shows "card B = Suc k"
  using assms by simp

lemma spawn_inv_signal:
  assumes inv: "spawn_inv fn N s" and s: "sp_pc s = Signalling k" "sp_go s cli = Running c" "fc_polls fn c"
  shows "spawn_inv fn N (s\<lparr>sp_pc := Signalling (k + 1), sp_go := (sp_go s)(cli := Sending c)\<rparr>)"
proof -
  have N: "cli < N"
    using inv s(2) by (auto simp: spawn_inv_def not_less [symmetric])
  have "card {j. j < N \<and> is_sending (((sp_go s)(cli := Sending c)) j)} = Suc k"
    by (rule card_one_more [of cli "{j. j < N \<and> is_sending (sp_go s j)}"])
      (use inv s N in \<open>auto simp: spawn_inv_def\<close>)
  then show ?thesis
    using inv s N by (auto simp: spawn_inv_def)
qed

lemma all_of_card:
  assumes "card {i. i < N \<and> P i} = (N :: nat)" and "j < N"
  shows "P j"
proof -
  have "{i. i < N \<and> P i} = {..<N}"
    by (rule card_subset_eq) (use assms(1) in auto)
  then show ?thesis using assms(2) by auto
qed

text \<open>A goroutine that stays in its function.\<close>

lemma not_both: "in_function g \<Longrightarrow> \<not> is_sending g"
  by (cases g) simp_all

lemma spawn_inv_function:
  assumes inv: "spawn_inv fn N s" and g: "in_function (sp_go s cli)" "in_function g"
  shows "spawn_inv fn N (s\<lparr>sp_go := (sp_go s)(cli := g), sp_w := w\<rparr>)"
proof -
  have N: "cli < N"
    using inv g(1) by (auto simp: spawn_inv_def not_less [symmetric])
  have same: "{j. j < N \<and> is_sending (((sp_go s)(cli := g)) j)} = {j. j < N \<and> is_sending (sp_go s j)}"
    using g by (auto simp: not_both)
  have poll: "\<forall>j c. ((sp_go s)(cli := g)) j = Sending c \<longrightarrow> fc_polls fn c" "\<forall>j\<ge>N. ((sp_go s)(cli := g)) j = Unborn"
    using inv g(2) N by (auto simp: spawn_inv_def)
  have late: "\<not> delivered fn s cli r" for r
    using g(1) by (auto simp: delivered_def)
  show ?thesis
  proof (cases "sp_pc s")
    case (Spawning k)
    then show ?thesis using inv g N poll by (auto simp: spawn_inv_def)
  next
    case (Signalling k)
    then show ?thesis using inv g poll unfolding spawn_inv_def by (simp add: same [simplified])
  next
    case (Collecting rs)
    then show ?thesis using inv N late not_both [OF g(1)] unfolding spawn_inv_def by (auto split: if_splits)
  next
    case (Returned rs)
    then show ?thesis using inv N late unfolding spawn_inv_def by auto
  qed
qed

text \<open>A client hands over its result, or deletes its clerk.\<close>

lemma spawn_inv_collect:
  assumes inv: "spawn_inv fn N s" and s: "sp_pc s = Collecting rs" "length rs < N" "sp_go s (length rs) = Sending c"
  shows "spawn_inv fn N (s\<lparr>sp_pc := Collecting (rs @ [fc_res fn c]), sp_go := (sp_go s)(length rs := Deleting c)\<rparr>)"
    (is "spawn_inv fn N ?t")
proof -
  have old: "delivered fn s cli (rs ! cli)" if "cli < length rs" for cli
    using inv s that by (simp add: spawn_inv_def)
  have "delivered fn ?t cli ((rs @ [fc_res fn c]) ! cli)" if "cli < length rs" for cli
    using old [OF that] that by (simp add: delivered_def nth_append)
  moreover have "delivered fn ?t (length rs) ((rs @ [fc_res fn c]) ! length rs)"
    using inv s(3) by (simp add: delivered_def spawn_inv_def)
  ultimately have "delivered fn ?t cli ((rs @ [fc_res fn c]) ! cli)" if "cli < length (rs @ [fc_res fn c])" for cli
    using that by (cases "cli = length rs") simp_all
  moreover have "is_sending (sp_go s cli)" if "cli < N" "\<not> cli < length rs" for cli
    using inv s(1) that by (simp add: spawn_inv_def)
  ultimately show ?thesis
    using inv s(1,2) by (simp add: spawn_inv_def)
qed

lemma spawn_inv_delete:
  assumes inv: "spawn_inv fn N s" and s: "sp_go s cli = Deleting c"
  shows "spawn_inv fn N (s\<lparr>sp_go := (sp_go s)(cli := Ended c), sp_w := w\<rparr>)" (is "spawn_inv fn N ?t")
proof -
  have N: "cli < N"
    using inv s by (auto simp: spawn_inv_def not_less [symmetric])
  have "delivered fn ?t j r" if "delivered fn s j r" for j r
    using that s by (auto simp: delivered_def)
  moreover have "is_sending (sp_go ?t j) \<longleftrightarrow> is_sending (sp_go s j)" for j
    using s by simp
  moreover have "in_function (sp_go ?t j) \<longleftrightarrow> in_function (sp_go s j)" for j
    using s by simp
  moreover have "sp_go ?t j = Unborn \<longleftrightarrow> sp_go s j = Unborn" "sp_go ?t j = Sending x \<longleftrightarrow> sp_go s j = Sending x" for j x
    using s by simp_all
  ultimately show ?thesis
    using inv by (simp add: spawn_inv_def split: spawn_pc.splits del: fun_upd_apply)
qed

lemma spawn_step_inv:
  assumes "SpawnClientsAndWait_step mkc fn N s t" and inv: "spawn_inv fn N s"
  shows "spawn_inv fn N t"
  using assms(1)
proof cases
  case (spawn cli)
  have "if j < cli + 1 then in_function (((sp_go s)(cli := Starting)) j) else ((sp_go s)(cli := Starting)) j = Unborn" if "j < N" for j
    using inv spawn that by (cases "j = cli") (simp_all add: spawn_inv_def)
  then show ?thesis using spawn inv by (simp add: spawn_inv_def)
next
  case slept
  then have "in_function (sp_go s cli)" if "cli < N" for cli
    using inv that by (simp add: spawn_inv_def)
  then have "{cli. cli < N \<and> is_sending (sp_go s cli)} = {}" "\<forall>cli<N. in_function (sp_go s cli) \<or> is_sending (sp_go s cli)"
    using not_both by auto
  then show ?thesis using slept inv unfolding spawn_inv_def by simp
next
  case (make cli)
  then show ?thesis using spawn_inv_function [OF inv, of cli "Running (fc_start fn cli)"] by simp
next
  case (work cli c w c')
  then show ?thesis using spawn_inv_function [OF inv, of cli "Running c'"] by simp
next
  case (fail cli c w)
  then show ?thesis using spawn_inv_function [OF inv, of cli Exited] by simp
next
  case (signal k cli c)
  then show ?thesis using spawn_inv_signal [OF inv, of k cli c] by simp
next
  case signalled
  then have "card {cli. cli < N \<and> is_sending (sp_go s cli)} = N"
    using inv by (simp only: spawn_inv_def spawn_pc.case)
  then have "is_sending (sp_go s cli)" if "cli < N" for cli
    using that by (rule all_of_card)
  then have "\<forall>cli<N. is_sending (sp_go s cli)" by blast
  then show ?thesis using signalled inv by (simp only: spawn_inv_def) simp
next
  case (collect rs c)
  then show ?thesis using spawn_inv_collect [OF inv, of rs c] by simp
next
  case (return rs)
  then show ?thesis using inv by (simp add: spawn_inv_def delivered_def)
next
  case (delete cli c)
  then show ?thesis using spawn_inv_delete [OF inv, of cli c] by simp
qed

lemma spawn_reach_inv:
  assumes "SpawnClientsAndWait mkc fn N s n t" and "spawn_inv fn N s"
  shows "spawn_inv fn N t"
  using assms by (induction rule: SpawnClientsAndWait.induct) (auto intro: spawn_step_inv)

section \<open>Waiting\<close>

text \<open>A goroutine that \<open>FailNow\<close> has ended does not come back.\<close>

lemma exited_stays:
  assumes "SpawnClientsAndWait mkc fn N s n t" and "spawn_inv fn N s" and "sp_go s cli = Exited"
  shows "sp_go t cli = Exited"
  using assms
proof (induction rule: SpawnClientsAndWait.induct)
  case (step n t u)
  have inv: "spawn_inv fn N t" using spawn_reach_inv [OF step.hyps(1) step.prems(1)] .
  from step.hyps(2) show ?case
    using inv step.IH [OF step.prems] by cases (auto simp: spawn_inv_def)
qed simp

text \<open>How far the goroutines are from their end, and the caller from its return.\<close>

fun go_left :: "'c runClient \<Rightarrow> nat" where
  "go_left Unborn = 5"
| "go_left Starting = 4"
| "go_left (Running c) = 3"
| "go_left (Sending c) = 2"
| "go_left (Deleting c) = 1"
| "go_left _ = 0"

fun pc_left :: "spawn_pc \<Rightarrow> nat" where
  "pc_left (Spawning k) = 3"
| "pc_left (Signalling k) = 2"
| "pc_left (Collecting rs) = 1"
| "pc_left (Returned rs) = 0"

definition spawn_left :: "nat \<Rightarrow> ('c, 'w) spawned \<Rightarrow> nat" where
  "spawn_left N s = pc_left (sp_pc s) + (\<Sum>cli<N. go_left (sp_go s cli))"

lemma go_left_less:
  assumes "cli < (N :: nat)" and "go_left g < go_left (f cli)"
  shows "(\<Sum>j<N. go_left ((f(cli := g)) j)) < (\<Sum>j<N. go_left (f j))"
  by (rule sum_strict_mono_ex1) (use assms in auto)

text \<open>
  When every client that is in its function is at its \<open>select\<close>, and as long as the caller has not returned, a step of the protocol is
  possible that keeps this and comes closer to the return.
\<close>

definition ready :: "('c, 'w) Fclnt \<Rightarrow> ('c, 'w) spawned \<Rightarrow> bool" where
  "ready fn s \<longleftrightarrow> (\<forall>cli. sp_go s cli \<noteq> Exited \<and> (\<forall>c. sp_go s cli = Running c \<longrightarrow> fc_polls fn c))"

lemma ready_stepI:
  assumes "SpawnClientsAndWait_step mkc fn N s t" and "ready fn t" and "spawn_left N t < spawn_left N s"
  shows "\<exists>t. SpawnClientsAndWait_step mkc fn N s t \<and> ready fn t \<and> spawn_left N t < spawn_left N s"
  using assms by blast

lemma ready_signal:
  assumes inv: "spawn_inv fn N s" and rd: "ready fn s" and polls: "\<And>cli. fc_polls fn (fc_start fn cli)"
    and pc: "sp_pc s = Signalling k" and cli: "cli < N" "\<not> is_sending (sp_go s cli)"
  shows "\<exists>t. SpawnClientsAndWait_step mkc fn N s t \<and> ready fn t \<and> spawn_left N t < spawn_left N s"
proof -
  have "in_function (sp_go s cli)" using inv pc cli by (auto simp: spawn_inv_def)
  then consider "sp_go s cli = Starting" | c where "sp_go s cli = Running c" "fc_polls fn c"
    using rd by (cases "sp_go s cli") (auto simp: ready_def)
  then show ?thesis
  proof cases
    case 1
    show ?thesis
      by (rule ready_stepI [OF SpawnClientsAndWait_step.make [OF 1]])
        (use 1 rd polls go_left_less [OF cli(1), of "Running (fc_start fn cli)" "sp_go s"] in \<open>auto simp: ready_def spawn_left_def\<close>)
  next
    case (2 c)
    have "{j. j < N \<and> is_sending (sp_go s j)} \<subset> {..<N}" using cli by auto
    then have "card {j. j < N \<and> is_sending (sp_go s j)} < card {..<N}" by (rule psubset_card_mono [OF finite_lessThan])
    then have k: "k < N" using inv pc unfolding spawn_inv_def by simp
    show ?thesis
      by (rule ready_stepI [OF SpawnClientsAndWait_step.signal [OF pc k 2]])
        (use 2 pc rd go_left_less [OF cli(1), of "Sending c" "sp_go s"] in \<open>auto simp: ready_def spawn_left_def\<close>)
  qed
qed

lemma ready_step:
  assumes inv: "spawn_inv fn N s" and rd: "ready fn s" and polls: "\<And>cli. fc_polls fn (fc_start fn cli)"
    and out: "\<And>rs. sp_pc s \<noteq> Returned rs"
  shows "\<exists>t. SpawnClientsAndWait_step mkc fn N s t \<and> ready fn t \<and> spawn_left N t < spawn_left N s"
proof (cases "sp_pc s")
  case (Spawning k)
  show ?thesis
  proof (cases "k = N")
    case True
    show ?thesis
      by (rule ready_stepI [OF SpawnClientsAndWait_step.slept]) (use True rd Spawning in \<open>auto simp: ready_def spawn_left_def\<close>)
  next
    case False
    then have k: "sp_go s k = Unborn" "k < N" using inv Spawning by (auto simp: spawn_inv_def)
    show ?thesis
      by (rule ready_stepI [OF SpawnClientsAndWait_step.spawn [OF Spawning k(2)]])
        (use rd Spawning k(1) go_left_less [OF k(2), of Starting "sp_go s"] in \<open>auto simp: ready_def spawn_left_def\<close>)
  qed
next
  case (Signalling k)
  show ?thesis
  proof (cases "\<forall>cli<N. is_sending (sp_go s cli)")
    case True
    then have "{cli. cli < N \<and> is_sending (sp_go s cli)} = {..<N}" by auto
    then have k: "k = N" using inv Signalling unfolding spawn_inv_def by simp
    show ?thesis
      by (rule ready_stepI [OF SpawnClientsAndWait_step.signalled]) (use k rd Signalling in \<open>auto simp: ready_def spawn_left_def\<close>)
  qed (use ready_signal [OF inv rd polls Signalling] in blast)
next
  case (Collecting rs)
  show ?thesis
  proof (cases "length rs = N")
    case True
    show ?thesis
      by (rule ready_stepI [OF SpawnClientsAndWait_step.return [OF Collecting True]])
        (use rd Collecting in \<open>auto simp: ready_def spawn_left_def\<close>)
  next
    case False
    then have N: "length rs < N" "is_sending (sp_go s (length rs))" using inv Collecting by (auto simp: spawn_inv_def)
    then obtain c where c: "sp_go s (length rs) = Sending c" by (cases "sp_go s (length rs)") simp_all
    show ?thesis
      by (rule ready_stepI [OF SpawnClientsAndWait_step.collect [OF Collecting N(1) c]])
        (use rd c Collecting go_left_less [OF N(1), of "Deleting c" "sp_go s"] in \<open>auto simp: ready_def spawn_left_def\<close>)
  qed
qed (use out in blast)

text \<open>So the caller returns within as many steps.\<close>

lemma SpawnClientsAndWait_trans:
  assumes "SpawnClientsAndWait mkc fn N s n t" and "SpawnClientsAndWait_step mkc fn N r s"
  shows "SpawnClientsAndWait mkc fn N r (Suc n) t"
  using assms by (induction rule: SpawnClientsAndWait.induct) (auto intro: SpawnClientsAndWait.intros)

lemma ready_returns:
  assumes "spawn_inv fn N s" and "ready fn s" and polls: "\<And>cli. fc_polls fn (fc_start fn cli)"
  shows "\<exists>n t rs. n \<le> spawn_left N s \<and> SpawnClientsAndWait mkc fn N s n t \<and> sp_pc t = Returned rs"
  using assms(1,2)
proof (induction "spawn_left N s" arbitrary: s rule: less_induct)
  case less
  show ?case
  proof (cases "\<exists>rs. sp_pc s = Returned rs")
    case True
    then show ?thesis using SpawnClientsAndWait.start by blast
  next
    case False
    then obtain t where t: "SpawnClientsAndWait_step mkc fn N s t" "ready fn t" "spawn_left N t < spawn_left N s"
      using ready_step [OF less.prems polls, where mkc = mkc] by blast
    obtain n u rs where "n \<le> spawn_left N t" "SpawnClientsAndWait mkc fn N t n u" "sp_pc u = Returned rs"
      using less.hyps [OF t(3) spawn_step_inv [OF t(1) less.prems(1)] t(2)] by blast
    then show ?thesis using SpawnClientsAndWait_trans [OF _ t(1)] t(3) by (meson Suc_leI le_trans Suc_le_mono)
  qed
qed

lemma spawn_left_bound: "spawn_left N s \<le> 5 * N + 3"
proof -
  have "go_left g \<le> 5" for g :: "'a runClient" by (cases g) simp_all
  then have "(\<Sum>cli<N. go_left (sp_go s cli)) \<le> (\<Sum>cli<N. 5)" by (intro sum_mono) simp
  moreover have "pc_left (sp_pc s) \<le> 3" by (cases "sp_pc s") simp_all
  ultimately show ?thesis by (simp add: spawn_left_def)
qed

text \<open>
  C21: \<open>SpawnClientsAndWait\<close> waits for every client. When it returns, it has one result for each client, in the order of
  the clients, and that is what the client's function had when it was signalled at its \<open>select\<close>. If every client that is in its
  function is at its \<open>select\<close>, the call can return, after at most five steps for each client and three of its own. But if the test
  failed in a client, whose goroutine \<open>FailNow\<close> has ended, the call never returns.
\<close>

theorem spawn_waits_for_every_client:
  assumes "SpawnClientsAndWait mkc fn nclnt (spawn_start w) n s"
  shows "(\<forall>rs. sp_pc s = Returned rs \<longrightarrow> length rs = nclnt \<and>
      (\<forall>cli<nclnt. \<exists>c. sp_go s cli \<in> {Deleting c, Ended c} \<and> fc_polls fn c \<and> rs ! cli = fc_res fn c)) \<and>
    (ready fn s \<and> (\<forall>cli. fc_polls fn (fc_start fn cli)) \<longrightarrow>
      (\<exists>m t rs. m \<le> 5 * nclnt + 3 \<and> SpawnClientsAndWait mkc fn nclnt s m t \<and> sp_pc t = Returned rs)) \<and>
    ((\<exists>cli<nclnt. sp_go s cli = Exited) \<longrightarrow> (\<forall>m t rs. SpawnClientsAndWait mkc fn nclnt s m t \<longrightarrow> sp_pc t \<noteq> Returned rs))"
proof (intro conjI allI impI)
  have inv: "spawn_inv fn nclnt s" by (rule spawn_reach_inv [OF assms spawn_inv_start])
  fix rs
  assume "sp_pc s = Returned rs"
  then have ret: "length rs = nclnt" "\<forall>cli<nclnt. delivered fn s cli (rs ! cli)" using inv by (simp_all add: spawn_inv_def)
  then show "length rs = nclnt" by simp
  show "\<exists>c. sp_go s cli \<in> {Deleting c, Ended c} \<and> fc_polls fn c \<and> rs ! cli = fc_res fn c" if "cli < nclnt" for cli
    using ret(2) that unfolding delivered_def by blast
next
  assume "ready fn s \<and> (\<forall>cli. fc_polls fn (fc_start fn cli))"
  then obtain m t rs where "m \<le> spawn_left nclnt s" "SpawnClientsAndWait mkc fn nclnt s m t" "sp_pc t = Returned rs"
    using ready_returns [OF spawn_reach_inv [OF assms spawn_inv_start], where mkc = mkc] by blast
  then show "\<exists>m t rs. m \<le> 5 * nclnt + 3 \<and> SpawnClientsAndWait mkc fn nclnt s m t \<and> sp_pc t = Returned rs"
    using spawn_left_bound [of nclnt s] le_trans by blast
next
  have inv: "spawn_inv fn nclnt s" by (rule spawn_reach_inv [OF assms spawn_inv_start])
  fix m t rs
  assume "\<exists>cli<nclnt. sp_go s cli = Exited" and run: "SpawnClientsAndWait mkc fn nclnt s m t"
  then obtain cli where cli: "cli < nclnt" "sp_go t cli = Exited" using exited_stays [OF run inv] by blast
  have "delivered fn t cli (rs ! cli)" if "sp_pc t = Returned rs"
    using spawn_reach_inv [OF run inv] cli(1) that by (simp add: spawn_inv_def)
  then show "sp_pc t \<noteq> Returned rs"
    using cli(2) by (auto simp: delivered_def)
qed

text \<open>One client, whose function fails at once.\<close>

definition failing :: "(unit, unit) Fclnt" where
  "failing = \<lparr>fc_start = (\<lambda>_. ()), fc_polls = (\<lambda>_. True), fc_step = (\<lambda>_ _ (w, x). x = None),
     fc_res = (\<lambda>_. \<lparr>cr_Nok = 0, cr_Nmaybe = 0\<rparr>)\<rparr>"

definition no_clerks :: "'w IClerkMaker" where
  "no_clerks = \<lparr>mkc_MakeClerk = (\<lambda>_ w. w), mkc_DeleteClerk = (\<lambda>_ w. w)\<rparr>"

theorem spawn_waits_for_every_client_witness:
  "SpawnClientsAndWait no_clerks failing 1 (spawn_start ()) 3 \<lparr>sp_pc = Spawning 1, sp_go = (\<lambda>_. Unborn)(0 := Exited), sp_w = ()\<rparr> \<and>
   \<not> (\<exists>m t rs. SpawnClientsAndWait no_clerks failing 1 \<lparr>sp_pc = Spawning 1, sp_go = (\<lambda>_. Unborn)(0 := Exited), sp_w = ()\<rparr> m t \<and>
      sp_pc t = Returned rs)"
    (is "SpawnClientsAndWait _ _ _ _ _ ?s3 \<and> _")
proof -
  let ?s = "\<lambda>g. \<lparr>sp_pc = Spawning 1, sp_go = (\<lambda>_. Unborn)(0 := g), sp_w = ()\<rparr>"
  have "SpawnClientsAndWait_step no_clerks failing 1 (spawn_start ()) (?s Starting)"
    using SpawnClientsAndWait_step.spawn [of "spawn_start ()" 0 1 no_clerks failing] by (simp add: spawn_start_def)
  moreover have "SpawnClientsAndWait_step no_clerks failing 1 (?s Starting) (?s (Running ()))"
    using SpawnClientsAndWait_step.make [of "?s Starting" 0 no_clerks failing 1] by (simp add: no_clerks_def)
  moreover have "SpawnClientsAndWait_step no_clerks failing 1 (?s (Running ())) ?s3"
    using SpawnClientsAndWait_step.fail [of "?s (Running ())" 0 "()" failing "()" no_clerks 1] by (simp add: failing_def)
  ultimately have run: "SpawnClientsAndWait no_clerks failing 1 (spawn_start ()) 3 ?s3"
    using SpawnClientsAndWait.step [OF SpawnClientsAndWait.step [OF SpawnClientsAndWait.step [OF SpawnClientsAndWait.start]]]
    by (simp add: numeral_3_eq_3)
  then show ?thesis
    using spawn_waits_for_every_client [OF run] by simp
qed

section \<open>Systems of clients\<close>

text \<open>What the clients of a test have, before, in and after their functions.\<close>

definition client_of :: "('c, 'w) Fclnt \<Rightarrow> ('c, 'w) spawned \<Rightarrow> nat \<Rightarrow> 'c" where
  "client_of fn s cli =
     (case sp_go s cli of Running c \<Rightarrow> c | Sending c \<Rightarrow> c | Deleting c \<Rightarrow> c | Ended c \<Rightarrow> c | _ \<Rightarrow> fc_start fn cli)"

text \<open>
  The contract of a client function with its servers: an invariant of the world and of the clients, for a bounded number of
  steps, under which a step of a client does not fail. It carries over to the clients that a test spawns.
\<close>

locale client_system =
  fixes mkc :: "'w IClerkMaker" and fn :: "('c, 'w) Fclnt" and N :: nat and bound :: nat
    and J :: "nat \<Rightarrow> 'w \<Rightarrow> (nat \<Rightarrow> 'c) \<Rightarrow> bool" and w0 :: 'w
  assumes begins: "J 0 w0 (fc_start fn)"
    and more: "J n w f \<Longrightarrow> J (Suc n) w f"
    and clerks: "J n w f \<Longrightarrow> J n (mkc_MakeClerk mkc cli w) f" "J n w f \<Longrightarrow> J n (mkc_DeleteClerk mkc cli w) f"
    and works: "J n w f \<Longrightarrow> Suc n < bound \<Longrightarrow> cli < N \<Longrightarrow> fc_step fn cli (w, f cli) (w', x) \<Longrightarrow>
      \<exists>c. x = Some c \<and> J (Suc n) w' (f(cli := c))"
begin

lemma step_keeps:
  assumes "SpawnClientsAndWait_step mkc fn N s t" and inv: "spawn_inv fn N s" and n: "Suc n < bound"
    and J: "J n (sp_w s) (client_of fn s)" and run: "\<forall>cli. sp_go s cli \<noteq> Exited"
  shows "J (Suc n) (sp_w t) (client_of fn t) \<and> (\<forall>cli. sp_go t cli \<noteq> Exited)"
proof -
  have same: "J (Suc n) (sp_w t) (client_of fn t)" if "client_of fn t = client_of fn s" "J n (sp_w t) (client_of fn s)"
    using more that by simp
  have N: "cli < N" if "sp_go s cli = Running c" for cli c
    using inv that by (auto simp: spawn_inv_def not_less [symmetric])
  from assms(1) show ?thesis
  proof cases
    case (work cli c w c')
    then have "client_of fn s cli = c" "client_of fn t = (client_of fn s)(cli := c')" by (auto simp: client_of_def)
    then show ?thesis using works [OF J n N [OF work(2)], of w "Some c'"] work run by simp
  next
    case (fail cli c w)
    then have "client_of fn s cli = c" by (simp add: client_of_def)
    then show ?thesis using works [OF J n N [OF fail(2)], of w None] fail by simp
  next
    case (spawn cli)
    then have "sp_go s cli = Unborn" using inv by (simp add: spawn_inv_def)
    then show ?thesis using same J spawn run by (auto simp: client_of_def fun_eq_iff)
  qed (use same J run clerks in \<open>auto simp: client_of_def fun_eq_iff\<close>)
qed

lemma run_keeps:
  assumes "SpawnClientsAndWait mkc fn N (spawn_start w0) n s" and "n < bound"
  shows "J n (sp_w s) (client_of fn s) \<and> (\<forall>cli. sp_go s cli \<noteq> Exited)"
  using assms
proof (induction rule: SpawnClientsAndWait.induct)
  case start
  have "client_of fn (spawn_start w0) = fc_start fn" by (simp add: client_of_def spawn_start_def fun_eq_iff)
  then show ?case using begins by (simp add: spawn_start_def)
next
  case (step n s t)
  then show ?case using step_keeps [OF step.hyps(2) spawn_reach_inv [OF step.hyps(1) spawn_inv_start], of n] by simp
qed

text \<open>At the return, every client stands at its \<open>select\<close>, and the results are theirs.\<close>

lemma returned:
  assumes "SpawnClientsAndWait mkc fn N (spawn_start w0) n s" and "n < bound" and "sp_pc s = Returned rs"
  shows "rs = map (\<lambda>cli. fc_res fn (client_of fn s cli)) [0..<N]" and "cli < N \<Longrightarrow> fc_polls fn (client_of fn s cli)"
proof -
  have ret: "length rs = N" "\<And>cli. cli < N \<Longrightarrow> delivered fn s cli (rs ! cli)"
    using spawn_reach_inv [OF assms(1) spawn_inv_start] assms(3) by (simp_all add: spawn_inv_def)
  have "rs ! cli = fc_res fn (client_of fn s cli) \<and> fc_polls fn (client_of fn s cli)" if "cli < N" for cli
    using ret(2) [OF that] by (auto simp: delivered_def client_of_def)
  then show "rs = map (\<lambda>cli. fc_res fn (client_of fn s cli)) [0..<N]" "cli < N \<Longrightarrow> fc_polls fn (client_of fn s cli)"
    using ret(1) by (auto simp: list_eq_iff_nth_eq)
qed

end

section \<open>The put test\<close>

text \<open>
  The client function of the put test, \<open>OneClientPut\<close> on one key: a client of \<open>KvTestRuns\<close>, with the flag that says whether it
  is at its \<open>select\<close> or tries the same put again.
\<close>

inductive OneClientPut_step ::
  "bool \<Rightarrow> string \<Rightarrow> nat \<Rightarrow> KVServer \<times> put_clnt \<times> bool \<Rightarrow> KVServer \<times> (put_clnt \<times> bool) option \<Rightarrow> bool" for reliable key cli where
  put: "pt_pc c = AtPut \<Longrightarrow> a = entry_args key cli (pt_ver c) \<Longrightarrow> clerk_err (put_err kv a) e \<Longrightarrow>
     (reliable \<longrightarrow> e = put_err kv a) \<Longrightarrow> OnePut_put e = Inr () \<Longrightarrow>
     OneClientPut_step reliable key cli (kv, c, b) (put_state kv a, Some (c\<lparr>pt_pc := AtGet e\<rparr>, False))"
| put_fail: "pt_pc c = AtPut \<Longrightarrow> a = entry_args key cli (pt_ver c) \<Longrightarrow> clerk_err (put_err kv a) e \<Longrightarrow>
     (reliable \<longrightarrow> e = put_err kv a) \<Longrightarrow> OnePut_put e = Inl x \<Longrightarrow>
     OneClientPut_step reliable key cli (kv, c, b) (put_state kv a, None)"
| got: "pt_pc c = AtGet e \<Longrightarrow> put_after_get kv key cli c e = Inr (ver, ret) \<Longrightarrow>
     OneClientPut_step reliable key cli (kv, c, b) (kv, Some (put_counted c ver ret, ret \<noteq> None))"
| got_fail: "pt_pc c = AtGet e \<Longrightarrow> put_after_get kv key cli c e = Inl x \<Longrightarrow>
     OneClientPut_step reliable key cli (kv, c, b) (kv, None)"

definition put_fclnt :: "bool \<Rightarrow> string \<Rightarrow> (put_clnt \<times> bool, KVServer) Fclnt" where
  "put_fclnt reliable key =
     \<lparr>fc_start = (\<lambda>_. (\<lparr>pt_pc = AtPut, pt_ver = 0, pt_res = \<lparr>cr_Nok = 0, cr_Nmaybe = 0\<rparr>\<rparr>, True)), fc_polls = snd,
      fc_step = OneClientPut_step reliable key, fc_res = (\<lambda>(c, b). pt_res c)\<rparr>"

text \<open>The clients, seen as the system of \<open>KvTestRuns\<close>.\<close>

definition put_view :: "KVServer \<Rightarrow> (nat \<Rightarrow> put_clnt \<times> bool) \<Rightarrow> put_sys" where
  "put_view kv f = \<lparr>us_kv = kv, us_c = (\<lambda>i. fst (f i)), us_failed = False\<rparr>"

definition put_spawn_inv :: "bool \<Rightarrow> string \<Rightarrow> nat \<Rightarrow> nat \<Rightarrow> KVServer \<Rightarrow> (nat \<Rightarrow> put_clnt \<times> bool) \<Rightarrow> bool" where
  "put_spawn_inv reliable key N n kv f \<longleftrightarrow>
     put_inv reliable key N n (put_view kv f) \<and> (\<forall>i. snd (f i) \<longrightarrow> pt_pc (fst (f i)) = AtPut)"

lemma put_inv_more: "put_inv reliable key N n s \<Longrightarrow> put_inv reliable key N (Suc n) s"
  by (auto simp: put_inv_def)

lemma put_spawn_invI:
  assumes "put_spawn_inv reliable key N n kv f" and "b \<longrightarrow> pt_pc c = AtPut"
    and "put_inv reliable key N m \<lparr>us_kv = kv', us_c = (us_c (put_view kv f))(i := c), us_failed = False\<rparr>"
  shows "put_spawn_inv reliable key N m kv' (f(i := (c, b)))"
proof -
  have "put_view kv' (f(i := (c, b))) = \<lparr>us_kv = kv', us_c = (us_c (put_view kv f))(i := c), us_failed = False\<rparr>"
    by (simp add: put_view_def fun_eq_iff)
  then show ?thesis using assms by (simp add: put_spawn_inv_def)
qed

lemma put_client_works:
  assumes J: "put_spawn_inv reliable key N n kv f" and n: "Suc n < 2 ^ 64" and i: "i < N"
    and "OneClientPut_step reliable key i (kv, f i) (kv', x)"
  shows "\<exists>c. x = Some c \<and> put_spawn_inv reliable key N (Suc n) kv' (f(i := c))"
proof -
  have inv: "put_inv reliable key N n (put_view kv f)" using J by (simp add: put_spawn_inv_def)
  have keeps: "put_inv reliable key N (Suc n) t" if "put_step reliable key N (put_view kv f) t" for t
    using put_step_inv [OF _ _ n] inv that by blast
  obtain c b where f: "f i = (c, b)" by fastforce
  have c: "us_c (put_view kv f) i = c" "us_kv (put_view kv f) = kv" by (simp_all add: put_view_def f)
  from assms(4) show ?thesis unfolding f
  proof cases
    case (put a e)
    then show ?thesis
      using put_spawn_invI [OF J] keeps [OF put_step.put [of i N "put_view kv f" a key e reliable]] i
      by (simp add: c) (simp add: put_view_def)
  next
    case (put_fail a e y)
    then have "put_inv reliable key N (Suc n) \<lparr>us_kv = kv', us_c = (us_c (put_view kv f))(i := c\<lparr>pt_pc := AtGet e\<rparr>), us_failed = True\<rparr>"
      using keeps [OF put_step.put [of i N "put_view kv f" a key e reliable]] i c by simp
    then show ?thesis by (simp add: put_inv_def)
  next
    case (got e ver ret)
    have "put_inv reliable key N (Suc n)
        \<lparr>us_kv = kv, us_c = (us_c (put_view kv f))(i := put_counted c ver ret), us_failed = False\<rparr>"
      using keeps [OF put_step.got [of i N "put_view kv f" e key ver ret reliable]] got i by (simp add: c) (simp add: put_view_def)
    then show ?thesis
      using put_spawn_invI [OF J, of "ret \<noteq> None" "put_counted c ver ret"] got by (simp add: put_counted_def)
  next
    case (got_fail e y)
    then have "put_inv reliable key N (Suc n) ((put_view kv f)\<lparr>us_failed := True\<rparr>)"
      using keeps [OF put_step.fail [of i N "put_view kv f" e key y reliable]] i c by simp
    then show ?thesis by (simp add: put_inv_def)
  qed
qed

interpretation puts: client_system no_clerks "put_fclnt reliable key" N "2 ^ 64" "put_spawn_inv reliable key N" MakeKVServer
  for reliable key N
proof
  have "put_view MakeKVServer (fc_start (put_fclnt reliable key)) = put_start"
    by (simp add: put_view_def put_fclnt_def put_start_def)
  then show "put_spawn_inv reliable key N 0 MakeKVServer (fc_start (put_fclnt reliable key))"
    using put_inv_start [of reliable key N] by (simp add: put_spawn_inv_def put_fclnt_def)
next
  show "put_spawn_inv reliable key N n w f \<Longrightarrow> Suc n < 2 ^ 64 \<Longrightarrow> cli < N \<Longrightarrow>
      fc_step (put_fclnt reliable key) cli (w, f cli) (w', x) \<Longrightarrow>
      \<exists>c. x = Some c \<and> put_spawn_inv reliable key N (Suc n) w' (f(cli := c))" for n w f cli w' x
    using put_client_works [of reliable key N n w f cli w' x] by (simp add: put_fclnt_def)
qed (use put_inv_more in \<open>auto simp: put_spawn_inv_def no_clerks_def\<close>)

text \<open>
  C20: the whole put test accepts the key/value server. \<open>SpawnClientsAndWait\<close> runs any number of clients of \<open>OneClientPut\<close> on one
  key of a new server, through clerks on a network that loses messages or on one that does not. No client fails. When the call
  returns and a client has counted a put, \<open>CheckPutConcurrent\<close> on the results it returned finds a number of writes at the server that
  agrees with what the clients counted, and adds up the counts.
\<close>

theorem spawned_put_test_passes:
  assumes "SpawnClientsAndWait no_clerks (put_fclnt reliable key) nclnt (spawn_start MakeKVServer) n s" and "n < 2 ^ 64"
  shows "(\<forall>cli. sp_go s cli \<noteq> Exited) \<and>
    (\<forall>rs. sp_pc s = Returned rs \<longrightarrow> (\<exists>r \<in> set rs. 0 < cr_Nok r + cr_Nmaybe r) \<longrightarrow>
      length rs = nclnt \<and>
      go_bind (GetJson_got unmarshal_EntryV (clerk_get (sp_w s) key))
        (CheckPutConcurrent_got reliable rs \<lparr>cr_Nok = 0, cr_Nmaybe = 0\<rparr>) =
      Inr \<lparr>cr_Nok = sum_list (map cr_Nok rs), cr_Nmaybe = sum_list (map cr_Nmaybe rs)\<rparr>)"
proof (intro conjI allI impI)
  let ?f = "client_of (put_fclnt reliable key) s" and ?v = "put_view (sp_w s) (client_of (put_fclnt reliable key) s)"
  note keeps = puts.run_keeps [OF assms]
  show "sp_go s cli \<noteq> Exited" for cli using keeps by blast
  fix rs
  assume ret: "sp_pc s = Returned rs" and "\<exists>r \<in> set rs. 0 < cr_Nok r + cr_Nmaybe r"
  have rs: "rs = map (\<lambda>i. pt_res (us_c ?v i)) [0..<nclnt]"
    using puts.returned(1) [OF assms ret] by (simp add: put_fclnt_def put_view_def case_prod_beta)
  then show "length rs = nclnt" by simp
  have inv: "put_inv reliable key nclnt n ?v" and at: "\<forall>i. snd (?f i) \<longrightarrow> pt_pc (fst (?f i)) = AtPut"
    using keeps by (simp_all add: put_spawn_inv_def)
  have "snd (?f i)" if "i < nclnt" for i
    using puts.returned(2) [OF assms ret that] by (simp add: put_fclnt_def)
  then have idle: "\<forall>i<nclnt. pt_pc (us_c ?v i) = AtPut"
    using at by (simp add: put_view_def)
  have "\<exists>i<nclnt. 0 < cr_Nok (pt_res (us_c ?v i)) + cr_Nmaybe (pt_res (us_c ?v i))"
    using \<open>\<exists>r \<in> set rs. _ r\<close> unfolding rs by auto
  from put_check_passes [OF inv assms(2) idle this]
  show "go_bind (GetJson_got unmarshal_EntryV (clerk_get (sp_w s) key))
      (CheckPutConcurrent_got reliable rs \<lparr>cr_Nok = 0, cr_Nmaybe = 0\<rparr>) =
    Inr \<lparr>cr_Nok = sum_list (map cr_Nok rs), cr_Nmaybe = sum_list (map cr_Nmaybe rs)\<rparr>"
    unfolding rs [symmetric]
    by (simp add: put_view_def rs [unfolded put_view_def] interv_sum_list_conv_sum_set_nat atLeast0LessThan comp_def)
qed

text \<open>One client puts once and is then signalled.\<close>

lemma numeral_9: "(9 :: nat) = Suc (Suc (Suc (Suc (Suc (Suc (Suc (Suc (Suc 0))))))))"
  by simp

lemma nine_steps:
  assumes "SpawnClientsAndWait_step mkc fn N s0 s1" "SpawnClientsAndWait_step mkc fn N s1 s2" "SpawnClientsAndWait_step mkc fn N s2 s3"
    "SpawnClientsAndWait_step mkc fn N s3 s4" "SpawnClientsAndWait_step mkc fn N s4 s5" "SpawnClientsAndWait_step mkc fn N s5 s6"
    "SpawnClientsAndWait_step mkc fn N s6 s7" "SpawnClientsAndWait_step mkc fn N s7 s8" "SpawnClientsAndWait_step mkc fn N s8 s9"
  shows "SpawnClientsAndWait mkc fn N s0 9 s9"
  unfolding numeral_9 by (rule SpawnClientsAndWait.step [OF SpawnClientsAndWait.step [OF SpawnClientsAndWait.step [OF
    SpawnClientsAndWait.step [OF SpawnClientsAndWait.step [OF SpawnClientsAndWait.step [OF SpawnClientsAndWait.step [OF
    SpawnClientsAndWait.step [OF SpawnClientsAndWait.step [OF SpawnClientsAndWait.start]]]]]]]]]) (fact assms)+

text \<open>The steps of such a run around those of the function: two are the client's, with its states \<open>c1\<close> and \<open>c2\<close>.\<close>

definition one_client :: "spawn_pc \<Rightarrow> 'c runClient \<Rightarrow> 'w \<Rightarrow> ('c, 'w) spawned" where
  "one_client pc g w = \<lparr>sp_pc = pc, sp_go = (\<lambda>_. Unborn)(0 := g), sp_w = w\<rparr>"

lemma one_client_run:
  assumes "fc_step fn 0 (w, fc_start fn 0) (w1, Some c1)" and "fc_step fn 0 (w1, c1) (w2, Some c2)" and "fc_polls fn c2"
  shows "SpawnClientsAndWait no_clerks fn 1 (spawn_start w) 9 (one_client (Returned [fc_res fn c2]) (Deleting c2) w2)"
proof (rule nine_steps)
  let ?step = "SpawnClientsAndWait_step no_clerks fn 1"
  show "?step (spawn_start w) (one_client (Spawning 1) Starting w)"
    using SpawnClientsAndWait_step.spawn [of "spawn_start w" 0 1 no_clerks fn] by (simp add: spawn_start_def one_client_def)
  show "?step (one_client (Spawning 1) Starting w) (one_client (Spawning 1) (Running (fc_start fn 0)) w)"
    using SpawnClientsAndWait_step.make [of "one_client (Spawning 1) Starting w" 0 no_clerks fn 1]
    by (simp add: one_client_def no_clerks_def)
  show "?step (one_client (Spawning 1) (Running (fc_start fn 0)) w) (one_client (Spawning 1) (Running c1) w1)"
    using SpawnClientsAndWait_step.work [of "one_client (Spawning 1) (Running (fc_start fn 0)) w" 0 "fc_start fn 0" fn w1 c1 no_clerks 1] assms(1)
    by (simp add: one_client_def)
  show "?step (one_client (Spawning 1) (Running c1) w1) (one_client (Spawning 1) (Running c2) w2)"
    using SpawnClientsAndWait_step.work [of "one_client (Spawning 1) (Running c1) w1" 0 c1 fn w2 c2 no_clerks 1] assms(2)
    by (simp add: one_client_def)
  show "?step (one_client (Spawning 1) (Running c2) w2) (one_client (Signalling 0) (Running c2) w2)"
    using SpawnClientsAndWait_step.slept [of "one_client (Spawning 1) (Running c2) w2" 1 no_clerks fn] by (simp add: one_client_def)
  show "?step (one_client (Signalling 0) (Running c2) w2) (one_client (Signalling 1) (Sending c2) w2)"
    using SpawnClientsAndWait_step.signal [of "one_client (Signalling 0) (Running c2) w2" 0 1 0 c2 fn no_clerks] assms(3)
    by (simp add: one_client_def)
  show "?step (one_client (Signalling 1) (Sending c2) w2) (one_client (Collecting []) (Sending c2) w2)"
    using SpawnClientsAndWait_step.signalled [of "one_client (Signalling 1) (Sending c2) w2" 1 no_clerks fn] by (simp add: one_client_def)
  show "?step (one_client (Collecting []) (Sending c2) w2) (one_client (Collecting [fc_res fn c2]) (Deleting c2) w2)"
    using SpawnClientsAndWait_step.collect [of "one_client (Collecting []) (Sending c2) w2" "[]" 1 c2 no_clerks fn] by (simp add: one_client_def)
  show "?step (one_client (Collecting [fc_res fn c2]) (Deleting c2) w2) (one_client (Returned [fc_res fn c2]) (Deleting c2) w2)"
    using SpawnClientsAndWait_step.return [of "one_client (Collecting [fc_res fn c2]) (Deleting c2) w2" "[fc_res fn c2]" 1 no_clerks fn]
    by (simp add: one_client_def)
qed

theorem spawned_put_test_passes_witness:
  "go_bind (GetJson_got unmarshal_EntryV (clerk_get (put_kv (marshal_EntryV \<lparr>ev_Id = 0, ev_V = 0\<rparr>) 1) ''k''))
     (CheckPutConcurrent_got True [\<lparr>cr_Nok = 1, cr_Nmaybe = 0\<rparr>] \<lparr>cr_Nok = 0, cr_Nmaybe = 0\<rparr>) =
   Inr \<lparr>cr_Nok = 1, cr_Nmaybe = 0\<rparr>"
proof -
  let ?fn = "put_fclnt True ''k''" and ?c0 = "put_idle 0 0 0" and ?kv = "put_kv (marshal_EntryV \<lparr>ev_Id = 0, ev_V = 0\<rparr>) 1"
  have put: "put_err MakeKVServer (entry_args ''k'' 0 0) = OK" "put_state MakeKVServer (entry_args ''k'' 0 0) = ?kv"
    by (simp_all add: kv_defs)
  have "OneClientPut_step True ''k'' 0 (MakeKVServer, ?c0, True) (put_state MakeKVServer (entry_args ''k'' 0 0), Some (?c0\<lparr>pt_pc := AtGet OK\<rparr>, False))"
    by (rule OneClientPut_step.put) (simp_all only: put clerk_err_def OnePut_put_def put_clnt.simps simp_thms if_True if_False)
  then have "OneClientPut_step True ''k'' 0 (MakeKVServer, ?c0, True) (?kv, Some (?c0\<lparr>pt_pc := AtGet OK\<rparr>, False))"
    unfolding put .
  moreover have "OneClientPut_step True ''k'' 0 (?kv, ?c0\<lparr>pt_pc := AtGet OK\<rparr>, False) (?kv, Some (put_idle 1 1 0, True))"
    using OneClientPut_step.got [of "?c0\<lparr>pt_pc := AtGet OK\<rparr>" OK ?kv "''k''" 0 1 "Some True" True False]
    by (simp add: put_after_get_def GetJson_got_def clerk_get_def kv_lookup_def OnePut_got_def put_counted_def count_put_def)
  ultimately have run: "SpawnClientsAndWait no_clerks ?fn 1 (spawn_start MakeKVServer) 9
      (one_client (Returned [\<lparr>cr_Nok = 1, cr_Nmaybe = 0\<rparr>]) (Deleting (put_idle 1 1 0, True)) ?kv)"
    using one_client_run [of ?fn MakeKVServer ?kv "(?c0\<lparr>pt_pc := AtGet OK\<rparr>, False)" ?kv "(put_idle 1 1 0, True)"]
    by (simp add: put_fclnt_def)
  have "9 < (2 :: nat) ^ 64" by simp
  note spawned_put_test_passes [OF run this, THEN conjunct2, rule_format, of "[\<lparr>cr_Nok = 1, cr_Nmaybe = 0\<rparr>]"]
  then show ?thesis
    by (simp add: one_client_def)
qed

section \<open>The append test\<close>

text \<open>The client function of the append test, \<open>OneClientAppend\<close>, in the same way.\<close>

inductive OneClientAppend_step ::
  "nat \<Rightarrow> KVServer \<times> app_clnt \<times> bool \<Rightarrow> KVServer \<times> (app_clnt \<times> bool) option \<Rightarrow> bool" for cli where
  get: "ap_pc c = AppGet \<Longrightarrow> GetJson_got unmarshal_entries (clerk_get kv ''k'') = Inr (es, ver) \<Longrightarrow>
     OneClientAppend_step cli (kv, c, b) (kv, Some (c\<lparr>ap_pc := AppPut (append_got (int cli) (ap_i c) es) ver\<rparr>, False))"
| get_fail: "ap_pc c = AppGet \<Longrightarrow> GetJson_got unmarshal_entries (clerk_get kv ''k'') = Inl x \<Longrightarrow>
     OneClientAppend_step cli (kv, c, b) (kv, None)"
| put: "ap_pc c = AppPut es ver \<Longrightarrow> a = append_args es ver \<Longrightarrow> clerk_err (put_err kv a) e \<Longrightarrow>
     append_put e (ap_res c) = (stop, res) \<Longrightarrow>
     OneClientAppend_step cli (kv, c, b)
       (put_state kv a, Some (\<lparr>ap_pc = AppGet, ap_i = (if stop then ap_i c + 1 else ap_i c), ap_res = res\<rparr>, stop))"

definition app_fclnt :: "(app_clnt \<times> bool, KVServer) Fclnt" where
  "app_fclnt =
     \<lparr>fc_start = (\<lambda>_. (\<lparr>ap_pc = AppGet, ap_i = 0, ap_res = \<lparr>cr_Nok = 0, cr_Nmaybe = 0\<rparr>\<rparr>, True)), fc_polls = snd,
      fc_step = OneClientAppend_step, fc_res = (\<lambda>(c, b). ap_res c)\<rparr>"

definition app_view :: "KVServer \<Rightarrow> (nat \<Rightarrow> app_clnt \<times> bool) \<Rightarrow> app_sys" where
  "app_view kv f = \<lparr>as_kv = kv, as_c = (\<lambda>i. fst (f i)), as_failed = False\<rparr>"

definition app_spawn_inv :: "nat \<Rightarrow> nat \<Rightarrow> KVServer \<Rightarrow> (nat \<Rightarrow> app_clnt \<times> bool) \<Rightarrow> bool" where
  "app_spawn_inv N n kv f \<longleftrightarrow> (\<exists>es. app_inv N n (app_view kv f) es)"

lemma app_client_works:
  assumes J: "app_spawn_inv N n kv f" and n: "Suc n < 2 ^ 63" and i: "i < N"
    and "OneClientAppend_step i (kv, f i) (kv', x)"
  shows "\<exists>c. x = Some c \<and> app_spawn_inv N (Suc n) kv' (f(i := c))"
proof -
  obtain es where inv: "app_inv N n (app_view kv f) es" using J by (auto simp: app_spawn_inv_def)
  have n': "n + 2 < 2 ^ 64" using n by simp
  have keeps: "\<exists>es. app_inv N (Suc n) t es" if "app_step N (app_view kv f) t" for t
    by (rule app_step_inv [OF that inv n'])
  obtain c b where f: "f i = (c, b)" by fastforce
  have c: "as_c (app_view kv f) i = c" "as_kv (app_view kv f) = kv" by (simp_all add: app_view_def f)
  have upd: "app_view kv' (f(i := (c', b'))) = (app_view kv f)\<lparr>as_kv := kv', as_c := (as_c (app_view kv f))(i := c')\<rparr>" for kv' c' b'
    by (simp add: app_view_def fun_eq_iff)
  have same: "(app_view kv f)\<lparr>as_c := g\<rparr> = (app_view kv f)\<lparr>as_kv := kv, as_c := g\<rparr>" for g
    by (simp add: app_view_def)
  from assms(4) show ?thesis unfolding f
  proof cases
    case (get es' ver)
    have "app_step N (app_view kv f)
        ((app_view kv f)\<lparr>as_kv := kv, as_c := (as_c (app_view kv f))(i := c\<lparr>ap_pc := AppPut (append_got (int i) (ap_i c) es') ver\<rparr>)\<rparr>)"
      using app_step.get [of i N "app_view kv f" es' ver] get i unfolding c same by simp
    then show ?thesis using keeps get by (simp add: app_spawn_inv_def upd)
  next
    case (get_fail y)
    then show ?thesis using app_get_ok [OF inv] by (simp add: c)
  next
    case (put es' ver a e stop res)
    then show ?thesis
      using keeps [OF app_step.put [of i N "app_view kv f" es' ver a e stop res]] i unfolding c by (simp add: app_spawn_inv_def upd)
  qed
qed

interpretation appends: client_system no_clerks app_fclnt N "2 ^ 63" "app_spawn_inv N" "as_kv app_start" for N
proof
  have "app_view (as_kv app_start) (fc_start app_fclnt) = app_start"
    by (simp add: app_view_def app_fclnt_def app_start_def)
  then show "app_spawn_inv N 0 (as_kv app_start) (fc_start app_fclnt)"
    using app_inv_start [of N] by (auto simp: app_spawn_inv_def)
next
  show "app_spawn_inv N n w f \<Longrightarrow> app_spawn_inv N (Suc n) w f" for n w f
    by (auto simp: app_spawn_inv_def app_inv_def)
next
  show "app_spawn_inv N n w f \<Longrightarrow> Suc n < 2 ^ 63 \<Longrightarrow> cli < N \<Longrightarrow> fc_step app_fclnt cli (w, f cli) (w', x) \<Longrightarrow>
      \<exists>c. x = Some c \<and> app_spawn_inv N (Suc n) w' (f(cli := c))" for n w f cli w' x
    using app_client_works [of N n w f cli w' x] by (simp add: app_fclnt_def)
qed (simp_all add: no_clerks_def)

text \<open>
  C22: the whole append test accepts the key/value server. \<open>SpawnClientsAndWait\<close> runs any number of clients of \<open>OneClientAppend\<close>
  through clerks on a network that loses messages, on a server on which the test has put the empty slice. No client fails, and
  when the call returns, \<open>CheckAppends\<close> accepts the results it returned together with the entries on the server, in
  whatever order Go ranges over the map.
\<close>

theorem spawned_append_test_passes:
  assumes "SpawnClientsAndWait no_clerks app_fclnt nclnt (spawn_start (as_kv app_start)) n s" and "n + 1 < 2 ^ 63"
    and "\<forall>m. finite (dom m) \<longrightarrow> set (it m) = dom m"
  shows "(\<forall>cli. sp_go s cli \<noteq> Exited) \<and>
    (\<forall>rs. sp_pc s = Returned rs \<longrightarrow> length rs = nclnt \<and>
      (\<exists>es ver. GetJson_got unmarshal_entries (clerk_get (sp_w s) ''k'') = Inr (es, ver) \<and> CheckAppends it es nclnt rs ver = Inr ()))"
proof (intro conjI allI impI)
  let ?v = "app_view (sp_w s) (client_of app_fclnt s)"
  have n: "n < 2 ^ 63" using assms(2) by simp
  note keeps = appends.run_keeps [OF assms(1) n]
  show "sp_go s cli \<noteq> Exited" for cli using keeps by blast
  fix rs
  assume ret: "sp_pc s = Returned rs"
  have rs: "rs = map (\<lambda>i. ap_res (as_c ?v i)) [0..<nclnt]"
    using appends.returned(1) [OF assms(1) n ret] by (simp add: app_fclnt_def app_view_def case_prod_beta)
  then show "length rs = nclnt" by simp
  obtain es where inv: "app_inv nclnt n ?v es" using keeps by (auto simp: app_spawn_inv_def)
  have "as_kv ?v = sp_w s" by (simp add: app_view_def)
  then show "\<exists>es ver. GetJson_got unmarshal_entries (clerk_get (sp_w s) ''k'') = Inr (es, ver) \<and> CheckAppends it es nclnt rs ver = Inr ()"
    using append_check_passes [OF inv assms(2,3)] unfolding rs by simp
qed

text \<open>One client appends once, and its clerk reports \<open>ErrMaybe\<close>.\<close>

theorem spawned_append_test_passes_witness:
  "\<exists>es ver. GetJson_got unmarshal_entries (clerk_get (put_kv (marshal_entries [\<lparr>en_Id = 0, en_N = 0\<rparr>]) 2) ''k'') = Inr (es, ver) \<and>
     CheckAppends (\<lambda>m. sorted_list_of_set (dom m)) es 1 [\<lparr>cr_Nok = 0, cr_Nmaybe = 1\<rparr>] ver = Inr ()"
proof -
  let ?kv = "put_kv (marshal_entries []) 1" and ?kv' = "put_kv (marshal_entries [\<lparr>en_Id = 0, en_N = 0\<rparr>]) 2"
  let ?a = "append_args [\<lparr>en_Id = 0, en_N = 0\<rparr>] 1"
  have start: "as_kv app_start = ?kv" and put: "put_err ?kv ?a = OK" "put_state ?kv ?a = ?kv'"
    by (simp_all add: app_start_def kv_defs)
  have get: "OneClientAppend_step 0 (?kv, app_idle 0 0, True) (?kv, Some (app_ready 0, False))"
    using OneClientAppend_step.get [of "app_idle 0 0" ?kv "[]" 1 0 True]
    by (simp add: GetJson_got_def clerk_get_def kv_lookup_def append_got_def)
  have "OneClientAppend_step 0 (?kv, app_ready 0, False) (?kv', Some (app_idle 0 1, True))"
    using OneClientAppend_step.put [of "app_ready 0" "[\<lparr>en_Id = 0, en_N = 0\<rparr>]" 1 ?a ?kv ErrMaybe True "\<lparr>cr_Nok = 0, cr_Nmaybe = 1\<rparr>" 0 False]
    by (simp add: put [simplified] clerk_err_def append_put_def)
  with get have run: "SpawnClientsAndWait no_clerks app_fclnt 1 (spawn_start (as_kv app_start)) 9
      (one_client (Returned [\<lparr>cr_Nok = 0, cr_Nmaybe = 1\<rparr>]) (Deleting (app_idle 0 1, True)) ?kv')"
    using one_client_run [of app_fclnt ?kv ?kv "(app_ready 0, False)" ?kv' "(app_idle 0 1, True)"]
    by (simp add: app_fclnt_def start)
  have few: "9 + 1 < (2 :: nat) ^ 63" by simp
  show ?thesis
    using spawned_append_test_passes [OF run few, of "\<lambda>m. sorted_list_of_set (dom m)", THEN conjunct2, rule_format,
        of "[\<lparr>cr_Nok = 0, cr_Nmaybe = 1\<rparr>]"]
    by (simp add: one_client_def)
qed

section \<open>The partitioner\<close>

text \<open>
  The loop of \<open>Partitioner\<close> is around a \<open>switch\<close>, not a \<open>select\<close>: its first case receives from \<open>ch\<close>, which waits until a value is
  there, and is taken if that value is true; the default is taken if it is false. The argument lists the values that are sent on
  the channel, each with the random bits of the partition that may follow; the flag says whether the loop has ended, after which the
  deferred function sends true.
\<close>

fun Partitioner :: "(bool \<times> (nat \<Rightarrow> nat)) list \<Rightarrow> Network \<times> 'svc ServerGrp \<Rightarrow> ((Network \<times> 'svc ServerGrp) \<times> bool) go" where
  "Partitioner [] s = Inr (s, False)"
| "Partitioner ((v, a) # ch) s = (if v then Inr (s, True) else go_bind (Partitioner_round a s) (Partitioner ch))"

text \<open>
  The partitioner makes one partition for each false that it receives and ends at the first true. So in a test that sends
  nothing until its clients are done, and then true, the network is never partitioned.
\<close>

lemma partitioner_partitions_on_request:
  "Partitioner (map (Pair False) as) s = go_bind (go_fold Partitioner_round as s) (\<lambda>s. Inr (s, False)) \<and>
   Partitioner (map (Pair False) as @ (True, a) # ch) s = go_bind (go_fold Partitioner_round as s) (\<lambda>s. Inr (s, True)) \<and>
   Partitioner [] s = Inr (s, False) \<and> Partitioner [(True, a)] s = Inr (s, True)"
proof -
  have "Partitioner (map (Pair False) as) s = go_bind (go_fold Partitioner_round as s) (\<lambda>s. Inr (s, False))"
    by (induction as arbitrary: s) (auto simp: go_bind_def split: sum.splits)
  moreover have "Partitioner (map (Pair False) as @ (True, a) # ch) s = go_bind (go_fold Partitioner_round as s) (\<lambda>s. Inr (s, True))"
    by (induction as arbitrary: s) (auto simp: go_bind_def split: sum.splits)
  ultimately show ?thesis by simp
qed

section \<open>The ends of a test\<close>

text \<open>\<open>now1\<close> and \<open>now2\<close> are the times of the two checks of the limit; what \<open>End\<close> prints is dropped.\<close>

definition Test_Cleanup ::
  "('svc \<Rightarrow> Persister list \<Rightarrow> Persister list) \<Rightarrow> int list \<Rightarrow> nat list \<Rightarrow> int \<Rightarrow> int \<Rightarrow> ('s, 'svc) Config \<Rightarrow> dir \<Rightarrow> (('s, 'svc) Config \<times> dir) go" where
  "Test_Cleanup Kill gids cs now1 now2 cfg d = go_bind (End now1 cfg) (\<lambda>_. Config_Cleanup Kill gids cs now2 cfg d)"

fun ConnectClnts :: "Clnt list \<Rightarrow> Network \<times> nat \<Rightarrow> Network \<times> nat \<times> Clnt list" where
  "ConnectClnts [] (net, r) = (net, r, [])"
| "ConnectClnts (c # clnts) (net, r) =
     (let (net, r, c) = Clnt_ConnectAll (net, r, c); (net, r, clnts) = ConnectClnts clnts (net, r) in (net, r, c # clnts))"

definition linearizabilityCheckTimeout :: int where
  "linearizabilityCheckTimeout = 1 * 1000000000"

definition CheckPorcupineT :: "(int \<Rightarrow> Operation list \<Rightarrow> CheckResult) \<Rightarrow> int \<Rightarrow> 'w Test \<Rightarrow> unit go" where
  "CheckPorcupineT check nsec ts = (case ts_oplog ts of None \<Rightarrow> Inl Panic | Some opLog \<Rightarrow> checkPorcupine (check nsec) opLog)"

definition CheckPorcupine :: "(int \<Rightarrow> Operation list \<Rightarrow> CheckResult) \<Rightarrow> 'w Test \<Rightarrow> unit go" where
  "CheckPorcupine check ts =
     (case ts_oplog ts of None \<Rightarrow> Inl Panic | Some opLog \<Rightarrow> checkPorcupine (check linearizabilityCheckTimeout) opLog)"

text \<open>After \<open>ConnectClnts\<close>, every client is allowed all servers.\<close>

lemma ConnectClnts_all:
  assumes "ConnectClnts clnts (net, r) = (net', r', clnts')"
  shows "\<forall>c \<in> set clnts'. cl_srvs c = None" and "length clnts' = length clnts"
  using assms by (induction clnts arbitrary: net r net' r' clnts') (auto simp: Clnt_ConnectAll_def Let_def split: prod.splits)

section \<open>The clerk behind the interface\<close>

text \<open>
  The clerk of \<^verbatim>\<open>src/kvsrv1/client.go\<close> as an \<open>IKVClerk\<close>: the world is the one server that its client talks to, with
  the script of what happens to the calls that are still to come. And the text that the model of the checker prints for an operation.
\<close>

definition MakeClerk :: "(KVServer \<times> attempt list) IKVClerk" where
  "MakeClerk =
     \<lparr>ik_Get = (\<lambda>key (kv, script). Clerk_Get key kv script),
      ik_Put = (\<lambda>key val version (kv, script). Clerk_Put key val version kv script)\<rparr>"

definition quoted :: "string \<Rightarrow> string" where
  "quoted s = [CHR 0x27] @ s @ [CHR 0x27]"

definition KvModel_DescribeOperation :: "KvInput \<Rightarrow> KvOutput \<Rightarrow> string" where
  "KvModel_DescribeOperation inp out =
     (if ki_Op inp = 0 then
        ''get('' @ quoted (ki_Key inp) @ '') -> ('' @ quoted (ko_Value out) @ '', '' @ quoted (strconv_Itoa (uint (ko_Version out))) @ '', '' @ quoted (ko_Err out) @ '')''
      else if ki_Op inp = 1 then
        ''put('' @ quoted (ki_Key inp) @ '', '' @ quoted (ki_Value inp) @ '', '' @ quoted (strconv_Itoa (uint (ki_Version inp))) @ '') -> ('' @ quoted (ko_Err out) @ '')''
      else ''<invalid>'')"

text \<open>On a network that loses nothing, the checks of \<open>CheckGet\<close> after a \<open>Put\<close> of a new key pass.\<close>

lemma put_then_check:
  assumes "kv_lookup kv key = None" and "ts_world ts = (kv, [([], Delivered), ([], Delivered)])"
  shows "\<exists>ts'. run_bind (Test_Put clock MakeClerk key val 0 me ts) (\<lambda>err. CheckGet clock MakeClerk key val 1) = Some (Inr ((), ts'))"
  using assms
  by (simp add: MakeClerk_def Test_Put_def CheckGet_def Test_Get_def run_bind_def run_lift_def CheckGet_got_def
      Clerk_Put_def Clerk_Get_def Clerk_Put_result_def Call_Put_def Call_Get_def Let_def kv_defs kv_lookup_def)

end
