(* ===== verification/TesterGroup.thy ===== *)
theory TesterGroup
  imports Tester
begin

text \<open>
  What the harness of \<^verbatim>\<open>src/tester1\<close> promises of a group of servers: a group stays well-formed whatever is done to
  it, partitions isolate the two sides, the partition the tests choose is one, and a restarted server finds
  the state it had saved.
\<close>

section \<open>Connecting and disconnecting\<close>

text \<open>Enabling or disabling a set of end-points.\<close>

definition enable_set :: "bool \<Rightarrow> string set \<Rightarrow> Network \<Rightarrow> Network" where
  "enable_set b S net = net\<lparr>n_enabled := (\<lambda>x. if x \<in> S then b else n_enabled net x)\<rparr>"

lemma enable_set_simps [simp]:
  "n_enabled (enable_set b S net) x = (if x \<in> S then b else n_enabled net x)"
  "enable_set b {} net = net"
  "enable_set b T (enable_set b S net) = enable_set b (S \<union> T) net"
  by (auto simp: enable_set_def fun_eq_iff)

lemma Enable_enable_set: "Enable net x b = enable_set b {x} net"
  by (auto simp: Enable_def enable_set_def fun_eq_iff)

lemma go_fold_enable:
  "(\<And>x net. x \<in> set xs \<Longrightarrow> f x net = Inr (enable_set b (S x) net)) \<Longrightarrow>
     go_fold f xs net = Inr (enable_set b (\<Union>x\<in>set xs. S x) net)"
  by (induction xs arbitrary: net) simp_all

text \<open>
  The end-point through which server \<open>i\<close> calls server \<open>j\<close>. In a well-formed group there is one for
  every pair of servers, and they are different.
\<close>

definition sg_end :: "'svc ServerGrp \<Rightarrow> int \<Rightarrow> int \<Rightarrow> string" where
  "sg_end sg i j = sr_endNames (sg_srvs sg ! nat i) ! nat j"

definition sg_wf :: "'svc ServerGrp \<Rightarrow> bool" where
  "sg_wf sg \<longleftrightarrow>
     length (sg_connected sg) = length (sg_srvs sg) \<and>
     list_all (\<lambda>s. length (sr_endNames s) = length (sg_srvs sg)) (sg_srvs sg) \<and>
     distinct (concat (map sr_endNames (sg_srvs sg)))"

abbreviation sg_ids :: "'svc ServerGrp \<Rightarrow> int set" where
  "sg_ids sg \<equiv> {0..<int (length (sg_srvs sg))}"

lemma sg_wf_endNames:
  assumes "sg_wf sg" "i \<in> sg_ids sg"
  shows "length (sr_endNames (sg_srvs sg ! nat i)) = length (sg_srvs sg)"
  using assms by (auto simp: sg_wf_def list_all_length)

lemma distinct_concat_nth:
  assumes "distinct (concat xss)" "a < length xss" "b < length xss" "c < length (xss ! a)" "d < length (xss ! b)"
    and "xss ! a ! c = xss ! b ! d"
  shows "a = b \<and> c = d"
  using assms
proof (induction xss arbitrary: a b)
  case (Cons xs xss)
  have notin: "x \<notin> set xs" if "x \<in> set (xss ! k)" "k < length xss" for x k
    using Cons.prems(1) that by (auto dest: nth_mem)
  show ?case
  proof (cases a; cases b)
    fix a' b' assume "a = Suc a'" "b = Suc b'"
    with Cons show ?thesis by auto
  next
    assume "a = 0" "b = 0"
    with Cons.prems show ?thesis by (auto simp: nth_eq_iff_index_eq)
  next
    fix b' assume "a = 0" "b = Suc b'"
    with Cons.prems notin [of "xss ! b' ! d" b'] nth_mem [of c xs] show ?thesis by auto
  next
    fix a' assume "a = Suc a'" "b = 0"
    with Cons.prems notin [of "xss ! a' ! c" a'] nth_mem [of d xs] nth_mem [of c "xss ! a'"] show ?thesis by auto
  qed
qed simp

lemma sg_end_inj:
  assumes "sg_wf sg" "i \<in> sg_ids sg" "j \<in> sg_ids sg" "i' \<in> sg_ids sg" "j' \<in> sg_ids sg"
  shows "sg_end sg i j = sg_end sg i' j' \<longleftrightarrow> i = i' \<and> j = j'"
proof
  assume "sg_end sg i j = sg_end sg i' j'"
  moreover have "distinct (concat (map sr_endNames (sg_srvs sg)))" using assms(1) by (simp add: sg_wf_def)
  ultimately have "nat i = nat i' \<and> nat j = nat j'"
    by (intro distinct_concat_nth) (use assms sg_wf_endNames [of sg] in \<open>auto simp: sg_end_def\<close>)
  with assms show "i = i' \<and> j = j'" by auto
qed simp

definition ends_out :: "'svc ServerGrp \<Rightarrow> int \<Rightarrow> int list \<Rightarrow> string set" where
  "ends_out sg i ks = sg_end sg i ` set ks"

definition ends_in :: "'svc ServerGrp \<Rightarrow> int \<Rightarrow> int list \<Rightarrow> string set" where
  "ends_in sg i ks = (\<lambda>k. sg_end sg k i) ` set ks"

lemma Srv_enable_all:
  assumes "sg_wf sg" "i \<in> sg_ids sg" "set ks \<subseteq> sg_ids sg"
  shows "go_fold (Srv_enable b (sr_endNames (sg_srvs sg ! nat i))) ks net = Inr (enable_set b (ends_out sg i ks) net)"
proof -
  have "go_fold (Srv_enable b (sr_endNames (sg_srvs sg ! nat i))) ks net =
      Inr (enable_set b (\<Union>k\<in>set ks. {sg_end sg i k}) net)"
    by (rule go_fold_enable)
      (use assms sg_wf_endNames [OF assms(1,2)] in \<open>auto simp: Srv_enable_def slice_get_def Enable_enable_set sg_end_def subset_iff\<close>)
  moreover have "(\<Union>k\<in>set ks. {sg_end sg i k}) = ends_out sg i ks" by (auto simp: ends_out_def)
  ultimately show ?thesis by simp
qed

lemma disconnect_spec:
  assumes "sg_wf sg" "i \<in> sg_ids sg" "set ks \<subseteq> sg_ids sg"
  shows "disconnect i ks (net, sg) =
    Inr (enable_set False (ends_out sg i ks \<union> ends_in sg i ks) net, sg\<lparr>sg_connected := (sg_connected sg)[nat i := False]\<rparr>)"
proof -
  let ?sg = "sg\<lparr>sg_connected := (sg_connected sg)[nat i := False]\<rparr>"
  have "go_fold (disconnect_in ?sg i) ks net = Inr (enable_set False (\<Union>k\<in>set ks. {sg_end sg k i}) net)" for net
    by (rule go_fold_enable)
      (use assms sg_wf_endNames [OF assms(1)] in
        \<open>auto simp: disconnect_in_def slice_get_def Enable_enable_set sg_end_def subset_iff\<close>)
  moreover have "(\<Union>k\<in>set ks. {sg_end sg k i}) = ends_in sg i ks" by (auto simp: ends_in_def)
  moreover have "slice_set (sg_connected sg) i False = Inr ((sg_connected sg)[nat i := False])"
    using assms by (auto simp: slice_set_def sg_wf_def)
  ultimately show ?thesis
    using assms(2) Srv_enable_all [OF assms]
    by (simp add: disconnect_def Srv_disconnect_def slice_get_def)
qed

lemma connect_spec:
  assumes "sg_wf sg" "i \<in> sg_ids sg" "set ks \<subseteq> sg_ids sg" "length ks \<le> length (sg_srvs sg)"
  shows "\<exists>T. ends_out sg i ks \<subseteq> T \<and> T \<subseteq> ends_out sg i ks \<union> ends_in sg i ks \<and>
    connect i ks (net, sg) = Inr (enable_set True T net, sg\<lparr>sg_connected := (sg_connected sg)[nat i := True]\<rparr>)"
proof -
  let ?c = "(sg_connected sg)[nat i := True]"
  let ?sg = "sg\<lparr>sg_connected := ?c\<rparr>"
  let ?S = "\<lambda>j. if ?c ! nat j then {sg_end sg (ks ! nat j) i} else {}"
  have "ks ! nat j \<in> sg_ids sg" if "j \<in> {0..<int (length ks)}" for j
    using assms(3) that nth_mem [of "nat j" ks] by (metis atLeastLessThan_iff nat_less_iff subsetD)
  then have "go_fold (connect_in ?sg i ks) (map int [0..<length ks]) net =
      Inr (enable_set True (\<Union>j\<in>set (map int [0..<length ks]). ?S j) net)" for net
    by (intro go_fold_enable)
      (use assms sg_wf_endNames [OF assms(1)] in
        \<open>auto simp: connect_in_def IsConnected_def slice_get_def Enable_enable_set sg_end_def sg_wf_def\<close>)
  moreover have "(\<Union>j\<in>set (map int [0..<length ks]). ?S j) \<subseteq> ends_in sg i ks"
    by (auto simp: ends_in_def split: if_splits)
  moreover have "slice_set (sg_connected sg) i True = Inr ?c"
    using assms by (auto simp: slice_set_def sg_wf_def)
  ultimately show ?thesis
    using assms(2) Srv_enable_all [OF assms(1-3)]
    by (intro exI [of _ "ends_out sg i ks \<union> (\<Union>j\<in>set (map int [0..<length ks]). ?S j)"])
      (auto simp: connect_def Srv_connect_def slice_get_def)
qed

section \<open>Partitions\<close>

text \<open>Two disjoint sides of a group.\<close>

definition sides :: "'svc ServerGrp \<Rightarrow> int list \<Rightarrow> int list \<Rightarrow> bool" where
  "sides sg p q \<longleftrightarrow>
     sg_wf sg \<and> list_all (\<lambda>i. i \<in> sg_ids sg) (p @ q) \<and> distinct p \<and> distinct q \<and> set p \<inter> set q = {}"

text \<open>The same group, up to the flags \<open>connected\<close>.\<close>

definition same_group :: "'svc ServerGrp \<Rightarrow> 'svc ServerGrp \<Rightarrow> bool" where
  "same_group sg sg' \<longleftrightarrow> sg_srvs sg' = sg_srvs sg \<and> length (sg_connected sg') = length (sg_connected sg)"

lemma same_group_keeps:
  assumes "same_group sg sg'"
  shows "sg_wf sg' = sg_wf sg" "sg_end sg' = sg_end sg" "sides sg' = sides sg" "ends_out sg' = ends_out sg"
    "ends_in sg' = ends_in sg"
  using assms by (auto simp: same_group_def sg_wf_def sg_end_def sides_def ends_out_def ends_in_def fun_eq_iff)

lemma sidesD:
  assumes "sides sg p q"
  shows "sg_wf sg" "set p \<subseteq> sg_ids sg" "set q \<subseteq> sg_ids sg" "length p \<le> length (sg_srvs sg)" "sides sg q p"
proof -
  show "sg_wf sg" and p: "set p \<subseteq> sg_ids sg" and "set q \<subseteq> sg_ids sg" and "sides sg q p"
    using assms by (auto simp: sides_def list_all_iff)
  have "length p = card (set p)" using assms by (simp add: sides_def distinct_card)
  also have "\<dots> \<le> card (sg_ids sg)" by (rule card_mono) (use p in auto)
  finally show "length p \<le> length (sg_srvs sg)" by simp
qed

lemma Partition_side_spec:
  assumes "sides sg p q" "i \<in> set p"
  shows "\<exists>net' sg'. Partition_side p q i (net, sg) = Inr (net', sg') \<and> same_group sg sg' \<and>
    (\<forall>x. (x \<in> ends_out sg i p \<longrightarrow> n_enabled net' x) \<and>
         (x \<notin> ends_out sg i p \<union> ends_in sg i p \<longrightarrow> x \<in> ends_out sg i q \<union> ends_in sg i q \<longrightarrow> \<not> n_enabled net' x) \<and>
         (x \<notin> ends_out sg i p \<union> ends_in sg i p \<union> ends_out sg i q \<union> ends_in sg i q \<longrightarrow> n_enabled net' x = n_enabled net x) \<and>
         (x \<notin> ends_out sg i q \<union> ends_in sg i q \<longrightarrow> n_enabled net x \<longrightarrow> n_enabled net' x))"
proof -
  note s = sidesD [OF assms(1)]
  have i: "i \<in> sg_ids sg" using assms(2) s(2) by auto
  let ?sg = "sg\<lparr>sg_connected := (sg_connected sg)[nat i := False]\<rparr>"
  let ?net = "enable_set False (ends_out sg i q \<union> ends_in sg i q) net"
  have g: "same_group sg ?sg" by (simp add: same_group_def)
  note k = same_group_keeps [OF g]
  have "sg_wf ?sg" using s(1) k(1) by simp
  from connect_spec [OF this, of i p ?net] i s(2,4) obtain T where
    T: "ends_out sg i p \<subseteq> T" "T \<subseteq> ends_out sg i p \<union> ends_in sg i p"
    and c: "connect i p (?net, ?sg) = Inr (enable_set True T ?net, ?sg\<lparr>sg_connected := (sg_connected ?sg)[nat i := True]\<rparr>)"
    using k by auto
  have "Partition_side p q i (net, sg) = Inr (enable_set True T ?net, ?sg\<lparr>sg_connected := (sg_connected ?sg)[nat i := True]\<rparr>)"
    using disconnect_spec [OF s(1) i s(3)] c by (simp add: Partition_side_def)
  moreover have "same_group sg (?sg\<lparr>sg_connected := (sg_connected ?sg)[nat i := True]\<rparr>)"
    by (simp add: same_group_def)
  ultimately show ?thesis using T by (intro exI conjI) (auto split: if_splits)
qed

text \<open>An end-point between two servers of one side is never an end-point across.\<close>

lemma end_across:
  assumes "sides sg p q" "i \<in> set p \<and> j \<in> set p \<or> i \<in> set q \<and> j \<in> set q" "k \<in> set p"
  shows "sg_end sg i j \<notin> ends_out sg k q \<union> ends_in sg k q"
proof -
  note s = sidesD [OF assms(1)]
  have "set p \<inter> set q = {}" using assms(1) by (simp add: sides_def)
  with assms(2,3) s(2,3) show ?thesis
    by (auto simp: ends_out_def ends_in_def sg_end_inj [OF s(1)] subset_iff)
qed

lemma end_inside:
  assumes "sides sg p q" "i \<in> set p" "j \<in> set q" "k \<in> set p"
  shows "sg_end sg i j \<notin> ends_out sg k p \<union> ends_in sg k p" "sg_end sg j i \<notin> ends_out sg k p \<union> ends_in sg k p"
proof -
  note s = sidesD [OF assms(1)]
  have "set p \<inter> set q = {}" using assms(1) by (simp add: sides_def)
  with assms(2-4) s(2,3)
  show "sg_end sg i j \<notin> ends_out sg k p \<union> ends_in sg k p" "sg_end sg j i \<notin> ends_out sg k p \<union> ends_in sg k p"
    by (auto simp: ends_out_def ends_in_def sg_end_inj [OF s(1)] subset_iff)
qed

lemma Partition_side_step:
  assumes "sides sg p q" "i \<in> set p" "same_group sg (snd s)"
  shows "\<exists>s'. Partition_side p q i s = Inr s' \<and> same_group sg (snd s') \<and>
    (\<forall>j\<in>set p. n_enabled (fst s') (sg_end sg i j)) \<and>
    (\<forall>j\<in>set q. \<not> n_enabled (fst s') (sg_end sg i j) \<and> \<not> n_enabled (fst s') (sg_end sg j i)) \<and>
    (\<forall>k j. k \<in> set p \<and> j \<in> set p \<or> k \<in> set q \<and> j \<in> set q \<longrightarrow>
       n_enabled (fst s) (sg_end sg k j) \<longrightarrow> n_enabled (fst s') (sg_end sg k j)) \<and>
    (\<forall>k\<in>set p. \<forall>j\<in>set q. (n_enabled (fst s') (sg_end sg k j) \<longrightarrow> n_enabled (fst s) (sg_end sg k j)) \<and>
       (n_enabled (fst s') (sg_end sg j k) \<longrightarrow> n_enabled (fst s) (sg_end sg j k)))"
proof -
  note k = same_group_keeps [OF assms(3)]
  obtain net' sg' where s': "Partition_side p q i (fst s, snd s) = Inr (net', sg')" "same_group (snd s) sg'"
    and e: "\<forall>x. (x \<in> ends_out sg i p \<longrightarrow> n_enabled net' x) \<and>
         (x \<notin> ends_out sg i p \<union> ends_in sg i p \<longrightarrow> x \<in> ends_out sg i q \<union> ends_in sg i q \<longrightarrow> \<not> n_enabled net' x) \<and>
         (x \<notin> ends_out sg i p \<union> ends_in sg i p \<union> ends_out sg i q \<union> ends_in sg i q \<longrightarrow> n_enabled net' x = n_enabled (fst s) x) \<and>
         (x \<notin> ends_out sg i q \<union> ends_in sg i q \<longrightarrow> n_enabled (fst s) x \<longrightarrow> n_enabled net' x)"
    using Partition_side_spec [of "snd s" p q i "fst s"] assms k by auto
  have g: "same_group sg sg'" using assms(3) s'(2) by (simp add: same_group_def)
  have "\<forall>j\<in>set p. n_enabled net' (sg_end sg i j)" using e by (simp add: ends_out_def)
  moreover have "\<forall>j\<in>set q. \<not> n_enabled net' (sg_end sg i j) \<and> \<not> n_enabled net' (sg_end sg j i)"
    using e end_inside [OF assms(1,2) _ assms(2)] by (auto simp: ends_out_def ends_in_def)
  moreover have "k \<in> set p \<and> j \<in> set p \<or> k \<in> set q \<and> j \<in> set q \<longrightarrow>
      n_enabled (fst s) (sg_end sg k j) \<longrightarrow> n_enabled net' (sg_end sg k j)" for k j
    using e end_across [OF assms(1) _ assms(2)] by blast
  moreover have "\<forall>k\<in>set p. \<forall>j\<in>set q. (n_enabled net' (sg_end sg k j) \<longrightarrow> n_enabled (fst s) (sg_end sg k j)) \<and>
      (n_enabled net' (sg_end sg j k) \<longrightarrow> n_enabled (fst s) (sg_end sg j k))"
    using e end_inside [OF assms(1) _ _ assms(2)] by blast
  ultimately show ?thesis using s'(1) g by (intro exI [of _ "(net', sg')"]) auto
qed

lemma Partition_side_total:
  assumes "sides sg p q" "same_group sg (snd s)"
  shows "\<exists>s'. go_fold (Partition_side p q) p s = Inr s' \<and> same_group sg (snd s')"
  by (rule go_fold_total [where P = "\<lambda>s. same_group sg (snd s)"])
    (use assms Partition_side_step [OF assms(1)] in blast)+

lemma Partition_side_fold:
  assumes "sides sg p q" "same_group sg (snd s)" "go_fold (Partition_side p q) p s = Inr s'"
  shows "i \<in> set p \<Longrightarrow> j \<in> set p \<Longrightarrow> n_enabled (fst s') (sg_end sg i j)"
    and "i \<in> set p \<Longrightarrow> j \<in> set q \<Longrightarrow> \<not> n_enabled (fst s') (sg_end sg i j) \<and> \<not> n_enabled (fst s') (sg_end sg j i)"
    and "i \<in> set q \<Longrightarrow> j \<in> set q \<Longrightarrow> n_enabled (fst s) (sg_end sg i j) \<Longrightarrow> n_enabled (fst s') (sg_end sg i j)"
proof -
  note step = Partition_side_step [OF assms(1)]
  have keep: "same_group sg (snd t')" if "k \<in> set p" "same_group sg (snd t)" "Partition_side p q k t = Inr t'" for k t t'
    using step [OF that(1,2)] that(3) by auto
  show "n_enabled (fst s') (sg_end sg i j)" if ij: "i \<in> set p" "j \<in> set p"
  proof (rule go_fold_establish [OF ij(1), where I = "\<lambda>s. same_group sg (snd s)", OF assms(2,3) keep])
    fix t t' assume "same_group sg (snd t)" "Partition_side p q i t = Inr t'"
    with step [OF ij(1), of t] ij(2) show "n_enabled (fst t') (sg_end sg i j)" by auto
  next
    fix k t t' assume "k \<in> set p" "same_group sg (snd t)" "n_enabled (fst t) (sg_end sg i j)" "Partition_side p q k t = Inr t'"
    with step [of k t] ij show "n_enabled (fst t') (sg_end sg i j)" by auto
  qed
  show "\<not> n_enabled (fst s') (sg_end sg i j) \<and> \<not> n_enabled (fst s') (sg_end sg j i)" if ij: "i \<in> set p" "j \<in> set q"
  proof (rule go_fold_establish [OF ij(1), where I = "\<lambda>s. same_group sg (snd s)", OF assms(2,3) keep])
    fix t t' assume "same_group sg (snd t)" "Partition_side p q i t = Inr t'"
    with step [OF ij(1), of t] ij(2)
    show "\<not> n_enabled (fst t') (sg_end sg i j) \<and> \<not> n_enabled (fst t') (sg_end sg j i)" by auto
  next
    fix k t t' assume "k \<in> set p" "same_group sg (snd t)"
      "\<not> n_enabled (fst t) (sg_end sg i j) \<and> \<not> n_enabled (fst t) (sg_end sg j i)" "Partition_side p q k t = Inr t'"
    with step [of k t] ij show "\<not> n_enabled (fst t') (sg_end sg i j) \<and> \<not> n_enabled (fst t') (sg_end sg j i)" by auto
  qed
  show "n_enabled (fst s') (sg_end sg i j)" if ij: "i \<in> set q" "j \<in> set q" "n_enabled (fst s) (sg_end sg i j)"
  proof -
    have "same_group sg (snd s') \<and> n_enabled (fst s') (sg_end sg i j)"
    proof (rule go_fold_invariant [where P = "\<lambda>s. same_group sg (snd s) \<and> n_enabled (fst s) (sg_end sg i j)", OF _ _ assms(3)])
      fix k t t' assume "k \<in> set p" "same_group sg (snd t) \<and> n_enabled (fst t) (sg_end sg i j)" "Partition_side p q k t = Inr t'"
      with step [of k t] ij show "same_group sg (snd t') \<and> n_enabled (fst t') (sg_end sg i j)" by auto
    qed (use assms(2) ij(3) in simp)
    then show ?thesis ..
  qed
qed

lemma Partition_enabled:
  assumes "sides sg p1 p2"
  shows "\<exists>net' sg'. Partition p1 p2 (net, sg) = Inr (net', sg') \<and> sg_srvs sg' = sg_srvs sg \<and>
    (\<forall>i\<in>set p1. \<forall>j\<in>set p2. \<not> n_enabled net' (sg_end sg i j) \<and> \<not> n_enabled net' (sg_end sg j i)) \<and>
    (\<forall>i\<in>set p1. \<forall>j\<in>set p1. n_enabled net' (sg_end sg i j)) \<and>
    (\<forall>i\<in>set p2. \<forall>j\<in>set p2. n_enabled net' (sg_end sg i j))"
proof -
  have sw: "sides sg p2 p1" using sidesD(5) [OF assms] .
  have "same_group sg (snd (net, sg))" by (simp add: same_group_def)
  from Partition_side_total [OF assms this] obtain s1 where
    s1: "go_fold (Partition_side p1 p2) p1 (net, sg) = Inr s1" "same_group sg (snd s1)" by blast
  from Partition_side_total [OF sw s1(2)] obtain s2 where
    s2: "go_fold (Partition_side p2 p1) p2 s1 = Inr s2" "same_group sg (snd s2)" by blast
  note f1 = Partition_side_fold [OF assms _ s1(1)] and f2 = Partition_side_fold [OF sw s1(2) s2(1)]
  have "Partition p1 p2 (net, sg) = Inr (fst s2, snd s2)" using s1(1) s2(1) by (simp add: Partition_def)
  moreover have "sg_srvs (snd s2) = sg_srvs sg" using s2(2) by (simp add: same_group_def)
  moreover have "n_enabled (fst s2) (sg_end sg i j)" if "i \<in> set p1" "j \<in> set p1" for i j
    using f2(3) [OF that f1(1) [OF _ that]] by (simp add: same_group_def)
  ultimately show ?thesis using f2(1,2) by blast
qed

section \<open>Groups stay well-formed\<close>

text \<open>
  The names drawn so far are the only end-points, and the supply never repeats a name (\<open>inj rnd\<close>):
  the names are twenty random characters. In a well-formed group every server has its own end-point for every server of
  the group, connected to that server's name.
\<close>

definition names_fresh :: "(nat \<Rightarrow> string) \<Rightarrow> 's env \<Rightarrow> bool" where
  "names_fresh rnd e \<longleftrightarrow> n_ends (e_net e) \<subseteq> rnd ` {..<e_rnd e}"

definition srvs_ok :: "(nat \<Rightarrow> string) \<Rightarrow> int \<Rightarrow> nat \<Rightarrow> 's env \<Rightarrow> 'svc Srv list \<Rightarrow> bool" where
  "srvs_ok rnd gid n e srvs \<longleftrightarrow>
     names_fresh rnd e \<and> distinct (concat (map sr_endNames srvs)) \<and>
     (\<forall>s\<in>set srvs. length (sr_endNames s) = n \<and>
        (\<forall>j<n. sr_endNames s ! j \<in> rnd ` {..<e_rnd e} \<and>
           n_connections (e_net e) (sr_endNames s ! j) = Some (ServerName gid (int j))))"

definition grp_inv :: "(nat \<Rightarrow> string) \<Rightarrow> 's env \<times> 'svc ServerGrp \<Rightarrow> bool" where
  "grp_inv rnd = (\<lambda>(e, sg). length (sg_connected sg) = length (sg_srvs sg) \<and>
     srvs_ok rnd (sg_gid sg) (length (sg_srvs sg)) e (sg_srvs sg))"

abbreviation named_srv :: "string list \<Rightarrow> 'svc Srv" where
  "named_srv names \<equiv> \<lparr>sr_saved = None, sr_svcs = [], sr_endNames = names, sr_clntEnds = names\<rparr>"

lemma makeServer_loop:
  assumes "inj rnd" "names_fresh rnd e" "k \<le> n"
  shows "\<exists>net. go_fold (makeServer_end rnd gid) [0..<k]
        (e, named_srv (replicate n '''') :: 'svc Srv) =
      Inr (e\<lparr>e_net := net, e_rnd := e_rnd e + k\<rparr>,
        named_srv (map (\<lambda>j. rnd (e_rnd e + j)) [0..<k] @ replicate (n - k) '''')) \<and>
    n_ends net \<subseteq> rnd ` {..<e_rnd e + k} \<and>
    (\<forall>j<k. n_connections net (rnd (e_rnd e + j)) = Some (ServerName gid (int j))) \<and>
    (\<forall>x\<in>rnd ` {..<e_rnd e}. n_connections net x = n_connections (e_net e) x)"
  using assms(3)
proof (induction k)
  case 0
  then show ?case using assms(2) by (intro exI [of _ "e_net e"]) (simp add: names_fresh_def)
next
  case (Suc k)
  let ?r = "e_rnd e"
  from Suc obtain net where
    IH: "go_fold (makeServer_end rnd gid) [0..<k]
        (e, named_srv (replicate n '''') :: 'svc Srv) =
      Inr (e\<lparr>e_net := net, e_rnd := ?r + k\<rparr>,
        named_srv (map (\<lambda>j. rnd (?r + j)) [0..<k] @ replicate (n - k) ''''))"
    and net: "n_ends net \<subseteq> rnd ` {..<?r + k}" "\<forall>j<k. n_connections net (rnd (?r + j)) = Some (ServerName gid (int j))"
      "\<forall>x\<in>rnd ` {..<?r}. n_connections net x = n_connections (e_net e) x"
    by auto
  have new: "rnd (?r + k) \<notin> n_ends net" using net(1) assms(1) by (auto dest: injD)
  have upd: "(map (\<lambda>j. rnd (?r + j)) [0..<k] @ replicate (n - k) '''')[k := rnd (?r + k)] =
      map (\<lambda>j. rnd (?r + j)) [0..<Suc k] @ replicate (n - Suc k) ''''"
    using Suc.prems by (auto simp: list_update_append Suc_diff_Suc [symmetric])
  let ?net = "Connect (net\<lparr>n_ends := insert (rnd (?r + k)) (n_ends net),
       n_enabled := (n_enabled net)(rnd (?r + k) := False),
       n_connections := (n_connections net)(rnd (?r + k) := None)\<rparr>) (rnd (?r + k)) (ServerName gid (int k))"
  have ends: "n_ends ?net \<subseteq> rnd ` {..<?r + Suc k}" using net(1) by (auto simp: Connect_def lessThan_Suc)
  have "\<forall>j<Suc k. n_connections ?net (rnd (?r + j)) = Some (ServerName gid (int j))"
    using net(2) assms(1) by (auto simp: Connect_def less_Suc_eq dest: injD)
  moreover have "\<forall>x\<in>rnd ` {..<?r}. n_connections ?net x = n_connections (e_net e) x"
    using net(3) inj_eq [OF assms(1)] by (auto simp: Connect_def)
  moreover have "go_fold (makeServer_end rnd gid) [0..<Suc k] (e, named_srv (replicate n '''') :: 'svc Srv) =
      Inr (e\<lparr>e_net := ?net, e_rnd := ?r + Suc k\<rparr>,
        named_srv (map (\<lambda>j. rnd (?r + j)) [0..<Suc k] @ replicate (n - Suc k) ''''))"
    unfolding upd [symmetric] using IH new by (simp add: go_fold_append makeServer_end_def MakeEnd_def Let_def)
  ultimately show ?case using ends by (intro exI [of _ ?net] conjI)
qed

lemma makeServer_spec:
  assumes "inj rnd" "names_fresh rnd e"
  shows "\<exists>net. makeServer rnd gid n e =
      Inr (e\<lparr>e_net := net, e_rnd := e_rnd e + n\<rparr>,
        named_srv (map (\<lambda>j. rnd (e_rnd e + j)) [0..<n]) :: 'svc Srv) \<and>
    n_ends net \<subseteq> rnd ` {..<e_rnd e + n} \<and>
    (\<forall>j<n. n_connections net (rnd (e_rnd e + j)) = Some (ServerName gid (int j))) \<and>
    (\<forall>x\<in>rnd ` {..<e_rnd e}. n_connections net x = n_connections (e_net e) x)"
  using makeServer_loop [OF assms order_refl] by (simp add: makeServer_def)

lemma distinct_concat_update:
  assumes "distinct (concat xss)" "distinct ys" "set ys \<inter> \<Union> (set ` set xss) = {}"
  shows "distinct (concat (xss[i := ys]))"
  using assms
proof (induction xss arbitrary: i)
  case (Cons xs xss)
  have sub: "\<Union> (set ` set (xss[k := ys])) \<subseteq> \<Union> (set ` set xss) \<union> set ys" for k
    using set_update_subset_insert [of xss k ys] by auto
  show ?case
  proof (cases i)
    case 0
    with Cons.prems show ?thesis by auto
  next
    case (Suc k)
    with Cons sub [of k] show ?thesis by (fastforce simp: Int_Un_distrib)
  qed
qed simp

lemma makeServer_srvs_ok:
  assumes "inj rnd" "srvs_ok rnd gid n e srvs" "makeServer rnd gid n e = Inr (e', srv :: 'svc Srv)"
  shows "srvs_ok rnd gid n e' (srvs @ [srv :: 'svc Srv])" "srvs_ok rnd gid n e' (srvs[i := srv])"
    "e_pers e' = e_pers e" "e_labs e' = e_labs e" "sr_svcs srv = []" "sr_saved srv = None"
proof -
  let ?names = "map (\<lambda>j. rnd (e_rnd e + j)) [0..<n]"
  have f: "names_fresh rnd e" using assms(2) by (simp add: srvs_ok_def)
  obtain net where e': "e' = e\<lparr>e_net := net, e_rnd := e_rnd e + n\<rparr>" and srv: "srv = named_srv ?names"
    and net: "n_ends net \<subseteq> rnd ` {..<e_rnd e + n}"
      "\<forall>j<n. n_connections net (rnd (e_rnd e + j)) = Some (ServerName gid (int j))"
      "\<forall>x\<in>rnd ` {..<e_rnd e}. n_connections net x = n_connections (e_net e) x"
    using makeServer_spec [OF assms(1) f, of gid n, where 'svc = 'svc] assms(3) by auto
  have dist: "distinct ?names" by (simp add: distinct_map inj_on_def inj_eq [OF assms(1)])
  have new: "set ?names \<inter> \<Union> (set ` set (map sr_endNames srvs)) = {}"
  proof -
    have "x \<in> rnd ` {..<e_rnd e}" if x: "x \<in> set (sr_endNames s)" "s \<in> set srvs" for x s
    proof -
      obtain j where "j < length (sr_endNames s)" "x = sr_endNames s ! j" using x(1) by (metis in_set_conv_nth)
      with assms(2) x(2) show ?thesis by (simp add: srvs_ok_def)
    qed
    moreover have "rnd (e_rnd e + j) \<notin> rnd ` {..<e_rnd e}" for j by (auto simp: inj_eq [OF assms(1)])
    ultimately show ?thesis by auto
  qed
  have ok: "length (sr_endNames s) = n \<and> (\<forall>j<n. sr_endNames s ! j \<in> rnd ` {..<e_rnd e'} \<and>
      n_connections (e_net e') (sr_endNames s ! j) = Some (ServerName gid (int j)))" if "s = srv \<or> s \<in> set srvs" for s
  proof (cases "s = srv")
    case True
    then show ?thesis using srv e' net(2) by simp
  next
    case False
    with that assms(2) have a: "length (sr_endNames s) = n" "\<And>j. j < n \<Longrightarrow> sr_endNames s ! j \<in> rnd ` {..<e_rnd e}"
      "\<And>j. j < n \<Longrightarrow> n_connections (e_net e) (sr_endNames s ! j) = Some (ServerName gid (int j))"
      by (simp_all add: srvs_ok_def)
    have "rnd ` {..<e_rnd e} \<subseteq> rnd ` {..<e_rnd e'}" using e' by auto
    moreover have "n_connections net (sr_endNames s ! j) = n_connections (e_net e) (sr_endNames s ! j)" if "j < n" for j
      using bspec [OF net(3) a(2) [OF that]] .
    ultimately show ?thesis using a e' by (simp add: subset_iff)
  qed
  have fresh: "names_fresh rnd e'" using net(1) e' by (simp add: names_fresh_def)
  have old: "distinct (concat (map sr_endNames srvs))" using assms(2) by (simp add: srvs_ok_def)
  have "distinct (concat (map sr_endNames (srvs @ [srv])))" using old dist new srv by auto
  moreover have "s = srv \<or> s \<in> set srvs" if "s \<in> set (srvs @ [srv])" for s using that by auto
  ultimately show "srvs_ok rnd gid n e' (srvs @ [srv])" unfolding srvs_ok_def using fresh ok by blast
  have "distinct (concat (map sr_endNames (srvs[i := srv])))"
    using distinct_concat_update [OF old dist new] srv by (simp add: map_update)
  moreover have "s = srv \<or> s \<in> set srvs" if "s \<in> set (srvs[i := srv])" for s
    using that set_update_subset_insert [of srvs i srv] by auto
  ultimately show "srvs_ok rnd gid n e' (srvs[i := srv])" unfolding srvs_ok_def using fresh ok by blast
  show "e_pers e' = e_pers e" "e_labs e' = e_labs e" "sr_svcs srv = []" "sr_saved srv = None"
    using e' srv by simp_all
qed

lemma grp_invD:
  assumes "grp_inv rnd (e, sg)"
  shows "sg_wf sg" "i \<in> sg_ids sg \<Longrightarrow> j \<in> sg_ids sg \<Longrightarrow> n_connections (e_net e) (sg_end sg i j) = Some (ServerName (sg_gid sg) j)"
proof -
  show "sg_wf sg" using assms by (auto simp: grp_inv_def srvs_ok_def sg_wf_def list_all_iff)
  assume ij: "i \<in> sg_ids sg" "j \<in> sg_ids sg"
  then have "sg_srvs sg ! nat i \<in> set (sg_srvs sg)" "nat j < length (sg_srvs sg)" by auto
  with assms ij show "n_connections (e_net e) (sg_end sg i j) = Some (ServerName (sg_gid sg) j)"
    unfolding grp_inv_def srvs_ok_def sg_end_def by fastforce
qed

lemma makeSrvGrp_inv:
  assumes "inj rnd" "names_fresh rnd e" "makeSrvGrp rnd gid n e = Inr (e', sg)"
  shows "grp_inv rnd (e', sg)"
proof -
  obtain e1 srvs where f: "go_fold (makeSrvGrp_server rnd gid n) [0..<n] (e, []) = Inr (e1, srvs)"
    and sg: "e' = e1" "sg = \<lparr>sg_srvs = srvs, sg_servernames = map (\<lambda>i. ServerName gid (int i)) [0..<n],
        sg_gid = gid, sg_connected = replicate n False\<rparr>"
    using assms(3) by (auto simp: makeSrvGrp_def go_bind_Inr_iff)
  have "k \<le> n \<Longrightarrow> go_fold (makeSrvGrp_server rnd gid n) [0..<k] (e, []) = Inr (e1, srvs) \<Longrightarrow>
      srvs_ok rnd gid n e1 srvs \<and> length srvs = k" for k e1 and srvs :: "'b Srv list"
  proof (induction k arbitrary: e1 srvs)
    case 0
    then show ?case using assms(2) by (simp add: srvs_ok_def)
  next
    case (Suc k)
    from Suc.prems(2) obtain t where t: "go_fold (makeSrvGrp_server rnd gid n) [0..<k] (e, []) = Inr t"
      "makeSrvGrp_server rnd gid n k t = Inr (e1, srvs)"
      by (auto simp: go_fold_append go_bind_Inr_iff)
    obtain e2 srvs2 where t2: "t = (e2, srvs2)" by (cases t)
    from t(2) t2 obtain srv where m: "makeServer rnd gid n e2 = Inr (e1, srv)" "srvs = srvs2 @ [srv]"
      by (auto simp: go_bind_Inr_iff makeSrvGrp_server_def)
    have ok: "srvs_ok rnd gid n e2 srvs2 \<and> length srvs2 = k" using Suc.IH Suc.prems(1) t(1) t2 by simp
    then show ?case using makeServer_srvs_ok(1) [OF assms(1) _ m(1)] m(2) by simp
  qed
  from this [OF order_refl f] sg show ?thesis by (simp add: grp_inv_def)
qed

lemma srvs_ok_mono:
  assumes "srvs_ok rnd gid n e srvs" "names_fresh rnd e'" "e_rnd e \<le> e_rnd e'"
    and con: "\<And>x. x \<in> rnd ` {..<e_rnd e} \<Longrightarrow> n_connections (e_net e') x = n_connections (e_net e) x"
    and names: "map sr_endNames srvs' = map sr_endNames srvs"
  shows "srvs_ok rnd gid n e' srvs'"
proof -
  have sub: "rnd ` {..<e_rnd e} \<subseteq> rnd ` {..<e_rnd e'}" using assms(3) by auto
  have "length (sr_endNames s) = n \<and> (\<forall>j<n. sr_endNames s ! j \<in> rnd ` {..<e_rnd e'} \<and>
      n_connections (e_net e') (sr_endNames s ! j) = Some (ServerName gid (int j)))" if "s \<in> set srvs'" for s
  proof -
    have "sr_endNames s \<in> sr_endNames ` set srvs" using that names by (metis image_eqI list.set_map)
    then obtain t where "t \<in> set srvs" "sr_endNames s = sr_endNames t" by blast
    with assms(1) have "length (sr_endNames s) = n" "\<And>j. j < n \<Longrightarrow> sr_endNames s ! j \<in> rnd ` {..<e_rnd e}"
      "\<And>j. j < n \<Longrightarrow> n_connections (e_net e) (sr_endNames s ! j) = Some (ServerName gid (int j))"
      by (simp_all add: srvs_ok_def)
    with con sub show ?thesis by (simp add: subset_iff)
  qed
  with assms(1,2) names show ?thesis by (simp add: srvs_ok_def)
qed

text \<open>What a server gets when it is started: the content of its persister, or an empty one.\<close>

definition last_saved :: "'s env \<Rightarrow> 'svc Srv \<Rightarrow> Persister" where
  "last_saved e s = (case sr_saved s of Some a \<Rightarrow> e_pers e ! a | None \<Rightarrow> MakePersister)"

lemma StartServer_eq:
  assumes "i \<in> sg_ids sg" "makeServer rnd (sg_gid sg) (length (sr_endNames (sg_srvs sg ! nat i))) e = Inr (e1, srv)"
    and "mks (sr_clntEnds srv) (sg_gid sg) i (length (e_pers e1)) (e_pers e1 @ [last_saved e1 (sg_srvs sg ! nat i)]) = (svcs, pers)"
  shows "StartServer rnd mks reflect i (e, sg) =
    Inr (e1\<lparr>e_pers := pers, e_labs := e_labs e1 @ [foldl (\<lambda>ls svc. AddService ls (reflect svc)) MakeServer svcs],
            e_net := AddServer (e_net e1) (ServerName (sg_gid sg) i) (length (e_labs e1))\<rparr>,
         sg\<lparr>sg_srvs := (sg_srvs sg)[nat i := srv\<lparr>sr_saved := Some (length (e_pers e1)), sr_svcs := svcs\<rparr>]\<rparr>)"
proof -
  have "startServer rnd (sg_gid sg) (sg_srvs sg ! nat i) e =
      Inr (e1\<lparr>e_pers := e_pers e1 @ [last_saved e1 (sg_srvs sg ! nat i)]\<rparr>, srv\<lparr>sr_saved := Some (length (e_pers e1))\<rparr>)"
    using assms(2) by (simp add: startServer_def last_saved_def cong: option.case_cong)
  with assms(1,3) show ?thesis by (simp add: StartServer_def slice_get_def)
qed

lemma StartServer_range: "StartServer rnd mks reflect i (e, sg) = Inr s' \<Longrightarrow> i \<in> sg_ids sg"
  by (auto simp: StartServer_def go_bind_Inr_iff)

lemma StartServer_inv:
  assumes "inj rnd" "grp_inv rnd (e, sg)" "StartServer rnd mks reflect i (e, sg) = Inr s'"
  shows "grp_inv rnd s'"
proof -
  let ?old = "sg_srvs sg ! nat i" and ?n = "length (sg_srvs sg)"
  have i: "i \<in> sg_ids sg" using StartServer_range [OF assms(3)] .
  have ok: "srvs_ok rnd (sg_gid sg) ?n e (sg_srvs sg)" using assms(2) by (simp add: grp_inv_def)
  then have len: "length (sr_endNames ?old) = ?n" using i by (auto simp: srvs_ok_def)
  have f: "names_fresh rnd e" using ok by (simp add: srvs_ok_def)
  obtain e1 and srv :: "'b Srv" where m: "makeServer rnd (sg_gid sg) ?n e = Inr (e1, srv)"
    using makeServer_spec [OF assms(1) f] by blast
  obtain svcs pers where k: "mks (sr_clntEnds srv) (sg_gid sg) i (length (e_pers e1)) (e_pers e1 @ [last_saved e1 ?old]) = (svcs, pers)"
    by (cases "mks (sr_clntEnds srv) (sg_gid sg) i (length (e_pers e1)) (e_pers e1 @ [last_saved e1 ?old])")
  note s' = assms(3) [unfolded StartServer_eq [where mks = mks and reflect = reflect, OF i m [folded len] k]]
  note ok1 = makeServer_srvs_ok(2) [OF assms(1) ok m, of "nat i"]
  have "srvs_ok rnd (sg_gid sg) ?n (fst s') (sg_srvs (snd s'))"
    by (rule srvs_ok_mono [OF ok1]) (use s' ok1 in \<open>auto simp: srvs_ok_def names_fresh_def map_update AddServer_def\<close>)
  then show ?thesis using assms(2) s' by (auto simp: grp_inv_def)
qed

text \<open>Connecting and disconnecting only change which end-points are enabled, and the flags \<open>connected\<close>.\<close>

definition enabling :: "Network \<times> 'svc ServerGrp \<Rightarrow> Network \<times> 'svc ServerGrp \<Rightarrow> bool" where
  "enabling s s' \<longleftrightarrow>
     (\<exists>f c. s' = ((fst s)\<lparr>n_enabled := f\<rparr>, (snd s)\<lparr>sg_connected := c\<rparr>) \<and> length c = length (sg_connected (snd s)))"

lemma enabling_refl: "enabling s s"
  by (cases s; cases "fst s"; cases "snd s") (auto simp: enabling_def)

lemma enabling_trans: "enabling s t \<Longrightarrow> enabling t u \<Longrightarrow> enabling s u"
  by (auto simp: enabling_def)

definition enables :: "Network \<Rightarrow> Network \<Rightarrow> bool" where
  "enables net net' \<longleftrightarrow> (\<exists>f. net' = net\<lparr>n_enabled := f\<rparr>)"

lemma enables_refl: "enables net net"
  by (cases net) (auto simp: enables_def)

lemma enables_trans: "enables a b \<Longrightarrow> enables b c \<Longrightarrow> enables a c"
  by (auto simp: enables_def)

lemma enables_Enable: "enables net (Enable net x b)"
  by (auto simp: enables_def Enable_def)

lemma go_fold_enables:
  assumes "\<And>x net net'. f x net = Inr net' \<Longrightarrow> enables net net'" "go_fold f xs net = Inr net'"
  shows "enables net net'"
  by (rule go_fold_invariant [where P = "enables net", OF _ enables_refl assms(2)])
    (use assms(1) enables_trans in blast)

lemma Srv_enable_enables: "Srv_enable b names k net = Inr net' \<Longrightarrow> enables net net'"
  by (auto simp: Srv_enable_def go_bind_Inr_iff enables_Enable)

lemma connect_in_enables: "connect_in sg i to j net = Inr net' \<Longrightarrow> enables net net'"
  by (auto simp: connect_in_def go_bind_Inr_iff enables_Enable enables_refl split: if_splits)

lemma disconnect_in_enables: "disconnect_in sg i j net = Inr net' \<Longrightarrow> enables net net'"
  by (auto simp: disconnect_in_def go_bind_Inr_iff enables_Enable)

lemma enablingI: "enables net net' \<Longrightarrow> length c = length (sg_connected sg) \<Longrightarrow> enabling (net, sg) (net', sg\<lparr>sg_connected := c\<rparr>)"
  by (auto simp: enables_def enabling_def)

lemma slice_set_length: "slice_set xs i v = Inr ys \<Longrightarrow> length ys = length xs"
  by (auto simp: slice_set_def split: if_splits)

lemma connect_enabling:
  assumes "connect i to s = Inr s'"
  shows "enabling s s'"
proof -
  obtain net sg where s: "s = (net, sg)" by (cases s)
  from assms s obtain cs net1 net2 where cs: "slice_set (sg_connected sg) i True = Inr cs"
    and n1: "go_fold (Srv_enable True (sr_endNames (sg_srvs sg ! nat i))) to net = Inr net1"
    and n2: "go_fold (connect_in (sg\<lparr>sg_connected := cs\<rparr>) i to) (map int [0..<length to]) net1 = Inr net2"
    and s': "s' = (net2, sg\<lparr>sg_connected := cs\<rparr>)"
    by (auto simp: connect_def Let_def go_bind_Inr_iff Srv_connect_def)
  have "enables net net1" by (rule go_fold_enables [OF _ n1]) (erule Srv_enable_enables)
  moreover have "enables net1 net2" by (rule go_fold_enables [OF _ n2]) (erule connect_in_enables)
  ultimately have "enables net net2" by (rule enables_trans)
  then show ?thesis unfolding s s' using slice_set_length [OF cs] by (rule enablingI)
qed

lemma disconnect_enabling:
  assumes "disconnect i from s = Inr s'"
  shows "enabling s s'"
proof -
  obtain net sg where s: "s = (net, sg)" by (cases s)
  from assms s obtain cs net1 net2 where cs: "slice_set (sg_connected sg) i False = Inr cs"
    and n1: "go_fold (Srv_enable False (sr_endNames (sg_srvs sg ! nat i))) from net = Inr net1"
    and n2: "go_fold (disconnect_in (sg\<lparr>sg_connected := cs\<rparr>) i) from net1 = Inr net2"
    and s': "s' = (net2, sg\<lparr>sg_connected := cs\<rparr>)"
    by (auto simp: disconnect_def Let_def go_bind_Inr_iff Srv_disconnect_def)
  have "enables net net1" by (rule go_fold_enables [OF _ n1]) (erule Srv_enable_enables)
  moreover have "enables net1 net2" by (rule go_fold_enables [OF _ n2]) (erule disconnect_in_enables)
  ultimately have "enables net net2" by (rule enables_trans)
  then show ?thesis unfolding s s' using slice_set_length [OF cs] by (rule enablingI)
qed

lemma Partition_side_enabling: "Partition_side p q i s = Inr s' \<Longrightarrow> enabling s s'"
  by (auto simp: Partition_side_def go_bind_Inr_iff dest!: connect_enabling disconnect_enabling intro: enabling_trans)

lemma go_fold_enabling:
  assumes "\<And>x s s'. f x s = Inr s' \<Longrightarrow> enabling s s'" "go_fold f xs s = Inr s'"
  shows "enabling s s'"
  by (rule go_fold_invariant [where P = "enabling s", OF _ enabling_refl assms(2)])
    (use assms(1) enabling_trans in blast)

lemma Partition_enabling:
  assumes "Partition p q s = Inr s'"
  shows "enabling s s'"
proof -
  from assms obtain t where t: "go_fold (Partition_side p q) p s = Inr t" "go_fold (Partition_side q p) q t = Inr s'"
    by (auto simp: Partition_def go_bind_Inr_iff)
  have "enabling s t" by (rule go_fold_enabling [OF _ t(1)]) (erule Partition_side_enabling)
  moreover have "enabling t s'" by (rule go_fold_enabling [OF _ t(2)]) (erule Partition_side_enabling)
  ultimately show ?thesis by (rule enabling_trans)
qed

lemma on_net_inv:
  assumes "\<And>s s'. f s = Inr s' \<Longrightarrow> enabling s s'" "grp_inv rnd s" "on_net f s = Inr s'"
  shows "grp_inv rnd s'"
proof -
  obtain e sg where s: "s = (e, sg)" by (cases s)
  from assms(3) s obtain net' sg' where f: "f (e_net e, sg) = Inr (net', sg')" and s': "s' = (e\<lparr>e_net := net'\<rparr>, sg')"
    by (auto simp: on_net_def go_bind_Inr_iff)
  from assms(1) [OF f] obtain g c where net': "net' = (e_net e)\<lparr>n_enabled := g\<rparr>"
    and sg': "sg' = sg\<lparr>sg_connected := c\<rparr>" "length c = length (sg_connected sg)"
    by (auto simp: enabling_def)
  have ok: "srvs_ok rnd (sg_gid sg) (length (sg_srvs sg)) e (sg_srvs sg)" using assms(2) s by (simp add: grp_inv_def)
  have "srvs_ok rnd (sg_gid sg) (length (sg_srvs sg)) (e\<lparr>e_net := net'\<rparr>) (sg_srvs sg)"
    by (rule srvs_ok_mono [OF ok]) (use ok net' in \<open>auto simp: srvs_ok_def names_fresh_def\<close>)
  with assms(2) s s' sg' show ?thesis by (simp add: grp_inv_def)
qed

lemma sg_DisconnectAll_enabling: "sg_DisconnectAll i s = Inr s' \<Longrightarrow> enabling s s'"
  by (cases s) (simp add: sg_DisconnectAll_def disconnect_enabling)

lemma shutdownServer_keeps:
  "e_net (fst (shutdownServer Kill s e)) = e_net e" "e_rnd (fst (shutdownServer Kill s e)) = e_rnd e"
  "sr_endNames (snd (shutdownServer Kill s e)) = sr_endNames s"
  by (auto simp: shutdownServer_def Let_def split: option.splits)

lemma ShutdownServer_Inr:
  assumes "ShutdownServer Kill i (e, sg) = Inr (e', sg')"
  obtains e1 sg1 e2 where "on_net (sg_DisconnectAll i) (e, sg) = Inr (e1, sg1)" "i \<in> sg_ids sg1"
    "e2 = e1\<lparr>e_net := DeleteServer (e_net e1) (ServerName (sg_gid sg1) i)\<rparr>"
    "e' = fst (shutdownServer Kill (sg_srvs sg1 ! nat i) e2)"
    "sg' = sg1\<lparr>sg_srvs := (sg_srvs sg1)[nat i := snd (shutdownServer Kill (sg_srvs sg1 ! nat i) e2)]\<rparr>"
  using assms by (auto simp: ShutdownServer_def go_bind_Inr_iff Let_def case_prod_beta)

lemma ShutdownServer_inv:
  assumes "grp_inv rnd (e, sg)" "ShutdownServer Kill i (e, sg) = Inr (e', sg')"
  shows "grp_inv rnd (e', sg')"
proof -
  from ShutdownServer_Inr [OF assms(2)] obtain e1 sg1 e2 where
    d: "on_net (sg_DisconnectAll i) (e, sg) = Inr (e1, sg1)" and i: "i \<in> sg_ids sg1"
    and e2: "e2 = e1\<lparr>e_net := DeleteServer (e_net e1) (ServerName (sg_gid sg1) i)\<rparr>"
    and e': "e' = fst (shutdownServer Kill (sg_srvs sg1 ! nat i) e2)"
    and sg': "sg' = sg1\<lparr>sg_srvs := (sg_srvs sg1)[nat i := snd (shutdownServer Kill (sg_srvs sg1 ! nat i) e2)]\<rparr>" .
  let ?srv = "snd (shutdownServer Kill (sg_srvs sg1 ! nat i) e2)"
  have g: "grp_inv rnd (e1, sg1)" by (rule on_net_inv [OF _ assms(1) d]) (rule sg_DisconnectAll_enabling)
  then have ok: "srvs_ok rnd (sg_gid sg1) (length (sg_srvs sg1)) e1 (sg_srvs sg1)" by (simp add: grp_inv_def)
  have k: "e_net e' = e_net e2" "e_rnd e' = e_rnd e2" "sr_endNames ?srv = sr_endNames (sg_srvs sg1 ! nat i)"
    using shutdownServer_keeps [of Kill "sg_srvs sg1 ! nat i" e2] e' by simp_all
  have "map sr_endNames ((sg_srvs sg1)[nat i := ?srv]) = map sr_endNames (sg_srvs sg1)"
    using k(3) by (metis list_update_id map_update)
  then have "srvs_ok rnd (sg_gid sg1) (length (sg_srvs sg1)) e' ((sg_srvs sg1)[nat i := ?srv])"
    by (intro srvs_ok_mono [OF ok]) (use ok k e2 in \<open>auto simp: srvs_ok_def names_fresh_def DeleteServer_def\<close>)
  with g sg' show ?thesis by (simp add: grp_inv_def)
qed

text \<open>
  The life of a group: it is made, its servers are started, shut down, connected, disconnected and partitioned, and
  the other groups and the clients work on the shared environment: they draw new names and connect their own end-points.
\<close>

inductive grp_reach ::
  "(nat \<Rightarrow> string) \<Rightarrow> 'svc starter \<Rightarrow> ('svc \<Rightarrow> 's Service) \<Rightarrow> ('svc \<Rightarrow> Persister list \<Rightarrow> Persister list) \<Rightarrow> 's env \<times> 'svc ServerGrp \<Rightarrow> bool"
  for rnd mks reflect Kill where
  made: "names_fresh rnd e \<Longrightarrow> makeSrvGrp rnd gid n e = Inr s \<Longrightarrow> grp_reach rnd mks reflect Kill s"
| started: "grp_reach rnd mks reflect Kill s \<Longrightarrow> StartServer rnd mks reflect i s = Inr s' \<Longrightarrow> grp_reach rnd mks reflect Kill s'"
| stopped: "grp_reach rnd mks reflect Kill s \<Longrightarrow> ShutdownServer Kill i s = Inr s' \<Longrightarrow> grp_reach rnd mks reflect Kill s'"
| connected: "grp_reach rnd mks reflect Kill s \<Longrightarrow> on_net (connect i ks) s = Inr s' \<Longrightarrow> grp_reach rnd mks reflect Kill s'"
| disconnected: "grp_reach rnd mks reflect Kill s \<Longrightarrow> on_net (disconnect i ks) s = Inr s' \<Longrightarrow> grp_reach rnd mks reflect Kill s'"
| partitioned: "grp_reach rnd mks reflect Kill s \<Longrightarrow> on_net (Partition p q) s = Inr s' \<Longrightarrow> grp_reach rnd mks reflect Kill s'"
| others: "grp_reach rnd mks reflect Kill (e, sg) \<Longrightarrow> names_fresh rnd e' \<Longrightarrow> e_rnd e \<le> e_rnd e' \<Longrightarrow>
    (\<And>x. x \<in> rnd ` {..<e_rnd e} \<Longrightarrow> n_connections (e_net e') x = n_connections (e_net e) x) \<Longrightarrow>
    grp_reach rnd mks reflect Kill (e', sg)"

lemma grp_reach_inv:
  assumes "inj rnd" "grp_reach rnd mks reflect Kill s"
  shows "grp_inv rnd s"
  using assms(2)
proof induction
  case (made e gid n s)
  then show ?case using makeSrvGrp_inv [OF assms(1)] by (cases s) blast
next
  case (started s i s')
  then show ?case using StartServer_inv [OF assms(1)] by (cases s) blast
next
  case (stopped s i s')
  then show ?case using ShutdownServer_inv by (cases s; cases s') blast
next
  case (connected s i ks s')
  show ?case by (rule on_net_inv [OF _ connected(3,2)]) (erule connect_enabling)
next
  case (disconnected s i ks s')
  show ?case by (rule on_net_inv [OF _ disconnected(3,2)]) (erule disconnect_enabling)
next
  case (partitioned s p q s')
  show ?case by (rule on_net_inv [OF _ partitioned(3,2)]) (erule Partition_enabling)
next
  case (others e sg e')
  from others(5) have ok: "srvs_ok rnd (sg_gid sg) (length (sg_srvs sg)) e (sg_srvs sg)" by (simp add: grp_inv_def)
  with others(5) srvs_ok_mono [OF ok others(2-4) refl] show ?case by (simp add: grp_inv_def)
qed

text \<open>
  C36: partitions isolate. Take any group that the harness has made, started, stopped, connected and
  partitioned in any way, with end-point names that never repeat. \<open>Partition\<close> of two disjoint lists of
  its servers returns. Afterwards a request through an end-point from one side to the other fails, in both directions,
  without running a handler; and the end-point of every two servers on one side is enabled and leads
  to the server it is meant for.
\<close>

theorem partition_isolates:
  assumes "inj rnd" and "grp_reach rnd mks reflect Kill (e, sg)"
    and "list_all (\<lambda>i. 0 \<le> i \<and> i < int (sg_N sg)) (p1 @ p2)" and "distinct (p1 @ p2)"
  shows "\<exists>e' sg'. on_net (Partition p1 p2) (e, sg) = Inr (e', sg') \<and> sg_srvs sg' = sg_srvs sg \<and>
    (\<forall>i\<in>set p1. \<forall>j\<in>set p2. \<forall>(w :: 'w world) req sd. w_net w = e_net e' \<longrightarrow>
       rq_endname req = sg_end sg i j \<or> rq_endname req = sg_end sg j i \<longrightarrow>
       processReq w req sd = Some (Inr (w\<lparr>w_net := sd_net sd\<rparr>, failed_reply))) \<and>
    (\<forall>p\<in>{p1, p2}. \<forall>i\<in>set p. \<forall>j\<in>set p. n_enabled (e_net e') (sg_end sg i j) \<and>
       n_connections (e_net e') (sg_end sg i j) = Some (ServerName (sg_gid sg) j))"
proof -
  have inv: "grp_inv rnd (e, sg)" using grp_reach_inv [OF assms(1,2)] .
  have sides: "sides sg p1 p2"
    using grp_invD(1) [OF inv] assms(3,4) by (auto simp: sides_def list_all_iff sg_N_def)
  from Partition_enabled [OF this, of "e_net e"] obtain net' sg' where
    p: "Partition p1 p2 (e_net e, sg) = Inr (net', sg')" and sg': "sg_srvs sg' = sg_srvs sg"
    and cut: "\<forall>i\<in>set p1. \<forall>j\<in>set p2. \<not> n_enabled net' (sg_end sg i j) \<and> \<not> n_enabled net' (sg_end sg j i)"
    and on: "\<forall>i\<in>set p1. \<forall>j\<in>set p1. n_enabled net' (sg_end sg i j)" "\<forall>i\<in>set p2. \<forall>j\<in>set p2. n_enabled net' (sg_end sg i j)"
    by blast
  obtain f where net': "net' = (e_net e)\<lparr>n_enabled := f\<rparr>" using Partition_enabling [OF p] by (auto simp: enabling_def)
  have "n_connections net' (sg_end sg i j) = Some (ServerName (sg_gid sg) j)" if "i \<in> set p" "j \<in> set p" "p \<in> {p1, p2}" for i j p
    using grp_invD(2) [OF inv] sidesD(2,3) [OF sides] that net' by (auto simp: subset_iff)
  moreover have "processReq w req sd = Some (Inr (w\<lparr>w_net := sd_net sd\<rparr>, failed_reply))"
    if "i \<in> set p1" "j \<in> set p2" "w_net w = net'" "rq_endname req = sg_end sg i j \<or> rq_endname req = sg_end sg j i"
    for i j req sd and w :: "'w world"
    by (rule cut_off_fails) (use cut that in auto)
  ultimately show ?thesis
    using p sg' on by (intro exI [of _ "e\<lparr>e_net := net'\<rparr>"] exI [of _ sg']) (auto simp: on_net_def)
qed

definition demo_env :: "unit env" where
  "demo_env = \<lparr>e_net = MakeNetwork, e_rnd = 0, e_pers = [], e_labs = []\<rparr>"

abbreviation demo_group :: "(unit env \<times> unit ServerGrp) go" where
  "demo_group \<equiv> makeSrvGrp digits 0 3 demo_env"

abbreviation any_sched :: "Network \<Rightarrow> sched" where
  "any_sched net \<equiv> \<lparr>sd_drop_request = 500, sd_drop_reply = 500, sd_reorder = 0, sd_events = [HandlerDone], sd_late = False,
     sd_sent = True, sd_net = net\<rparr>"

lemma inj_digits: "inj digits"
  by (auto intro!: injI dest: digits_inj)

lemma demo_group_made: "\<exists>e sg. demo_group = Inr (e, sg) \<and> sg_N sg = 3"
proof -
  have "(case demo_group of Inr s \<Rightarrow> sg_N (snd s) | Inl x \<Rightarrow> 0) = 3" by code_simp
  then show ?thesis by (cases demo_group) auto
qed

theorem partition_isolates_witness:
  "\<exists>e sg e' sg'. demo_group = Inr (e, sg) \<and> on_net (Partition [0] [1, 2]) (e, sg) = Inr (e', sg') \<and>
     processReq \<lparr>w_net = e_net e', w_srv = (\<lambda>_. MakeServer), w_st = ()\<rparr>
       \<lparr>rq_endname = sg_end sg 2 0, rq_svcMeth = ''Raft.RequestVote'', rq_args = ''''\<rparr> (any_sched (e_net e')) =
       Some (Inr (\<lparr>w_net = e_net e', w_srv = (\<lambda>_. MakeServer), w_st = ()\<rparr>, failed_reply)) \<and>
     n_enabled (e_net e') (sg_end sg 2 1)"
proof -
  obtain e sg where d: "demo_group = Inr (e, sg)" "sg_N sg = 3" using demo_group_made by blast
  have "names_fresh digits demo_env" by (simp add: names_fresh_def demo_env_def MakeNetwork_def)
  then have r: "grp_reach digits (\<lambda>_ _ _ _ h. ([], h)) (\<lambda>_. MakeService '''' []) (\<lambda>_ h. h) (e, sg)"
    using d(1) by (rule grp_reach.made)
  from partition_isolates [where 'w = unit, OF inj_digits r, of "[0]" "[1, 2]"] d(2) obtain e' sg' where
    p: "on_net (Partition [0] [1, 2]) (e, sg) = Inr (e', sg')"
    and c: "\<And>(w :: unit world) req sd. w_net w = e_net e' \<Longrightarrow> rq_endname req = sg_end sg 2 0 \<Longrightarrow>
       processReq w req sd = Some (Inr (w\<lparr>w_net := sd_net sd\<rparr>, failed_reply))"
    and o: "n_enabled (e_net e') (sg_end sg 2 1)" by auto
  have "processReq \<lparr>w_net = e_net e', w_srv = (\<lambda>_. MakeServer), w_st = ()\<rparr>
       \<lparr>rq_endname = sg_end sg 2 0, rq_svcMeth = ''Raft.RequestVote'', rq_args = ''''\<rparr> (any_sched (e_net e')) =
       Some (Inr (\<lparr>w_net = e_net e', w_srv = (\<lambda>_. MakeServer), w_st = ()\<rparr>, failed_reply))"
    by (subst c) simp_all
  with d(1) p o show ?thesis by blast
qed

section \<open>The partition that the tests choose\<close>

lemma MakePartition_step_apply:
  "MakePartition_step l i (j, p1, p2) =
     (if i \<noteq> l
      then if j < int (length p1)
           then go_bind (slice_set p1 j i) (\<lambda>p1. Inr (j + 1, p1, p2))
           else go_bind (slice_set p2 (j - int (length p1)) i) (\<lambda>p2. Inr (j + 1, p1, p2))
      else Inr (j, p1, p2))"
  by (simp add: MakePartition_step_def)

lemma MakePartition_fill:
  assumes "length (filter (\<lambda>i. i \<noteq> l) (map int [0..<k])) \<le> L1 + L2"
  shows "go_fold (MakePartition_step l) (map int [0..<k]) (0, replicate L1 0, replicate L2 0) =
    (let xs = filter (\<lambda>i. i \<noteq> l) (map int [0..<k])
     in Inr (int (length xs), take L1 xs @ replicate (L1 - length xs) 0, drop L1 xs @ replicate (L2 - (length xs - L1)) 0))"
  using assms
proof (induction k)
  case (Suc k)
  let ?xs = "filter (\<lambda>i. i \<noteq> l) (map int [0..<k])"
  have IH: "go_fold (MakePartition_step l) (map int [0..<k]) (0, replicate L1 0, replicate L2 0) =
      Inr (int (length ?xs), take L1 ?xs @ replicate (L1 - length ?xs) 0, drop L1 ?xs @ replicate (L2 - (length ?xs - L1)) 0)"
    using Suc by (simp add: Let_def)
  show ?case
  proof (cases "int k = l")
    case True
    with IH show ?thesis by (simp add: go_fold_append MakePartition_step_apply Let_def)
  next
    case False
    with Suc.prems have len: "Suc (length ?xs) \<le> L1 + L2" by simp
    show ?thesis
    proof (cases "length ?xs < L1")
      case True
      then have "replicate (L1 - length ?xs) (0 :: int) = 0 # replicate (L1 - Suc (length ?xs)) 0"
        by (metis Suc_diff_Suc replicate_Suc)
      with IH False True show ?thesis
        by (simp add: go_fold_append MakePartition_step_apply Let_def slice_set_def list_update_append)
    next
      case ge: False
      then have "replicate (L2 - (length ?xs - L1)) (0 :: int) = 0 # replicate (L2 - Suc (length ?xs - L1)) 0"
        using len by (metis Suc_diff_Suc Suc_le_eq add_diff_inverse_nat nat_add_left_cancel_less replicate_Suc)
      moreover have "Suc (length ?xs) - L1 = Suc (length ?xs - L1)" using ge by simp
      ultimately show ?thesis using IH False ge len
        by (simp add: go_fold_append MakePartition_step_apply Let_def slice_set_def list_update_append nat_diff_distrib')
    qed
  qed
qed simp

lemma filter_neq_upt:
  assumes "0 \<le> l" "l < int n"
  shows "length (filter (\<lambda>i. i \<noteq> l) (map int [0..<n])) = n - 1"
    "set (filter (\<lambda>i. i \<noteq> l) (map int [0..<n])) = {0..<int n} - {l}"
    "distinct (filter (\<lambda>i. i \<noteq> l) (map int [0..<n]))"
proof -
  let ?xs = "filter (\<lambda>i. i \<noteq> l) (map int [0..<n])"
  show s: "set ?xs = {0..<int n} - {l}"
    by (auto simp: image_iff) (metis atLeastLessThan_iff le0 nat_less_iff int_nat_eq)
  show d: "distinct ?xs" by (simp add: distinct_map)
  have "length ?xs = card (set ?xs)" using d by (simp only: distinct_card)
  also have "\<dots> = n - 1" unfolding s using assms by (simp add: card_Diff_singleton)
  finally show "length ?xs = n - 1" .
qed

text \<open>
  The tests' partition is a real one. For an odd number of servers, at least three, \<open>MakePartition\<close>
  returns a majority and a minority that are disjoint, together are all servers, and have the given leader in
  the minority. So they can be passed to \<open>Partition\<close>, and the leader is cut off from every majority.
\<close>

lemma make_partition_majority:
  assumes "sg_N sg = 2 * m + 1" and "0 < m" and "0 \<le> l" and "l < int (sg_N sg)"
  shows "\<exists>p1 p2. MakePartition sg l = Inr (p1, p2) \<and> length p1 = m + 1 \<and> length p2 = m \<and>
    distinct (p1 @ p2) \<and> set (p1 @ p2) = {0..<int (sg_N sg)} \<and> l \<in> set p2"
proof -
  define xs where "xs = filter (\<lambda>i. i \<noteq> l) (map int [0..<sg_N sg])"
  note xs = filter_neq_upt [OF assms(3,4), folded xs_def]
  have len: "length xs = 2 * m" using xs(1) assms(1) by simp
  then have "length xs \<le> (m + 1) + m" by simp
  then have f: "go_fold (MakePartition_step l) (map int [0..<sg_N sg]) (0, replicate (m + 1) 0, replicate m 0) =
      Inr (int (length xs), take (m + 1) xs, drop (m + 1) xs @ [0])"
    using MakePartition_fill [of l "sg_N sg" "m + 1" m] len assms(2) by (simp add: xs_def [symmetric] Let_def)
  have n: "sg_N sg div 2 = m" using assms(1) by simp
  have "nat (int m - 1) = m - Suc 0" by simp
  then have "slice_set (drop (m + 1) xs @ [0]) (int (length (drop (m + 1) xs @ [0])) - 1) l = Inr (drop (m + 1) xs @ [l])"
    using assms(2) len by (simp add: slice_set_def list_update_append)
  then have "MakePartition sg l = Inr (take (m + 1) xs, drop (m + 1) xs @ [l])"
    unfolding MakePartition_def Let_def sg_N_def [symmetric] n f by simp
  moreover have "distinct (xs @ [l])" by (simp add: xs(2,3))
  moreover have "set (xs @ [l]) = {0..<int (sg_N sg)}"
    unfolding set_append xs(2) using assms(3,4) by (simp add: insert_absorb)
  ultimately have p: "MakePartition sg l = Inr (take (m + 1) xs, drop (m + 1) xs @ [l])" "distinct (xs @ [l])"
    "set (xs @ [l]) = {0..<int (sg_N sg)}" by blast+
  then have "distinct (take (m + 1) xs @ drop (m + 1) xs @ [l])" "set (take (m + 1) xs @ drop (m + 1) xs @ [l]) = {0..<int (sg_N sg)}"
    unfolding append_assoc [symmetric] append_take_drop_id by blast+
  moreover have "length (take (m + 1) xs) = m + 1" "length (drop (m + 1) xs @ [l]) = m" using len assms(2) by simp_all
  moreover have "l \<in> set (drop (m + 1) xs @ [l])" by simp
  ultimately show ?thesis using p(1) by blast
qed

text \<open>With four servers, server 0 is in both lists: the slot that the loop does not fill keeps its zero.\<close>

lemma make_partition_even:
  assumes "sg_N sg = 4"
  shows "MakePartition sg 3 = Inr ([0, 1, 2], [0, 3])"
  unfolding MakePartition_def Let_def sg_N_def [symmetric] assms by code_simp

lemma make_partition_majority_example:
  "\<exists>p1 p2. MakePartition \<lparr>sg_srvs = replicate 5 (named_srv [] :: unit Srv), sg_servernames = [], sg_gid = 0, sg_connected = []\<rparr> 2 =
     Inr (p1, p2) \<and> length p1 = 3 \<and> length p2 = 2 \<and> distinct (p1 @ p2) \<and> set (p1 @ p2) = {0..<5} \<and> 2 \<in> set p2"
  using make_partition_majority
    [of "\<lparr>sg_srvs = replicate 5 (named_srv [] :: unit Srv), sg_servernames = [], sg_gid = 0, sg_connected = []\<rparr>" 2 2]
  by (simp add: sg_N_def)

text \<open>
  Connecting a server checks the wrong peers: with server 0 connected and server 1 not, connecting server 2
  to server 1 enables the end-point from server 1, because the check looks at position 0 of the
  list instead of at server 1.
\<close>

lemma connect_ignores_disconnected_peer:
  "\<exists>e sg net sg'. demo_group = Inr (e, sg) \<and>
     connect 2 [1] (e_net e, sg\<lparr>sg_connected := [True, False, False]\<rparr>) = Inr (net, sg') \<and>
     IsConnected sg' 1 = Inr False \<and> n_enabled net (sg_end sg 1 2)"
proof -
  let ?c = "\<lambda>s. connect 2 [1] (e_net (fst s), (snd s)\<lparr>sg_connected := [True, False, False]\<rparr>)"
  obtain e sg where d: "demo_group = Inr (e, sg)" using demo_group_made by blast
  have "(case demo_group of Inl x \<Rightarrow> False
      | Inr s \<Rightarrow> (case ?c s of Inl x \<Rightarrow> False
         | Inr r \<Rightarrow> IsConnected (snd r) 1 = Inr False \<and> n_enabled (fst r) (sg_end (snd s) 1 2)))"
    by code_simp
  with d show ?thesis by (cases "?c (e, sg)") auto
qed

section \<open>Restarting a server\<close>

lemma foldl_Kill_keeps:
  assumes "\<And>svc h. svc \<in> set svcs \<Longrightarrow> length (Kill svc h) = length h \<and> Kill svc h ! b = h ! b"
  shows "length (foldl (\<lambda>h svc. Kill svc h) h svcs) = length h \<and> foldl (\<lambda>h svc. Kill svc h) h svcs ! b = h ! b"
  using assms by (induction svcs arbitrary: h) simp_all

lemma ShutdownServer_saves:
  assumes "ShutdownServer Kill i (e, sg) = Inr (e1, sg1)" and "sr_saved (sg_srvs sg ! nat i) = Some a" and "a < length (e_pers e)"
    and "\<And>svc h. svc \<in> set (sr_svcs (sg_srvs sg ! nat i)) \<Longrightarrow>
      length (Kill svc h) = length h \<and> Kill svc h ! length (e_pers e) = h ! length (e_pers e)"
  shows "i \<in> sg_ids sg1" "sg_gid sg1 = sg_gid sg" "sr_saved (sg_srvs sg1 ! nat i) = Some (length (e_pers e))"
    "length (e_pers e1) = Suc (length (e_pers e))" "e_pers e1 ! length (e_pers e) = e_pers e ! a"
proof -
  from ShutdownServer_Inr [OF assms(1)] obtain e2 sg2 e3 where
    d: "on_net (sg_DisconnectAll i) (e, sg) = Inr (e2, sg2)" and i: "i \<in> sg_ids sg2"
    and e3: "e3 = e2\<lparr>e_net := DeleteServer (e_net e2) (ServerName (sg_gid sg2) i)\<rparr>"
    and e1: "e1 = fst (shutdownServer Kill (sg_srvs sg2 ! nat i) e3)"
    and sg1: "sg1 = sg2\<lparr>sg_srvs := (sg_srvs sg2)[nat i := snd (shutdownServer Kill (sg_srvs sg2 ! nat i) e3)]\<rparr>" .
  from d obtain net' where "sg_DisconnectAll i (e_net e, sg) = Inr (net', sg2)" and e2: "e2 = e\<lparr>e_net := net'\<rparr>"
    by (auto simp: on_net_def go_bind_Inr_iff)
  from sg_DisconnectAll_enabling [OF this(1)] have g: "sg_srvs sg2 = sg_srvs sg" "sg_gid sg2 = sg_gid sg"
    by (auto simp: enabling_def)
  have p: "e_pers e3 = e_pers e" using e2 e3 by simp
  note k = foldl_Kill_keeps [of "sr_svcs (sg_srvs sg ! nat i)" Kill "length (e_pers e)" "e_pers e @ [e_pers e ! a]", OF assms(4)]
  show "i \<in> sg_ids sg1" "sg_gid sg1 = sg_gid sg" using i g sg1 by simp_all
  have "nat i < length (sg_srvs sg)" using i g by auto
  then show "sr_saved (sg_srvs sg1 ! nat i) = Some (length (e_pers e))"
    using g sg1 assms(2) p by (simp add: shutdownServer_def)
  show "length (e_pers e1) = Suc (length (e_pers e))" "e_pers e1 ! length (e_pers e) = e_pers e ! a"
    using k e1 assms(2) p g by (simp_all add: shutdownServer_def)
qed

text \<open>
  C37: a restarted server finds the state it had saved. Shut a server down and start it again. The services may
  save when they are killed, and the stopped instance may go on saving to the persister it knows: whatever it leaves
  in the older persisters, the new instance is started with a persister of its own, at a
  new address, that holds what the old persister held when the server was shut down.
\<close>

theorem restart_keeps_state:
  assumes "inj rnd" and "grp_inv rnd (e, sg)"
    and "sr_saved (sg_srvs sg ! nat i) = Some a" and "a < length (e_pers e)"
    and "\<And>svc h. svc \<in> set (sr_svcs (sg_srvs sg ! nat i)) \<Longrightarrow>
      length (Kill svc h) = length h \<and> Kill svc h ! length (e_pers e) = h ! length (e_pers e)"
    and "ShutdownServer Kill i (e, sg) = Inr (e1, sg1)"
    and "length late = length (e_pers e)" and "e2 = e1\<lparr>e_pers := late @ drop (length (e_pers e)) (e_pers e1)\<rparr>"
  shows "\<exists>s' ends heap. StartServer rnd mks reflect i (e2, sg1) = Inr s' \<and>
    (let new = sg_srvs (snd s') ! nat i; addr = Suc (length (e_pers e))
     in sr_saved new = Some addr \<and> sr_svcs new = fst (mks ends (sg_gid sg) i addr heap) \<and>
        length heap = Suc addr \<and> heap ! addr = e_pers e ! a)"
proof -
  note sd = ShutdownServer_saves [OF assms(6,3,4,5)]
  have inv1: "grp_inv rnd (e1, sg1)" using ShutdownServer_inv [OF assms(2,6)] .
  have inv: "grp_inv rnd (e2, sg1)" using inv1 assms(8) by (simp add: grp_inv_def srvs_ok_def names_fresh_def)
  have len: "length (e_pers e2) = Suc (length (e_pers e))" using assms(7,8) sd(4) by simp
  have saved: "e_pers e2 ! length (e_pers e) = e_pers e ! a"
    using assms(7,8) sd(4,5) by (simp add: nth_append)
  note i = sd(1)
  have ok: "srvs_ok rnd (sg_gid sg1) (length (sg_srvs sg1)) e2 (sg_srvs sg1)" using inv by (simp add: grp_inv_def)
  then have lene: "length (sr_endNames (sg_srvs sg1 ! nat i)) = length (sg_srvs sg1)" using i by (auto simp: srvs_ok_def)
  have "names_fresh rnd e2" using ok by (simp add: srvs_ok_def)
  from makeServer_spec [OF assms(1) this, of "sg_gid sg1" "length (sg_srvs sg1)", where 'svc = 'b] obtain e3 and srv :: "'b Srv" where
    m: "makeServer rnd (sg_gid sg1) (length (sg_srvs sg1)) e2 = Inr (e3, srv)" and p: "e_pers e3 = e_pers e2" by auto
  let ?heap = "e_pers e3 @ [last_saved e3 (sg_srvs sg1 ! nat i)]"
  obtain svcs pers where k: "mks (sr_clntEnds srv) (sg_gid sg1) i (length (e_pers e3)) ?heap = (svcs, pers)"
    by (cases "mks (sr_clntEnds srv) (sg_gid sg1) i (length (e_pers e3)) ?heap")
  note st = StartServer_eq [where mks = mks and reflect = reflect, OF i m [folded lene] k]
  have f: "nat i < length (sg_srvs sg1)" "last_saved e3 (sg_srvs sg1 ! nat i) = e_pers e ! a"
    "fst (mks (sr_clntEnds srv) (sg_gid sg) i (Suc (length (e_pers e))) ?heap) = svcs"
    using i sd(2,3) p saved k len by (auto simp: last_saved_def)
  let ?s' = "(e3\<lparr>e_pers := pers, e_labs := e_labs e3 @ [foldl (\<lambda>ls svc. AddService ls (reflect svc)) MakeServer svcs],
        e_net := AddServer (e_net e3) (ServerName (sg_gid sg1) i) (length (e_labs e3))\<rparr>,
      sg1\<lparr>sg_srvs := (sg_srvs sg1)[nat i := srv\<lparr>sr_saved := Some (length (e_pers e3)), sr_svcs := svcs\<rparr>]\<rparr>)"
  have "sg_srvs (snd ?s') ! nat i = srv\<lparr>sr_saved := Some (length (e_pers e3)), sr_svcs := svcs\<rparr>" using f(1) by simp
  moreover have "length (e_pers e3) = Suc (length (e_pers e))" using p len by simp
  ultimately show ?thesis
    using st f(2,3) by (intro exI [of _ ?s'] exI [of _ "sr_clntEnds srv"] exI [of _ ?heap]) (simp add: Let_def nth_append)
qed

text \<open>A one-server group whose server has saved a state, and whose service saves once more when it is killed.\<close>

definition saved_env :: "unit env" where
  "saved_env = \<lparr>e_net = MakeNetwork\<lparr>n_ends := {''0''}, n_connections := [''0'' \<mapsto> ''server-0-0'']\<rparr>, e_rnd = 1,
     e_pers = [Save MakePersister ''log'' ''snap''], e_labs = []\<rparr>"

definition saved_grp :: "unit ServerGrp" where
  "saved_grp = \<lparr>sg_srvs = [\<lparr>sr_saved = Some 0, sr_svcs = [()], sr_endNames = [''0''], sr_clntEnds = [''0'']\<rparr>],
     sg_servernames = [''server-0-0''], sg_gid = 0, sg_connected = [True]\<rparr>"

abbreviation kill_saves :: "unit \<Rightarrow> Persister list \<Rightarrow> Persister list" where
  "kill_saves \<equiv> \<lambda>_ h. h[0 := Save (h ! 0) ''late'' ''late'']"

lemma saved_grp_inv: "grp_inv digits (saved_env, saved_grp)"
proof -
  have "digits 0 = ''0''" "ServerName 0 0 = ''server-0-0''" by code_simp+
  then show ?thesis
    by (simp add: grp_inv_def srvs_ok_def names_fresh_def saved_env_def saved_grp_def MakeNetwork_def)
qed

theorem restart_keeps_state_witness:
  "\<exists>e1 sg1 s' heap. ShutdownServer kill_saves 0 (saved_env, saved_grp) = Inr (e1, sg1) \<and>
     ps_raftstate (e_pers e1 ! 0) = ''late'' \<and>
     StartServer digits (\<lambda>_ _ _ _ h. ([()], h)) (\<lambda>_. MakeService '''' []) 0
       (e1\<lparr>e_pers := [MakePersister] @ drop 1 (e_pers e1)\<rparr>, sg1) = Inr s' \<and>
     sr_saved (sg_srvs (snd s') ! 0) = Some 2 \<and> length heap = 3 \<and> heap ! 2 = Save MakePersister ''log'' ''snap''"
proof -
  have "(case ShutdownServer kill_saves 0 (saved_env, saved_grp) of Inl x \<Rightarrow> False
      | Inr s \<Rightarrow> ps_raftstate (e_pers (fst s) ! 0) = ''late'')"
    by code_simp
  then obtain e1 sg1 where d: "ShutdownServer kill_saves 0 (saved_env, saved_grp) = Inr (e1, sg1)"
    "ps_raftstate (e_pers e1 ! 0) = ''late''"
    by (cases "ShutdownServer kill_saves 0 (saved_env, saved_grp)") auto
  have "\<exists>s' (ends :: string list) heap. StartServer digits (\<lambda>_ _ _ _ h. ([()], h)) (\<lambda>_. MakeService '''' []) 0
        (e1\<lparr>e_pers := [MakePersister] @ drop (length (e_pers saved_env)) (e_pers e1)\<rparr>, sg1) = Inr s' \<and>
      (let new = sg_srvs (snd s') ! nat 0; addr = Suc (length (e_pers saved_env))
       in sr_saved new = Some addr \<and>
         sr_svcs new = fst ((\<lambda>_ _ _ _ h. ([()], h)) ends (sg_gid saved_grp) 0 addr heap) \<and>
         length heap = Suc addr \<and> heap ! addr = e_pers saved_env ! 0)"
    by (rule restart_keeps_state [where Kill = kill_saves and i = 0 and a = 0 and late = "[MakePersister]"
          and mks = "\<lambda>_ _ _ _ h. ([()], h)" and reflect = "\<lambda>_. MakeService '''' []",
          OF inj_digits saved_grp_inv _ _ _ d(1) _ refl])
      (simp_all add: saved_env_def saved_grp_def)
  then show ?thesis using d by (auto simp: saved_env_def Let_def numeral_2_eq_2 numeral_3_eq_3)
qed

end
