(* ===== verification/KvStack.thy ===== *)
theory KvStack
  imports KvSpawn TesterGroup
begin

text \<open>
  The key/value lab as a whole: the test of \<^verbatim>\<open>src/kvsrv1/test.go\<close>, which makes a configuration with one server
  (\<^verbatim>\<open>src/tester1/config.go\<close>), starts the server of \<^verbatim>\<open>src/kvsrv1/server.go\<close> in it and makes clerks of \<^verbatim>\<open>src/kvsrv1/client.go\<close> on clients of the
  harness (\<^verbatim>\<open>src/tester1/clnts.go\<close>), whose calls go through the simulated network (\<^verbatim>\<open>src/labrpc/labrpc.go\<close>) to the server's handlers.
  One clerk operation runs at a time. What remains open is chance: the random numbers that the network draws for each
  request, and how often its timer fires before the handler returns; the test carries a list of them. A clerk operation is
  \<open>None\<close> when this list ends before it returns. The codecs of package \<open>labgob\<close> are parameters.
\<close>

section \<open>Codecs and chances\<close>

record kv_codec =
  kc_encG :: "GetArgs \<Rightarrow> string"
  kc_decG :: "string \<Rightarrow> GetArgs"
  kc_encGR :: "GetReply \<Rightarrow> string"
  kc_decGR :: "string \<Rightarrow> GetReply \<Rightarrow> GetReply"
  kc_encP :: "PutArgs \<Rightarrow> string"
  kc_decP :: "string \<Rightarrow> PutArgs"
  kc_encPR :: "PutReply \<Rightarrow> string"
  kc_decPR :: "string \<Rightarrow> PutReply \<Rightarrow> PutReply"

text \<open>What the codecs are assumed to do: decoding into a fresh variable gives back what was encoded.\<close>

definition codec_ok :: "kv_codec \<Rightarrow> bool" where
  "codec_ok cd \<longleftrightarrow> (\<forall>a. kc_decG cd (kc_encG cd a) = a) \<and> (\<forall>r. kc_decGR cd (kc_encGR cd r) zero_GetReply = r) \<and>
     (\<forall>a. kc_decP cd (kc_encP cd a) = a) \<and> (\<forall>r. kc_decPR cd (kc_encPR cd r) zero_PutReply = r)"

lemma codec_okD:
  assumes "codec_ok cd"
  shows "kc_decG cd (kc_encG cd a) = a" "kc_decGR cd (kc_encGR cd r) zero_GetReply = r"
    "kc_decP cd (kc_encP cd b) = b" "kc_decPR cd (kc_encPR cd q) zero_PutReply = q"
  using assms by (auto simp: codec_ok_def)

abbreviation cd_service :: "kv_codec \<Rightarrow> KVServer Service" where
  "cd_service cd \<equiv> kv_service (kc_decG cd) (kc_encGR cd) (kc_decP cd) (kc_encPR cd)"

record chance =
  ch_drop_request :: int
  ch_drop_reply :: int
  ch_reorder :: int
  ch_ticks :: nat

text \<open>The schedule of a request that nobody interferes with, on the network as it is when the request is processed.\<close>

definition alone :: "chance \<Rightarrow> Network \<Rightarrow> sched" where
  "alone ch net =
     \<lparr>sd_drop_request = ch_drop_request ch, sd_drop_reply = ch_drop_reply ch, sd_reorder = ch_reorder ch,
      sd_events = replicate (ch_ticks ch) (Tick net) @ [HandlerDone], sd_late = False, sd_sent = True, sd_net = net\<rparr>"

section \<open>The test\<close>

text \<open>The state of the one server object that \<open>StartKVServer\<close> makes is beside the configuration.\<close>

record TestKV =
  tk_cfg :: "(KVServer, KVServer) Config"
  tk_kv :: KVServer
  tk_luck :: "chance list"

definition MakeTestKV :: "(nat \<Rightarrow> string) \<Rightarrow> kv_codec \<Rightarrow> bool \<Rightarrow> int \<Rightarrow> chance list \<Rightarrow> TestKV go" where
  "MakeTestKV rnd cd reliable now luck =
     go_bind (MakeConfig rnd (\<lambda>ends gid srv persister pers. (StartKVServer, pers)) (\<lambda>_. cd_service cd) 1 reliable now)
       (\<lambda>cfg. Inr \<lparr>tk_cfg = cfg, tk_kv = hd StartKVServer, tk_luck = luck\<rparr>)"

text \<open>A clerk is the address of its client; all clerks have the same server.\<close>

definition TestKV_MakeClerk :: "TestKV \<Rightarrow> TestKV \<times> nat" where
  "TestKV_MakeClerk ts =
     (let (clnts, clnt) = MakeClient (cf_clnts (tk_cfg ts)) in (ts\<lparr>tk_cfg := (tk_cfg ts)\<lparr>cf_clnts := clnts\<rparr>\<rparr>, clnt))"

definition TestKV_DeleteClerk :: "nat \<Rightarrow> TestKV \<Rightarrow> dir \<Rightarrow> TestKV \<times> dir" where
  "TestKV_DeleteClerk ck ts d =
     (let (clnts, d) = DeleteClient ck (cf_clnts (tk_cfg ts)) d in (ts\<lparr>tk_cfg := (tk_cfg ts)\<lparr>cf_clnts := clnts\<rparr>\<rparr>, d))"

section \<open>A call through the stack\<close>

abbreviation tk_env :: "TestKV \<Rightarrow> KVServer env" where
  "tk_env ts \<equiv> gs_env (cf_groups (tk_cfg ts))"

abbreviation tk_clnt :: "TestKV \<Rightarrow> nat \<Rightarrow> Clnt" where
  "tk_clnt ts ck \<equiv> cs_store (cf_clnts (tk_cfg ts)) ! ck"

definition the_server :: string where
  "the_server = ServerName GRP0 0"

text \<open>The network, the RPC servers by their address and the state behind them; and back.\<close>

definition tk_world :: "TestKV \<Rightarrow> KVServer world" where
  "tk_world ts = \<lparr>w_net = e_net (tk_env ts), w_srv = (\<lambda>a. e_labs (tk_env ts) ! a), w_st = tk_kv ts\<rparr>"

definition tk_store :: "nat \<Rightarrow> TestKV \<Rightarrow> KVServer world \<Rightarrow> nat \<Rightarrow> Clnt \<Rightarrow> TestKV" where
  "tk_store ck ts w r clnt =
     (let e = (tk_env ts)\<lparr>e_net := w_net w, e_labs := map (w_srv w) [0..<length (e_labs (tk_env ts))], e_rnd := r\<rparr>;
          cfg = tk_cfg ts;
          clnts = cf_clnts cfg
      in ts\<lparr>tk_cfg := cfg\<lparr>cf_groups := (cf_groups cfg)\<lparr>gs_env := e\<rparr>,
                         cf_clnts := clnts\<lparr>cs_store := (cs_store clnts)[ck := clnt]\<rparr>\<rparr>,
            tk_kv := w_st w\<rparr>)"

definition in_flight :: "(nat \<Rightarrow> string) \<Rightarrow> string \<Rightarrow> string \<Rightarrow> nat \<Rightarrow> TestKV \<Rightarrow> Network" where
  "in_flight rnd meth b ck ts =
     (case Clnt_makeEnd rnd the_server (e_net (tk_env ts), e_rnd (tk_env ts), tk_clnt ts ck) of
        Inl x \<Rightarrow> e_net (tk_env ts)
      | Inr ((net, r, clnt), endname) \<Rightarrow> MakeNetwork_serve net \<lparr>rq_endname = endname, rq_svcMeth = meth, rq_args = b\<rparr>)"

text \<open>A call of the clerk's client; \<open>None\<close> also for a panic.\<close>

definition TestKV_Call ::
  "(nat \<Rightarrow> string) \<Rightarrow> ('a \<Rightarrow> string) \<Rightarrow> (string \<Rightarrow> 'r \<Rightarrow> 'r) \<Rightarrow> string \<Rightarrow> nat \<Rightarrow> chance \<Rightarrow> TestKV \<Rightarrow> 'a \<Rightarrow> 'r \<Rightarrow> (TestKV \<times> 'r \<times> bool) option" where
  "TestKV_Call rnd encode decode meth ck ch ts args reply =
     (case Clnt_Call encode decode rnd the_server meth args reply (alone ch (in_flight rnd meth (encode args) ck ts))
             (tk_world ts) (e_rnd (tk_env ts)) (tk_clnt ts ck) of
        Some (Inr (w, r, clnt, reply, ok)) \<Rightarrow> Some (tk_store ck ts w r clnt, reply, ok)
      | _ \<Rightarrow> None)"

definition TestKV_Call_Get :: "(nat \<Rightarrow> string) \<Rightarrow> kv_codec \<Rightarrow> nat \<Rightarrow> chance \<Rightarrow> TestKV \<Rightarrow> GetArgs \<Rightarrow> GetReply \<Rightarrow> (TestKV \<times> GetReply \<times> bool) option" where
  "TestKV_Call_Get rnd cd ck = TestKV_Call rnd (kc_encG cd) (kc_decGR cd) ''KVServer.Get'' ck"

definition TestKV_Call_Put :: "(nat \<Rightarrow> string) \<Rightarrow> kv_codec \<Rightarrow> nat \<Rightarrow> chance \<Rightarrow> TestKV \<Rightarrow> PutArgs \<Rightarrow> PutReply \<Rightarrow> (TestKV \<times> PutReply \<times> bool) option" where
  "TestKV_Call_Put rnd cd ck = TestKV_Call rnd (kc_encP cd) (kc_decPR cd) ''KVServer.Put'' ck"

text \<open>The clerk's operations over these calls, as an \<open>IKVClerk\<close>.\<close>

fun Clerk_Get_on ::
  "('x \<Rightarrow> 'w \<Rightarrow> GetArgs \<Rightarrow> GetReply \<Rightarrow> ('w \<times> GetReply \<times> bool) option) \<Rightarrow> GetArgs \<Rightarrow> GetReply \<Rightarrow> 'w \<Rightarrow> 'x list \<Rightarrow> (GetReply \<times> 'w \<times> 'x list) option" where
  "Clerk_Get_on Call args reply w [] = None"
| "Clerk_Get_on Call args reply w (x # script) =
     (case Call x w args reply of
        None \<Rightarrow> None
      | Some (w, reply, ok) \<Rightarrow> if ok then Some (reply, w, script) else Clerk_Get_on Call args reply w script)"

definition TestKV_Get :: "(nat \<Rightarrow> string) \<Rightarrow> kv_codec \<Rightarrow> nat \<Rightarrow> string \<Rightarrow> TestKV \<Rightarrow> ((string \<times> Tversion \<times> Err) \<times> TestKV) option" where
  "TestKV_Get rnd cd ck key ts =
     (case Clerk_Get_on (TestKV_Call_Get rnd cd ck) \<lparr>ga_Key = key\<rparr> zero_GetReply ts (tk_luck ts) of
        None \<Rightarrow> None
      | Some (reply, ts, luck) \<Rightarrow>
          Some (if gr_Err reply \<noteq> OK then ('''', 0, gr_Err reply) else (gr_Value reply, gr_Version reply, OK), ts\<lparr>tk_luck := luck\<rparr>))"

definition TestKV_Put :: "(nat \<Rightarrow> string) \<Rightarrow> kv_codec \<Rightarrow> nat \<Rightarrow> string \<Rightarrow> string \<Rightarrow> Tversion \<Rightarrow> TestKV \<Rightarrow> (Err \<times> TestKV) option" where
  "TestKV_Put rnd cd ck key val version ts =
     (case Clerk_Put_on (\<lambda>ts _. ts) (TestKV_Call_Put rnd cd ck) key val version ts (map (Pair []) (tk_luck ts)) of
        None \<Rightarrow> None
      | Some (err, ts, rest) \<Rightarrow> Some (err, ts\<lparr>tk_luck := map snd rest\<rparr>))"

definition TestKV_clerk :: "(nat \<Rightarrow> string) \<Rightarrow> kv_codec \<Rightarrow> nat \<Rightarrow> TestKV IKVClerk" where
  "TestKV_clerk rnd cd ck = \<lparr>ik_Get = TestKV_Get rnd cd ck, ik_Put = TestKV_Put rnd cd ck\<rparr>"

section \<open>What chance does to a request\<close>

definition fate_of :: "bool \<Rightarrow> chance \<Rightarrow> fate" where
  "fate_of reliable ch =
     (if \<not> reliable \<and> ch_drop_request ch mod 1000 < 100 then LostRequest
      else if \<not> reliable \<and> ch_drop_reply ch mod 1000 < 100 then LostReply else Delivered)"

lemma processReq_alone:
  assumes up: "n_enabled (w_net w) (rq_endname req)" "n_connections (w_net w) (rq_endname req) = Some sn"
      "n_servers (w_net w) sn = Some a"
    and d: "Server_dispatch (w_srv w a) req (w_st w) = Inr (rs, st, reply)"
  shows "\<exists>w' b. processReq w req (alone ch (w_net w)) =
      Some (Inr (w', if fate_of (n_reliable (w_net w)) ch = Delivered then reply else failed_reply)) \<and>
    w_net w' = (w_net w)\<lparr>n_bytes := b\<rparr> \<and>
    (w_st w', w_srv w') = (if fate_of (n_reliable (w_net w)) ch = LostRequest then (w_st w, w_srv w) else (st, (w_srv w)(a := rs)))"
proof -
  let ?sd = "alone ch (w_net w)"
  have alive: "\<not> isServerDead (w_net w) (rq_endname req) sn a"
    using up by (simp add: isServerDead_def)
  have wait: "wait_handler (rq_endname req) sn a (sd_events ?sd) = Some (True, False)"
    by (rule wait_handler_alive) (use alive in \<open>auto simp: alone_def\<close>)
  have info: "readEndnameInfo (w_net w) (rq_endname req) = (True, Some sn, Some a, n_reliable (w_net w), n_longReordering (w_net w))"
    using up by (simp add: readEndnameInfo_def)
  have sd: "sd_drop_request ?sd = ch_drop_request ch" "sd_drop_reply ?sd = ch_drop_reply ch" "sd_late ?sd = False" "sd_net ?sd = w_net w"
    by (simp_all add: alone_def)
  let ?lost = "w\<lparr>w_net := w_net w\<rparr>" and ?ran = "w\<lparr>w_srv := (w_srv w)(a := rs), w_st := st, w_net := w_net w\<rparr>"
  let ?got = "?ran\<lparr>w_net := (w_net w)\<lparr>n_bytes := n_bytes (w_net w) + of_nat (length (rp_reply reply))\<rparr>\<rparr>"
  have run: "processReq w req ?sd =
    (if \<not> n_reliable (w_net w) \<and> ch_drop_request ch mod 1000 < 100 then Some (Inr (?lost, failed_reply))
     else if \<not> n_reliable (w_net w) \<and> ch_drop_reply ch mod 1000 < 100 then Some (Inr (?ran, failed_reply))
     else Some (Inr (?got, reply)))"
    unfolding processReq_def info sd d wait by (simp add: alive d wait)
  show ?thesis
  proof (cases "fate_of (n_reliable (w_net w)) ch")
    case LostRequest
    then have c: "(\<not> n_reliable (w_net w) \<and> ch_drop_request ch mod 1000 < 100) = True"
      by (simp add: fate_of_def split: if_splits)
    show ?thesis
      unfolding run c LostRequest by (intro exI [of _ ?lost] exI [of _ "n_bytes (w_net w)"]) simp
  next
    case LostReply
    then have c: "(\<not> n_reliable (w_net w) \<and> ch_drop_request ch mod 1000 < 100) = False"
      "(\<not> n_reliable (w_net w) \<and> ch_drop_reply ch mod 1000 < 100) = True"
      by (simp_all add: fate_of_def split: if_splits)
    show ?thesis
      unfolding run c LostReply by (intro exI [of _ ?ran] exI [of _ "n_bytes (w_net w)"]) simp
  next
    case Delivered
    then have c: "(\<not> n_reliable (w_net w) \<and> ch_drop_request ch mod 1000 < 100) = False"
      "(\<not> n_reliable (w_net w) \<and> ch_drop_reply ch mod 1000 < 100) = False"
      by (simp_all add: fate_of_def split: if_splits)
    show ?thesis
      unfolding run c Delivered
      by (intro exI [of _ ?got] exI [of _ "n_bytes (w_net w) + of_nat (length (rp_reply reply))"]) simp
  qed
qed

lemma kv_dispatch_Get:
  assumes "sv_services rs ''KVServer'' = Some (kv_service decG encG decP encP)"
    and "rq_svcMeth req = ''KVServer.Get''" and "decG (rq_args req) = args"
  shows "Server_dispatch rs req kv =
    Inr (rs\<lparr>sv_count := sv_count rs + 1\<rparr>, kv, \<lparr>rp_ok = True, rp_reply = encG (KVServer_Get kv args zero_GetReply)\<rparr>)"
  using assms
  by (simp add: Server_dispatch_def split_last_KVServer Service_dispatch_def kv_service_methods case_prod_beta Let_def)

section \<open>The invariant of a test\<close>

text \<open>
  The server is up and is the key/value server; every client is allowed every server, and its end-points are enabled and
  lead where they should.
\<close>

definition tk_inv :: "(nat \<Rightarrow> string) \<Rightarrow> kv_codec \<Rightarrow> TestKV \<Rightarrow> bool" where
  "tk_inv rnd cd ts \<longleftrightarrow>
     n_servers (e_net (tk_env ts)) the_server = Some 0 \<and> \<not> n_done (e_net (tk_env ts)) \<and> e_labs (tk_env ts) \<noteq> [] \<and>
     sv_services (e_labs (tk_env ts) ! 0) ''KVServer'' = Some (cd_service cd) \<and>
     n_ends (e_net (tk_env ts)) \<subseteq> rnd ` {..<e_rnd (tk_env ts)} \<and>
     (\<forall>clnt \<in> set (cs_store (cf_clnts (tk_cfg ts))). cl_srvs clnt = None \<and> clnt_inv rnd (e_net (tk_env ts), e_rnd (tk_env ts), clnt))"

definition tk_clerks :: "TestKV \<Rightarrow> nat" where
  "tk_clerks ts = length (cs_store (cf_clnts (tk_cfg ts)))"

text \<open>What a call keeps besides the invariant.\<close>

definition tk_keeps :: "(nat \<Rightarrow> string) \<Rightarrow> kv_codec \<Rightarrow> TestKV \<Rightarrow> TestKV \<Rightarrow> bool" where
  "tk_keeps rnd cd ts ts' \<longleftrightarrow> tk_inv rnd cd ts' \<and> tk_clerks ts' = tk_clerks ts \<and>
     n_reliable (e_net (tk_env ts')) = n_reliable (e_net (tk_env ts)) \<and> tk_luck ts' = tk_luck ts"

text \<open>A client that makes an end-point leaves the servers, the flags and the end-points of other clients alone.\<close>

lemma makeEnd_keeps:
  assumes "Clnt_makeEnd rnd server (net, r, clnt) = Inr ((net', r', clnt'), endname)"
  shows "n_servers net' = n_servers net" "n_done net' = n_done net" "n_reliable net' = n_reliable net" "r \<le> r'"
    "cl_srvs clnt' = cl_srvs clnt"
    "x \<in> n_ends net \<Longrightarrow> n_enabled net' x = n_enabled net x \<and> n_connections net' x = n_connections net x"
    "n_ends net' \<subseteq> n_ends net \<union> rnd ` {r..<r'}"
  using assms
  by (auto simp: Clnt_makeEnd_def MakeEnd_def Connect_def Enable_def Let_def go_bind_Inr_iff split: option.splits if_splits)

text \<open>Another client's invariant after that.\<close>

lemma clnt_inv_others:
  assumes inv: "clnt_inv rnd (net, r, clnt)" and r: "r \<le> r'" and ends: "n_ends net' \<subseteq> rnd ` {..<r'}"
    and same: "\<And>x. x \<in> snd ` set (cl_ends clnt) \<Longrightarrow> n_enabled net' x = n_enabled net x \<and> n_connections net' x = n_connections net x"
  shows "clnt_inv rnd (net', r', clnt)"
proof (rule clnt_invI [OF ends clnt_invD(2) [OF inv]])
  show "snd ` set (cl_ends clnt) \<subseteq> rnd ` {..<r'}"
    using clnt_invD(3) [OF inv] r by (meson image_mono lessThan_subset_iff order_trans)
  fix s name
  assume a: "(s, name) \<in> set (cl_ends clnt)"
  then have "name \<in> snd ` set (cl_ends clnt)" by force
  then show "n_connections net' name = Some s \<and> n_enabled net' name = allowedL clnt s"
    using same clnt_invD(4,5) [OF inv a] by simp
qed

lemma makeEnd_others:
  assumes "inj rnd" and m: "Clnt_makeEnd rnd server (net, r, clnt) = Inr ((net', r', clnt'), endname)"
    and ends: "n_ends net \<subseteq> rnd ` {..<r}" and inv: "clnt_inv rnd (net, r, c)"
  shows "clnt_inv rnd (net', r', c)"
proof (rule clnt_inv_others [OF inv])
  show "r \<le> r'" using makeEnd_keeps(4) [OF m] .
  have "n_ends net' \<subseteq> rnd ` {..<r} \<union> rnd ` {r..<r'}" using makeEnd_keeps(7) [OF m] ends by blast
  also have "\<dots> \<subseteq> rnd ` {..<r'}" using makeEnd_keeps(4) [OF m] by auto
  finally show "n_ends net' \<subseteq> rnd ` {..<r'}" .
  fix x
  assume "x \<in> snd ` set (cl_ends c)"
  then have "x \<in> rnd ` {..<r}" using clnt_invD(3) [OF inv] by blast
  then have "x \<noteq> rnd r" using inj_eq [OF assms(1)] by auto
  then show "n_enabled net' x = n_enabled net x \<and> n_connections net' x = n_connections net x"
    using m by (auto simp: Clnt_makeEnd_def MakeEnd_def Connect_def Enable_def Let_def go_bind_Inr_iff split: option.splits if_splits)
qed

lemma tk_store_simps [simp]:
  "e_net (tk_env (tk_store ck ts w r clnt)) = w_net w" "e_rnd (tk_env (tk_store ck ts w r clnt)) = r"
  "e_labs (tk_env (tk_store ck ts w r clnt)) = map (w_srv w) [0..<length (e_labs (tk_env ts))]"
  "cs_store (cf_clnts (tk_cfg (tk_store ck ts w r clnt))) = (cs_store (cf_clnts (tk_cfg ts)))[ck := clnt]"
  "tk_kv (tk_store ck ts w r clnt) = w_st w" "tk_luck (tk_store ck ts w r clnt) = tk_luck ts"
  by (simp_all add: tk_store_def Let_def)

lemma tk_clnt_inv:
  assumes "tk_inv rnd cd ts" and "ck < tk_clerks ts"
  shows "cl_srvs (tk_clnt ts ck) = None" "clnt_inv rnd (e_net (tk_env ts), e_rnd (tk_env ts), tk_clnt ts ck)"
  using assms nth_mem by (force simp: tk_inv_def tk_clerks_def)+

text \<open>Storing what a call leaves keeps the invariant.\<close>

lemma tk_store_keeps:
  assumes inj: "inj rnd" and inv: "tk_inv rnd cd ts" and ck: "ck < tk_clerks ts"
    and m: "Clnt_makeEnd rnd the_server (e_net (tk_env ts), e_rnd (tk_env ts), tk_clnt ts ck) = Inr ((net, r, clnt), endname)"
    and clnt: "clnt_inv rnd (net, r, clnt)"
    and w: "w_net w = net\<lparr>n_count := n, n_bytes := b\<rparr>" "sv_services (w_srv w 0) ''KVServer'' = Some (cd_service cd)"
  shows "tk_keeps rnd cd ts (tk_store ck ts w r clnt)"
proof -
  let ?net = "net\<lparr>n_count := n, n_bytes := b\<rparr>"
  note keeps = makeEnd_keeps [OF m]
  have ends: "n_ends (e_net (tk_env ts)) \<subseteq> rnd ` {..<e_rnd (tk_env ts)}" using inv by (simp add: tk_inv_def)
  have counted: "clnt_inv rnd (?net, r, c)" if "clnt_inv rnd (net, r, c)" for c
    using clnt_inv_others [OF that, of r ?net] clnt_invD(1) [OF that] by simp
  have "cl_srvs c = None \<and> clnt_inv rnd (?net, r, c)" if "c \<in> set ((cs_store (cf_clnts (tk_cfg ts)))[ck := clnt])" for c
  proof (cases "c = clnt")
    case True
    then show ?thesis using counted [OF clnt] keeps(5) tk_clnt_inv(1) [OF inv ck] by simp
  next
    case False
    then have "c \<in> set (cs_store (cf_clnts (tk_cfg ts)))" using that set_update_subset_insert by fastforce
    then show ?thesis
      using inv counted [OF makeEnd_others [OF inj m ends]] by (simp add: tk_inv_def)
  qed
  moreover have "n_servers net the_server = Some 0" "\<not> n_done net" "e_labs (tk_env ts) \<noteq> []" "n_ends net \<subseteq> rnd ` {..<r}"
    using inv keeps(1,2) clnt_invD(1) [OF clnt] by (simp_all add: tk_inv_def)
  ultimately show ?thesis
    using w keeps(3) by (simp add: tk_keeps_def tk_inv_def tk_clerks_def)
qed

text \<open>A call of a clerk: it returns, and what it does is decided by chance alone.\<close>

lemma TestKV_Call_fate:
  assumes inj: "inj rnd" and inv: "tk_inv rnd cd ts" and ck: "ck < tk_clerks ts"
    and d: "\<And>rs e. sv_services rs ''KVServer'' = Some (cd_service cd) \<Longrightarrow>
      Server_dispatch rs \<lparr>rq_endname = e, rq_svcMeth = meth, rq_args = encode args\<rparr> (tk_kv ts) =
        Inr (rs\<lparr>sv_count := sv_count rs + 1\<rparr>, st, \<lparr>rp_ok = True, rp_reply = rb\<rparr>)"
    and f: "f = fate_of (n_reliable (e_net (tk_env ts))) ch"
  shows "\<exists>ts'. TestKV_Call rnd encode decode meth ck ch ts args reply =
      Some (ts', if f = Delivered then decode rb reply else reply, f = Delivered) \<and>
    tk_kv ts' = (if f = LostRequest then tk_kv ts else st) \<and> tk_keeps rnd cd ts ts'"
proof -
  note cinv = tk_clnt_inv [OF inv ck]
  obtain net r clnt e where
    m: "Clnt_makeEnd rnd the_server (e_net (tk_env ts), e_rnd (tk_env ts), tk_clnt ts ck) = Inr ((net, r, clnt), e)"
    and clnt: "clnt_inv rnd (net, r, clnt)" and e: "n_enabled net e" "n_connections net e = Some the_server"
    using Clnt_makeEnd_spec [OF inj cinv(2), of the_server] cinv(1) by (auto simp: allowedL_def)
  let ?req = "\<lparr>rq_endname = e, rq_svcMeth = meth, rq_args = encode args\<rparr>"
  let ?w = "(tk_world ts)\<lparr>w_net := MakeNetwork_serve net ?req\<rparr>"
  have srv: "sv_services (w_srv ?w 0) ''KVServer'' = Some (cd_service cd)" and up: "n_servers net the_server = Some 0" "\<not> n_done net"
    using inv makeEnd_keeps(1,2) [OF m] by (simp_all add: tk_inv_def tk_world_def)
  have disp: "Server_dispatch (w_srv ?w 0) ?req (w_st ?w) =
      Inr ((w_srv ?w 0)\<lparr>sv_count := sv_count (w_srv ?w 0) + 1\<rparr>, st, \<lparr>rp_ok = True, rp_reply = rb\<rparr>)"
    using d [OF srv] by (simp add: tk_world_def)
  have f': "fate_of (n_reliable (w_net ?w)) ch = f"
    using makeEnd_keeps(3) [OF m] by (simp add: f MakeNetwork_serve_def)
  obtain w' b where p: "processReq ?w ?req (alone ch (w_net ?w)) =
        Some (Inr (w', if f = Delivered then \<lparr>rp_ok = True, rp_reply = rb\<rparr> else failed_reply))"
    and w': "w_net w' = (w_net ?w)\<lparr>n_bytes := b\<rparr>"
      "(w_st w', w_srv w') = (if f = LostRequest then (w_st ?w, w_srv ?w)
         else (st, (w_srv ?w)(0 := (w_srv ?w 0)\<lparr>sv_count := sv_count (w_srv ?w 0) + 1\<rparr>)))"
    using processReq_alone [OF _ _ _ disp, where ch = ch and sn = the_server] e up unfolding f'
    by (simp add: MakeNetwork_serve_def) blast
  have flight: "in_flight rnd meth (encode args) ck ts = w_net ?w"
    using m by (simp add: in_flight_def)
  have net: "w_net w' = net\<lparr>n_count := n_count (w_net ?w), n_bytes := b\<rparr>"
    using w'(1) by (simp add: MakeNetwork_serve_def)
  have "sv_services (w_srv w' 0) ''KVServer'' = Some (cd_service cd)"
    using w'(2) srv by (auto split: if_splits)
  from tk_store_keeps [OF inj inv ck m clnt net this]
  have keeps: "tk_keeps rnd cd ts (tk_store ck ts w' r clnt)" .
  have "ClientEnd_Call encode decode e meth args reply (alone ch (w_net ?w)) ((tk_world ts)\<lparr>w_net := net\<rparr>) =
      Some (Inr (w', if f = Delivered then decode rb reply else reply, f = Delivered))"
    using p up(2) by (simp add: ClientEnd_Call_def)
  moreover have "w_net (tk_world ts) = e_net (tk_env ts)" by (simp add: tk_world_def)
  ultimately have "TestKV_Call rnd encode decode meth ck ch ts args reply =
      Some (tk_store ck ts w' r clnt, if f = Delivered then decode rb reply else reply, f = Delivered)"
    unfolding TestKV_Call_def Clnt_Call_def flight by (simp only: m sum.case prod.case option.case)
  moreover have "tk_kv (tk_store ck ts w' r clnt) = (if f = LostRequest then tk_kv ts else st)"
    using w'(2) by (auto simp: tk_world_def split: if_splits)
  ultimately show ?thesis using keeps by blast
qed

lemma TestKV_Call_Put_fate:
  assumes "inj rnd" and "codec_ok cd" and "tk_inv rnd cd ts" and "ck < tk_clerks ts"
  shows "\<exists>ts' reply ok. TestKV_Call_Put rnd cd ck ch ts args zero_PutReply = Some (ts', reply, ok) \<and>
    Call_Put (fate_of (n_reliable (e_net (tk_env ts))) ch) (tk_kv ts) args zero_PutReply = (tk_kv ts', reply, ok) \<and> tk_keeps rnd cd ts ts'"
proof -
  let ?f = "fate_of (n_reliable (e_net (tk_env ts))) ch" and ?r = "snd (KVServer_Put (tk_kv ts) args zero_PutReply)"
  have "Server_dispatch rs \<lparr>rq_endname = e, rq_svcMeth = ''KVServer.Put'', rq_args = kc_encP cd args\<rparr> (tk_kv ts) =
        Inr (rs\<lparr>sv_count := sv_count rs + 1\<rparr>, put_state (tk_kv ts) args, \<lparr>rp_ok = True, rp_reply = kc_encPR cd ?r\<rparr>)"
    if "sv_services rs ''KVServer'' = Some (cd_service cd)" for rs e
    by (rule kv_dispatch_Put [OF that]) (simp_all add: codec_okD [OF assms(2)])
  from TestKV_Call_fate [where encode = "kc_encP cd" and args = args, OF assms(1,3,4) this refl, of "kc_decPR cd" ch zero_PutReply]
  show ?thesis
    unfolding TestKV_Call_Put_def codec_okD [OF assms(2)] by (cases ?f) auto
qed

lemma TestKV_Call_Get_fate:
  assumes "inj rnd" and "codec_ok cd" and "tk_inv rnd cd ts" and "ck < tk_clerks ts"
  shows "\<exists>ts' reply ok. TestKV_Call_Get rnd cd ck ch ts args zero_GetReply = Some (ts', reply, ok) \<and>
    Call_Get (fate_of (n_reliable (e_net (tk_env ts))) ch) (tk_kv ts) args zero_GetReply = (reply, ok) \<and>
    tk_kv ts' = tk_kv ts \<and> tk_keeps rnd cd ts ts'"
proof -
  let ?f = "fate_of (n_reliable (e_net (tk_env ts))) ch" and ?r = "KVServer_Get (tk_kv ts) args zero_GetReply"
  have "Server_dispatch rs \<lparr>rq_endname = e, rq_svcMeth = ''KVServer.Get'', rq_args = kc_encG cd args\<rparr> (tk_kv ts) =
        Inr (rs\<lparr>sv_count := sv_count rs + 1\<rparr>, tk_kv ts, \<lparr>rp_ok = True, rp_reply = kc_encGR cd ?r\<rparr>)"
    if "sv_services rs ''KVServer'' = Some (cd_service cd)" for rs e
    by (rule kv_dispatch_Get [OF that]) (simp_all add: codec_okD [OF assms(2)])
  from TestKV_Call_fate [where encode = "kc_encG cd" and args = args, OF assms(1,3,4) this refl, of "kc_decGR cd" ch zero_GetReply]
  show ?thesis
    unfolding TestKV_Call_Get_def codec_okD [OF assms(2)] by (cases ?f) auto
qed

section \<open>The stack implements the clerk's model\<close>

text \<open>What the clerk's model sees of a test: the server, and the fates of the calls to come.\<close>

definition tk_abs :: "TestKV \<Rightarrow> KVServer \<times> attempt list" where
  "tk_abs ts = (tk_kv ts, map (\<lambda>ch. ([], fate_of (n_reliable (e_net (tk_env ts))) ch)) (tk_luck ts))"

lemma tk_keepsD:
  assumes "tk_keeps rnd cd ts ts'"
  shows "tk_inv rnd cd ts'" "tk_clerks ts' = tk_clerks ts" "n_reliable (e_net (tk_env ts')) = n_reliable (e_net (tk_env ts))"
    "tk_luck ts' = tk_luck ts"
  using assms by (simp_all add: tk_keeps_def)

lemma tk_keeps_trans: "tk_keeps rnd cd ts ts' \<Longrightarrow> tk_keeps rnd cd ts' ts'' \<Longrightarrow> tk_keeps rnd cd ts ts''"
  by (simp add: tk_keeps_def)

lemma run_puts_Nil [simp]: "run_puts kv [] = kv"
  by (simp add: run_puts_def)

text \<open>The loops of both operations: step by step they are those of the model.\<close>

abbreviation fates_of :: "bool \<Rightarrow> chance list \<Rightarrow> attempt list" where
  "fates_of reliable \<equiv> map (\<lambda>ch. ([], fate_of reliable ch))"

definition same_run :: "(nat \<Rightarrow> string) \<Rightarrow> kv_codec \<Rightarrow> TestKV \<Rightarrow> ('r \<times> TestKV \<times> chance list) option \<Rightarrow> ('r \<times> KVServer \<times> attempt list) option \<Rightarrow> bool" where
  "same_run rnd cd ts x y \<longleftrightarrow>
     (case x of
        None \<Rightarrow> y = None
      | Some (r, ts', luck) \<Rightarrow> y = Some (r, tk_kv ts', fates_of (n_reliable (e_net (tk_env ts))) luck) \<and> tk_keeps rnd cd ts ts')"

lemma same_run_trans: "tk_keeps rnd cd ts ts' \<Longrightarrow> same_run rnd cd ts' x y \<Longrightarrow> same_run rnd cd ts x y"
  by (auto simp: same_run_def tk_keeps_def split: option.splits)

lemma Get_loop_same:
  assumes "inj rnd" and "codec_ok cd" and "tk_inv rnd cd ts" and "ck < tk_clerks ts"
  shows "same_run rnd cd ts (Clerk_Get_on (TestKV_Call_Get rnd cd ck) args zero_GetReply ts luck)
    (Clerk_Get_loop args zero_GetReply (tk_kv ts) (fates_of (n_reliable (e_net (tk_env ts))) luck))"
  using assms(3,4)
proof (induction luck arbitrary: ts)
  case (Cons ch luck)
  let ?f = "fate_of (n_reliable (e_net (tk_env ts))) ch"
  obtain ts' reply ok where call: "TestKV_Call_Get rnd cd ck ch ts args zero_GetReply = Some (ts', reply, ok)"
    "Call_Get ?f (tk_kv ts) args zero_GetReply = (reply, ok)" "tk_kv ts' = tk_kv ts" "tk_keeps rnd cd ts ts'"
    using TestKV_Call_Get_fate [OF assms(1,2) Cons.prems] by blast
  show ?case
  proof (cases ok)
    case True
    then show ?thesis using call by (simp add: same_run_def)
  next
    case False
    then have "reply = zero_GetReply" using call(2) by (cases ?f) auto
    moreover have "same_run rnd cd ts' (Clerk_Get_on (TestKV_Call_Get rnd cd ck) args zero_GetReply ts' luck)
        (Clerk_Get_loop args zero_GetReply (tk_kv ts) (fates_of (n_reliable (e_net (tk_env ts))) luck))"
      using Cons.IH [of ts'] tk_keepsD [OF call(4)] Cons.prems(2) call(3) by simp
    ultimately show ?thesis using same_run_trans [OF call(4)] False call(1,2) by simp
  qed
qed (simp add: same_run_def)

lemma Put_retry_same:
  assumes "inj rnd" and "codec_ok cd" and "tk_inv rnd cd ts" and "ck < tk_clerks ts"
  shows "same_run rnd cd ts
    (map_option (\<lambda>(r, ts, rest). (r, ts, map snd rest))
       (Clerk_Put_retry_on (\<lambda>ts _. ts) (TestKV_Call_Put rnd cd ck) args zero_PutReply ts (map (Pair []) luck)))
    (Clerk_Put_retry args zero_PutReply (tk_kv ts) (fates_of (n_reliable (e_net (tk_env ts))) luck))"
  using assms(3,4)
proof (induction luck arbitrary: ts)
  case (Cons ch luck)
  let ?f = "fate_of (n_reliable (e_net (tk_env ts))) ch"
  obtain ts' reply ok where call: "TestKV_Call_Put rnd cd ck ch ts args zero_PutReply = Some (ts', reply, ok)"
    "Call_Put ?f (tk_kv ts) args zero_PutReply = (tk_kv ts', reply, ok)" "tk_keeps rnd cd ts ts'"
    using TestKV_Call_Put_fate [OF assms(1,2) Cons.prems] by blast
  show ?case
  proof (cases ok)
    case True
    then show ?thesis using call by (simp add: same_run_def comp_def)
  next
    case False
    then have "reply = zero_PutReply" using call(2) by (cases ?f) auto
    moreover note Cons.IH [of ts'] tk_keepsD [OF call(3)] Cons.prems(2)
    ultimately show ?thesis using same_run_trans [OF call(3)] False call(1,2) by simp
  qed
qed (simp add: same_run_def)

text \<open>So the clerks of the test implement the clerk's model.\<close>

definition tk_step :: "(nat \<Rightarrow> string) \<Rightarrow> kv_codec \<Rightarrow> TestKV \<Rightarrow> TestKV \<Rightarrow> bool" where
  "tk_step rnd cd ts ts' \<longleftrightarrow> tk_inv rnd cd ts' \<and> tk_clerks ts' = tk_clerks ts \<and>
     n_reliable (e_net (tk_env ts')) = n_reliable (e_net (tk_env ts))"

lemma tk_luck_upd:
  assumes "tk_keeps rnd cd ts ts'"
  shows "tk_step rnd cd ts (ts'\<lparr>tk_luck := luck\<rparr>)"
    "tk_abs (ts'\<lparr>tk_luck := luck\<rparr>) = (tk_kv ts', fates_of (n_reliable (e_net (tk_env ts))) luck)"
  using assms by (simp_all add: tk_step_def tk_keeps_def tk_inv_def tk_clerks_def tk_abs_def)

lemma TestKV_Get_same:
  assumes "inj rnd" and "codec_ok cd" and "tk_inv rnd cd ts" and "ck < tk_clerks ts"
  shows "map_option (map_prod id tk_abs) (TestKV_Get rnd cd ck key ts) = ik_Get MakeClerk key (tk_abs ts)"
    and "TestKV_Get rnd cd ck key ts = Some (r, ts') \<Longrightarrow> tk_step rnd cd ts ts'"
proof -
  note same = Get_loop_same [OF assms, of "\<lparr>ga_Key = key\<rparr>" "tk_luck ts", unfolded same_run_def]
  have eq: "ik_Get MakeClerk key (tk_abs ts) = Clerk_Get key (tk_kv ts) (fates_of (n_reliable (e_net (tk_env ts))) (tk_luck ts))"
    by (simp add: MakeClerk_def tk_abs_def)
  show "map_option (map_prod id tk_abs) (TestKV_Get rnd cd ck key ts) = ik_Get MakeClerk key (tk_abs ts)"
    using same unfolding eq Clerk_Get_def TestKV_Get_def by (auto simp: tk_luck_upd split: option.splits)
  show "TestKV_Get rnd cd ck key ts = Some (r, ts') \<Longrightarrow> tk_step rnd cd ts ts'"
    using same unfolding TestKV_Get_def by (auto simp: tk_luck_upd split: option.splits)
qed

lemma TestKV_Put_same:
  assumes "inj rnd" and "codec_ok cd" and "tk_inv rnd cd ts" and "ck < tk_clerks ts"
  shows "map_option (map_prod id tk_abs) (TestKV_Put rnd cd ck key val ver ts) = ik_Put MakeClerk key val ver (tk_abs ts) \<and>
    (\<forall>r ts'. TestKV_Put rnd cd ck key val ver ts = Some (r, ts') \<longrightarrow> tk_step rnd cd ts ts')"
proof -
  let ?args = "\<lparr>pa_Key = key, pa_Value = val, pa_Version = ver\<rparr>" and ?rel = "n_reliable (e_net (tk_env ts))"
  have eq: "ik_Put MakeClerk key val ver (tk_abs ts) = Clerk_Put key val ver (tk_kv ts) (fates_of ?rel (tk_luck ts))"
    by (simp add: MakeClerk_def tk_abs_def)
  show ?thesis
  proof (cases "tk_luck ts")
    case Nil
    then show ?thesis unfolding eq by (simp add: TestKV_Put_def Clerk_Put_on_def Clerk_Put_def)
  next
    case (Cons ch luck)
    obtain ts1 reply ok where call: "TestKV_Call_Put rnd cd ck ch ts ?args zero_PutReply = Some (ts1, reply, ok)"
      "Call_Put (fate_of ?rel ch) (tk_kv ts) ?args zero_PutReply = (tk_kv ts1, reply, ok)" "tk_keeps rnd cd ts ts1"
      using TestKV_Call_Put_fate [OF assms] by blast
    show ?thesis
    proof (cases ok)
      case True
      then show ?thesis
        using Cons call tk_luck_upd [OF call(3)] unfolding eq
        by (simp add: TestKV_Put_def Clerk_Put_on_def Clerk_Put_def comp_def)
    next
      case False
      then have "reply = zero_PutReply" using call(2) by (cases "fate_of ?rel ch") auto
      moreover note same_run_trans [OF call(3) Put_retry_same [OF assms(1,2) tk_keepsD(1) [OF call(3)], of ck ?args luck],
          unfolded tk_keepsD(2-4) [OF call(3)], OF assms(4), unfolded same_run_def]
      ultimately show ?thesis
        using False Cons call(1,2) unfolding eq
        by (auto simp: TestKV_Put_def Clerk_Put_on_def Clerk_Put_def tk_luck_upd split: option.splits)
    qed
  qed
qed

section \<open>The test is set up\<close>

lemma sv_services_made: "sv_services (AddService MakeServer (cd_service cd)) ''KVServer'' = Some (cd_service cd)"
  by (simp add: AddService_def MakeServer_def kv_service_def MakeService_def)

lemma MakeTestKV_inv:
  assumes "inj rnd"
  shows "\<exists>ts. MakeTestKV rnd cd reliable now luck = Inr ts \<and> tk_inv rnd cd ts \<and> tk_clerks ts = 0 \<and>
    tk_kv ts = MakeKVServer \<and> tk_luck ts = luck \<and> n_reliable (e_net (tk_env ts)) = reliable"
proof -
  have "rnd 0 \<noteq> rnd 1" "rnd (Suc 0) \<noteq> rnd 0" using assms by (auto dest: injD)
  then show ?thesis
    by (simp add: MakeTestKV_def MakeConfig_def MakeGroupStart_def MakeGroup_def makeSrvGrp_def makeSrvGrp_server_def
        makeServer_def makeServer_end_def newGroups_def MakeNetwork_def MakeEnd_def Connect_def on_group_def lookupGroup_def
        StartServers_def start_def StartServer_def startServer_def sg_all_def on_net_def sg_ConnectAll_def ConnectOne_def connect_def
        connect_in_def Srv_connect_def Srv_enable_def Enable_def IsConnected_def StartKVServer_def slice_get_def slice_set_def
        AddServer_def set_net_def Reliable_def makeClnts_def tk_inv_def tk_clerks_def the_server_def Let_def sv_services_made)
qed

section \<open>Runs of a test\<close>

text \<open>
  The runs of a test in which one clerk operation runs at a time: clerks are made and deleted, and call \<open>Get\<close> and \<open>Put\<close> through the
  library of the tests, which logs every operation that returns.
\<close>

inductive tk_run :: "(nat \<Rightarrow> string) \<Rightarrow> kv_codec \<Rightarrow> (TestKV \<Rightarrow> int) \<Rightarrow> bool \<Rightarrow> TestKV Test \<Rightarrow> bool"
  for rnd cd clock reliable where
  made: "MakeTestKV rnd cd reliable now luck = Inr w \<Longrightarrow> tk_run rnd cd clock reliable (MakeTest w)"
| clerk: "tk_run rnd cd clock reliable ts \<Longrightarrow> TestKV_MakeClerk (ts_world ts) = (w, ck) \<Longrightarrow>
    tk_run rnd cd clock reliable (ts\<lparr>ts_world := w\<rparr>)"
| deleted: "tk_run rnd cd clock reliable ts \<Longrightarrow> TestKV_DeleteClerk ck (ts_world ts) d = (w, d') \<Longrightarrow>
    tk_run rnd cd clock reliable (ts\<lparr>ts_world := w\<rparr>)"
| got: "tk_run rnd cd clock reliable ts \<Longrightarrow> ck < tk_clerks (ts_world ts) \<Longrightarrow>
    Test_Get clock (TestKV_clerk rnd cd ck) key me ts = Some (Inr (r, ts')) \<Longrightarrow> tk_run rnd cd clock reliable ts'"
| wrote: "tk_run rnd cd clock reliable ts \<Longrightarrow> ck < tk_clerks (ts_world ts) \<Longrightarrow>
    Test_Put clock (TestKV_clerk rnd cd ck) key val ver me ts = Some (Inr (e, ts')) \<Longrightarrow> tk_run rnd cd clock reliable ts'"

lemma new_clnt_inv: "n_ends net \<subseteq> rnd ` {..<r} \<Longrightarrow> clnt_inv rnd (net, r, makeClntTo None)"
  by (rule clnt_invI) (simp_all add: makeClntTo_def)

lemma MakeClerk_inv:
  assumes "tk_inv rnd cd ts" and "TestKV_MakeClerk ts = (ts', ck)"
  shows "tk_inv rnd cd ts'" "tk_kv ts' = tk_kv ts" "n_reliable (e_net (tk_env ts')) = n_reliable (e_net (tk_env ts))"
    "ck = tk_clerks ts" "tk_clerks ts' = Suc (tk_clerks ts)"
  using assms new_clnt_inv [of "e_net (tk_env ts)" rnd "e_rnd (tk_env ts)"]
  by (auto simp: TestKV_MakeClerk_def MakeClient_def MakeClientTo_def tk_inv_def tk_clerks_def makeClntTo_def)

lemma DeleteClerk_inv:
  assumes "tk_inv rnd cd ts" and "TestKV_DeleteClerk ck ts d = (ts', d')"
  shows "tk_inv rnd cd ts'" "tk_kv ts' = tk_kv ts" "n_reliable (e_net (tk_env ts')) = n_reliable (e_net (tk_env ts))"
    "tk_clerks ts' = tk_clerks ts"
  using assms by (auto simp: TestKV_DeleteClerk_def DeleteClient_def tk_inv_def tk_clerks_def)

text \<open>What an operation of the stack does, by the clerk's model: nobody else writes meanwhile.\<close>

lemma no_others [simp]: "others (fates_of reliable luck) = []"
  by (induction luck) (auto simp: comp_def)

lemma TestKV_Get_effect:
  assumes "inj rnd" and "codec_ok cd" and "tk_inv rnd cd ts" and "ck < tk_clerks ts" and run: "TestKV_Get rnd cd ck key ts = Some (r, ts')"
  shows "tk_kv ts' = tk_kv ts" "r = clerk_get (tk_kv ts) key"
proof -
  have "ik_Get MakeClerk key (tk_abs ts) = Some (r, tk_abs ts')"
    using TestKV_Get_same(1) [OF assms(1-4), of key] run by simp
  then have c: "Clerk_Get key (tk_kv ts) (fates_of (n_reliable (e_net (tk_env ts))) (tk_luck ts)) = Some (r, tk_kv ts', snd (tk_abs ts'))"
    by (simp add: MakeClerk_def tk_abs_def)
  from clerk_get_linearizable [OF c] obtain used where
    used: "fates_of (n_reliable (e_net (tk_env ts))) (tk_luck ts) = used @ snd (tk_abs ts')" "tk_kv ts' = run_puts (tk_kv ts) (others used)"
    and r: "r = clerk_get (tk_kv ts') key"
    unfolding clerk_get_def by blast
  have "others used = []" using no_others [of "n_reliable (e_net (tk_env ts))" "tk_luck ts"] unfolding used(1) by simp
  then show "tk_kv ts' = tk_kv ts" unfolding used(2) by (simp only: run_puts_Nil)
  with r show "r = clerk_get (tk_kv ts) key" by simp
qed

lemma TestKV_Put_effect:
  assumes "inj rnd" and "codec_ok cd" and "tk_inv rnd cd ts" and "ck < tk_clerks ts" and run: "TestKV_Put rnd cd ck key val ver ts = Some (e, ts')"
  shows "tk_kv ts' = put_state (tk_kv ts) \<lparr>pa_Key = key, pa_Value = val, pa_Version = ver\<rparr>"
    "clerk_err (put_err (tk_kv ts) \<lparr>pa_Key = key, pa_Value = val, pa_Version = ver\<rparr>) e"
proof -
  have "ik_Put MakeClerk key val ver (tk_abs ts) = Some (e, tk_abs ts')"
    using TestKV_Put_same [OF assms(1-4), of key val ver] run by simp
  then have c: "Clerk_Put key val ver (tk_kv ts) (fates_of (n_reliable (e_net (tk_env ts))) (tk_luck ts)) = Some (e, tk_kv ts', snd (tk_abs ts'))"
    by (simp add: MakeClerk_def tk_abs_def)
  obtain used pre post where u: "fates_of (n_reliable (e_net (tk_env ts))) (tk_luck ts) = used @ snd (tk_abs ts')" "others used = pre @ post"
    "tk_kv ts' = run_puts (put_state (run_puts (tk_kv ts) pre) \<lparr>pa_Key = key, pa_Value = val, pa_Version = ver\<rparr>) post"
    "clerk_err (put_err (run_puts (tk_kv ts) pre) \<lparr>pa_Key = key, pa_Value = val, pa_Version = ver\<rparr>) e"
    by (rule clerk_put_lin [OF c _ refl]) (simp_all only: no_others list.size add_0 one_less_numeral_iff, simp)
  have "pre = []" "post = []"
    using no_others [of "n_reliable (e_net (tk_env ts))" "tk_luck ts"] u(2) unfolding u(1) by simp_all
  with u(3,4) show "tk_kv ts' = put_state (tk_kv ts) \<lparr>pa_Key = key, pa_Value = val, pa_Version = ver\<rparr>"
    "clerk_err (put_err (tk_kv ts) \<lparr>pa_Key = key, pa_Value = val, pa_Version = ver\<rparr>) e" by simp_all
qed

text \<open>A log, as the model of the tests sees it: the operations on each key, in the order of the log.\<close>

definition op_pairs :: "Operation list \<Rightarrow> (KvInput \<times> KvOutput) list" where
  "op_pairs = map (\<lambda>oper. (op_Input oper, op_Output oper))"

definition key_ops :: "string \<Rightarrow> Operation list \<Rightarrow> (KvInput \<times> KvOutput) list" where
  "key_ops k log = op_pairs (filter (\<lambda>oper. ki_Key (op_Input oper) = k) log)"

text \<open>No \<open>Put\<close> was answered with \<open>ErrNoKey\<close>, the error that the model does not know.\<close>

definition no_ErrNoKey :: "Operation list \<Rightarrow> bool" where
  "no_ErrNoKey log \<longleftrightarrow> list_all (\<lambda>oper. ki_Op (op_Input oper) = 0 \<or> ko_Err (op_Output oper) \<noteq> ErrNoKey) log"

definition log_ok :: "KVServer \<Rightarrow> Operation list \<Rightarrow> bool" where
  "log_ok kv log \<longleftrightarrow> (\<forall>k. KvModel_run KvModel_Init (key_ops k log) = Some (kv_state kv k))"

lemma log_okD: "log_ok kv log \<Longrightarrow> KvModel_run KvModel_Init (key_ops k log) = Some (kv_state kv k)"
  by (simp add: log_ok_def)

lemma log_ok_step:
  assumes "log_ok kv log"
    and step: "KvModel_Step (kv_state kv (ki_Key (op_Input oper))) (op_Input oper) (op_Output oper) =
      (True, Some (kv_state kv' (ki_Key (op_Input oper))))"
    and same: "\<And>k. k \<noteq> ki_Key (op_Input oper) \<Longrightarrow> kv_state kv' k = kv_state kv k"
  shows "log_ok kv' (log @ [oper])"
  unfolding log_ok_def
proof
  fix k
  show "KvModel_run KvModel_Init (key_ops k (log @ [oper])) = Some (kv_state kv' k)"
    using log_okD [OF assms(1), of k] step same [of k]
    by (cases "ki_Key (op_Input oper) = k") (simp_all add: key_ops_def op_pairs_def KvModel_run_append)
qed

definition run_inv :: "(nat \<Rightarrow> string) \<Rightarrow> kv_codec \<Rightarrow> bool \<Rightarrow> TestKV Test \<Rightarrow> bool" where
  "run_inv rnd cd reliable ts \<longleftrightarrow> tk_inv rnd cd (ts_world ts) \<and> n_reliable (e_net (tk_env (ts_world ts))) = reliable \<and>
     (\<exists>log. ts_oplog ts = Some log \<and> (no_ErrNoKey log \<longrightarrow> log_ok (tk_kv (ts_world ts)) log))"

lemma run_inv_got:
  assumes "inj rnd" and "codec_ok cd" and inv: "run_inv rnd cd reliable ts" and ck: "ck < tk_clerks (ts_world ts)"
    and run: "Test_Get clock (TestKV_clerk rnd cd ck) key me ts = Some (Inr (r, ts'))"
  shows "run_inv rnd cd reliable ts'"
proof -
  have w: "tk_inv rnd cd (ts_world ts)" using inv by (simp add: run_inv_def)
  obtain w' where get: "TestKV_Get rnd cd ck key (ts_world ts) = Some (r, w')" and ts': "ts_world ts' = w'"
    and log: "\<And>log. ts_oplog ts = Some log \<Longrightarrow> \<exists>oper. ts_oplog ts' = Some (log @ [oper]) \<and>
      op_Input oper = get_input key \<and> op_Output oper = get_output r"
    using run by (auto simp: Test_Get_def TestKV_clerk_def Let_def OpLog_Append_def get_input_def get_output_def split: option.splits)
  note eff = TestKV_Get_effect [OF assms(1,2) w ck get] and st = TestKV_Get_same(2) [OF assms(1,2) w ck get]
  have "KvModel_Step (kv_state (tk_kv (ts_world ts)) key) (get_input key) (get_output r) = (True, Some (kv_state (tk_kv (ts_world ts)) key))"
    unfolding eff(2) by (auto simp: KvModel_Step_def get_input_def get_output_def kv_state_def KvModel_Init_def clerk_get_def split: option.splits)
  moreover obtain lg where "ts_oplog ts = Some lg" "no_ErrNoKey lg \<longrightarrow> log_ok (tk_kv (ts_world ts)) lg"
    using inv by (auto simp: run_inv_def)
  moreover from log [OF this(1)] obtain oper where "ts_oplog ts' = Some (lg @ [oper])" "op_Input oper = get_input key" "op_Output oper = get_output r"
    by blast
  moreover have "ki_Key (get_input key) = key" by (simp add: get_input_def)
  ultimately show ?thesis
    using st inv log_ok_step [of "tk_kv (ts_world ts)" lg oper "tk_kv (ts_world ts)"] eff(1) ts'
    by (simp add: run_inv_def tk_step_def no_ErrNoKey_def)
qed

lemma run_inv_wrote:
  assumes "inj rnd" and "codec_ok cd" and inv: "run_inv rnd cd reliable ts" and ck: "ck < tk_clerks (ts_world ts)"
    and run: "Test_Put clock (TestKV_clerk rnd cd ck) key val ver me ts = Some (Inr (e, ts'))"
  shows "run_inv rnd cd reliable ts'"
proof -
  let ?a = "\<lparr>pa_Key = key, pa_Value = val, pa_Version = ver\<rparr>" and ?kv = "tk_kv (ts_world ts)"
  have w: "tk_inv rnd cd (ts_world ts)" using inv by (simp add: run_inv_def)
  obtain w' where put: "TestKV_Put rnd cd ck key val ver (ts_world ts) = Some (e, w')" and ts': "ts_world ts' = w'"
    and log: "\<And>log. ts_oplog ts = Some log \<Longrightarrow> \<exists>oper. ts_oplog ts' = Some (log @ [oper]) \<and>
      op_Input oper = put_input ?a \<and> op_Output oper = put_output e"
    using run by (auto simp: Test_Put_def TestKV_clerk_def Let_def OpLog_Append_def put_input_def put_output_def split: option.splits)
  note eff = TestKV_Put_effect [OF assms(1,2) w ck put]
  have st: "tk_step rnd cd (ts_world ts) w'" using TestKV_Put_same [OF assms(1,2) w ck] put by blast
  obtain lg where lg: "ts_oplog ts = Some lg" "no_ErrNoKey lg \<Longrightarrow> log_ok ?kv lg" using inv by (auto simp: run_inv_def)
  from log [OF this(1)] obtain oper where o: "ts_oplog ts' = Some (lg @ [oper])" "op_Input oper = put_input ?a" "op_Output oper = put_output e"
    by blast
  have "log_ok (tk_kv w') (lg @ [oper])" if ok: "no_ErrNoKey (lg @ [oper])"
  proof (rule log_ok_step)
    show "log_ok ?kv lg" using lg(2) ok by (simp add: no_ErrNoKey_def)
    have "e \<noteq> ErrNoKey" using ok o by (simp add: no_ErrNoKey_def put_input_def put_output_def)
    then have "put_err ?kv ?a \<noteq> ErrNoKey" using eff(2) by (auto simp: clerk_err_def)
    from put_model_step [OF this eff(2)]
    show "KvModel_Step (kv_state ?kv (ki_Key (op_Input oper))) (op_Input oper) (op_Output oper) =
        (True, Some (kv_state (tk_kv w') (ki_Key (op_Input oper))))"
      using o eff(1) by (simp add: put_input_def)
  qed (use o eff(1) kv_state_put [of ?kv ?a] in \<open>simp add: put_input_def\<close>)
  then show ?thesis using st inv ts' o(1) by (simp add: run_inv_def tk_step_def)
qed

lemma tk_run_inv:
  assumes "inj rnd" and "codec_ok cd" and "tk_run rnd cd clock reliable ts"
  shows "run_inv rnd cd reliable ts"
  using assms(3)
proof induction
  case (made now luck w)
  moreover have "log_ok MakeKVServer []"
    by (simp add: log_ok_def key_ops_def op_pairs_def kv_state_def kv_lookup_def MakeKVServer_def)
  ultimately show ?case
    using MakeTestKV_inv [OF assms(1), of cd reliable now luck] by (simp add: run_inv_def MakeTest_def)
next
  case (clerk ts w ck)
  then show ?case using MakeClerk_inv [of rnd cd "ts_world ts" w ck] by (auto simp: run_inv_def)
next
  case (deleted ts ck d w d')
  then show ?case using DeleteClerk_inv [of rnd cd "ts_world ts" ck d w d'] by (auto simp: run_inv_def)
next
  case (got ts ck key me r ts')
  then show ?case using run_inv_got [OF assms(1,2)] by blast
next
  case (wrote ts ck key val ver me e ts')
  then show ?case using run_inv_wrote [OF assms(1,2)] by blast
qed

section \<open>Properties of the stack\<close>

text \<open>A codec to run the stack with: strings are preceded by their length, a version is a number of characters.\<close>

definition enc_string :: "string \<Rightarrow> string" where
  "enc_string s = replicate (length s) CHR 0x01 @ [CHR 0x00] @ s"

definition dec_string :: "string \<Rightarrow> string \<times> string" where
  "dec_string b =
     (let n = length (takeWhile (\<lambda>c. c = CHR 0x01) b); rest = drop (Suc n) b in (take n rest, drop n rest))"

lemma dec_string_enc: "dec_string (enc_string s @ rest) = (s, rest)"
proof -
  have "takeWhile (\<lambda>c. c = CHR 0x01) (replicate n CHR 0x01 @ CHR 0x00 # r) = replicate n CHR 0x01" for n r
    by (induction n) simp_all
  then have "takeWhile (\<lambda>c. c = CHR 0x01) (enc_string s @ rest) = replicate (length s) CHR 0x01"
    by (simp add: enc_string_def)
  then show ?thesis by (simp add: dec_string_def enc_string_def)
qed

definition demo_codec :: kv_codec where
  "demo_codec =
     \<lparr>kc_encG = ga_Key, kc_decG = (\<lambda>b. \<lparr>ga_Key = b\<rparr>),
      kc_encGR = (\<lambda>r. enc_string (gr_Value r) @ enc_string (gr_Err r) @ replicate (unat (gr_Version r)) CHR 0x01),
      kc_decGR = (\<lambda>b _. let (v, b) = dec_string b; (e, b) = dec_string b
                        in \<lparr>gr_Value = v, gr_Version = of_nat (length b), gr_Err = e\<rparr>),
      kc_encP = (\<lambda>a. enc_string (pa_Key a) @ enc_string (pa_Value a) @ replicate (unat (pa_Version a)) CHR 0x01),
      kc_decP = (\<lambda>b. let (k, b) = dec_string b; (v, b) = dec_string b
                     in \<lparr>pa_Key = k, pa_Value = v, pa_Version = of_nat (length b)\<rparr>),
      kc_encPR = pr_Err, kc_decPR = (\<lambda>b _. \<lparr>pr_Err = b\<rparr>)\<rparr>"

lemma demo_codec_ok: "codec_ok demo_codec"
  by (simp add: codec_ok_def demo_codec_def dec_string_enc dec_string_enc [where rest = "[]", simplified])

text \<open>
  C10: the whole stack implements the clerk's model. Take any run of the key/value test: the configuration is made, the server
  is started in it, clerks are made and deleted and call \<open>Get\<close> and \<open>Put\<close>, on a reliable or an unreliable network, with any
  random numbers. A further \<open>Get\<close> or \<open>Put\<close> of a clerk, through its client's end-points, the network and the dispatch of the
  server, returns if and only if the clerk's model returns on the state of the server and the fates that the random numbers
  give the requests; then both return the same, and leave the same server and the same fates. It is assumed that end-point
  names never repeat, and that the codecs give back what was encoded.
\<close>

theorem stack_implements_clerk:
  assumes "inj rnd" and "codec_ok cd" and "tk_run rnd cd clock reliable ts" and "ck < tk_clerks (ts_world ts)"
  shows "map_option (map_prod id tk_abs) (ik_Get (TestKV_clerk rnd cd ck) key (ts_world ts)) = ik_Get MakeClerk key (tk_abs (ts_world ts)) \<and>
    map_option (map_prod id tk_abs) (ik_Put (TestKV_clerk rnd cd ck) key val ver (ts_world ts)) =
      ik_Put MakeClerk key val ver (tk_abs (ts_world ts))"
proof -
  have "tk_inv rnd cd (ts_world ts)" using tk_run_inv [OF assms(1-3)] by (simp add: run_inv_def)
  from TestKV_Get_same(1) [OF assms(1,2) this assms(4)] TestKV_Put_same [OF assms(1,2) this assms(4)]
  show ?thesis by (simp add: TestKV_clerk_def)
qed

text \<open>The first request is lost, the reply to the second is lost, and the third request is answered.\<close>

definition demo_luck :: "chance list" where
  "demo_luck = map (\<lambda>(a, b). \<lparr>ch_drop_request = a, ch_drop_reply = b, ch_reorder = 0, ch_ticks = 1\<rparr>) [(99, 500), (500, 1007), (500, 500), (100, 100)]"

lemma demo_run:
  assumes "tk_run digits demo_codec clock reliable ts" and "TestKV_MakeClerk (ts_world ts) = (w, ck)"
  shows "tk_run digits demo_codec clock reliable (ts\<lparr>ts_world := w\<rparr>)" "ck < tk_clerks w"
proof -
  show "tk_run digits demo_codec clock reliable (ts\<lparr>ts_world := w\<rparr>)" using assms by (rule tk_run.clerk)
  show "ck < tk_clerks w"
    using MakeClerk_inv(4,5) [where rnd = digits and cd = demo_codec, OF _ assms(2)] tk_run_inv [OF inj_digits demo_codec_ok assms(1)] by (simp add: run_inv_def)
qed

text \<open>The state of the demonstration after the first clerk is made.\<close>

lemma demo_start:
  obtains w w' ck where "MakeTestKV digits demo_codec False 0 demo_luck = Inr w" "TestKV_MakeClerk w = (w', ck)"
    "tk_run digits demo_codec clock False ((MakeTest w)\<lparr>ts_world := w'\<rparr>)" "tk_inv digits demo_codec w'" "ck < tk_clerks w'"
    "ik_Put MakeClerk ''k'' ''v'' 0 (tk_abs w') =
      Some (ErrMaybe, put_state MakeKVServer \<lparr>pa_Key = ''k'', pa_Value = ''v'', pa_Version = 0\<rparr>, [([], Delivered)])"
proof -
  obtain w where w: "MakeTestKV digits demo_codec False 0 demo_luck = Inr w" "tk_inv digits demo_codec w" "tk_kv w = MakeKVServer"
    "tk_luck w = demo_luck" "n_reliable (e_net (tk_env w)) = False"
    using MakeTestKV_inv [OF inj_digits] by metis
  obtain w' ck where c: "TestKV_MakeClerk w = (w', ck)" by (cases "TestKV_MakeClerk w")
  have r: "tk_run digits demo_codec clock False (MakeTest w)" using w(1) by (rule tk_run.made)
  have "ts_world (MakeTest w) = w" by (simp add: MakeTest_def)
  note d = demo_run [OF r, unfolded this, OF c]
  have "tk_luck w' = demo_luck" using c w(4) by (auto simp: TestKV_MakeClerk_def split: prod.splits)
  then have "tk_abs w' = (MakeKVServer, [([], LostRequest), ([], LostReply), ([], Delivered), ([], Delivered)])"
    using MakeClerk_inv(2,3) [OF w(2) c] w(3,5) by (simp add: tk_abs_def demo_luck_def fate_of_def)
  then have "ik_Put MakeClerk ''k'' ''v'' 0 (tk_abs w') =
      Some (ErrMaybe, put_state MakeKVServer \<lparr>pa_Key = ''k'', pa_Value = ''v'', pa_Version = 0\<rparr>, [([], Delivered)])"
    by (simp add: MakeClerk_def Clerk_Put_def Clerk_Put_result_def kv_defs)
  then show ?thesis using that w(1) c d MakeClerk_inv(1) [OF w(2) c] by blast
qed

theorem stack_implements_clerk_witness:
  "\<exists>w w' ck. MakeTestKV digits demo_codec False 0 demo_luck = Inr w \<and> TestKV_MakeClerk w = (w', ck) \<and>
     map_option (map_prod id tk_abs) (ik_Put (TestKV_clerk digits demo_codec ck) ''k'' ''v'' 0 w') =
       Some (ErrMaybe, put_state MakeKVServer \<lparr>pa_Key = ''k'', pa_Value = ''v'', pa_Version = 0\<rparr>, [([], Delivered)])"
proof -
  obtain w w' ck where d: "MakeTestKV digits demo_codec False 0 demo_luck = Inr w" "TestKV_MakeClerk w = (w', ck)"
    "tk_run digits demo_codec (\<lambda>_. 0) False ((MakeTest w)\<lparr>ts_world := w'\<rparr>)" "ck < tk_clerks w'"
    "ik_Put MakeClerk ''k'' ''v'' 0 (tk_abs w') =
      Some (ErrMaybe, put_state MakeKVServer \<lparr>pa_Key = ''k'', pa_Value = ''v'', pa_Version = 0\<rparr>, [([], Delivered)])"
    using demo_start [of "\<lambda>_. 0"] by metis
  from stack_implements_clerk [OF inj_digits demo_codec_ok d(3), of ck, where key = "''k''" and val = "''v''" and ver = 0] d
  show ?thesis by auto
qed



end
