(* ===== verification/Labgob.thy ===== *)
theory Labgob
  imports GoPrelude
begin

text \<open>
  The checks that \<^verbatim>\<open>src/labgob/labgob.go\<close> puts around Go's \<open>encoding/gob\<close>: it warns about
  field names that are not capitalised, once for every type, and about decoding into a variable that is not at its default
  value.

  A type of \<open>reflect\<close> is a node of a graph, because types can be recursive; whether the first letter of a name is upper
  case (\<open>unicode.IsUpper\<close>) is a parameter. The recursion of \<open>checkType\<close> is a stack of the calls and
  field visits that are still to be done, so that the order of its effects is the program's. Gob itself is a parameter.
\<close>

section \<open>Types\<close>

datatype 't kind =
    Struct "(string \<times> 't) list"
  | Slice 't
  | Array 't
  | Ptr 't
  | MapOf 't 't
  | OtherKind

text \<open>The global variables \<open>checked\<close> and \<open>errorCount\<close>, and the fields that were complained about, in order.\<close>

record 't gobstate =
  gb_checked :: "'t set"
  gb_errorCount :: int
  gb_complaints :: "('t \<times> string) list"

datatype 't todo =
    CheckType 't
  | CheckField 't string 't

fun checkType_field :: "(string \<Rightarrow> bool) \<Rightarrow> 't \<Rightarrow> string \<Rightarrow> 't gobstate \<Rightarrow> 't gobstate" where
  "checkType_field upper t name st =
     (if upper name = False
      then st\<lparr>gb_errorCount := gb_errorCount st + 1, gb_complaints := gb_complaints st @ [(t, name)]\<rparr>
      else st)"

fun checkType_cases :: "'t \<Rightarrow> 't kind \<Rightarrow> 't todo list" where
  "checkType_cases t (Struct fs) = map (\<lambda>(name, ft). CheckField t name ft) fs"
| "checkType_cases t (Slice elem) = [CheckType elem]"
| "checkType_cases t (Array elem) = [CheckType elem]"
| "checkType_cases t (Ptr elem) = [CheckType elem]"
| "checkType_cases t (MapOf key elem) = [CheckType elem, CheckType key]"
| "checkType_cases t OtherKind = []"

partial_function (option) checkType_run ::
  "(string \<Rightarrow> bool) \<Rightarrow> ('t \<Rightarrow> 't kind) \<Rightarrow> 't todo list \<Rightarrow> 't gobstate \<Rightarrow> 't gobstate option" where
  "checkType_run upper kind stack st =
     (case stack of
        [] \<Rightarrow> Some st
      | CheckField t name ft # rest \<Rightarrow> checkType_run upper kind (CheckType ft # rest) (checkType_field upper t name st)
      | CheckType t # rest \<Rightarrow>
          if t \<in> gb_checked st then checkType_run upper kind rest st
          else checkType_run upper kind (checkType_cases t (kind t) @ rest) (st\<lparr>gb_checked := insert t (gb_checked st)\<rparr>))"

definition checkType :: "(string \<Rightarrow> bool) \<Rightarrow> ('t \<Rightarrow> 't kind) \<Rightarrow> 't \<Rightarrow> 't gobstate \<Rightarrow> 't gobstate option" where
  "checkType upper kind t st = checkType_run upper kind [CheckType t] st"

lemma checkType_run_simps [simp, code]:
  "checkType_run upper kind [] st = Some st"
  "checkType_run upper kind (CheckField t name ft # rest) st =
     checkType_run upper kind (CheckType ft # rest) (checkType_field upper t name st)"
  "checkType_run upper kind (CheckType t # rest) st =
     (if t \<in> gb_checked st then checkType_run upper kind rest st
      else checkType_run upper kind (checkType_cases t (kind t) @ rest) (st\<lparr>gb_checked := insert t (gb_checked st)\<rparr>))"
  by (subst checkType_run.simps, simp)+

section \<open>What a check visits\<close>

fun subtypes :: "'t kind \<Rightarrow> 't list" where
  "subtypes (Struct fs) = map snd fs"
| "subtypes (Slice elem) = [elem]"
| "subtypes (Array elem) = [elem]"
| "subtypes (Ptr elem) = [elem]"
| "subtypes (MapOf key elem) = [key, elem]"
| "subtypes OtherKind = []"

inductive mentions :: "('t \<Rightarrow> 't kind) \<Rightarrow> 't \<Rightarrow> 't \<Rightarrow> bool" for kind where
  self: "mentions kind t t"
| sub: "mentions kind t u \<Longrightarrow> v \<in> set (subtypes (kind u)) \<Longrightarrow> mentions kind t v"

text \<open>The fields of a type that are not capitalised.\<close>

fun bad_fields :: "(string \<Rightarrow> bool) \<Rightarrow> 't kind \<Rightarrow> string list" where
  "bad_fields upper (Struct fs) = filter (\<lambda>name. \<not> upper name) (map fst fs)"
| "bad_fields upper k = []"

text \<open>Between calls, every type that was checked has had its components checked.\<close>

definition gob_closed :: "('t \<Rightarrow> 't kind) \<Rightarrow> 't set \<Rightarrow> bool" where
  "gob_closed kind C \<longleftrightarrow> (\<forall>u\<in>C. set (subtypes (kind u)) \<subseteq> C)"

fun todo_type :: "'t todo \<Rightarrow> 't" where
  "todo_type (CheckType t) = t"
| "todo_type (CheckField s name t) = t"

fun todo_bad :: "(string \<Rightarrow> bool) \<Rightarrow> 't todo \<Rightarrow> bool" where
  "todo_bad upper (CheckType t) = False"
| "todo_bad upper (CheckField s name t) = (\<not> upper name)"

fun weight :: "'t todo list \<Rightarrow> nat" where
  "weight [] = 0"
| "weight (CheckType t # rest) = Suc (weight rest)"
| "weight (CheckField s name t # rest) = Suc (Suc (weight rest))"

lemma todo_type_cases: "todo_type ` set (checkType_cases t k) = set (subtypes k)"
  by (cases k) force+

lemma todo_bad_cases: "length (filter (todo_bad upper) (checkType_cases t k)) = length (bad_fields upper k)"
proof (cases k)
  case (Struct fs)
  have "length (filter (todo_bad upper) (map (\<lambda>(name, ft). CheckField t name ft) fs)) =
      length (filter (\<lambda>name. \<not> upper name) (map fst fs))"
    by (induction fs) auto
  with Struct show ?thesis by simp
qed simp_all

text \<open>What a run of the stack leaves behind: the types it has added to \<open>checked\<close>, and the errors it has counted.\<close>

definition run_post ::
  "(string \<Rightarrow> bool) \<Rightarrow> ('t \<Rightarrow> 't kind) \<Rightarrow> 't set \<Rightarrow> 't todo list \<Rightarrow> 't gobstate \<Rightarrow> 't gobstate \<Rightarrow> bool" where
  "run_post upper kind U stack st st' \<longleftrightarrow>
     (let C = gb_checked st; C' = gb_checked st'
      in C \<subseteq> C' \<and> C' - C \<subseteq> U \<and> todo_type ` set stack \<subseteq> C' \<and>
         (\<forall>u\<in>C' - C. set (subtypes (kind u)) \<subseteq> C' \<and> (\<exists>x\<in>set stack. mentions kind (todo_type x) u)) \<and>
         gb_errorCount st' = gb_errorCount st + (\<Sum>u\<in>C' - C. int (length (bad_fields upper (kind u)))) +
           int (length (filter (todo_bad upper) stack)))"

lemma mentions_step: "v \<in> set (subtypes (kind t)) \<Longrightarrow> mentions kind v u \<Longrightarrow> mentions kind t u"
  by (rotate_tac, induction rule: mentions.induct) (auto intro: mentions.intros)

lemma run_post_visit:
  assumes U: "finite U" and t: "t \<in> U" "t \<notin> gb_checked st"
    and post: "run_post upper kind U (checkType_cases t (kind t) @ rest) (st\<lparr>gb_checked := insert t (gb_checked st)\<rparr>) st'"
  shows "run_post upper kind U (CheckType t # rest) st st'"
proof -
  let ?C = "gb_checked st" and ?C' = "gb_checked st'" and ?b = "\<lambda>u. int (length (bad_fields upper (kind u)))"
  have p: "insert t ?C \<subseteq> ?C'" "?C' - insert t ?C \<subseteq> U" "set (subtypes (kind t)) \<subseteq> ?C'" "todo_type ` set rest \<subseteq> ?C'"
    using post by (simp_all add: run_post_def Let_def image_Un todo_type_cases)
  have q: "set (subtypes (kind u)) \<subseteq> ?C' \<and> (\<exists>x\<in>set (checkType_cases t (kind t) @ rest). mentions kind (todo_type x) u)"
    if "u \<in> ?C' - insert t ?C" for u
    using post that by (simp add: run_post_def Let_def)
  have e: "gb_errorCount st' = gb_errorCount st + (\<Sum>u\<in>?C' - insert t ?C. ?b u) + int (length (bad_fields upper (kind t))) +
      int (length (filter (todo_bad upper) rest))"
    using post by (simp add: run_post_def Let_def todo_bad_cases)
  have i: "?C' - ?C = insert t (?C' - insert t ?C)" using p(1) t(2) by blast
  have s: "(\<Sum>u\<in>?C' - ?C. ?b u) = ?b t + (\<Sum>u\<in>?C' - insert t ?C. ?b u)"
    unfolding i by (rule sum.insert) (use finite_subset [OF p(2) U] in blast)+
  have m: "set (subtypes (kind u)) \<subseteq> ?C' \<and> (\<exists>x\<in>set (CheckType t # rest). mentions kind (todo_type x) u)"
    if u: "u \<in> ?C' - ?C" for u
  proof (cases "u = t")
    case True
    with p(3) show ?thesis by (auto intro: mentions.self)
  next
    case False
    with u q [of u] obtain x where x: "set (subtypes (kind u)) \<subseteq> ?C'" "x \<in> set (checkType_cases t (kind t) @ rest)"
      "mentions kind (todo_type x) u" by auto
    show ?thesis
    proof (cases "x \<in> set rest")
      case True
      with x(1,3) show ?thesis by (meson list.set_intros(2))
    next
      case False
      with x(2) todo_type_cases [of t "kind t"] have "todo_type x \<in> set (subtypes (kind t))" by auto
      then have "mentions kind t u" using x(3) by (rule mentions_step)
      then have "mentions kind (todo_type (CheckType t)) u" by simp
      with x(1) show ?thesis by (meson list.set_intros(1))
    qed
  qed
  show ?thesis unfolding run_post_def Let_def
  proof (intro conjI)
    show "?C \<subseteq> ?C'" "?C' - ?C \<subseteq> U" using p(1,2) t(1) by blast+
    show "todo_type ` set (CheckType t # rest) \<subseteq> ?C'" using p(1,4) by simp
    show "\<forall>u\<in>?C' - ?C. set (subtypes (kind u)) \<subseteq> ?C' \<and> (\<exists>x\<in>set (CheckType t # rest). mentions kind (todo_type x) u)"
      using m by blast
    show "gb_errorCount st' = gb_errorCount st + (\<Sum>u\<in>?C' - ?C. ?b u) + int (length (filter (todo_bad upper) (CheckType t # rest)))"
      using e s by simp
  qed
qed

lemma checkType_run_spec:
  assumes U: "finite U" "\<And>u. u \<in> U \<Longrightarrow> set (subtypes (kind u)) \<subseteq> U"
  shows "todo_type ` set stack \<subseteq> U \<Longrightarrow> \<exists>st'. checkType_run upper kind stack st = Some st' \<and> run_post upper kind U stack st st'"
proof (induction "(card (U - gb_checked st), weight stack)" arbitrary: stack st
    rule: wf_induct_rule [OF wf_lex_prod [OF wf_less wf_less]])
  case (1 stack st)
  show ?case
  proof (cases stack)
    case Nil
    then show ?thesis by (simp add: run_post_def)
  next
    case (Cons x rest)
    show ?thesis
    proof (cases x)
      case (CheckField s name t)
      let ?st = "checkType_field upper s name st"
      have "\<exists>st'. checkType_run upper kind (CheckType t # rest) ?st = Some st' \<and> run_post upper kind U (CheckType t # rest) ?st st'"
        by (rule 1(1)) (use Cons CheckField 1(2) in auto)
      then show ?thesis using Cons CheckField by (auto simp: run_post_def Let_def)
    next
      case (CheckType t)
      show ?thesis
      proof (cases "t \<in> gb_checked st")
        case True
        have "\<exists>st'. checkType_run upper kind rest st = Some st' \<and> run_post upper kind U rest st st'"
          by (rule 1(1)) (use Cons CheckType 1(2) in auto)
        then show ?thesis using Cons CheckType True by (auto simp: run_post_def Let_def)
      next
        case False
        let ?st = "st\<lparr>gb_checked := insert t (gb_checked st)\<rparr>"
        have t: "t \<in> U" using 1(2) Cons CheckType by simp
        have "U - insert t (gb_checked st) \<subset> U - gb_checked st" using t False by auto
        then have "card (U - insert t (gb_checked st)) < card (U - gb_checked st)" using U(1) by (simp add: psubset_card_mono)
        then have "\<exists>st'. checkType_run upper kind (checkType_cases t (kind t) @ rest) ?st = Some st' \<and>
            run_post upper kind U (checkType_cases t (kind t) @ rest) ?st st'"
          by (intro 1(1)) (use Cons CheckType 1(2) U(2) [OF t] todo_type_cases [of t "kind t"] in \<open>auto simp: image_Un\<close>)
        then show ?thesis using Cons CheckType False run_post_visit [OF U(1) t False] by auto
      qed
    qed
  qed
qed

lemma closed_mentions: "gob_closed kind C \<Longrightarrow> t \<in> C \<Longrightarrow> mentions kind t u \<Longrightarrow> u \<in> C"
  by (rotate_tac 2, induction rule: mentions.induct) (auto simp: gob_closed_def)

text \<open>
  C38: \<open>checkType\<close> visits every type once. On types with finitely many components, recursive or not, it returns; it has then checked
  exactly the types that the given one is built from, and has counted every field of those types that is not
  capitalised, once, leaving out the types that earlier calls had checked. The types checked stay closed under
  components, so the same holds for the next call.
\<close>

theorem checkType_visits_once:
  assumes "finite {u. mentions kind t u}" and "gob_closed kind (gb_checked st)"
  shows "\<exists>st'. checkType upper kind t st = Some st' \<and>
    gb_checked st' = gb_checked st \<union> {u. mentions kind t u} \<and> gob_closed kind (gb_checked st') \<and>
    gb_errorCount st' = gb_errorCount st +
      (\<Sum>u\<in>{u. mentions kind t u} - gb_checked st. int (length (bad_fields upper (kind u))))"
proof -
  let ?U = "{u. mentions kind t u}"
  have "set (subtypes (kind u)) \<subseteq> ?U" if "u \<in> ?U" for u using that by (auto intro: mentions.sub)
  from checkType_run_spec [where kind = kind and stack = "[CheckType t]" and st = st and upper = upper, OF assms(1) this] obtain st' where
    r: "checkType upper kind t st = Some st'" and post: "run_post upper kind ?U [CheckType t] st st'"
    by (auto simp: checkType_def mentions.self simp del: checkType_run_simps)
  let ?C = "gb_checked st" and ?C' = "gb_checked st'"
  have p: "?C \<subseteq> ?C'" "?C' - ?C \<subseteq> ?U" "t \<in> ?C'" "\<And>u. u \<in> ?C' - ?C \<Longrightarrow> set (subtypes (kind u)) \<subseteq> ?C'"
    "gb_errorCount st' = gb_errorCount st + (\<Sum>u\<in>?C' - ?C. int (length (bad_fields upper (kind u))))"
    using post by (simp_all add: run_post_def Let_def)
  have c: "gob_closed kind ?C'" unfolding gob_closed_def
  proof
    fix u assume "u \<in> ?C'"
    with p(1,4) assms(2) show "set (subtypes (kind u)) \<subseteq> ?C'" unfolding gob_closed_def by blast
  qed
  have "?C' = ?C \<union> ?U" using p(1-3) closed_mentions [OF c p(3)] by blast
  moreover from this have "?C' - ?C = ?U - ?C" by blast
  ultimately show ?thesis using r c p(5) by simp
qed

text \<open>A recursive type: \<open>type node struct \{ Val int; next *node \}\<close>.\<close>

definition list_kind :: "nat \<Rightarrow> nat kind" where
  "list_kind t = (if t = 0 then Struct [(''Val'', 1), (''next'', 2)] else if t = 2 then Ptr 0 else OtherKind)"

definition ascii_upper :: "string \<Rightarrow> bool" where
  "ascii_upper name = (case name of [] \<Rightarrow> False | c # _ \<Rightarrow> 65 \<le> (of_char c :: nat) \<and> (of_char c :: nat) \<le> 90)"

definition gob_start :: "nat gobstate" where
  "gob_start = \<lparr>gb_checked = {}, gb_errorCount = 0, gb_complaints = []\<rparr>"

lemma list_kind_mentions: "{u. mentions list_kind 0 u} = {0, 1, 2}"
proof
  show "{u. mentions list_kind 0 u} \<subseteq> {0, 1, 2}"
  proof
    fix u assume "u \<in> {u. mentions list_kind 0 u}"
    then have "mentions list_kind 0 u" by simp
    moreover have "mentions list_kind t v \<Longrightarrow> t = 0 \<Longrightarrow> v \<in> {0, 1, 2}" for t v
      by (induction rule: mentions.induct) (auto simp: list_kind_def split: if_splits)
    ultimately show "u \<in> {0, 1, 2}" by blast
  qed
  have "mentions list_kind 0 v" if "v \<in> {1, 2}" for v
    using mentions.sub [of list_kind 0 0 v] mentions.self [of list_kind 0] that by (auto simp: list_kind_def)
  then show "{0, 1, 2} \<subseteq> {u. mentions list_kind 0 u}" by (auto intro: mentions.self)
qed

theorem checkType_visits_once_witness:
  "\<exists>st'. checkType ascii_upper list_kind 0 gob_start = Some st' \<and> gb_checked st' = {0, 1, 2} \<and> gb_errorCount st' = 1"
proof -
  have "finite {u. mentions list_kind 0 u}" "gob_closed list_kind (gb_checked gob_start)"
    by (simp_all add: list_kind_mentions gob_closed_def gob_start_def)
  from checkType_visits_once [OF this, of ascii_upper] show ?thesis
    by (auto simp: list_kind_mentions gob_start_def list_kind_def ascii_upper_def)
qed

section \<open>Values\<close>

text \<open>
  What \<open>checkDefault\<close> sees of a value: the fields of a structure, what a pointer points to, and of a value of a basic
  kind the name of its type and whether it is the zero value. It does not look into slices and maps. Reflection refuses to
  turn a value into an interface when it was reached through a field that is not exported, and panics; \<open>ro\<close> is that
  mark. Embedded fields are not told apart from named ones.
\<close>

datatype gvalue =
    VStruct "(string \<times> gvalue) list"
  | VPtr "gvalue option"
  | VBasic string bool
  | VOther

text \<open>The global error count, and the names in the warnings printed.\<close>

type_synonym warnstate = "int \<times> string list"

definition field_name :: "string \<Rightarrow> string \<Rightarrow> string" where
  "field_name name name1 = (if name \<noteq> '''' then name @ ''.'' @ name1 else name1)"

fun checkDefault1 :: "(string \<Rightarrow> bool) \<Rightarrow> bool \<Rightarrow> gvalue \<Rightarrow> int \<Rightarrow> string \<Rightarrow> warnstate \<Rightarrow> warnstate go"
  and checkDefault1_fields :: "(string \<Rightarrow> bool) \<Rightarrow> bool \<Rightarrow> (string \<times> gvalue) list \<Rightarrow> int \<Rightarrow> string \<Rightarrow> warnstate \<Rightarrow> warnstate go" where
  "checkDefault1 upper ro (VStruct fs) depth name st = (if depth > 3 then Inr st else checkDefault1_fields upper ro fs depth name st)"
| "checkDefault1 upper ro (VPtr None) depth name st = Inr st"
| "checkDefault1 upper ro (VPtr (Some v)) depth name st =
     (if depth > 3 then Inr st else checkDefault1 upper ro v (depth + 1) name st)"
| "checkDefault1 upper ro (VBasic tname isZero) depth name (errorCount, printed) =
     (if depth > 3 then Inr (errorCount, printed)
      else if ro then Inl Panic
      else if isZero = False
      then Inr (errorCount + 1,
                if errorCount < 1 then printed @ [if name = '''' then tname else name] else printed)
      else Inr (errorCount, printed))"
| "checkDefault1 upper ro VOther depth name st = Inr st"
| "checkDefault1_fields upper ro [] depth name st = Inr st"
| "checkDefault1_fields upper ro ((name1, vv) # fs) depth name st =
     go_bind (checkDefault1 upper (ro \<or> \<not> upper name1) vv (depth + 1) (field_name name name1) st)
       (checkDefault1_fields upper ro fs depth name)"

definition checkDefault :: "(string \<Rightarrow> bool) \<Rightarrow> gvalue option \<Rightarrow> warnstate \<Rightarrow> warnstate go" where
  "checkDefault upper value st = (case value of None \<Rightarrow> Inr st | Some v \<Rightarrow> checkDefault1 upper False v 1 '''' st)"

text \<open>
  The basic values that are not at their default, within the depth that is looked at, and whether a basic value within that
  depth is hidden behind a field that is not exported.
\<close>

fun nondefault :: "gvalue \<Rightarrow> int \<Rightarrow> string \<Rightarrow> string list"
  and nondefault_fields :: "(string \<times> gvalue) list \<Rightarrow> int \<Rightarrow> string \<Rightarrow> string list" where
  "nondefault (VStruct fs) d name = (if d > 3 then [] else nondefault_fields fs d name)"
| "nondefault (VPtr p) d name = (if d > 3 then [] else case p of None \<Rightarrow> [] | Some v \<Rightarrow> nondefault v (d + 1) name)"
| "nondefault (VBasic tname isZero) d name = (if d > 3 \<or> isZero then [] else [if name = '''' then tname else name])"
| "nondefault VOther d name = []"
| "nondefault_fields [] d name = []"
| "nondefault_fields ((name1, vv) # fs) d name = nondefault vv (d + 1) (field_name name name1) @ nondefault_fields fs d name"

fun hidden :: "(string \<Rightarrow> bool) \<Rightarrow> bool \<Rightarrow> gvalue \<Rightarrow> int \<Rightarrow> bool"
  and hidden_fields :: "(string \<Rightarrow> bool) \<Rightarrow> bool \<Rightarrow> (string \<times> gvalue) list \<Rightarrow> int \<Rightarrow> bool" where
  "hidden upper ro (VStruct fs) d \<longleftrightarrow> d \<le> 3 \<and> hidden_fields upper ro fs d"
| "hidden upper ro (VPtr p) d \<longleftrightarrow> d \<le> 3 \<and> (case p of None \<Rightarrow> False | Some v \<Rightarrow> hidden upper ro v (d + 1))"
| "hidden upper ro (VBasic tname isZero) d \<longleftrightarrow> d \<le> 3 \<and> ro"
| "hidden upper ro VOther d \<longleftrightarrow> False"
| "hidden_fields upper ro [] d \<longleftrightarrow> False"
| "hidden_fields upper ro ((name1, vv) # fs) d \<longleftrightarrow> hidden upper (ro \<or> \<not> upper name1) vv (d + 1) \<or> hidden_fields upper ro fs d"

lemma checkDefault1_count:
  "0 \<le> fst st \<Longrightarrow> checkDefault1 upper ro v d name st =
     (if hidden upper ro v d then Inl Panic
      else Inr (fst st + int (length (nondefault v d name)), snd st @ (if fst st < 1 then take 1 (nondefault v d name) else [])))"
  "0 \<le> fst st \<Longrightarrow> checkDefault1_fields upper ro fs d name st =
     (if hidden_fields upper ro fs d then Inl Panic
      else Inr (fst st + int (length (nondefault_fields fs d name)),
                snd st @ (if fst st < 1 then take 1 (nondefault_fields fs d name) else [])))"
proof (induction upper ro v d name st and upper ro fs d name st rule: checkDefault1_checkDefault1_fields.induct)
  case (7 upper ro name1 vv fs depth name st)
  let ?xs = "nondefault vv (depth + 1) (field_name name name1)" and ?ys = "nondefault_fields fs depth name"
  show ?case
  proof (cases "hidden upper (ro \<or> \<not> upper name1) vv (depth + 1)")
    case True
    with 7(1) [OF 7(3)] show ?thesis by simp
  next
    case False
    let ?st = "(fst st + int (length ?xs), snd st @ (if fst st < 1 then take 1 ?xs else []))"
    have c: "checkDefault1 upper (ro \<or> \<not> upper name1) vv (depth + 1) (field_name name name1) st = Inr ?st"
      using 7(1) [OF 7(3)] False by simp
    have "fst ?st < 1 \<longleftrightarrow> fst st < 1 \<and> ?xs = []" using 7(3) by (cases ?xs) auto
    then have "snd ?st @ (if fst ?st < 1 then take 1 ?ys else []) = snd st @ (if fst st < 1 then take 1 (?xs @ ?ys) else [])"
      by (cases ?xs) auto
    moreover have "checkDefault1_fields upper ro fs depth name ?st =
        (if hidden_fields upper ro fs depth then Inl Panic
         else Inr (fst ?st + int (length ?ys), snd ?st @ (if fst ?st < 1 then take 1 ?ys else [])))"
      by (rule 7(2)) (use 7(3) in simp)
    ultimately show ?thesis unfolding checkDefault1_fields.simps c go_bind_simps hidden_fields.simps nondefault_fields.simps
      using False by simp
  qed
qed auto

text \<open>
  C39: \<open>checkDefault\<close> panics exactly when a basic value at most three levels down is behind a field that is not capitalised.
  Otherwise it counts exactly the basic values at most three levels down that are not at their default, and of all of
  them, in the program's life, prints a warning for the first one only. So a variable at its default value passes
  in silence, if its fields are capitalised.
\<close>

theorem checkDefault_spec:
  assumes "0 \<le> errorCount"
  shows "checkDefault upper (Some v) (errorCount, printed) =
    (if hidden upper False v 1 then Inl Panic
     else Inr (errorCount + int (length (nondefault v 1 '''')),
               printed @ (if errorCount = 0 then take 1 (nondefault v 1 '''') else [])))"
  using assms checkDefault1_count(1) [of "(errorCount, printed)" upper False v 1 "''''"] by (simp add: checkDefault_def)

theorem checkDefault_spec_witness:
  "checkDefault ascii_upper (Some (VPtr (Some (VStruct [(''Err'', VBasic ''Err'' False), (''Value'', VBasic ''string'' True)])))) (0, []) =
     Inr (1, [''Err'']) \<and>
   checkDefault ascii_upper (Some (VPtr (Some (VStruct [(''err'', VBasic ''Err'' True)])))) (0, []) = Inl Panic"
  using checkDefault_spec [of 0 ascii_upper "VPtr (Some (VStruct [(''Err'', VBasic ''Err'' False), (''Value'', VBasic ''string'' True)]))" "[]"]
    checkDefault_spec [of 0 ascii_upper "VPtr (Some (VStruct [(''err'', VBasic ''Err'' True)]))" "[]"]
  by (simp add: field_name_def ascii_upper_def)

section \<open>The wrappers\<close>

text \<open>
  Encoding and decoding with the checks, and gob's own functions as parameters. \<open>typ\<close> and \<open>val\<close> are what reflection finds of
  an argument; the nil interface has no type, and asking for the kind of its type panics. \<open>iface\<close> is what the method
  \<open>Interface\<close> of a reflected value returns. The error count is shared by the two checks. The outer option is the recursion of
  \<open>checkType\<close>, which \<open>checkType_visits_once\<close> shows to end.
\<close>

definition checkValue :: "(string \<Rightarrow> bool) \<Rightarrow> ('t \<Rightarrow> 't kind) \<Rightarrow> ('a \<Rightarrow> 't option) \<Rightarrow> 'a \<Rightarrow> 't gobstate \<Rightarrow> 't gobstate go option" where
  "checkValue upper kind typ value st =
     (case typ value of None \<Rightarrow> Some (Inl Panic) | Some t \<Rightarrow> map_option Inr (checkType upper kind t st))"

definition LabEncoder_Encode ::
  "(string \<Rightarrow> bool) \<Rightarrow> ('t \<Rightarrow> 't kind) \<Rightarrow> ('a \<Rightarrow> 't option) \<Rightarrow> ('a \<Rightarrow> 'enc \<Rightarrow> 'enc \<times> 'e) \<Rightarrow> 'a \<Rightarrow> 't gobstate \<times> 'enc \<Rightarrow> (('t gobstate \<times> 'enc) \<times> 'e) go option" where
  "LabEncoder_Encode upper kind typ gob_Encode e = (\<lambda>(st, enc).
     map_option (\<lambda>r. go_bind r (\<lambda>st. let (enc, err) = gob_Encode e enc in Inr ((st, enc), err))) (checkValue upper kind typ e st))"

definition LabEncoder_EncodeValue ::
  "(string \<Rightarrow> bool) \<Rightarrow> ('t \<Rightarrow> 't kind) \<Rightarrow> ('a \<Rightarrow> 't option) \<Rightarrow> ('v \<Rightarrow> 'a go) \<Rightarrow> ('v \<Rightarrow> 'enc \<Rightarrow> 'enc \<times> 'e) \<Rightarrow> 'v \<Rightarrow> 't gobstate \<times> 'enc \<Rightarrow> (('t gobstate \<times> 'enc) \<times> 'e) go option" where
  "LabEncoder_EncodeValue upper kind typ iface gob_EncodeValue value = (\<lambda>(st, enc).
     case iface value of
       Inl err \<Rightarrow> Some (Inl err)
     | Inr e \<Rightarrow> map_option (\<lambda>r. go_bind r (\<lambda>st. let (enc, err) = gob_EncodeValue value enc in Inr ((st, enc), err)))
                 (checkValue upper kind typ e st))"

definition LabDecoder_Decode ::
  "(string \<Rightarrow> bool) \<Rightarrow> ('t \<Rightarrow> 't kind) \<Rightarrow> ('a \<Rightarrow> 't option) \<Rightarrow> ('a \<Rightarrow> gvalue option) \<Rightarrow> ('a \<Rightarrow> 'dec \<Rightarrow> 'dec \<times> 'a \<times> 'e) \<Rightarrow>
     'a \<Rightarrow> 't gobstate \<times> string list \<times> 'dec \<Rightarrow> (('t gobstate \<times> string list \<times> 'dec) \<times> 'a \<times> 'e) go option" where
  "LabDecoder_Decode upper kind typ val gob_Decode e = (\<lambda>(st, printed, dec).
     map_option (\<lambda>r. go_bind r (\<lambda>st.
         go_bind (checkDefault upper (val e) (gb_errorCount st, printed)) (\<lambda>(errorCount, printed).
           let (dec, e, err) = gob_Decode e dec
           in Inr ((st\<lparr>gb_errorCount := errorCount\<rparr>, printed, dec), e, err))))
       (checkValue upper kind typ e st))"

definition gob_Register ::
  "(string \<Rightarrow> bool) \<Rightarrow> ('t \<Rightarrow> 't kind) \<Rightarrow> ('a \<Rightarrow> 't option) \<Rightarrow> ('a \<Rightarrow> 'reg \<Rightarrow> 'reg) \<Rightarrow> 'a \<Rightarrow> 't gobstate \<times> 'reg \<Rightarrow> ('t gobstate \<times> 'reg) go option" where
  "gob_Register upper kind typ reg_fun value = (\<lambda>(st, reg).
     map_option (\<lambda>r. go_bind r (\<lambda>st. Inr (st, reg_fun value reg))) (checkValue upper kind typ value st))"

definition gob_RegisterName ::
  "(string \<Rightarrow> bool) \<Rightarrow> ('t \<Rightarrow> 't kind) \<Rightarrow> ('a \<Rightarrow> 't option) \<Rightarrow> (string \<Rightarrow> 'a \<Rightarrow> 'reg \<Rightarrow> 'reg) \<Rightarrow> string \<Rightarrow> 'a \<Rightarrow> 't gobstate \<times> 'reg \<Rightarrow> ('t gobstate \<times> 'reg) go option" where
  "gob_RegisterName upper kind typ reg_fun name value = (\<lambda>(st, reg).
     map_option (\<lambda>r. go_bind r (\<lambda>st. Inr (st, reg_fun name value reg))) (checkValue upper kind typ value st))"

end
