(* ===== verification/RaftHarness.thy ===== *)
theory RaftHarness
  imports Tester
begin

text \<open>
  The Raft peer of \<^verbatim>\<open>src/raft1/raft.go\<close>, of which the repository has an outline whose methods do no work yet, and the
  test server around it, \<^verbatim>\<open>src/raft1/server.go\<close>, which reads the messages a peer applies and checks that all servers
  apply the same commands; with the two functions of \<^verbatim>\<open>src/raft1/test.go\<close> it calls.

  A command is a value of the type \<open>any\<close>: \<open>None\<close> is nil. Test servers are used by reference, and a killed one may still
  be reading its channel when the test has replaced it; so they live in a heap, and the test holds their addresses. The
  encoding of snapshots is a parameter. Commands are compared with \<open>=\<close>: the tests only use integers and strings, on which
  Go's comparison of interface values does not panic.
\<close>

section \<open>The peer\<close>

record 'c ApplyMsg =
  am_CommandValid :: bool
  am_Command :: "'c option"
  am_CommandIndex :: int
  am_SnapshotValid :: bool
  am_Snapshot :: "string option"
  am_SnapshotTerm :: int
  am_SnapshotIndex :: int

record Raft =
  rf_peers :: "string list"
  rf_persister :: nat
  rf_me :: int
  rf_dead :: int

definition Raft_GetState :: "Raft option \<Rightarrow> int \<times> bool" where
  "Raft_GetState rf = (0, False)"

definition Raft_persist :: "Raft \<Rightarrow> Persister list \<Rightarrow> Persister list" where
  "Raft_persist rf pers = pers"

definition readPersist :: "string \<Rightarrow> Raft \<Rightarrow> Raft" where
  "readPersist bytes rf = (if length bytes < 1 then rf else rf)"

definition Raft_Snapshot :: "int \<Rightarrow> string \<Rightarrow> Raft option \<Rightarrow> Raft option" where
  "Raft_Snapshot index snapshot rf = rf"

text \<open>The arguments and the reply of \<open>RequestVote\<close> have no fields.\<close>

definition RequestVote :: "unit \<Rightarrow> unit \<Rightarrow> Raft \<Rightarrow> Raft \<times> unit" where
  "RequestVote args reply rf = (rf, reply)"

definition sendRequestVote ::
  "(unit \<Rightarrow> string) \<Rightarrow> (string \<Rightarrow> unit \<Rightarrow> unit) \<Rightarrow> Raft \<Rightarrow> int \<Rightarrow> unit \<Rightarrow> unit \<Rightarrow> sched \<Rightarrow> 's world \<Rightarrow>
     ('s world \<times> unit \<times> bool) go option" where
  "sendRequestVote encode decode rf server args reply sd w =
     (case slice_get (rf_peers rf) server of
        Inl e \<Rightarrow> Some (Inl e)
      | Inr peer \<Rightarrow> ClientEnd_Call encode decode peer ''Raft.RequestVote'' args reply sd w)"

definition Raft_Start :: "'c option \<Rightarrow> Raft \<Rightarrow> int \<times> int \<times> bool" where
  "Raft_Start command rf = (let index = -1; term = -1; isLeader = True in (index, term, isLeader))"

definition Raft_Kill :: "Raft \<Rightarrow> Raft" where
  "Raft_Kill rf = rf\<lparr>rf_dead := 1\<rparr>"

definition Raft_killed :: "Raft \<Rightarrow> bool" where
  "Raft_killed rf \<longleftrightarrow> rf_dead rf = 1"

text \<open>The ticker, on the states of the peer that it sees in its rounds; \<open>None\<close> says that it is still running.\<close>

fun ticker :: "Raft list \<Rightarrow> unit option" where
  "ticker [] = None"
| "ticker (rf # rfs) = (if Raft_killed rf = False then ticker rfs else Some ())"

definition Make :: "string list \<Rightarrow> int \<Rightarrow> nat \<Rightarrow> Persister list \<Rightarrow> Raft" where
  "Make peers me persister pers =
     readPersist (ReadRaftState (pers ! persister)) \<lparr>rf_peers = peers, rf_persister = persister, rf_me = me, rf_dead = 0\<rparr>"

section \<open>The test server\<close>

definition SnapShotInterval :: int where
  "SnapShotInterval = 10"

text \<open>\<open>rs_applyErr\<close> is not modelled: it is only set after \<open>log.Fatalf\<close>, which does not return.\<close>

record 'c rfsrv =
  rs_me :: nat
  rs_lastApplied :: int
  rs_persister :: nat
  rs_raft :: "Raft option"
  rs_logs :: "int \<Rightarrow> 'c option option"

record 'c raft_test =
  rt_srvs :: "nat option list"
  rt_heap :: "'c rfsrv list"
  rt_maxIndex :: int
  rt_snapshot :: bool

definition makeTest :: "nat \<Rightarrow> bool \<Rightarrow> 'c raft_test" where
  "makeTest n snapshot = \<lparr>rt_srvs = replicate n None, rt_heap = [], rt_maxIndex = 0, rt_snapshot = snapshot\<rparr>"

text \<open>What can be wrong: a different command at this index in a server, or a gap.\<close>

datatype 'c apply_err = Mismatch nat "'c option" | OutOfOrder int | WrongSnapshot

definition rfsrv_Logs :: "'c rfsrv \<Rightarrow> int \<Rightarrow> 'c option \<times> bool" where
  "rfsrv_Logs rs i = (case rs_logs rs i of None \<Rightarrow> (None, False) | Some v \<Rightarrow> (v, True))"

text \<open>\<open>GetState\<close> does not read its receiver, which is nil in a killed server.\<close>

definition rfsrv_GetState :: "'c rfsrv \<Rightarrow> int \<times> bool" where
  "rfsrv_GetState rs = Raft_GetState (rs_raft rs)"

text \<open>The loop of \<open>checkLogs\<close> over the servers; one that has not been made yet is a nil pointer.\<close>

definition checkLogs_srv :: "'c rfsrv list \<Rightarrow> 'c ApplyMsg \<Rightarrow> nat \<times> nat option \<Rightarrow> 'c apply_err option \<Rightarrow> 'c apply_err option go" where
  "checkLogs_srv heap m = (\<lambda>(j, p) err_msg.
     case p of
       None \<Rightarrow> Inl Panic
     | Some a \<Rightarrow>
         (let (old, oldok) = rfsrv_Logs (heap ! a) (am_CommandIndex m)
          in if oldok \<and> old \<noteq> am_Command m then Inr (Some (Mismatch j old)) else Inr err_msg))"

definition checkLogs :: "nat \<Rightarrow> 'c ApplyMsg \<Rightarrow> 'c raft_test \<Rightarrow> ('c raft_test \<times> 'c apply_err option \<times> bool) go" where
  "checkLogs i m ts =
     go_bind (slice_get (rt_srvs ts) (int i)) (\<lambda>me.
     go_bind (go_fold (checkLogs_srv (rt_heap ts) m) (List.enumerate 0 (rt_srvs ts)) None) (\<lambda>err_msg.
       case me of
         None \<Rightarrow> Inl Panic
       | Some a \<Rightarrow>
           (let rs = rt_heap ts ! a;
                prevok = (rs_logs rs (am_CommandIndex m - 1) \<noteq> None);
                rs = rs\<lparr>rs_logs := (rs_logs rs)(am_CommandIndex m \<mapsto> am_Command m)\<rparr>;
                ts = ts\<lparr>rt_heap := (rt_heap ts)[a := rs]\<rparr>;
                ts = (if am_CommandIndex m > rt_maxIndex ts then ts\<lparr>rt_maxIndex := am_CommandIndex m\<rparr> else ts)
            in Inr (ts, err_msg, prevok))))"

text \<open>What both appliers do with the answer of \<open>checkLogs\<close>.\<close>

definition check_order :: "'c ApplyMsg \<Rightarrow> 'c apply_err option \<Rightarrow> bool \<Rightarrow> 'c apply_err option" where
  "check_order m err_msg prevok =
     (if am_CommandIndex m > 1 \<and> prevok = False then Some (OutOfOrder (am_CommandIndex m)) else err_msg)"

text \<open>One round of \<open>applier\<close>, for the test server at an address.\<close>

definition applier :: "nat \<Rightarrow> 'c ApplyMsg \<Rightarrow> 'c raft_test \<Rightarrow> 'c raft_test go" where
  "applier rs m ts =
     (if am_CommandValid m = False then Inr ts
      else go_bind (checkLogs (rs_me (rt_heap ts ! rs)) m ts) (\<lambda>(ts, err_msg, prevok).
        if check_order m err_msg prevok \<noteq> None then Inl Fatal else Inr ts))"

definition ingestSnap ::
  "(string \<Rightarrow> (int \<times> 'c option list) option) \<Rightarrow> string option \<Rightarrow> int \<Rightarrow> 'c rfsrv \<Rightarrow> ('c rfsrv \<times> 'c apply_err option) go" where
  "ingestSnap dec snapshot index rs =
     (case snapshot of
        None \<Rightarrow> Inl Fatal
      | Some bytes \<Rightarrow>
          (case dec bytes of
             None \<Rightarrow> Inl Fatal
           | Some (lastIncludedIndex, xlog) \<Rightarrow>
               if index \<noteq> -1 \<and> index \<noteq> lastIncludedIndex then Inr (rs, Some WrongSnapshot)
               else Inr (rs\<lparr>rs_logs := (\<lambda>j. if 0 \<le> j \<and> j < int (length xlog) then Some (xlog ! nat j) else None),
                            rs_lastApplied := lastIncludedIndex\<rparr>, None)))"

text \<open>The snapshot that is taken of the log: a missing entry is nil.\<close>

definition snapshot_of :: "(int \<Rightarrow> 'c option list \<Rightarrow> string) \<Rightarrow> int \<Rightarrow> (int \<Rightarrow> 'c option option) \<Rightarrow> string" where
  "snapshot_of enc index logs =
     enc index (map (\<lambda>j. case logs (int j) of None \<Rightarrow> None | Some v \<Rightarrow> v) [0..<nat (index + 1)])"

text \<open>
  One round of \<open>applierSnap\<close>; the result also has the call of \<open>Snapshot\<close> that it makes. The index is checked first,
  and the logs are only compared when it is the expected one. The peer is not nil when the applier starts.
\<close>

definition applierSnap_check :: "nat \<Rightarrow> 'c ApplyMsg \<Rightarrow> 'c raft_test \<Rightarrow> ('c raft_test \<times> 'c apply_err option) go" where
  "applierSnap_check rs m ts =
     (if am_CommandIndex m \<noteq> rs_lastApplied (rt_heap ts ! rs) + 1 then Inr (ts, Some (OutOfOrder (am_CommandIndex m)))
      else go_bind (checkLogs (rs_me (rt_heap ts ! rs)) m ts) (\<lambda>(ts, err_msg, prevok).
        Inr (ts, check_order m err_msg prevok)))"

definition applierSnap_take :: "(int \<Rightarrow> 'c option list \<Rightarrow> string) \<Rightarrow> nat \<Rightarrow> 'c ApplyMsg \<Rightarrow> 'c raft_test \<Rightarrow> 'c raft_test \<times> (int \<times> string) option" where
  "applierSnap_take enc rs m ts =
     (let ts = ts\<lparr>rt_heap := (rt_heap ts)[rs := (rt_heap ts ! rs)\<lparr>rs_lastApplied := am_CommandIndex m\<rparr>]\<rparr>
      in if (am_CommandIndex m + 1) mod SnapShotInterval = 0
         then (let bytes = snapshot_of enc (am_CommandIndex m) (rs_logs (rt_heap ts ! rs));
                   rf = Raft_Snapshot (am_CommandIndex m) bytes (rs_raft (rt_heap ts ! rs));
                   ts = ts\<lparr>rt_heap := (rt_heap ts)[rs := (rt_heap ts ! rs)\<lparr>rs_raft := rf\<rparr>]\<rparr>
               in (ts, Some (am_CommandIndex m, bytes)))
         else (ts, None))"

definition applierSnap_command ::
  "(int \<Rightarrow> 'c option list \<Rightarrow> string) \<Rightarrow> nat \<Rightarrow> 'c ApplyMsg \<Rightarrow> 'c raft_test \<Rightarrow>
     ('c raft_test \<times> (int \<times> string) option \<times> 'c apply_err option) go" where
  "applierSnap_command enc rs m ts =
     go_bind (applierSnap_check rs m ts) (\<lambda>(ts, err_msg).
     let (ts, snap) = applierSnap_take enc rs m ts in Inr (ts, snap, err_msg))"

definition applierSnap ::
  "(int \<Rightarrow> 'c option list \<Rightarrow> string) \<Rightarrow> (string \<Rightarrow> (int \<times> 'c option list) option) \<Rightarrow> nat \<Rightarrow> 'c ApplyMsg \<Rightarrow> 'c raft_test \<Rightarrow>
     ('c raft_test \<times> (int \<times> string) option) go" where
  "applierSnap enc dec rs m ts =
     go_bind (if am_SnapshotValid m
              then go_bind (ingestSnap dec (am_Snapshot m) (am_SnapshotIndex m) (rt_heap ts ! rs)) (\<lambda>(s, err_msg).
                     Inr (ts\<lparr>rt_heap := (rt_heap ts)[rs := s]\<rparr>, None, err_msg))
              else if am_CommandValid m then applierSnap_command enc rs m ts
              else Inr (ts, None, None)) (\<lambda>(ts, snap, err_msg).
     if err_msg \<noteq> None then Inl Fatal else Inr (ts, snap))"

section \<open>Making and killing test servers\<close>

definition newRfsrv ::
  "(string \<Rightarrow> (int \<times> 'c option list) option) \<Rightarrow> bool \<Rightarrow> nat \<Rightarrow> string list \<Rightarrow> nat \<Rightarrow> Persister list \<Rightarrow> 'c rfsrv go" where
  "newRfsrv dec snapshot srv ends persister pers =
     (let s = \<lparr>rs_me = srv, rs_lastApplied = 0, rs_persister = persister, rs_raft = Some (Make ends (int srv) persister pers),
               rs_logs = Map.empty\<rparr>
      in if snapshot
         then (let bytes = ReadSnapshot (pers ! persister)
               in if length bytes > 0
                  then go_bind (ingestSnap dec (Some bytes) (-1) s) (\<lambda>(s, err). if err \<noteq> None then Inl Fatal else Inr s)
                  else Inr s)
         else Inr s)"

definition mksrv ::
  "(string \<Rightarrow> (int \<times> 'c option list) option) \<Rightarrow> string list \<Rightarrow> nat \<Rightarrow> nat \<Rightarrow> Persister list \<Rightarrow> 'c raft_test \<Rightarrow> 'c raft_test go" where
  "mksrv dec ends srv persister pers ts =
     go_bind (newRfsrv dec (rt_snapshot ts) srv ends persister pers) (\<lambda>s.
     go_bind (slice_set (rt_srvs ts) (int srv) (Some (length (rt_heap ts)))) (\<lambda>srvs.
     Inr (ts\<lparr>rt_srvs := srvs, rt_heap := rt_heap ts @ [s]\<rparr>)))"

definition rfsrv_Kill :: "'c rfsrv \<Rightarrow> Persister list \<Rightarrow> 'c rfsrv \<times> Persister list" where
  "rfsrv_Kill rs pers =
     (let ps = pers ! rs_persister rs;
          raftlog = ReadRaftState ps;
          snapshot = ReadSnapshot ps
      in (rs\<lparr>rs_raft := None\<rparr>, pers[rs_persister rs := Save ps raftlog snapshot]))"

text \<open>Saving what was read changes nothing.\<close>

lemma rfsrv_Kill_keeps: "snd (rfsrv_Kill rs pers) = pers"
  by (simp add: rfsrv_Kill_def Let_def Save_def ReadRaftState_def ReadSnapshot_def clone_def)

text \<open>\<open>nCommitted\<close>: how many servers have an entry at an index, and which command.\<close>

definition nCommitted_srv :: "'c rfsrv list \<Rightarrow> int \<Rightarrow> nat option \<Rightarrow> int \<times> 'c option \<Rightarrow> (int \<times> 'c option) go" where
  "nCommitted_srv heap index p = (\<lambda>(cnt, cmd).
     case p of
       None \<Rightarrow> Inl Panic
     | Some a \<Rightarrow>
         (let (cmd1, ok) = rfsrv_Logs (heap ! a) index
          in if ok then (if cnt > 0 \<and> cmd \<noteq> cmd1 then Inl Fatal else Inr (cnt + 1, cmd1)) else Inr (cnt, cmd)))"

definition nCommitted :: "int \<Rightarrow> 'c raft_test \<Rightarrow> (int \<times> 'c option) go" where
  "nCommitted index ts = go_fold (nCommitted_srv (rt_heap ts) index) (rt_srvs ts) (0, None)"

end
