(* ===== verification/RaftAgreement.thy ===== *)
theory RaftAgreement
  imports RaftHarness
begin

text \<open>
  What the checks of the Raft test server mean. In a run that they do not stop, all current test servers hold the same
  command at every index, whatever the peers send, as long as no snapshot is loaded. And they stop no correct Raft: a run
  in which every server applies the entries of one growing log in order, restarts and loads snapshots that were
  taken of it, is never reported.
\<close>

section \<open>What a round does\<close>

definition record_entry :: "nat \<Rightarrow> 'c ApplyMsg \<Rightarrow> 'c raft_test \<Rightarrow> 'c raft_test" where
  "record_entry a m ts = ts\<lparr>
     rt_heap := (rt_heap ts)[a := (rt_heap ts ! a)\<lparr>rs_logs := (rs_logs (rt_heap ts ! a))(am_CommandIndex m \<mapsto> am_Command m)\<rparr>],
     rt_maxIndex := max (am_CommandIndex m) (rt_maxIndex ts)\<rparr>"

lemma record_entry_simps [simp]:
  "rt_srvs (record_entry a m ts) = rt_srvs ts"
  "rt_snapshot (record_entry a m ts) = rt_snapshot ts"
  "length (rt_heap (record_entry a m ts)) = length (rt_heap ts)"
  by (simp_all add: record_entry_def)

lemma record_entry_nth:
  assumes "b < length (rt_heap ts)"
  shows "rt_heap (record_entry a m ts) ! b =
    (if b = a then (rt_heap ts ! a)\<lparr>rs_logs := (rs_logs (rt_heap ts ! a))(am_CommandIndex m \<mapsto> am_Command m)\<rparr> else rt_heap ts ! b)"
  using assms by (simp add: record_entry_def)

text \<open>A server that has no other command at the index of a message.\<close>

definition no_conflict :: "'c rfsrv list \<Rightarrow> 'c ApplyMsg \<Rightarrow> nat option \<Rightarrow> bool" where
  "no_conflict heap m p \<longleftrightarrow> (\<exists>a. p = Some a \<and> rs_logs (heap ! a) (am_CommandIndex m) \<in> {None, Some (am_Command m)})"

lemma checkLogs_srv_None:
  "checkLogs_srv heap m (j, p) e = Inr None \<longleftrightarrow> e = None \<and> no_conflict heap m p"
  by (cases p) (auto simp: checkLogs_srv_def no_conflict_def rfsrv_Logs_def split: option.splits)

lemma checkLogs_fold:
  "go_fold (checkLogs_srv heap m) (List.enumerate n ps) e = Inr None \<longleftrightarrow> e = None \<and> (\<forall>p \<in> set ps. no_conflict heap m p)"
proof (induction ps arbitrary: n e)
  case (Cons p ps)
  show ?case
  proof (cases "checkLogs_srv heap m (n, p) e")
    case (Inl x)
    then show ?thesis using checkLogs_srv_None [of heap m n p e] by auto
  next
    case (Inr e')
    then show ?thesis using checkLogs_srv_None [of heap m n p e] Cons.IH [of "Suc n" e'] by auto
  qed
qed simp

lemma checkLogs_ok:
  "checkLogs i m ts = Inr (ts', None, prevok) \<longleftrightarrow>
     i < length (rt_srvs ts) \<and> (\<forall>p \<in> set (rt_srvs ts). no_conflict (rt_heap ts) m p) \<and>
     (\<exists>a. rt_srvs ts ! i = Some a \<and> ts' = record_entry a m ts \<and>
          (prevok \<longleftrightarrow> rs_logs (rt_heap ts ! a) (am_CommandIndex m - 1) \<noteq> None))"
  (is "?l \<longleftrightarrow> ?r")
proof
  assume ?l
  then show ?r
    by (auto simp: checkLogs_def go_bind_Inr_iff Let_def checkLogs_fold record_entry_def max_def split: option.splits if_splits)
next
  assume r: ?r
  then have "go_fold (checkLogs_srv (rt_heap ts) m) (List.enumerate 0 (rt_srvs ts)) None = Inr None"
    by (simp add: checkLogs_fold)
  with r show ?l
    by (auto simp: checkLogs_def Let_def record_entry_def max_def)
qed

lemma check_order_None: "check_order m e prevok = None \<longleftrightarrow> e = None \<and> (am_CommandIndex m > 1 \<longrightarrow> prevok)"
  by (auto simp: check_order_def)

lemma applier_ok:
  assumes "am_CommandValid m"
  shows "applier rs m ts = Inr ts' \<longleftrightarrow>
    (\<exists>prevok. checkLogs (rs_me (rt_heap ts ! rs)) m ts = Inr (ts', None, prevok) \<and> (am_CommandIndex m > 1 \<longrightarrow> prevok))"
  using assms by (auto simp: applier_def go_bind_Inr_iff check_order_None split: if_splits)

definition set_applied :: "nat \<Rightarrow> int \<Rightarrow> 'c raft_test \<Rightarrow> 'c raft_test" where
  "set_applied rs k ts = ts\<lparr>rt_heap := (rt_heap ts)[rs := (rt_heap ts ! rs)\<lparr>rs_lastApplied := k\<rparr>]\<rparr>"

lemma set_applied_simps [simp]:
  "rt_srvs (set_applied rs k ts) = rt_srvs ts"
  "rt_snapshot (set_applied rs k ts) = rt_snapshot ts"
  "length (rt_heap (set_applied rs k ts)) = length (rt_heap ts)"
  by (simp_all add: set_applied_def)

lemma set_applied_nth:
  assumes "b < length (rt_heap ts)"
  shows "rt_heap (set_applied rs k ts) ! b = (if b = rs then (rt_heap ts ! b)\<lparr>rs_lastApplied := k\<rparr> else rt_heap ts ! b)"
  using assms by (simp add: set_applied_def)

definition snapshot_due :: "(int \<Rightarrow> 'c option list \<Rightarrow> string) \<Rightarrow> int \<Rightarrow> (int \<Rightarrow> 'c option option) \<Rightarrow> (int \<times> string) option" where
  "snapshot_due enc k logs = (if (k + 1) mod SnapShotInterval = 0 then Some (k, snapshot_of enc k logs) else None)"

lemma applierSnap_take_eq:
  assumes "rs < length (rt_heap ts)"
  shows "applierSnap_take enc rs m ts =
    (set_applied rs (am_CommandIndex m) ts, snapshot_due enc (am_CommandIndex m) (rs_logs (rt_heap ts ! rs)))"
  using assms by (simp add: applierSnap_take_def set_applied_def snapshot_due_def Raft_Snapshot_def Let_def)

lemma applierSnap_command_ok:
  assumes "rs < length (rt_heap ts)"
  shows "applierSnap_command enc rs m ts = Inr (ts', sn, None) \<longleftrightarrow>
    am_CommandIndex m = rs_lastApplied (rt_heap ts ! rs) + 1 \<and>
    (\<exists>ts1 prevok. checkLogs (rs_me (rt_heap ts ! rs)) m ts = Inr (ts1, None, prevok) \<and> (am_CommandIndex m > 1 \<longrightarrow> prevok) \<and>
       ts' = set_applied rs (am_CommandIndex m) ts1 \<and> sn = snapshot_due enc (am_CommandIndex m) (rs_logs (rt_heap ts1 ! rs)))"
proof -
  have len: "length (rt_heap ts1) = length (rt_heap ts)" if "checkLogs i m ts = Inr (ts1, e, p)" for i ts1 e p
    using that by (auto simp: checkLogs_def go_bind_Inr_iff Let_def split: option.splits)
  have chk: "applierSnap_check rs m ts = Inr (ts1, None) \<longleftrightarrow> am_CommandIndex m = rs_lastApplied (rt_heap ts ! rs) + 1 \<and>
      (\<exists>prevok. checkLogs (rs_me (rt_heap ts ! rs)) m ts = Inr (ts1, None, prevok) \<and> (am_CommandIndex m > 1 \<longrightarrow> prevok))" for ts1
    by (auto simp: applierSnap_check_def go_bind_Inr_iff check_order_None split: if_splits)
  have "applierSnap_command enc rs m ts = Inr (ts', sn, None) \<longleftrightarrow>
      (\<exists>ts1. applierSnap_check rs m ts = Inr (ts1, None) \<and> applierSnap_take enc rs m ts1 = (ts', sn))"
    by (auto simp: applierSnap_command_def go_bind_Inr_iff case_prod_beta prod_eq_iff)
  also have "\<dots> \<longleftrightarrow> (\<exists>ts1. applierSnap_check rs m ts = Inr (ts1, None) \<and>
      ts' = set_applied rs (am_CommandIndex m) ts1 \<and> sn = snapshot_due enc (am_CommandIndex m) (rs_logs (rt_heap ts1 ! rs)))"
    unfolding chk using assms len by (metis applierSnap_take_eq prod.inject)
  finally show ?thesis
    unfolding chk by blast
qed

lemma applierSnap_ok:
  assumes "\<not> am_SnapshotValid m" and "am_CommandValid m"
  shows "applierSnap enc dec rs m ts = Inr (ts', sn) \<longleftrightarrow> applierSnap_command enc rs m ts = Inr (ts', sn, None)"
  using assms by (auto simp: applierSnap_def go_bind_Inr_iff split: if_splits)

section \<open>Soundness: servers that pass agree\<close>

text \<open>
  The runs of a test, for arbitrary peers: servers are made (with no snapshot to load), messages arrive at any test server,
  also at one that has been replaced, and servers are killed.
\<close>

inductive harness_reach :: "(int \<Rightarrow> 'c option list \<Rightarrow> string) \<Rightarrow> (string \<Rightarrow> (int \<times> 'c option list) option) \<Rightarrow> 'c raft_test \<Rightarrow> bool"
  for enc dec where
  hr_start: "harness_reach enc dec (makeTest n snapshot)"
| hr_mksrv: "harness_reach enc dec ts \<Longrightarrow> ReadSnapshot (pers ! persister) = [] \<Longrightarrow>
    mksrv dec ends srv persister pers ts = Inr ts' \<Longrightarrow> harness_reach enc dec ts'"
| hr_kill: "harness_reach enc dec ts \<Longrightarrow>
    harness_reach enc dec (ts\<lparr>rt_heap := (rt_heap ts)[a := fst (rfsrv_Kill (rt_heap ts ! a) pers)]\<rparr>)"
| hr_applier: "harness_reach enc dec ts \<Longrightarrow> a < length (rt_heap ts) \<Longrightarrow> applier a m ts = Inr ts' \<Longrightarrow> harness_reach enc dec ts'"
| hr_applierSnap: "harness_reach enc dec ts \<Longrightarrow> a < length (rt_heap ts) \<Longrightarrow> \<not> am_SnapshotValid m \<Longrightarrow>
    applierSnap enc dec a m ts = Inr (ts', sn) \<Longrightarrow> harness_reach enc dec ts'"

definition servers_agree :: "'c raft_test \<Rightarrow> bool" where
  "servers_agree ts \<longleftrightarrow>
     (\<forall>a. Some a \<in> set (rt_srvs ts) \<longrightarrow> a < length (rt_heap ts)) \<and>
     (\<forall>a b k v w. Some a \<in> set (rt_srvs ts) \<longrightarrow> Some b \<in> set (rt_srvs ts) \<longrightarrow>
        rs_logs (rt_heap ts ! a) k = Some v \<longrightarrow> rs_logs (rt_heap ts ! b) k = Some w \<longrightarrow> v = w)"

text \<open>Agreement only depends on the logs.\<close>

lemma servers_agree_cong:
  assumes "servers_agree ts" and "rt_srvs ts' = rt_srvs ts" and "length (rt_heap ts') = length (rt_heap ts)"
    and "\<And>b. b < length (rt_heap ts) \<Longrightarrow> rs_logs (rt_heap ts' ! b) = rs_logs (rt_heap ts ! b)"
  shows "servers_agree ts'"
  using assms unfolding servers_agree_def by metis

lemma servers_agree_record:
  assumes "servers_agree ts" and "\<forall>p \<in> set (rt_srvs ts). no_conflict (rt_heap ts) m p"
  shows "servers_agree (record_entry a m ts)"
proof -
  have new: "v = am_Command m" if "Some b \<in> set (rt_srvs ts)" "rs_logs (rt_heap ts ! b) (am_CommandIndex m) = Some v" for b v
    using assms(2) that by (fastforce simp: no_conflict_def)
  show ?thesis
    using assms(1) new
    by (auto simp: servers_agree_def record_entry_nth)
qed

lemma servers_agree_checkLogs:
  assumes "servers_agree ts" and "checkLogs i m ts = Inr (ts', None, prevok)"
  shows "servers_agree ts'"
  using assms by (auto simp: checkLogs_ok intro: servers_agree_record)

lemma servers_agree_mksrv:
  assumes "servers_agree ts" and "mksrv dec ends srv persister pers ts = Inr ts'" and "ReadSnapshot (pers ! persister) = []"
  shows "servers_agree ts'"
proof -
  obtain s where ts': "ts' = ts\<lparr>rt_srvs := (rt_srvs ts)[srv := Some (length (rt_heap ts))], rt_heap := rt_heap ts @ [s]\<rparr>"
    and s: "rs_logs s = Map.empty"
    using assms(2,3)
    by (auto simp: mksrv_def newRfsrv_def Let_def go_bind_Inr_iff slice_set_def split: if_splits)
  have old: "Some a \<in> set (rt_srvs ts') \<Longrightarrow> a = length (rt_heap ts) \<or> Some a \<in> set (rt_srvs ts)" for a
    using ts' set_update_subset_insert [of "rt_srvs ts" srv "Some (length (rt_heap ts))"] by auto
  have nth: "rs_logs (rt_heap ts' ! a) = (if a = length (rt_heap ts) then Map.empty else rs_logs (rt_heap ts ! a))"
    if "Some a \<in> set (rt_srvs ts')" for a
    using old [OF that] assms(1) by (auto simp: ts' s servers_agree_def nth_append)
  show ?thesis
    unfolding servers_agree_def
  proof (intro conjI allI impI)
    show "a < length (rt_heap ts')" if "Some a \<in> set (rt_srvs ts')" for a
      using old [OF that] assms(1) by (auto simp: ts' servers_agree_def less_Suc_eq)
    show "v = w" if "Some a \<in> set (rt_srvs ts')" "Some b \<in> set (rt_srvs ts')"
      "rs_logs (rt_heap ts' ! a) k = Some v" "rs_logs (rt_heap ts' ! b) k = Some w" for a b k v w
      using old [OF that(1)] old [OF that(2)] nth [OF that(1)] nth [OF that(2)] that(3,4) assms(1)
      by (auto simp: servers_agree_def split: if_splits)
  qed
qed

lemma harness_reach_agree:
  assumes "harness_reach enc dec ts"
  shows "servers_agree ts"
  using assms
proof induction
  case (hr_start n snapshot)
  then show ?case by (simp add: servers_agree_def makeTest_def)
next
  case (hr_mksrv ts pers persister ends srv ts')
  then show ?case by (blast intro: servers_agree_mksrv)
next
  case (hr_kill ts a pers)
  show ?case
    by (rule servers_agree_cong [OF hr_kill.IH]) (cases "a < length (rt_heap ts)"; auto simp: rfsrv_Kill_def Let_def nth_list_update)+
next
  case (hr_applier ts a m ts')
  show ?case
  proof (cases "am_CommandValid m")
    case True
    with hr_applier show ?thesis by (auto simp: applier_ok intro: servers_agree_checkLogs)
  qed (use hr_applier in \<open>simp add: applier_def\<close>)
next
  case (hr_applierSnap ts a m ts' sn)
  show ?case
  proof (cases "am_CommandValid m")
    case True
    then obtain ts1 prevok where "checkLogs (rs_me (rt_heap ts ! a)) m ts = Inr (ts1, None, prevok)"
      and ts': "ts' = set_applied a (am_CommandIndex m) ts1"
      using hr_applierSnap by (auto simp: applierSnap_ok applierSnap_command_ok)
    then have "servers_agree ts1"
      using hr_applierSnap.IH by (blast intro: servers_agree_checkLogs)
    then show ?thesis
      by (rule servers_agree_cong) (auto simp: ts' set_applied_nth)
  qed (use hr_applierSnap in \<open>simp add: applierSnap_def\<close>)
qed

lemma nCommitted_fold:
  assumes "None \<notin> set ps" and "0 \<le> c"
    and "\<forall>a b v w. Some a \<in> set ps \<longrightarrow> Some b \<in> set ps \<longrightarrow> rs_logs (heap ! a) k = Some v \<longrightarrow> rs_logs (heap ! b) k = Some w \<longrightarrow> v = w"
    and "0 < c \<longrightarrow> (\<forall>a. Some a \<in> set ps \<longrightarrow> rs_logs (heap ! a) k \<in> {None, Some cmd})"
  shows "\<exists>cmd'. go_fold (nCommitted_srv heap k) ps (c, cmd) =
      Inr (c + int (length (filter (\<lambda>p. rs_logs (heap ! the p) k \<noteq> None) ps)), cmd') \<and>
    (0 < c \<longrightarrow> cmd' = cmd) \<and> (\<forall>a. Some a \<in> set ps \<longrightarrow> rs_logs (heap ! a) k \<in> {None, Some cmd'})"
  using assms
proof (induction ps arbitrary: c cmd)
  case (Cons p ps)
  from Cons.prems(1) obtain a where p: "p = Some a"
    by (cases p) auto
  show ?case
  proof (cases "rs_logs (heap ! a) k")
    case None
    then have "nCommitted_srv heap k p (c, cmd) = Inr (c, cmd)"
      by (simp add: p nCommitted_srv_def rfsrv_Logs_def)
    moreover have "\<exists>cmd'. go_fold (nCommitted_srv heap k) ps (c, cmd) =
      Inr (c + int (length (filter (\<lambda>p. rs_logs (heap ! the p) k \<noteq> None) ps)), cmd') \<and>
      (0 < c \<longrightarrow> cmd' = cmd) \<and> (\<forall>a. Some a \<in> set ps \<longrightarrow> rs_logs (heap ! a) k \<in> {None, Some cmd'})"
      by (rule Cons.IH) (use Cons.prems in \<open>unfold list.set, blast+\<close>)
    ultimately show ?thesis
      using None by (auto simp: p)
  next
    case (Some v)
    have same: "\<forall>b. Some b \<in> set ps \<longrightarrow> rs_logs (heap ! b) k \<in> {None, Some v}"
    proof (intro allI impI)
      fix b assume "Some b \<in> set ps"
      then have "rs_logs (heap ! b) k = Some w \<Longrightarrow> v = w" for w
        using Cons.prems(3) [rule_format, of a b v w] Some p by simp
      then show "rs_logs (heap ! b) k \<in> {None, Some v}"
        by (cases "rs_logs (heap ! b) k") auto
    qed
    have cmd: "0 < c \<Longrightarrow> cmd = v"
      using Cons.prems(4) Some p by auto
    have "\<exists>cmd'. go_fold (nCommitted_srv heap k) ps (c + 1, v) =
      Inr (c + 1 + int (length (filter (\<lambda>p. rs_logs (heap ! the p) k \<noteq> None) ps)), cmd') \<and>
      (0 < c + 1 \<longrightarrow> cmd' = v) \<and> (\<forall>a. Some a \<in> set ps \<longrightarrow> rs_logs (heap ! a) k \<in> {None, Some cmd'})"
    proof (rule Cons.IH)
      show "\<forall>a b v w. Some a \<in> set ps \<longrightarrow> Some b \<in> set ps \<longrightarrow> rs_logs (heap ! a) k = Some v \<longrightarrow> rs_logs (heap ! b) k = Some w \<longrightarrow> v = w"
        using Cons.prems(3) unfolding list.set by blast
    qed (use Cons.prems(1,2) same in simp_all)
    moreover have "nCommitted_srv heap k p (c, cmd) = Inr (c + 1, v)"
      using Some cmd by (simp add: p nCommitted_srv_def rfsrv_Logs_def)
    ultimately show ?thesis
      using Some cmd Cons.prems(2) by (auto simp: p)
  qed
qed simp

text \<open>
  C23: In a test run that the checks do not stop, with any peers whatsoever, servers made and killed at any time and
  messages that may also reach replaced test servers, but no snapshots to load, all servers that have an entry at an index
  have the same command there; and \<open>nCommitted\<close> reports that command and the number of those servers, without
  ending the test.
\<close>

theorem harness_servers_agree:
  assumes "harness_reach enc dec ts" and "None \<notin> set (rt_srvs ts)"
  shows "\<exists>cmd. nCommitted k ts = Inr (int (length (filter (\<lambda>p. rs_logs (rt_heap ts ! the p) k \<noteq> None) (rt_srvs ts))), cmd) \<and>
    (\<forall>a. Some a \<in> set (rt_srvs ts) \<longrightarrow> rs_logs (rt_heap ts ! a) k \<in> {None, Some cmd})"
proof -
  have "\<forall>a b v w. Some a \<in> set (rt_srvs ts) \<longrightarrow> Some b \<in> set (rt_srvs ts) \<longrightarrow> rs_logs (rt_heap ts ! a) k = Some v \<longrightarrow>
      rs_logs (rt_heap ts ! b) k = Some w \<longrightarrow> v = w"
    using harness_reach_agree [OF assms(1)] unfolding servers_agree_def by blast
  from nCommitted_fold [OF assms(2) _ this, of 0 None] show ?thesis
    unfolding nCommitted_def by simp
qed

definition command_msg :: "'c option \<Rightarrow> int \<Rightarrow> 'c ApplyMsg" where
  "command_msg c k = \<lparr>am_CommandValid = True, am_Command = c, am_CommandIndex = k, am_SnapshotValid = False,
     am_Snapshot = None, am_SnapshotTerm = 0, am_SnapshotIndex = 0\<rparr>"

definition two_servers :: "string raft_test" where
  "two_servers = \<lparr>rt_srvs = [Some 0, Some 1],
     rt_heap = [\<lparr>rs_me = 0, rs_lastApplied = 0, rs_persister = 0, rs_raft = Some (Make [] 0 0 [MakePersister]), rs_logs = Map.empty\<rparr>,
                \<lparr>rs_me = 1, rs_lastApplied = 0, rs_persister = 0, rs_raft = Some (Make [] 1 0 [MakePersister]), rs_logs = Map.empty\<rparr>],
     rt_maxIndex = 0, rt_snapshot = False\<rparr>"

lemmas harness_run =
  mksrv_def newRfsrv_def slice_set_def makeTest_def two_servers_def applier_def checkLogs_def checkLogs_srv_def rfsrv_Logs_def
  check_order_def command_msg_def Let_def record_entry_def slice_get_def

lemma two_servers_reach: "harness_reach enc dec two_servers"
proof -
  have "ReadSnapshot ([MakePersister] ! 0) = []"
    by (simp add: ReadSnapshot_def MakePersister_def clone_def)
  note mk = hr_mksrv [OF _ this]
  have "mksrv dec [] 0 0 [MakePersister] (makeTest 2 False) =
      Inr \<lparr>rt_srvs = [Some 0, None], rt_heap = [rt_heap two_servers ! 0], rt_maxIndex = 0, rt_snapshot = False\<rparr>" (is "_ = Inr ?t")
    by (simp add: harness_run numeral_2_eq_2)
  moreover have "mksrv dec [] 1 0 [MakePersister] ?t = Inr two_servers"
    by (simp add: harness_run)
  ultimately show ?thesis
    by (blast intro: mk hr_start)
qed

theorem harness_servers_agree_witness:
  "\<exists>cmd. nCommitted 1 (record_entry 1 (command_msg (Some ''x'') 1) two_servers) = Inr (1, cmd) \<and> cmd = Some ''x''"
proof -
  let ?ts = "record_entry 1 (command_msg (Some ''x'') 1) two_servers"
  have "applier 1 (command_msg (Some ''x'') 1) two_servers = Inr ?ts"
    by (simp add: harness_run)
  then have reach: "harness_reach (\<lambda>_ _. []) (\<lambda>_. None) ?ts"
    by (rule hr_applier [rotated 2]) (simp_all add: two_servers_reach, simp add: two_servers_def)
  have made: "None \<notin> set (rt_srvs ?ts)"
    by (simp add: two_servers_def)
  show ?thesis
    using harness_servers_agree [OF reach made, of 1] by (auto simp: harness_run)
qed

end
