(* ===== verification/RaftRuns.thy ===== *)
theory RaftRuns
  imports RaftAgreement
begin

text \<open>
  The Raft test server accepts every correct Raft. The correct runs are described by one log that only grows: each server
  applies its entries in order from where it is, starts again from the beginning or from a snapshot after a restart, and
  may load a snapshot at any time; snapshots are those that the test servers themselves have taken.
\<close>

section \<open>Correct runs\<close>

record 'c raft_run =
  rr_log :: "'c option list"
  rr_applied :: "nat list"
  rr_test :: "'c raft_test"
  rr_snaps :: "(int \<times> string) set"
  rr_failed :: bool

definition snapshot_msg :: "string \<Rightarrow> int \<Rightarrow> 'c ApplyMsg" where
  "snapshot_msg bytes k = \<lparr>am_CommandValid = False, am_Command = None, am_CommandIndex = 0, am_SnapshotValid = True,
     am_Snapshot = Some bytes, am_SnapshotTerm = 0, am_SnapshotIndex = k\<rparr>"

text \<open>What the test server at an address does with a message: which applier runs is fixed by the test.\<close>

definition apply_round ::
  "(int \<Rightarrow> 'c option list \<Rightarrow> string) \<Rightarrow> (string \<Rightarrow> (int \<times> 'c option list) option) \<Rightarrow> nat \<Rightarrow> 'c ApplyMsg \<Rightarrow> 'c raft_test \<Rightarrow>
     ('c raft_test \<times> (int \<times> string) option) go" where
  "apply_round enc dec a m ts =
     (if rt_snapshot ts then applierSnap enc dec a m ts else go_bind (applier a m ts) (\<lambda>ts. Inr (ts, None)))"

text \<open>The run goes on with the result, or has failed.\<close>

definition run_after :: "'c raft_run \<Rightarrow> nat \<Rightarrow> nat \<Rightarrow> ('c raft_test \<times> (int \<times> string) option) go \<Rightarrow> 'c raft_run" where
  "run_after r i k res =
     (case res of
        Inl e \<Rightarrow> r\<lparr>rr_failed := True\<rparr>
      | Inr (ts, sn) \<Rightarrow> r\<lparr>rr_test := ts, rr_applied := (rr_applied r)[i := k], rr_snaps := rr_snaps r \<union> set_option sn\<rparr>)"

definition start_servers :: "(string \<Rightarrow> (int \<times> 'c option list) option) \<Rightarrow> nat \<Rightarrow> bool \<Rightarrow> 'c raft_test go" where
  "start_servers dec n snapshot =
     go_fold (\<lambda>i. mksrv dec [] i i (replicate n MakePersister)) [0..<n] (makeTest n snapshot)"

inductive correct_run ::
  "(int \<Rightarrow> 'c option list \<Rightarrow> string) \<Rightarrow> (string \<Rightarrow> (int \<times> 'c option list) option) \<Rightarrow> nat \<Rightarrow> 'c raft_run \<Rightarrow> bool"
  for enc dec n where
  cr_start: "correct_run enc dec n
    \<lparr>rr_log = [], rr_applied = replicate n 0, rr_test = (case start_servers dec n snapshot of Inr ts \<Rightarrow> ts | Inl e \<Rightarrow> makeTest n snapshot),
     rr_snaps = {}, rr_failed = (\<exists>e. start_servers dec n snapshot = Inl e)\<rparr>"
| cr_commit: "correct_run enc dec n r \<Longrightarrow> correct_run enc dec n (r\<lparr>rr_log := rr_log r @ [c]\<rparr>)"
| cr_apply: "correct_run enc dec n r \<Longrightarrow> i < n \<Longrightarrow> k = rr_applied r ! i \<Longrightarrow> k < length (rr_log r) \<Longrightarrow>
    rt_srvs (rr_test r) ! i = Some a \<Longrightarrow>
    correct_run enc dec n (run_after r i (Suc k) (apply_round enc dec a (command_msg (rr_log r ! k) (int (Suc k))) (rr_test r)))"
| cr_install: "correct_run enc dec n r \<Longrightarrow> i < n \<Longrightarrow> (k, bytes) \<in> rr_snaps r \<Longrightarrow> rt_snapshot (rr_test r) \<Longrightarrow>
    rt_srvs (rr_test r) ! i = Some a \<Longrightarrow>
    correct_run enc dec n (run_after r i (nat k) (apply_round enc dec a (snapshot_msg bytes k) (rr_test r)))"
| cr_kill: "correct_run enc dec n r \<Longrightarrow> i < n \<Longrightarrow> rt_srvs (rr_test r) ! i = Some a \<Longrightarrow>
    correct_run enc dec n (r\<lparr>rr_test := (rr_test r)\<lparr>rt_heap := (rt_heap (rr_test r))[a := fst (rfsrv_Kill (rt_heap (rr_test r) ! a) pers)]\<rparr>\<rparr>)"
| cr_restart: "correct_run enc dec n r \<Longrightarrow> i < n \<Longrightarrow> ReadSnapshot (pers ! p) = [] \<Longrightarrow>
    correct_run enc dec n (run_after r i 0 (go_bind (mksrv dec ends i p pers (rr_test r)) (\<lambda>ts. Inr (ts, None))))"
| cr_restart_snapshot: "correct_run enc dec n r \<Longrightarrow> i < n \<Longrightarrow> rt_snapshot (rr_test r) \<Longrightarrow> (k, ReadSnapshot (pers ! p)) \<in> rr_snaps r \<Longrightarrow>
    ReadSnapshot (pers ! p) \<noteq> [] \<Longrightarrow>
    correct_run enc dec n (run_after r i (nat k) (go_bind (mksrv dec ends i p pers (rr_test r)) (\<lambda>ts. Inr (ts, None))))"

section \<open>The invariant\<close>

text \<open>The copy of the log in a test server that has applied so many entries; index 0 comes from snapshots and is nil.\<close>

definition holds_prefix :: "'c option list \<Rightarrow> nat \<Rightarrow> (int \<Rightarrow> 'c option option) \<Rightarrow> bool" where
  "holds_prefix L k logs \<longleftrightarrow> k \<le> length L \<and> logs 0 \<in> {None, Some None} \<and>
     (\<forall>j. logs (int (Suc j)) = (if j < k then Some (L ! j) else None)) \<and> (\<forall>j<0. logs j = None)"

definition server_ok :: "'c option list \<Rightarrow> bool \<Rightarrow> nat \<Rightarrow> nat \<Rightarrow> 'c rfsrv \<Rightarrow> bool" where
  "server_ok L snapshot i k rs \<longleftrightarrow> rs_me rs = i \<and> holds_prefix L k (rs_logs rs) \<and> (snapshot \<longrightarrow> rs_lastApplied rs = int k)"

definition snapshot_ok :: "(int \<Rightarrow> 'c option list \<Rightarrow> string) \<Rightarrow> 'c option list \<Rightarrow> int \<times> string \<Rightarrow> bool" where
  "snapshot_ok enc L s \<longleftrightarrow> (\<exists>k \<le> length L. s = (int k, enc (int k) (None # take k L)))"

definition run_ok :: "(int \<Rightarrow> 'c option list \<Rightarrow> string) \<Rightarrow> nat \<Rightarrow> 'c raft_run \<Rightarrow> bool" where
  "run_ok enc n r \<longleftrightarrow> \<not> rr_failed r \<and> length (rr_applied r) = n \<and> length (rt_srvs (rr_test r)) = n \<and>
     (\<forall>i<n. \<exists>a < length (rt_heap (rr_test r)). rt_srvs (rr_test r) ! i = Some a \<and>
        server_ok (rr_log r) (rt_snapshot (rr_test r)) i (rr_applied r ! i) (rt_heap (rr_test r) ! a)) \<and>
     (\<forall>s \<in> rr_snaps r. snapshot_ok enc (rr_log r) s)"

text \<open>Two current servers are different objects, because they know their own number.\<close>

lemma run_ok_server:
  assumes "run_ok enc n r" and "i < n" and "rt_srvs (rr_test r) ! i = Some a"
  shows "a < length (rt_heap (rr_test r))"
    and "server_ok (rr_log r) (rt_snapshot (rr_test r)) i (rr_applied r ! i) (rt_heap (rr_test r) ! a)"
  using assms by (fastforce simp: run_ok_def)+

lemma holds_prefix_append: "holds_prefix L k logs \<Longrightarrow> holds_prefix (L @ [c]) k logs"
  by (auto simp: holds_prefix_def nth_append)

lemma snapshot_ok_append: "snapshot_ok enc L s \<Longrightarrow> snapshot_ok enc (L @ [c]) s"
  by (auto simp: snapshot_ok_def)

lemma holds_prefix_Suc:
  assumes "holds_prefix L k logs" and "k < length L"
  shows "holds_prefix L (Suc k) (logs(int (Suc k) \<mapsto> L ! k))"
  using assms by (auto simp: holds_prefix_def less_Suc_eq)

lemma holds_prefix_compatible:
  assumes "holds_prefix L k logs" and "j < length L"
  shows "logs (int (Suc j)) \<in> {None, Some (L ! j)}"
  using assms by (auto simp: holds_prefix_def)

lemma holds_prefix_previous:
  assumes "holds_prefix L k logs" and "0 < k"
  shows "logs (int k) \<noteq> None"
proof -
  obtain j where "k = Suc j"
    using assms(2) by (cases k) auto
  then show ?thesis
    using assms(1) by (simp add: holds_prefix_def)
qed

text \<open>A snapshot of such a copy has the log's entries, and loading it gives such a copy.\<close>

lemma snapshot_of_prefix:
  assumes "holds_prefix L k logs"
  shows "snapshot_of enc (int k) logs = enc (int k) (None # take k L)"
proof -
  have "map (\<lambda>j. case logs (int j) of None \<Rightarrow> None | Some v \<Rightarrow> v) [0..<Suc k] = None # take k L"
    using assms
    by (subst upt_conv_Cons; simp del: upt_Suc add: map_Suc_upt [symmetric] holds_prefix_def)
      (auto intro!: nth_equalityI split: option.splits)
  then show ?thesis
    by (simp add: snapshot_of_def nat_add_distrib)
qed

lemma ingestSnap_prefix:
  assumes "dec (enc (int k) (None # take k L)) = Some (int k, None # take k L)" and "k \<le> length L" and "ix \<in> {-1, int k}"
  shows "\<exists>rs'. ingestSnap dec (Some (enc (int k) (None # take k L))) ix rs = Inr (rs', None) \<and>
    rs_me rs' = rs_me rs \<and> holds_prefix L k (rs_logs rs') \<and> rs_lastApplied rs' = int k"
  using assms by (auto simp: ingestSnap_def holds_prefix_def nat_add_distrib)

section \<open>Every step keeps the invariant\<close>

lemma run_ok_no_conflict:
  assumes "run_ok enc n r" and "k < length (rr_log r)"
  shows "\<forall>p \<in> set (rt_srvs (rr_test r)). no_conflict (rt_heap (rr_test r)) (command_msg (rr_log r ! k) (int (Suc k))) p"
proof
  fix p assume "p \<in> set (rt_srvs (rr_test r))"
  then obtain i where i: "i < n" "p = rt_srvs (rr_test r) ! i"
    using assms(1) by (auto simp: in_set_conv_nth run_ok_def)
  then obtain a where a: "p = Some a" "server_ok (rr_log r) (rt_snapshot (rr_test r)) i (rr_applied r ! i) (rt_heap (rr_test r) ! a)"
    using assms(1) by (auto simp: run_ok_def)
  then show "no_conflict (rt_heap (rr_test r)) (command_msg (rr_log r ! k) (int (Suc k))) p"
    using holds_prefix_compatible [OF _ assms(2)]
    by (fastforce simp: no_conflict_def server_ok_def command_msg_def)
qed

text \<open>A step that changes one current server to one that is right, and adds right snapshots.\<close>

lemma run_ok_update:
  assumes "run_ok enc n r" and "i < n" and "rt_srvs (rr_test r) ! i = Some a"
    and "rt_srvs ts = rt_srvs (rr_test r)" and "rt_snapshot ts = rt_snapshot (rr_test r)"
    and "length (rt_heap ts) = length (rt_heap (rr_test r))"
    and "\<And>b. b < length (rt_heap ts) \<Longrightarrow> b \<noteq> a \<Longrightarrow> rt_heap ts ! b = rt_heap (rr_test r) ! b"
    and "server_ok (rr_log r) (rt_snapshot ts) i k (rt_heap ts ! a)"
    and "\<forall>s \<in> set_option sn. snapshot_ok enc (rr_log r) s"
  shows "run_ok enc n (run_after r i k (Inr (ts, sn)))"
proof -
  have other: "b \<noteq> a" if "j < n" "j \<noteq> i" "rt_srvs (rr_test r) ! j = Some b" for j b
    using run_ok_server(2) [OF assms(1) that(1,3)] run_ok_server(2) [OF assms(1-3)] that(2) by (auto simp: server_ok_def)
  have "\<exists>b < length (rt_heap ts). rt_srvs ts ! j = Some b \<and>
      server_ok (rr_log r) (rt_snapshot ts) j ((rr_applied r)[i := k] ! j) (rt_heap ts ! b)" if j: "j < n" for j
  proof (cases "j = i")
    case True
    then show ?thesis
      using assms run_ok_server(1) [OF assms(1-3)] by (auto simp: run_ok_def)
  next
    case False
    obtain b where b: "b < length (rt_heap (rr_test r))" "rt_srvs (rr_test r) ! j = Some b"
      "server_ok (rr_log r) (rt_snapshot (rr_test r)) j (rr_applied r ! j) (rt_heap (rr_test r) ! b)"
      using assms(1) j by (auto simp: run_ok_def)
    then show ?thesis
      using False other [OF j False b(2)] assms(4-7) by auto
  qed
  then show ?thesis
    using assms by (auto simp: run_ok_def run_after_def)
qed

lemma run_ok_checkLogs:
  assumes "run_ok enc n r" and "i < n" and "rt_srvs (rr_test r) ! i = Some a" and "rr_applied r ! i < length (rr_log r)"
  defines "m \<equiv> command_msg (rr_log r ! (rr_applied r ! i)) (int (Suc (rr_applied r ! i)))"
  shows "\<exists>prevok. checkLogs (rs_me (rt_heap (rr_test r) ! a)) m (rr_test r) = Inr (record_entry a m (rr_test r), None, prevok) \<and>
    (am_CommandIndex m > 1 \<longrightarrow> prevok)"
proof -
  have s: "server_ok (rr_log r) (rt_snapshot (rr_test r)) i (rr_applied r ! i) (rt_heap (rr_test r) ! a)"
    by (rule run_ok_server [OF assms(1-3)])
  have "i < length (rt_srvs (rr_test r))"
    using assms(1,2) by (simp add: run_ok_def)
  moreover have "am_CommandIndex m > 1 \<longrightarrow> rs_logs (rt_heap (rr_test r) ! a) (am_CommandIndex m - 1) \<noteq> None"
    using holds_prefix_previous [of "rr_log r" "rr_applied r ! i"] s by (auto simp: m_def command_msg_def server_ok_def)
  ultimately show ?thesis
    using s assms(3) run_ok_no_conflict [OF assms(1,4)] by (auto simp: checkLogs_ok m_def server_ok_def)
qed

lemma command_msg_simps [simp]:
  "am_CommandValid (command_msg c k)" "\<not> am_SnapshotValid (command_msg c k)" "am_CommandIndex (command_msg c k) = k"
  "am_Command (command_msg c k) = c"
  by (simp_all add: command_msg_def)

lemma run_ok_apply:
  assumes "run_ok enc n r" and "i < n" and "rt_srvs (rr_test r) ! i = Some a" and "rr_applied r ! i < length (rr_log r)"
  shows "run_ok enc n (run_after r i (Suc (rr_applied r ! i))
    (apply_round enc dec a (command_msg (rr_log r ! (rr_applied r ! i)) (int (Suc (rr_applied r ! i)))) (rr_test r)))"
proof -
  let ?k = "rr_applied r ! i" and ?ts = "rr_test r"
  define m where "m = command_msg (rr_log r ! ?k) (int (Suc ?k))"
  obtain prevok where chk: "checkLogs (rs_me (rt_heap ?ts ! a)) m ?ts = Inr (record_entry a m ?ts, None, prevok)"
    "am_CommandIndex m > 1 \<longrightarrow> prevok"
    using run_ok_checkLogs [OF assms] unfolding m_def by blast
  have a: "a < length (rt_heap ?ts)" and s: "server_ok (rr_log r) (rt_snapshot ?ts) i ?k (rt_heap ?ts ! a)"
    by (rule run_ok_server [OF assms(1-3)])+
  have pre: "holds_prefix (rr_log r) (Suc ?k) (rs_logs (rt_heap (record_entry a m ?ts) ! a))"
    using holds_prefix_Suc [OF _ assms(4)] s a by (simp add: record_entry_nth m_def server_ok_def)
  show ?thesis
  proof (cases "rt_snapshot ?ts")
    case True
    have "apply_round enc dec a m ?ts = Inr (set_applied a (int (Suc ?k)) (record_entry a m ?ts),
        snapshot_due enc (int (Suc ?k)) (rs_logs (rt_heap (record_entry a m ?ts) ! a)))"
      using True chk s a by (simp add: apply_round_def applierSnap_ok applierSnap_command_ok m_def server_ok_def)
    moreover have "\<forall>x \<in> set_option (snapshot_due enc (int (Suc ?k)) (rs_logs (rt_heap (record_entry a m ?ts) ! a))).
        snapshot_ok enc (rr_log r) x"
      using assms(4) snapshot_of_prefix [OF pre] by (auto simp: snapshot_due_def snapshot_ok_def simp del: of_nat_Suc intro!: exI [of _ "Suc ?k"])
    moreover have "server_ok (rr_log r) True i (Suc ?k) (rt_heap (set_applied a (int (Suc ?k)) (record_entry a m ?ts)) ! a)"
      using pre s a by (simp add: server_ok_def set_applied_nth record_entry_nth)
    ultimately show ?thesis
      using a True unfolding m_def [symmetric]
      by (auto intro!: run_ok_update [OF assms(1-3)] simp: set_applied_nth record_entry_nth)
  next
    case False
    then have "apply_round enc dec a m ?ts = Inr (record_entry a m ?ts, None)"
      using applier_ok [of m a ?ts "record_entry a m ?ts"] chk by (auto simp: apply_round_def m_def)
    moreover have "server_ok (rr_log r) False i (Suc ?k) (rt_heap (record_entry a m ?ts) ! a)"
      using pre s a by (simp add: server_ok_def record_entry_nth)
    ultimately show ?thesis
      using False unfolding m_def [symmetric]
      by (auto intro!: run_ok_update [OF assms(1-3)] simp: record_entry_nth)
  qed
qed

lemma run_ok_new:
  assumes "run_ok enc n r" and "i < n" and "server_ok (rr_log r) (rt_snapshot (rr_test r)) i k s"
  shows "run_ok enc n (run_after r i k (Inr ((rr_test r)\<lparr>rt_srvs := (rt_srvs (rr_test r))[i := Some (length (rt_heap (rr_test r)))],
    rt_heap := rt_heap (rr_test r) @ [s]\<rparr>, None)))"
proof -
  have "\<exists>b < Suc (length (rt_heap (rr_test r))). (rt_srvs (rr_test r))[i := Some (length (rt_heap (rr_test r)))] ! j = Some b \<and>
      server_ok (rr_log r) (rt_snapshot (rr_test r)) j ((rr_applied r)[i := k] ! j) ((rt_heap (rr_test r) @ [s]) ! b)" if j: "j < n" for j
  proof (cases "j = i")
    case True
    then show ?thesis
      using assms by (auto simp: run_ok_def)
  next
    case False
    obtain b where b: "b < length (rt_heap (rr_test r))" "rt_srvs (rr_test r) ! j = Some b"
      "server_ok (rr_log r) (rt_snapshot (rr_test r)) j (rr_applied r ! j) (rt_heap (rr_test r) ! b)"
      using assms(1) j by (auto simp: run_ok_def)
    then show ?thesis
      using False by (intro exI [of _ b]) (simp add: nth_append)
  qed
  then show ?thesis
    using assms(1) by (simp add: run_ok_def run_after_def)
qed

definition fresh_srv :: "nat \<Rightarrow> string list \<Rightarrow> nat \<Rightarrow> Persister list \<Rightarrow> 'c rfsrv" where
  "fresh_srv i ends p pers = \<lparr>rs_me = i, rs_lastApplied = 0, rs_persister = p, rs_raft = Some (Make ends (int i) p pers), rs_logs = Map.empty\<rparr>"

lemma mksrv_fresh:
  assumes "ReadSnapshot (pers ! p) = []" and "i < length (rt_srvs ts)"
  shows "mksrv dec ends i p pers ts =
    Inr (ts\<lparr>rt_srvs := (rt_srvs ts)[i := Some (length (rt_heap ts))], rt_heap := rt_heap ts @ [fresh_srv i ends p pers]\<rparr>)"
  using assms by (simp add: mksrv_def newRfsrv_def Let_def fresh_srv_def)

lemma fresh_srv_ok: "server_ok L snapshot i 0 (fresh_srv i ends p pers)"
  by (simp add: server_ok_def fresh_srv_def holds_prefix_def)

lemma run_ok_restart:
  assumes "run_ok enc n r" and "i < n" and "ReadSnapshot (pers ! p) = []"
  shows "run_ok enc n (run_after r i 0 (go_bind (mksrv dec ends i p pers (rr_test r)) (\<lambda>ts. Inr (ts, None))))"
proof -
  have "i < length (rt_srvs (rr_test r))"
    using assms(1,2) by (simp add: run_ok_def)
  then show ?thesis
    using run_ok_new [OF assms(1,2) fresh_srv_ok] by (simp add: mksrv_fresh assms(3))
qed

lemma run_ok_restart_snapshot:
  assumes "run_ok enc n r" and "i < n" and "rt_snapshot (rr_test r)" and "(k, ReadSnapshot (pers ! p)) \<in> rr_snaps r"
    and "ReadSnapshot (pers ! p) \<noteq> []" and codec: "\<forall>k xs. dec (enc k xs) = Some (k, xs)"
  shows "run_ok enc n (run_after r i (nat k) (go_bind (mksrv dec ends i p pers (rr_test r)) (\<lambda>ts. Inr (ts, None))))"
proof -
  obtain j where j: "j \<le> length (rr_log r)" "k = int j" "ReadSnapshot (pers ! p) = enc (int j) (None # take j (rr_log r))"
    using assms(1,4) by (auto simp: run_ok_def snapshot_ok_def)
  obtain s where s: "ingestSnap dec (Some (ReadSnapshot (pers ! p))) (-1) (fresh_srv i ends p pers) = Inr (s, None)"
    "rs_me s = i" "holds_prefix (rr_log r) j (rs_logs s)" "rs_lastApplied s = int j"
    using ingestSnap_prefix [of dec enc j "rr_log r" "-1" "fresh_srv i ends p pers"] codec j by (auto simp: fresh_srv_def)
  have "mksrv dec ends i p pers (rr_test r) = Inr ((rr_test r)\<lparr>rt_srvs := (rt_srvs (rr_test r))[i := Some (length (rt_heap (rr_test r)))],
      rt_heap := rt_heap (rr_test r) @ [s]\<rparr>)"
    using assms(1-3,5) s(1) by (simp add: mksrv_def newRfsrv_def Let_def run_ok_def flip: fresh_srv_def)
  then show ?thesis
    using run_ok_new [OF assms(1,2), of j s] s j by (simp add: server_ok_def)
qed

lemma run_ok_install:
  assumes "run_ok enc n r" and "i < n" and "rt_srvs (rr_test r) ! i = Some a" and "(k, bytes) \<in> rr_snaps r"
    and "rt_snapshot (rr_test r)" and codec: "\<forall>k xs. dec (enc k xs) = Some (k, xs)"
  shows "run_ok enc n (run_after r i (nat k) (apply_round enc dec a (snapshot_msg bytes k) (rr_test r)))"
proof -
  let ?rs = "rt_heap (rr_test r) ! a"
  obtain j where j: "j \<le> length (rr_log r)" "k = int j" "bytes = enc (int j) (None # take j (rr_log r))"
    using assms(1,4) by (auto simp: run_ok_def snapshot_ok_def)
  obtain s where s: "ingestSnap dec (Some bytes) k ?rs = Inr (s, None)"
    "rs_me s = rs_me ?rs" "holds_prefix (rr_log r) j (rs_logs s)" "rs_lastApplied s = int j"
    using ingestSnap_prefix [of dec enc j "rr_log r" k ?rs] codec j by auto
  have "apply_round enc dec a (snapshot_msg bytes k) (rr_test r) = Inr ((rr_test r)\<lparr>rt_heap := (rt_heap (rr_test r))[a := s]\<rparr>, None)"
    using assms(5) s(1) by (simp add: apply_round_def applierSnap_def snapshot_msg_def)
  moreover have "server_ok (rr_log r) (rt_snapshot (rr_test r)) i j s"
    using run_ok_server(2) [OF assms(1-3)] s by (simp add: server_ok_def)
  ultimately show ?thesis
    using run_ok_server(1) [OF assms(1-3)] j by (auto intro!: run_ok_update [OF assms(1-3)])
qed

lemma run_ok_commit:
  assumes "run_ok enc n r"
  shows "run_ok enc n (r\<lparr>rr_log := rr_log r @ [c]\<rparr>)"
  using assms by (fastforce simp: run_ok_def server_ok_def intro: holds_prefix_append snapshot_ok_append)

lemma run_ok_kill:
  assumes "run_ok enc n r"
  shows "run_ok enc n (r\<lparr>rr_test := (rr_test r)\<lparr>rt_heap := (rt_heap (rr_test r))[a := fst (rfsrv_Kill (rt_heap (rr_test r) ! a) pers)]\<rparr>\<rparr>)"
proof -
  have "server_ok L s i k (hp ! b) \<Longrightarrow> server_ok L s i k (hp[a := fst (rfsrv_Kill (hp ! a) pers)] ! b)" for L s i k b and hp :: "'a rfsrv list"
    by (cases "a < length hp"; cases "a = b") (auto simp: server_ok_def rfsrv_Kill_def Let_def list_update_beyond)
  then show ?thesis
    using assms by (fastforce simp: run_ok_def)
qed

lemma start_servers_prefix:
  assumes "k \<le> n"
  shows "go_fold (\<lambda>i. mksrv dec [] i i (replicate n MakePersister)) [0..<k] (makeTest n snapshot) =
    Inr (makeTest n snapshot\<lparr>rt_srvs := map Some [0..<k] @ replicate (n - k) None,
      rt_heap := map (\<lambda>i. fresh_srv i [] i (replicate n MakePersister)) [0..<k]\<rparr>)"
  using assms
proof (induction k)
  case (Suc k)
  have "ReadSnapshot (replicate n MakePersister ! k) = []"
    using Suc.prems by (simp add: ReadSnapshot_def MakePersister_def clone_def)
  moreover have "replicate (n - k) (None :: nat option) = None # replicate (n - Suc k) None"
    using Suc.prems by (simp flip: replicate_Suc add: Suc_diff_Suc)
  ultimately show ?case
    using Suc by (simp add: go_fold_append mksrv_fresh makeTest_def list_update_append)
qed (simp add: makeTest_def)

lemma start_servers_eq:
  "start_servers dec n snapshot = Inr (makeTest n snapshot\<lparr>rt_srvs := map Some [0..<n],
      rt_heap := map (\<lambda>i. fresh_srv i [] i (replicate n MakePersister)) [0..<n]\<rparr>)"
  unfolding start_servers_def using start_servers_prefix [of n n dec snapshot] by simp

lemma run_ok_start:
  "run_ok enc n \<lparr>rr_log = [], rr_applied = replicate n 0,
     rr_test = (case start_servers dec n snapshot of Inr ts \<Rightarrow> ts | Inl e \<Rightarrow> makeTest n snapshot),
     rr_snaps = {}, rr_failed = (\<exists>e. start_servers dec n snapshot = Inl e)\<rparr>"
  by (simp add: start_servers_eq run_ok_def makeTest_def fresh_srv_ok)


lemma correct_run_ok:
  assumes "correct_run enc dec n r" and codec: "\<forall>k xs. dec (enc k xs) = Some (k, xs)"
  shows "run_ok enc n r"
  using assms(1)
proof induction
  case (cr_start snapshot)
  show ?case by (rule run_ok_start)
next
  case (cr_apply r i k a)
  then show ?case using run_ok_apply by blast
qed (use codec in \<open>blast intro: run_ok_commit run_ok_install run_ok_kill run_ok_restart run_ok_restart_snapshot\<close>)+


text \<open>A codec for logs of the one command \<open>()\<close>: the index in unary after its sign, then a character for each entry.\<close>

definition unit_enc :: "int \<Rightarrow> unit option list \<Rightarrow> string" where
  "unit_enc k xs = (if k < 0 then CHR ''-'' else CHR ''+'') # replicate (nat \<bar>k\<bar>) CHR ''1'' @ CHR '','' #
     map (\<lambda>x. if x = None then CHR ''n'' else CHR ''u'') xs"

definition unit_dec :: "string \<Rightarrow> (int \<times> unit option list) option" where
  "unit_dec s = Some ((if hd s = CHR ''-'' then -1 else 1) * int (length (takeWhile (\<lambda>c. c = CHR ''1'') (tl s))),
     map (\<lambda>c. if c = CHR ''n'' then None else Some ()) (tl (dropWhile (\<lambda>c. c = CHR ''1'') (tl s))))"

lemma unit_codec: "unit_dec (unit_enc k xs) = Some (k, xs)"
proof -
  have "map (\<lambda>c. if c = CHR ''n'' then None else Some ()) (map (\<lambda>x. if x = None then CHR ''n'' else CHR ''u'') xs) = xs"
    by (induction xs) auto
  then show ?thesis
    by (simp add: unit_dec_def unit_enc_def takeWhile_append dropWhile_append)
qed


end
