(* ===== verification/TesterSetup.thy ===== *)
theory TesterSetup
  imports TesterGroup TesterClnt
begin

text \<open>
  Setting up a test, \<^verbatim>\<open>src/tester1/group.go\<close> and \<^verbatim>\<open>src/tester1/config.go\<close>: making a group and starting its servers always succeeds,
  and leaves every server up and connected to every other. With the rest of \<^verbatim>\<open>config.go\<close>: the seed of the random numbers, what is
  printed at the begin of a test, and the end of one that has failed.
\<close>

section \<open>Connecting all servers\<close>

text \<open>Connecting all servers enables the end-point of every two of them.\<close>

lemma ConnectOne_fold:
  assumes "sg_wf sg" and "set is \<subseteq> sg_ids sg"
  shows "\<exists>T sg'. go_fold ConnectOne is (net, sg) = Inr (enable_set True T net, sg') \<and> same_group sg sg' \<and>
    (\<forall>i \<in> set is. ends_out sg i (sg_all sg) \<subseteq> T)"
  using assms
proof (induction "is" arbitrary: net sg)
  case Nil
  then show ?case by (intro exI [of _ "{}"] exI [of _ sg]) (simp add: same_group_def)
next
  case (Cons i "is")
  have all: "set (sg_all sg) \<subseteq> sg_ids sg" "length (sg_all sg) \<le> length (sg_srvs sg)" by (auto simp: sg_all_def)
  have i: "i \<in> sg_ids sg" "set is \<subseteq> sg_ids sg" using Cons.prems(2) by auto
  let ?sg = "sg\<lparr>sg_connected := (sg_connected sg)[nat i := True]\<rparr>"
  have g: "same_group sg ?sg" by (simp add: same_group_def)
  note k = same_group_keeps [OF g]
  obtain T where T: "ends_out sg i (sg_all sg) \<subseteq> T" "connect i (sg_all sg) (net, sg) = Inr (enable_set True T net, ?sg)"
    using connect_spec [OF Cons.prems(1) i(1) all, of net] by blast
  have "sg_wf ?sg" "set is \<subseteq> sg_ids ?sg" using Cons.prems(1) k(1) i(2) by simp_all
  from Cons.IH [OF this, of "enable_set True T net"] obtain T' sg' where
    T': "go_fold ConnectOne is (enable_set True T net, ?sg) = Inr (enable_set True (T \<union> T') net, sg')" "same_group ?sg sg'"
    "\<forall>i \<in> set is. ends_out sg i (sg_all sg) \<subseteq> T'"
    unfolding k(4) by (auto simp: sg_all_def)
  have "go_fold ConnectOne (i # is) (net, sg) = Inr (enable_set True (T \<union> T') net, sg')"
    using T(2) T'(1) by (simp add: ConnectOne_def)
  moreover have "same_group sg sg'" using T'(2) by (simp add: same_group_def)
  ultimately show ?case using T(1) T'(3) by (intro exI [of _ "T \<union> T'"] exI [of _ sg']) auto
qed

section \<open>Making a group\<close>

lemma makeSrvGrp_total:
  assumes "inj rnd" and "names_fresh rnd e"
  shows "\<exists>e' sg. makeSrvGrp rnd gid n e = Inr (e', sg :: 'svc ServerGrp) \<and> grp_inv rnd (e', sg) \<and> sg_gid sg = gid \<and>
    length (sg_srvs sg) = n \<and> sg_servernames sg = map (\<lambda>i. ServerName gid (int i)) [0..<n]"
proof -
  have step: "\<exists>t. makeSrvGrp_server rnd gid n i s = Inr t \<and> names_fresh rnd (fst t)" if "names_fresh rnd (fst s)"
    for i and s :: "'a env \<times> 'svc Srv list"
    using makeServer_spec [OF assms(1) that, of gid n, where 'svc = 'svc]
    by (cases s) (auto simp: makeSrvGrp_server_def names_fresh_def)
  have "\<exists>s. go_fold (makeSrvGrp_server rnd gid n) [0..<n] (e, [] :: 'svc Srv list) = Inr s \<and> names_fresh rnd (fst s)"
    by (rule go_fold_total) (use step assms(2) in auto)
  then obtain e1 and srvs :: "'svc Srv list" where f: "go_fold (makeSrvGrp_server rnd gid n) [0..<n] (e, []) = Inr (e1, srvs)"
    by auto
  have "length srvs = n"
  proof -
    have "go_fold (makeSrvGrp_server rnd gid n) [0..<k] (e, []) = Inr (e1, srvs) \<Longrightarrow> length srvs = k" for k e1 and srvs :: "'svc Srv list"
      by (induction k arbitrary: e1 srvs) (auto simp: go_fold_append go_bind_Inr_iff makeSrvGrp_server_def)
    from this [OF f] show ?thesis .
  qed
  moreover have m: "makeSrvGrp rnd gid n e = Inr (e1, \<lparr>sg_srvs = srvs, sg_servernames = map (\<lambda>i. ServerName gid (int i)) [0..<n],
        sg_gid = gid, sg_connected = replicate n False\<rparr>)"
    using f by (simp add: makeSrvGrp_def)
  ultimately show ?thesis using makeSrvGrp_inv [OF assms m] by auto
qed

text \<open>The server is up: its name leads to an RPC server.\<close>

definition is_up :: "int \<Rightarrow> int \<Rightarrow> 's env \<Rightarrow> bool" where
  "is_up gid i e \<longleftrightarrow> (\<exists>a < length (e_labs e). n_servers (e_net e) (ServerName gid i) = Some a)"

text \<open>What starting a server keeps of a group.\<close>

definition same_shape :: "'svc ServerGrp \<Rightarrow> 'svc ServerGrp \<Rightarrow> bool" where
  "same_shape sg sg' \<longleftrightarrow> sg_gid sg' = sg_gid sg \<and> length (sg_srvs sg') = length (sg_srvs sg) \<and> sg_servernames sg' = sg_servernames sg"

lemma makeServer_net:
  assumes "makeServer rnd gid n e = Inr (e', srv)"
  shows "n_servers (e_net e') = n_servers (e_net e)" "e_labs e' = e_labs e"
proof -
  have "n_servers (e_net (fst (e', srv))) = n_servers (e_net e) \<and> e_labs (fst (e', srv)) = e_labs e"
    by (rule go_fold_invariant [where P = "\<lambda>s. n_servers (e_net (fst s)) = n_servers (e_net e) \<and> e_labs (fst s) = e_labs e", OF _ _ assms [unfolded makeServer_def]])
      (auto simp: makeServer_end_def Let_def go_bind_Inr_iff MakeEnd_def Connect_def split: if_splits)
  then show "n_servers (e_net e') = n_servers (e_net e)" "e_labs e' = e_labs e" by simp_all
qed

lemma StartServer_total:
  assumes "inj rnd" and inv: "grp_inv rnd (e, sg)" and i: "i \<in> sg_ids sg"
  shows "\<exists>e' sg'. StartServer rnd mks reflect i (e, sg) = Inr (e', sg') \<and> grp_inv rnd (e', sg') \<and> same_shape sg sg' \<and>
    is_up (sg_gid sg) i e' \<and> (\<forall>j. is_up (sg_gid sg) j e \<longrightarrow> is_up (sg_gid sg) j e')"
proof -
  let ?old = "sg_srvs sg ! nat i"
  have "srvs_ok rnd (sg_gid sg) (length (sg_srvs sg)) e (sg_srvs sg)" using inv by (simp add: grp_inv_def)
  then have "names_fresh rnd e" by (simp add: srvs_ok_def)
  then obtain e1 and srv :: "'b Srv" where m: "makeServer rnd (sg_gid sg) (length (sr_endNames ?old)) e = Inr (e1, srv)"
    using makeServer_spec [OF assms(1)] by blast
  obtain svcs pers where k: "mks (sr_clntEnds srv) (sg_gid sg) i (length (e_pers e1)) (e_pers e1 @ [last_saved e1 ?old]) = (svcs, pers)"
    by (cases "mks (sr_clntEnds srv) (sg_gid sg) i (length (e_pers e1)) (e_pers e1 @ [last_saved e1 ?old])")
  note eq = StartServer_eq [where mks = mks and reflect = reflect, OF i m k]
  show ?thesis
    using eq StartServer_inv [OF assms(1) inv eq] makeServer_net [OF m]
    by (auto simp: same_shape_def is_up_def AddServer_def less_Suc_eq)
qed

text \<open>Every server of the list is up after it has been started, and stays up while the others are started.\<close>

lemma start_total:
  assumes "inj rnd" and inv: "grp_inv rnd (e, sg)"
  shows "\<exists>e' sg'. start rnd mks reflect (e, sg) = Inr (e', sg') \<and> grp_inv rnd (e', sg') \<and> same_shape sg sg' \<and>
    (\<forall>i \<in> sg_ids sg. is_up (sg_gid sg) i e')"
proof -
  let ?I = "\<lambda>(e', sg'). grp_inv rnd (e', sg') \<and> same_shape sg sg'"
  have ids: "set (sg_all sg) = sg_ids sg" by (simp add: sg_all_def image_int_atLeastLessThan)
  have step: "\<exists>e2 sg2. StartServer rnd mks reflect i (e1, sg1) = Inr (e2, sg2) \<and> ?I (e2, sg2) \<and>
      is_up (sg_gid sg) i e2 \<and> (\<forall>j. is_up (sg_gid sg) j e1 \<longrightarrow> is_up (sg_gid sg) j e2)"
    if "i \<in> set (sg_all sg)" "?I (e1, sg1)" for i e1 sg1
    using StartServer_total [OF assms(1), of e1 sg1 i mks reflect] that ids by (auto simp: same_shape_def)
  have I0: "?I (e, sg)" using inv by (simp add: same_shape_def)
  have "\<exists>s. go_fold (StartServer rnd mks reflect) (sg_all sg) (e, sg) = Inr s \<and> ?I s"
    by (rule go_fold_total [where P = ?I, OF _ I0]) (use step in fastforce)
  then obtain e' sg' where f: "go_fold (StartServer rnd mks reflect) (sg_all sg) (e, sg) = Inr (e', sg')" and I: "?I (e', sg')"
    by auto
  have "is_up (sg_gid sg) i (fst (e', sg'))" if i: "i \<in> sg_ids sg" for i
  proof (rule go_fold_establish [where I = ?I and P = "\<lambda>s. is_up (sg_gid sg) i (fst s)", OF i [folded ids] I0 f])
    fix y s s' assume "y \<in> set (sg_all sg)" "?I s" "StartServer rnd mks reflect y s = Inr s'"
    then show "?I s'" using step [of y "fst s" "snd s"] by auto
  next
    fix s s' assume "?I s" "StartServer rnd mks reflect i s = Inr s'"
    then show "is_up (sg_gid sg) i (fst s')" using step [of i "fst s" "snd s"] i ids by auto
  next
    fix y s s' assume "y \<in> set (sg_all sg)" "?I s" "is_up (sg_gid sg) i (fst s)" "StartServer rnd mks reflect y s = Inr s'"
    then show "is_up (sg_gid sg) i (fst s')" using step [of y "fst s" "snd s"] by auto
  qed
  then show ?thesis using f I by (simp add: start_def)
qed

text \<open>Every two servers of a group are connected.\<close>

definition all_connected :: "'s env \<Rightarrow> 'svc ServerGrp \<Rightarrow> bool" where
  "all_connected e sg \<longleftrightarrow> (\<forall>i \<in> sg_ids sg. \<forall>j \<in> sg_ids sg. n_enabled (e_net e) (sg_end sg i j) \<and>
     n_connections (e_net e) (sg_end sg i j) = Some (ServerName (sg_gid sg) j))"

lemma ConnectAll_total:
  assumes inv: "grp_inv rnd (e, sg)"
  shows "\<exists>e' sg'. on_net sg_ConnectAll (e, sg) = Inr (e', sg') \<and> grp_inv rnd (e', sg') \<and> same_shape sg sg' \<and> all_connected e' sg' \<and>
    (\<forall>gid i. is_up gid i e' = is_up gid i e)"
proof -
  have wf: "sg_wf sg" using grp_invD(1) [OF inv] .
  have ids: "set (sg_all sg) = sg_ids sg" by (simp add: sg_all_def image_int_atLeastLessThan)
  obtain T sg' where T: "go_fold ConnectOne (sg_all sg) (e_net e, sg) = Inr (enable_set True T (e_net e), sg')" "same_group sg sg'"
      "\<forall>i \<in> set (sg_all sg). ends_out sg i (sg_all sg) \<subseteq> T"
    using ConnectOne_fold [OF wf, of "sg_all sg" "e_net e"] ids by blast
  let ?e = "e\<lparr>e_net := enable_set True T (e_net e)\<rparr>"
  have c: "on_net sg_ConnectAll (e, sg) = Inr (?e, sg')" using T(1) by (simp add: on_net_def sg_ConnectAll_def)
  have en: "sg_ConnectAll s = Inr s' \<Longrightarrow> enabling s s'" for s s' :: "Network \<times> 'b ServerGrp"
    by (cases s) (auto simp: sg_ConnectAll_def ConnectOne_def elim!: go_fold_enabling [rotated] intro: connect_enabling split: prod.splits)
  have inv': "grp_inv rnd (?e, sg')" by (rule on_net_inv [OF en inv c])
  have "enabling (e_net e, sg) (enable_set True T (e_net e), sg')" by (rule en) (use T(1) in \<open>simp add: sg_ConnectAll_def\<close>)
  then have shape: "same_shape sg sg'" by (auto simp: enabling_def same_shape_def)
  have "n_enabled (e_net ?e) (sg_end sg' i j)" if "i \<in> sg_ids sg'" "j \<in> sg_ids sg'" for i j
  proof -
    have "i \<in> set (sg_all sg)" "j \<in> set (sg_all sg)" using that shape ids by (auto simp: same_shape_def)
    then have "sg_end sg i j \<in> T" using T(3) by (auto simp: ends_out_def)
    then show ?thesis using same_group_keeps(2) [OF T(2)] by simp
  qed
  then have "all_connected ?e sg'" using grp_invD(2) [OF inv'] by (simp add: all_connected_def)
  then show ?thesis using c inv' shape by (auto simp: is_up_def enable_set_def)
qed

lemma MakeGroupStart_total:
  assumes "inj rnd" and "names_fresh rnd (gs_env gs)"
  shows "\<exists>e sg. MakeGroupStart rnd mks reflect gid n gs = Inr \<lparr>gs_env = e, gs_grps = (gs_grps gs)(gid \<mapsto> sg)\<rparr> \<and>
    grp_inv rnd (e, sg) \<and> sg_gid sg = gid \<and> sg_N sg = n \<and> SrvNames sg = map (\<lambda>i. ServerName gid (int i)) [0..<n] \<and>
    (\<forall>i<n. is_up gid (int i) e) \<and> all_connected e sg"
proof -
  obtain e1 and sg1 :: "'b ServerGrp" where m: "makeSrvGrp rnd gid n (gs_env gs) = Inr (e1, sg1)" "grp_inv rnd (e1, sg1)" "sg_gid sg1 = gid"
    "length (sg_srvs sg1) = n" "sg_servernames sg1 = map (\<lambda>i. ServerName gid (int i)) [0..<n]"
    using makeSrvGrp_total [OF assms] by blast
  obtain e2 sg2 where s: "start rnd mks reflect (e1, sg1) = Inr (e2, sg2)" "grp_inv rnd (e2, sg2)" "same_shape sg1 sg2"
    "\<forall>i \<in> sg_ids sg1. is_up (sg_gid sg1) i e2"
    using start_total [OF assms(1) m(2)] by blast
  obtain e3 sg3 where c: "on_net sg_ConnectAll (e2, sg2) = Inr (e3, sg3)" "grp_inv rnd (e3, sg3)" "same_shape sg2 sg3"
    "all_connected e3 sg3" "\<forall>gid i. is_up gid i e3 = is_up gid i e2"
    using ConnectAll_total [OF s(2)] by blast
  have "MakeGroupStart rnd mks reflect gid n gs = Inr \<lparr>gs_env = e3, gs_grps = (gs_grps gs)(gid \<mapsto> sg3)\<rparr>"
    using m(1) s(1) c(1) by (simp add: MakeGroupStart_def MakeGroup_def on_group_def lookupGroup_def StartServers_def)
  moreover have "\<forall>i<n. is_up gid (int i) e3" using c(5) s(4) m(3,4) by simp
  ultimately show ?thesis
    using c s(3) m by (intro exI [of _ e3] exI [of _ sg3]) (simp add: same_shape_def sg_N_def SrvNames_def)
qed

text \<open>The network's flags do not matter to what is up and connected.\<close>

lemma set_reliable_keeps:
  "is_up gid i (e\<lparr>e_net := Reliable net b\<rparr>) = is_up gid i (e\<lparr>e_net := net\<rparr>)"
  "all_connected (e\<lparr>e_net := Reliable net b\<rparr>) sg = all_connected (e\<lparr>e_net := net\<rparr>) sg"
  by (simp_all add: is_up_def all_connected_def Reliable_def)

text \<open>
  C34: every configuration can be made. Whatever server the test is about, and however many it asks for, \<open>MakeConfig\<close> returns, if end-point
  names never repeat: the group of the test has as many servers as were asked for, with the names they are called by; every one of them is up;
  and the end-point of every two of them is enabled and leads to the server it is meant for. The network is
  as reliable as asked for, and no end-point has a name that is still to be drawn.
\<close>

theorem config_is_made:
  fixes mks :: "'svc starter" and reflect :: "'svc \<Rightarrow> 's Service"
  assumes "inj rnd"
  shows "\<exists>cfg sg. MakeConfig rnd mks reflect n reliable now = Inr cfg \<and> Config_Group cfg GRP0 = Inr sg \<and> sg_N sg = n \<and>
    SrvNames sg = map (\<lambda>i. ServerName GRP0 (int i)) [0..<n] \<and> (\<forall>i<n. is_up GRP0 (int i) (gs_env (cf_groups cfg))) \<and>
    all_connected (gs_env (cf_groups cfg)) sg \<and> Config_IsReliable cfg = reliable \<and> names_fresh rnd (gs_env (cf_groups cfg))"
proof -
  let ?gs = "newGroups \<lparr>e_net = MakeNetwork, e_rnd = 0, e_pers = [], e_labs = []\<rparr> :: ('s, 'svc) Groups"
  have "names_fresh rnd (gs_env ?gs)" by (simp add: newGroups_def names_fresh_def MakeNetwork_def)
  from MakeGroupStart_total [OF assms this, of mks reflect GRP0 n] obtain e sg where
    m: "MakeGroupStart rnd mks reflect GRP0 n ?gs = Inr \<lparr>gs_env = e, gs_grps = (gs_grps ?gs)(GRP0 \<mapsto> sg)\<rparr>"
    and sg: "grp_inv rnd (e, sg)" "sg_N sg = n" "SrvNames sg = map (\<lambda>i. ServerName GRP0 (int i)) [0..<n]"
      "\<forall>i<n. is_up GRP0 (int i) e" "all_connected e sg" by blast
  let ?cfg = "set_net (\<lambda>net. Reliable net reliable)
     \<lparr>cf_groups = \<lparr>gs_env = e, gs_grps = (gs_grps ?gs)(GRP0 \<mapsto> sg)\<rparr>, cf_clnts = makeClnts, cf_start = now, cf_t0 = 0, cf_rpcs0 = 0,
      cf_ops = 0, cf_failed = False\<rparr>"
  have "MakeConfig rnd mks reflect n reliable now = Inr ?cfg" using m by (simp add: MakeConfig_def)
  moreover have "Config_Group ?cfg GRP0 = Inr sg" by (simp add: Config_Group_def set_net_def lookupGroup_def)
  moreover have env: "gs_env (cf_groups ?cfg) = e\<lparr>e_net := Reliable (e_net e) reliable\<rparr>" by (simp add: set_net_def)
  moreover have "names_fresh rnd (gs_env (cf_groups ?cfg))" "Config_IsReliable ?cfg = reliable"
    using sg(1) env by (auto simp: grp_inv_def srvs_ok_def names_fresh_def Reliable_def Config_IsReliable_def IsReliable_def)
  ultimately show ?thesis
    using sg(2-5) by (intro exI [of _ ?cfg] exI [of _ sg]) (simp add: set_reliable_keeps)
qed

theorem config_is_made_witness:
  "\<exists>cfg sg. MakeConfig digits (\<lambda>_ _ _ _ pers. ([()], pers)) (\<lambda>_. MakeService ''Nop'' []) 3 True 0 = Inr (cfg :: (unit, unit) Config) \<and>
     Config_Group cfg GRP0 = Inr sg \<and> sg_N sg = 3 \<and> is_up GRP0 2 (gs_env (cf_groups cfg)) \<and>
     n_enabled (e_net (gs_env (cf_groups cfg))) (sg_end sg 0 2)"
proof -
  obtain cfg :: "(unit, unit) Config" and sg where
    "MakeConfig digits (\<lambda>_ _ _ _ pers. ([()], pers)) (\<lambda>_. MakeService ''Nop'' []) 3 True 0 = Inr cfg"
    "Config_Group cfg GRP0 = Inr sg" "sg_N sg = 3" "\<forall>i<3. is_up GRP0 (int i) (gs_env (cf_groups cfg))" "all_connected (gs_env (cf_groups cfg)) sg"
    using config_is_made [OF inj_digits, of "\<lambda>_ _ _ _ pers. ([()], pers)" "\<lambda>_. MakeService ''Nop'' []" 3 True 0] by blast
  moreover from this(4) have "is_up GRP0 (int 2) (gs_env (cf_groups cfg))" by (auto simp del: of_nat_numeral)
  ultimately show ?thesis by (auto simp: all_connected_def sg_N_def)
qed

section \<open>Begin and end of a test\<close>

text \<open>\<open>crand.Int\<close> returns a random number below its argument; the random number is a parameter.\<close>

definition makeSeed :: "(int \<Rightarrow> int) \<Rightarrow> 64 word" where
  "makeSeed crand_Int = (let max = 2 ^ 62; bigx = crand_Int max in word_of_int bigx)"

text \<open>The first configuration of a process warns about a single CPU and seeds the random numbers: the lines printed and the seed.\<close>

definition MakeConfig_once :: "bool \<Rightarrow> int \<Rightarrow> (int \<Rightarrow> int) \<Rightarrow> 64 word option \<Rightarrow> bool \<times> string list \<times> 64 word option" where
  "MakeConfig_once ncpu_once numCPU crand_Int seed =
     (if ncpu_once then (True, [], seed)
      else (True, if numCPU < 2 then [''warning: only one CPU, which may conceal locking bugs''] else [], Some (makeSeed crand_Int)))"

definition Begin_line :: "string \<Rightarrow> ('s, 'svc) Config \<Rightarrow> string" where
  "Begin_line description cfg =
     (let rel = (if \<not> IsReliable (cf_net cfg) then ''unreliable'' else ''reliable'')
      in description @ '' ('' @ rel @ '' network)...'')"

text \<open>\<open>strings.Contains\<close>.\<close>

fun strings_Contains :: "string \<Rightarrow> string \<Rightarrow> bool" where
  "strings_Contains [] sub = (sub = [])"
| "strings_Contains (c # cs) sub = (take (length sub) (c # cs) = sub \<or> strings_Contains cs sub)"

text \<open>
  \<open>Fatalf\<close>: the lines it prints, and how it ends. At most 50 frames of the callers are read, and only those in test files are printed.
\<close>

definition Config_Fatalf :: "string \<Rightarrow> (string \<times> int) list \<Rightarrow> string list \<times> go_exn" where
  "Config_Fatalf msg callers =
     (let pc = take 50 callers
      in if length pc = 0 then ([''Fatal: '' @ msg], Panic)
         else ((''Fatal: '' @ msg) #
                 map (\<lambda>(file, line). ''        '' @ file @ '':'' @ strconv_Itoa line) (filter (\<lambda>(file, line). strings_Contains file ''test.go'') pc),
               Fatal))"

text \<open>A seed is a number below \<open>2 ^ 62\<close>; only the first configuration sets it.\<close>

lemma makeSeed_bounds:
  assumes "\<And>m. 0 < m \<Longrightarrow> 0 \<le> crand_Int m \<and> crand_Int m < m"
  shows "sint (makeSeed crand_Int) = crand_Int (2 ^ 62)" "0 \<le> sint (makeSeed crand_Int)"
proof -
  have b: "0 \<le> crand_Int (2 ^ 62)" "crand_Int (2 ^ 62) < 2 ^ 62" using assms [of "2 ^ 62"] by simp_all
  then show "sint (makeSeed crand_Int) = crand_Int (2 ^ 62)"
    by (simp add: makeSeed_def signed_of_int signed_take_bit_int_eq_self)
  then show "0 \<le> sint (makeSeed crand_Int)" using b by simp
qed

lemma MakeConfig_once_twice:
  "MakeConfig_once (fst (MakeConfig_once once n f seed)) n' f' (snd (snd (MakeConfig_once once n f seed))) =
     (True, [], snd (snd (MakeConfig_once once n f seed)))"
  by (simp add: MakeConfig_once_def)

lemma strings_Contains_iff: "strings_Contains s sub \<longleftrightarrow> (\<exists>us vs. s = us @ sub @ vs)"
proof (induction s)
  case (Cons c cs)
  have "take (length sub) (c # cs) = sub \<longleftrightarrow> (\<exists>vs. c # cs = sub @ vs)"
    by (metis append_eq_conv_conj append_take_drop_id)
  then show ?case using Cons by (auto simp: Cons_eq_append_conv)
qed auto

lemma Config_Fatalf_prints_tests:
  assumes "callers \<noteq> []"
  shows "Config_Fatalf msg callers =
    ((''Fatal: '' @ msg) # map (\<lambda>(file, line). ''        '' @ file @ '':'' @ strconv_Itoa line)
       (filter (\<lambda>(file, line). \<exists>us vs. file = us @ ''test.go'' @ vs) (take 50 callers)), Fatal)"
  using assms by (simp add: Config_Fatalf_def strings_Contains_iff)

end
