(* ===== verification/RaftChecks.thy ===== *)
theory RaftChecks
  imports RaftAgreement TesterSetup
begin

text \<open>
  The checks that the Raft tests are written with, \<^verbatim>\<open>src/raft1/test.go\<close>: who is the leader, do the terms agree, get one
  command committed, wait for a commit; and the restart of a server.

  The checks look at the servers again and again, while the peers run. What they see is a script: a scene for every
  look, with the test's state, the flags \<open>connected\<close> of the group, and the answers of the peers to \<open>GetState\<close> and \<open>Start\<close> at that time, by
  the address of their test server. Nothing is assumed of the peers. A script that ends too early gives \<open>None\<close>: the check is
  still running. The range over a map takes any order, given by \<open>ord\<close>.
\<close>

section \<open>Scenes\<close>

record 'c scene =
  sn_test :: "'c raft_test"
  sn_connected :: "bool list"
  sn_GetState :: "nat \<Rightarrow> int \<times> bool"
  sn_Start :: "nat \<Rightarrow> int \<times> int \<times> bool"

definition scene_IsConnected :: "'c scene \<Rightarrow> nat \<Rightarrow> bool go" where
  "scene_IsConnected sn i = slice_get (sn_connected sn) (int i)"

text \<open>\<open>ts.srvs[i].GetState()\<close>: a server that was never made is a nil pointer.\<close>

definition srv_GetState :: "'c scene \<Rightarrow> nat \<Rightarrow> (int \<times> bool) go" where
  "srv_GetState sn i =
     go_bind (slice_get (rt_srvs (sn_test sn)) (int i)) (\<lambda>p.
       case p of None \<Rightarrow> Inl Panic | Some a \<Rightarrow> Inr (sn_GetState sn a))"

section \<open>Leaders and terms\<close>

definition checkOneLeader_srv :: "'c scene \<Rightarrow> nat \<Rightarrow> (int \<rightharpoonup> nat list) \<Rightarrow> (int \<rightharpoonup> nat list) go" where
  "checkOneLeader_srv sn i leaders =
     go_bind (scene_IsConnected sn i) (\<lambda>c.
       if c then go_bind (srv_GetState sn i) (\<lambda>(term, leader).
         Inr (if leader then leaders(term \<mapsto> (case leaders term of None \<Rightarrow> [] | Some is \<Rightarrow> is) @ [i]) else leaders))
       else Inr leaders)"

definition checkOneLeader_term :: "(int \<rightharpoonup> nat list) \<Rightarrow> int \<Rightarrow> int \<Rightarrow> int go" where
  "checkOneLeader_term leaders term lastTermWithLeader =
     (if length (the (leaders term)) > 1 then Inl Fatal
      else Inr (if term > lastTermWithLeader then term else lastTermWithLeader))"

text \<open>One iteration; \<open>None\<close> if there is no leader yet.\<close>

definition checkOneLeader_iter :: "((int \<rightharpoonup> nat list) \<Rightarrow> int list) \<Rightarrow> nat \<Rightarrow> 'c scene \<Rightarrow> nat option go" where
  "checkOneLeader_iter ord n sn =
     go_bind (go_fold (checkOneLeader_srv sn) [0..<n] Map.empty) (\<lambda>leaders.
     go_bind (go_fold (checkOneLeader_term leaders) (ord leaders) (-1)) (\<lambda>lastTermWithLeader.
       if leaders \<noteq> Map.empty
       then go_bind (slice_get (case leaders lastTermWithLeader of None \<Rightarrow> [] | Some is \<Rightarrow> is) 0) (\<lambda>i. Inr (Some i))
       else Inr None))"

fun checkOneLeader :: "((int \<rightharpoonup> nat list) \<Rightarrow> int list) \<Rightarrow> nat \<Rightarrow> nat \<Rightarrow> 'c scene list \<Rightarrow> nat go option" where
  "checkOneLeader ord n iters [] = (if iters < 10 then None else Some (Inl Fatal))"
| "checkOneLeader ord n iters (sn # sns) =
     (if iters < 10
      then case checkOneLeader_iter ord n sn of
             Inl x \<Rightarrow> Some (Inl x)
           | Inr (Some i) \<Rightarrow> Some (Inr i)
           | Inr None \<Rightarrow> checkOneLeader ord n (Suc iters) sns
      else Some (Inl Fatal))"

definition checkTerms_srv :: "'c scene \<Rightarrow> nat \<Rightarrow> int \<Rightarrow> int go" where
  "checkTerms_srv sn i term =
     go_bind (scene_IsConnected sn i) (\<lambda>c.
       if c then go_bind (srv_GetState sn i) (\<lambda>(xterm, _).
         if term = -1 then Inr xterm else if term \<noteq> xterm then Inl Fatal else Inr term)
       else Inr term)"

definition checkTerms :: "nat \<Rightarrow> 'c scene \<Rightarrow> int go" where
  "checkTerms n sn = go_fold (checkTerms_srv sn) [0..<n] (-1)"

definition checkNoLeader_srv :: "'c scene \<Rightarrow> nat \<Rightarrow> unit \<Rightarrow> unit go" where
  "checkNoLeader_srv sn i u =
     go_bind (scene_IsConnected sn i) (\<lambda>c.
       if c then go_bind (srv_GetState sn i) (\<lambda>(_, is_leader). if is_leader then Inl Fatal else Inr ()) else Inr ())"

definition checkNoLeader :: "nat \<Rightarrow> 'c scene \<Rightarrow> unit go" where
  "checkNoLeader n sn = go_fold (checkNoLeader_srv sn) [0..<n] ()"

section \<open>One agreement\<close>

text \<open>\<open>for range ts.srvs\<close>: \<open>k\<close> rounds are left. The peer of a killed server is nil, and is passed over.\<close>

fun one_start :: "'c scene \<Rightarrow> nat \<Rightarrow> nat \<Rightarrow> (nat \<times> int) go" where
  "one_start sn starts 0 = Inr (starts, -1)"
| "one_start sn starts (Suc k) =
     (let starts = (starts + 1) mod length (rt_srvs (sn_test sn))
      in go_bind (scene_IsConnected sn starts) (\<lambda>c.
         go_bind (if c
                  then go_bind (slice_get (rt_srvs (sn_test sn)) (int starts)) (\<lambda>p.
                    case p of
                      None \<Rightarrow> Inl Panic
                    | Some a \<Rightarrow> Inr (if rs_raft (rt_heap (sn_test sn) ! a) \<noteq> None then Some a else None))
                  else Inr None) (\<lambda>rf.
         case rf of
           None \<Rightarrow> one_start sn starts k
         | Some a \<Rightarrow>
             (let (index1, _, ok) = sn_Start sn a in if ok then Inr (starts, index1) else one_start sn starts k))))"

text \<open>
  The polls of \<open>nCommitted\<close>, with the times at which the loop looks at the clock, in nanoseconds: \<open>Some\<close> of
  \<open>Inr True\<close> if the command was committed, and of \<open>Inr False\<close> if two seconds have passed.
\<close>

fun one_wait :: "'c option \<Rightarrow> int \<Rightarrow> int \<Rightarrow> int \<Rightarrow> (int \<times> 'c raft_test) list \<Rightarrow> bool go option" where
  "one_wait cmd expectedServers index t1 [] = None"
| "one_wait cmd expectedServers index t1 ((now, ts) # polls) =
     (if now - t1 < 2 * 1000000000
      then case nCommitted index ts of
             Inl x \<Rightarrow> Some (Inl x)
           | Inr (nd, cmd1) \<Rightarrow>
               if nd > 0 \<and> nd \<ge> expectedServers \<and> cmd1 = cmd then Some (Inr True)
               else one_wait cmd expectedServers index t1 polls
      else Some (Inr False))"

text \<open>An iteration of the outer loop: the time and the flag \<open>finished\<close> at its head, the scene of the calls of \<open>Start\<close>, and the polls.\<close>

record 'c one_round =
  or_now :: int
  or_finished :: bool
  or_start :: "'c scene"
  or_t1 :: int
  or_polls :: "(int \<times> 'c raft_test) list"
  or_finished_after :: bool

fun one_loop :: "'c option \<Rightarrow> int \<Rightarrow> bool \<Rightarrow> int \<Rightarrow> nat \<Rightarrow> 'c one_round list \<Rightarrow> int go option" where
  "one_loop cmd expectedServers retry t0 starts [] = None"
| "one_loop cmd expectedServers retry t0 starts (r # rounds) =
     (if or_now r - t0 < 10 * 1000000000 \<and> or_finished r = False
      then case one_start (or_start r) starts (length (rt_srvs (sn_test (or_start r)))) of
             Inl x \<Rightarrow> Some (Inl x)
           | Inr (starts, index) \<Rightarrow>
               if index \<noteq> -1
               then (case one_wait cmd expectedServers index (or_t1 r) (or_polls r) of
                       None \<Rightarrow> None
                     | Some (Inl x) \<Rightarrow> Some (Inl x)
                     | Some (Inr True) \<Rightarrow> Some (Inr index)
                     | Some (Inr False) \<Rightarrow>
                         if retry = False then Some (Inl Fatal) else one_loop cmd expectedServers retry t0 starts rounds)
               else one_loop cmd expectedServers retry t0 starts rounds
      else Some (if or_finished_after r = False then Inl Fatal else Inr (-1)))"

definition one :: "'c option \<Rightarrow> int \<Rightarrow> bool \<Rightarrow> int \<Rightarrow> 'c one_round list \<Rightarrow> int go option" where
  "one cmd expectedServers retry t0 rounds = one_loop cmd expectedServers retry t0 0 rounds"

section \<open>Waiting for a commit\<close>

text \<open>The result is a value of the type \<open>any\<close>: the integer -1, or the command.\<close>

datatype 'c waited = MovedOn | Decided "'c option"

fun moved_on :: "'c scene \<Rightarrow> int \<Rightarrow> nat option list \<Rightarrow> bool go" where
  "moved_on sn startTerm [] = Inr False"
| "moved_on sn startTerm (p # ps) =
     (case p of
        None \<Rightarrow> Inl Panic
      | Some a \<Rightarrow> if fst (sn_GetState sn a) > startTerm then Inr True else moved_on sn startTerm ps)"

text \<open>The last look, when the loop is left.\<close>

definition wait_last :: "int \<Rightarrow> int \<Rightarrow> 'c raft_test \<Rightarrow> 'c waited go" where
  "wait_last index n ts = go_bind (nCommitted index ts) (\<lambda>(nd, cmd). if nd < n then Inl Fatal else Inr (Decided cmd))"

text \<open>
  The loop: every iteration sees a scene before its sleep and one after it, \<open>slept\<close> is the time it has slept, in
  milliseconds. The scene after the loop is the last argument.
\<close>

fun wait_loop ::
  "int \<Rightarrow> int \<Rightarrow> int \<Rightarrow> nat \<Rightarrow> int \<Rightarrow> int \<Rightarrow> ('c scene \<times> 'c scene) list \<Rightarrow> 'c scene \<Rightarrow> ('c waited go \<times> int) option" where
  "wait_loop index n startTerm iters to slept [] final =
     (if iters < 30 then None else Some (wait_last index n (sn_test final), slept))"
| "wait_loop index n startTerm iters to slept ((sn, sn') # sns) final =
     (if iters < 30
      then case nCommitted index (sn_test sn) of
             Inl x \<Rightarrow> Some (Inl x, slept)
           | Inr (nd, _) \<Rightarrow>
               if nd \<ge> n then Some (wait_last index n (sn_test final), slept)
               else (let slept = slept + to; to = (if to < 1000 then to * 2 else to)
                     in if startTerm > -1
                        then (case moved_on sn' startTerm (rt_srvs (sn_test sn')) of
                                Inl x \<Rightarrow> Some (Inl x, slept)
                              | Inr True \<Rightarrow> Some (Inr MovedOn, slept)
                              | Inr False \<Rightarrow> wait_loop index n startTerm (Suc iters) to slept sns final)
                        else wait_loop index n startTerm (Suc iters) to slept sns final)
      else Some (wait_last index n (sn_test final), slept))"

definition wait :: "int \<Rightarrow> int \<Rightarrow> int \<Rightarrow> ('c scene \<times> 'c scene) list \<Rightarrow> 'c scene \<Rightarrow> ('c waited go \<times> int) option" where
  "wait index n startTerm sns final = wait_loop index n startTerm 0 10 0 sns final"

section \<open>Making a test, restart and cleanup\<close>

text \<open>The configuration of a test, and its group of servers; what \<open>mksrv\<close> starts is a parameter here.\<close>

definition makeTest_config ::
  "(nat \<Rightarrow> string) \<Rightarrow> 'svc starter \<Rightarrow> ('svc \<Rightarrow> 's Service) \<Rightarrow> nat \<Rightarrow> bool \<Rightarrow> int \<Rightarrow> (('s, 'svc) Config \<times> 'svc ServerGrp) go" where
  "makeTest_config rnd mks reflect n reliable now =
     go_bind (MakeConfig rnd mks reflect n reliable now) (\<lambda>cfg.
     let cfg = SetLongDelays True cfg in go_bind (Config_Group cfg GRP0) (\<lambda>g. Inr (cfg, g)))"

definition rfsrv_Raft :: "'c rfsrv \<Rightarrow> Raft option" where
  "rfsrv_Raft rs = rs_raft rs"

text \<open>The lines printed so far; nothing is printed.\<close>

definition Debug :: bool where
  "Debug = False"

definition DPrintf :: "string \<Rightarrow> string list \<Rightarrow> string list" where
  "DPrintf msg out = (if Debug then out @ [msg] else out)"

definition checkFinished :: "int \<Rightarrow> bool" where
  "checkFinished finished \<longleftrightarrow> finished \<noteq> 0"

definition restart ::
  "(nat \<Rightarrow> string) \<Rightarrow> 'svc starter \<Rightarrow> ('svc \<Rightarrow> 's Service) \<Rightarrow> int \<Rightarrow> ('s, 'svc) Groups \<Rightarrow> ('s, 'svc) Groups go" where
  "restart rnd mks reflect i gs =
     go_bind (on_group (StartServer rnd mks reflect i) GRP0 gs) (on_group (on_net sg_ConnectAll) GRP0)"

text \<open>The limit is checked three times; the flag \<open>finished\<close> is the first component.\<close>

definition raft_cleanup ::
  "('svc \<Rightarrow> Persister list \<Rightarrow> Persister list) \<Rightarrow> int list \<Rightarrow> nat list \<Rightarrow> int \<Rightarrow> int \<Rightarrow> int \<Rightarrow> ('s, 'svc) Config \<Rightarrow> dir \<Rightarrow>
     (int \<times> ('s, 'svc) Config \<times> dir) go" where
  "raft_cleanup Kill gids cs now1 now2 now3 cfg d =
     go_bind (End now1 cfg) (\<lambda>_.
     go_bind (Config_Cleanup Kill gids cs now2 cfg d) (\<lambda>(cfg, d).
     go_bind (CheckTimeout now3 cfg) (\<lambda>cfg. Inr (1, cfg, d))))"

section \<open>What the checks see\<close>

text \<open>Server \<open>i\<close> is connected and says that it leads in term \<open>t\<close>.\<close>

definition leads :: "'c scene \<Rightarrow> nat \<Rightarrow> int \<Rightarrow> bool" where
  "leads sn i t \<longleftrightarrow> sn_connected sn ! i \<and> srv_GetState sn i = Inr (t, True)"

text \<open>A scene in which all \<open>n\<close> servers have been made; terms are not negative.\<close>

definition scene_ok :: "nat \<Rightarrow> 'c scene \<Rightarrow> bool" where
  "scene_ok n sn \<longleftrightarrow> length (sn_connected sn) = n \<and> length (rt_srvs (sn_test sn)) = n \<and> None \<notin> set (rt_srvs (sn_test sn)) \<and>
     (\<forall>a. 0 \<le> fst (sn_GetState sn a))"

definition no_leader :: "nat \<Rightarrow> 'c scene \<Rightarrow> bool" where
  "no_leader n sn \<longleftrightarrow> \<not> (\<exists>i<n. \<exists>t. leads sn i t)"

definition split_term :: "nat \<Rightarrow> 'c scene \<Rightarrow> bool" where
  "split_term n sn \<longleftrightarrow> (\<exists>t. \<exists>i<n. \<exists>j<i. leads sn i t \<and> leads sn j t)"

text \<open>Server \<open>l\<close> leads in the highest term that has a leader, and no term has two.\<close>

definition elected :: "nat \<Rightarrow> 'c scene \<Rightarrow> nat \<Rightarrow> bool" where
  "elected n sn l \<longleftrightarrow> \<not> split_term n sn \<and> l < n \<and> (\<exists>t. leads sn l t \<and> (\<forall>i<n. \<forall>t'. leads sn i t' \<longrightarrow> i = l \<or> t' < t))"

lemma scene_okD:
  assumes "scene_ok n sn" and "i < n"
  shows "scene_IsConnected sn i = Inr (sn_connected sn ! i)" "\<exists>t b. srv_GetState sn i = Inr (t, b) \<and> 0 \<le> t"
proof -
  show "scene_IsConnected sn i = Inr (sn_connected sn ! i)"
    using assms by (simp add: scene_ok_def scene_IsConnected_def slice_get_def)
  have "rt_srvs (sn_test sn) ! i \<noteq> None" using assms nth_mem [of i "rt_srvs (sn_test sn)"] by (metis scene_ok_def)
  then obtain a where "rt_srvs (sn_test sn) ! i = Some a" by blast
  then show "\<exists>t b. srv_GetState sn i = Inr (t, b) \<and> 0 \<le> t"
    using assms by (cases "sn_GetState sn a") (auto simp: scene_ok_def srv_GetState_def slice_get_def dest: spec [of _ a])
qed

section \<open>Who is the leader\<close>

definition leaders_of :: "'c scene \<Rightarrow> nat \<Rightarrow> int \<Rightarrow> nat list" where
  "leaders_of sn n t = filter (\<lambda>i. leads sn i t) [0..<n]"

definition leaders_map :: "'c scene \<Rightarrow> nat \<Rightarrow> (int \<rightharpoonup> nat list)" where
  "leaders_map sn n = (\<lambda>t. if leaders_of sn n t = [] then None else Some (leaders_of sn n t))"

lemma checkOneLeader_fold:
  assumes "scene_ok N sn" and "n \<le> N"
  shows "go_fold (checkOneLeader_srv sn) [0..<n] Map.empty = Inr (leaders_map sn n)"
  using assms(2)
proof (induction n)
  case 0
  then show ?case by (simp add: leaders_map_def leaders_of_def)
next
  case (Suc n)
  obtain t b where s: "srv_GetState sn n = Inr (t, b)" using scene_okD(2) [OF assms(1), of n] Suc.prems by auto
  have "checkOneLeader_srv sn n (leaders_map sn n) = Inr (leaders_map sn (Suc n))"
    using scene_okD(1) [OF assms(1), of n] Suc.prems s
    by (auto simp: checkOneLeader_srv_def leaders_map_def leaders_of_def leads_def fun_eq_iff)
  then show ?case using Suc by (simp add: go_fold_append)
qed

lemma checkOneLeader_terms:
  "go_fold (checkOneLeader_term leaders) ts m =
     (if \<exists>t \<in> set ts. length (the (leaders t)) > 1 then Inl Fatal else Inr (Max (insert m (set ts))))"
proof (induction ts arbitrary: m)
  case (Cons t ts)
  have "Max (insert (if t > m then t else m) (set ts)) = Max (insert m (insert t (set ts)))"
    by (cases "ts = []") (auto simp: max_def)
  then show ?case using Cons by (auto simp: checkOneLeader_term_def)
qed simp

lemma leaders_of_set: "set (leaders_of sn n t) = {i. i < n \<and> leads sn i t}"
  by (auto simp: leaders_of_def)

lemma leaders_of_two: "length (leaders_of sn n t) > 1 \<longleftrightarrow> (\<exists>i<n. \<exists>j<i. leads sn i t \<and> leads sn j t)"
proof
  assume a: "length (leaders_of sn n t) > 1"
  let ?xs = "leaders_of sn n t"
  have "sorted_wrt (<) ?xs" by (simp add: leaders_of_def sorted_wrt_filter)
  then have "?xs ! 0 < ?xs ! 1" using a by (auto intro: sorted_wrt_nth_less)
  moreover have "?xs ! 0 \<in> set ?xs" "?xs ! 1 \<in> set ?xs" using a by (auto intro: nth_mem)
  ultimately show "\<exists>i<n. \<exists>j<i. leads sn i t \<and> leads sn j t" unfolding leaders_of_set by blast
next
  assume "\<exists>i<n. \<exists>j<i. leads sn i t \<and> leads sn j t"
  then obtain i j where "i < n" "j < i" "leads sn i t" "leads sn j t" by blast
  then have "{i, j} \<subseteq> set (leaders_of sn n t)" "i \<noteq> j" by (auto simp: leaders_of_set)
  then have "2 \<le> card (set (leaders_of sn n t))" by (metis card_2_iff card_mono finite_set)
  then show "length (leaders_of sn n t) > 1" using card_length [of "leaders_of sn n t"] by linarith
qed

lemma elected_unique: "elected n sn l \<Longrightarrow> elected n sn l' \<Longrightarrow> l = l'"
  unfolding elected_def by (metis less_asym)

lemma leaders_map_dom: "dom (leaders_map sn n) = {t. \<exists>i<n. leads sn i t}"
  using leaders_of_set [of sn n] by (auto simp: leaders_map_def dom_def set_empty [symmetric] simp del: set_empty split: if_splits)

lemma leaders_map_empty: "leaders_map sn n = Map.empty \<longleftrightarrow> no_leader n sn"
  using leaders_map_dom [of sn n] unfolding no_leader_def dom_eq_empty_conv [symmetric] by auto

lemma leads_nonneg: "scene_ok n sn \<Longrightarrow> i < n \<Longrightarrow> leads sn i t \<Longrightarrow> 0 \<le> t"
  using scene_okD(2) [of n sn i] by (auto simp: leads_def)

lemma leads_one_term: "leads sn i t \<Longrightarrow> leads sn i t' \<Longrightarrow> t = t'"
  by (simp add: leads_def)

lemma checkOneLeader_iter_spec:
  assumes ok: "scene_ok n sn" and ord: "set (ord (leaders_map sn n)) = dom (leaders_map sn n)"
  shows "split_term n sn \<Longrightarrow> checkOneLeader_iter ord n sn = Inl Fatal"
    and "no_leader n sn \<Longrightarrow> checkOneLeader_iter ord n sn = Inr None"
    and "\<not> split_term n sn \<Longrightarrow> \<not> no_leader n sn \<Longrightarrow> \<exists>l. elected n sn l \<and> checkOneLeader_iter ord n sn = Inr (Some l)"
proof -
  let ?m = "leaders_map sn n"
  note fold = checkOneLeader_fold [OF ok order_refl]
  have "t \<in> dom ?m \<and> length (the (?m t)) > 1 \<longleftrightarrow> length (leaders_of sn n t) > 1" for t
    by (auto simp: leaders_map_def dom_def)
  then have "(\<exists>t \<in> set (ord ?m). length (the (?m t)) > 1) \<longleftrightarrow> split_term n sn"
    unfolding ord split_term_def leaders_of_two [symmetric] by blast
  then have terms: "go_fold (checkOneLeader_term ?m) (ord ?m) (-1) =
      (if split_term n sn then Inl Fatal else Inr (Max (insert (-1) (dom ?m))))"
    using checkOneLeader_terms [of ?m "ord ?m" "-1"] ord by simp
  then have iter: "checkOneLeader_iter ord n sn = (if split_term n sn then Inl Fatal else
      if ?m \<noteq> Map.empty then go_bind (slice_get (case ?m (Max (insert (-1) (dom ?m))) of None \<Rightarrow> [] | Some is \<Rightarrow> is) 0) (\<lambda>i. Inr (Some i))
      else Inr None)"
    by (simp add: checkOneLeader_iter_def fold)
  then show "checkOneLeader_iter ord n sn = Inl Fatal" if "split_term n sn"
    using that by simp
  show "checkOneLeader_iter ord n sn = Inr None" if "no_leader n sn"
  proof -
    have "\<not> split_term n sn" using that by (auto simp: no_leader_def split_term_def)
    then show ?thesis using that leaders_map_empty [of sn n] by (simp add: iter)
  qed
  assume one: "\<not> split_term n sn" and "\<not> no_leader n sn"
  then have ne: "?m \<noteq> Map.empty" "dom ?m \<noteq> {}" using leaders_map_empty [of sn n] by auto
  have fin: "finite (dom ?m)" unfolding ord [symmetric] by simp
  let ?t = "Max (insert (-1) (dom ?m))"
  have pos: "0 \<le> t" if "t \<in> dom ?m" for t using that leads_nonneg [OF ok] unfolding leaders_map_dom by blast
  have t: "?t = Max (dom ?m)" "?t \<in> dom ?m"
    using Max_in [OF fin ne(2)] pos [of "Max (dom ?m)"] Max_insert [OF fin ne(2), of "-1"] by auto
  then obtain l where l: "l < n" "leads sn l ?t" unfolding leaders_map_dom by blast
  have same: "i = l" if "i < n" "leads sn i ?t" for i
    using one that l nat_neq_iff [of i l] by (auto simp: split_term_def)
  have "i = l \<or> t' < ?t" if i: "i < n" "leads sn i t'" for i t'
  proof -
    have "t' \<in> dom ?m" using i unfolding leaders_map_dom by blast
    then have "t' \<le> ?t" using t(1) Max_ge [OF fin] by simp
    then show ?thesis using same [of i] i by (cases "t' = ?t") auto
  qed
  with l one have e: "elected n sn l" by (auto simp: elected_def)
  have "set (leaders_of sn n ?t) = {l}"
    unfolding leaders_of_set using l same by blast
  then have "leaders_of sn n ?t \<noteq> []" "leaders_of sn n ?t ! 0 = l"
    using nth_mem [of 0 "leaders_of sn n ?t"] by fastforce+
  then have "slice_get (case ?m ?t of None \<Rightarrow> [] | Some is \<Rightarrow> is) 0 = Inr l"
    by (simp add: leaders_map_def slice_get_def)
  then show "\<exists>l. elected n sn l \<and> checkOneLeader_iter ord n sn = Inr (Some l)"
    unfolding iter using e one ne(1) by (simp only: if_False not_False_eq_True if_True go_bind_simps) blast
qed

text \<open>The first of the scenes in which somebody leads decides.\<close>

definition first_scene :: "nat \<Rightarrow> 'c scene list \<Rightarrow> ('c scene \<Rightarrow> bool) \<Rightarrow> bool" where
  "first_scene n sns P \<longleftrightarrow> (\<exists>k < length sns. (\<forall>j<k. no_leader n (sns ! j)) \<and> P (sns ! k))"

lemma first_scene_simps:
  "first_scene n [] P = False"
  "first_scene n (sn # sns) P \<longleftrightarrow> P sn \<or> no_leader n sn \<and> first_scene n sns P"
proof -
  show "first_scene n [] P = False" by (simp add: first_scene_def)
  show "first_scene n (sn # sns) P \<longleftrightarrow> P sn \<or> no_leader n sn \<and> first_scene n sns P"
    unfolding first_scene_def by (auto simp: Ex_less_Suc2 All_less_Suc2)
qed

lemma leaders_map_finite: "finite (dom (leaders_map sn n))"
proof -
  have "{t. \<exists>i<n. leads sn i t} \<subseteq> (\<lambda>i. case srv_GetState sn i of Inr (t, b) \<Rightarrow> t | Inl _ \<Rightarrow> 0) ` {..<n}"
    by (force simp: leads_def)
  then show ?thesis unfolding leaders_map_dom by (rule finite_subset) simp
qed

lemma elected_leads: "elected n sn l \<Longrightarrow> \<not> no_leader n sn" "elected n sn l \<Longrightarrow> \<not> split_term n sn" "split_term n sn \<Longrightarrow> \<not> no_leader n sn"
  by (auto simp: elected_def no_leader_def split_term_def)

lemma checkOneLeader_loop:
  assumes "\<forall>sn \<in> set sns. scene_ok n sn" and ord: "\<And>m. finite (dom m) \<Longrightarrow> set (ord m) = dom m"
    and "iters + length sns = 10"
  shows "(checkOneLeader ord n iters sns = Some (Inr l) \<longleftrightarrow> first_scene n sns (\<lambda>sn. elected n sn l)) \<and>
    (checkOneLeader ord n iters sns = Some (Inl x) \<longleftrightarrow>
      x = Fatal \<and> (first_scene n sns (split_term n) \<or> list_all (no_leader n) sns)) \<and>
    checkOneLeader ord n iters sns \<noteq> None"
  using assms(1,3)
proof (induction sns arbitrary: iters)
  case (Cons sn sns)
  then have "scene_ok n sn" and iters: "iters < 10" by simp_all
  note spec = checkOneLeader_iter_spec [where ord = ord, OF this(1) ord [OF leaders_map_finite]]
  consider (split) "split_term n sn" | (none) "no_leader n sn" | (lead) l' where "elected n sn l'"
      "checkOneLeader_iter ord n sn = Inr (Some l')"
    using spec(3) by blast
  then show ?case
  proof cases
    case split
    have "checkOneLeader ord n iters (sn # sns) = Some (Inl Fatal)" using iters spec(1) [OF split] by simp
    moreover have "\<not> elected n sn l" "\<not> no_leader n sn" using split elected_leads by blast+
    ultimately show ?thesis using split by (simp add: first_scene_simps eq_commute [of Fatal])
  next
    case none
    have "checkOneLeader ord n iters (sn # sns) = checkOneLeader ord n (Suc iters) sns" using iters spec(2) [OF none] by simp
    moreover have "\<not> elected n sn l" "\<not> split_term n sn" using none elected_leads by blast+
    moreover note Cons.IH [of "Suc iters"]
    ultimately show ?thesis using Cons.prems none by (simp add: first_scene_simps)
  next
    case lead
    have "checkOneLeader ord n iters (sn # sns) = Some (Inr l')" using iters lead(2) by simp
    moreover have "\<not> split_term n sn" "\<not> no_leader n sn" using lead(1) elected_leads by blast+
    moreover have "elected n sn l \<longleftrightarrow> l' = l" using lead(1) elected_unique by blast
    ultimately show ?thesis by (simp add: first_scene_simps)
  qed
qed (auto simp: first_scene_simps)

text \<open>
  C26: \<open>checkOneLeader\<close> finds the leader. Whatever the peers answer, on ten looks at servers that have all been made and whose terms are
  not negative, and in whatever order Go ranges over the map of terms, it returns a server if and only if this server
  leads, at the first look at which a connected server says that it leads, in the highest term that has a leader, and no term has two leaders.
  It fails if and only if at that first look a term has two leaders, or nobody leads at any of the ten. It does nothing else.
\<close>

theorem checkOneLeader_finds_leader:
  assumes "list_all (scene_ok n) sns" and "length sns = 10" and "\<And>m. finite (dom m) \<Longrightarrow> set (ord m) = dom m"
  shows "(checkOneLeader ord n 0 sns = Some (Inr l) \<longleftrightarrow> first_scene n sns (\<lambda>sn. elected n sn l)) \<and>
    (checkOneLeader ord n 0 sns = Some (Inl x) \<longleftrightarrow>
      x = Fatal \<and> (first_scene n sns (split_term n) \<or> list_all (no_leader n) sns)) \<and>
    checkOneLeader ord n 0 sns \<noteq> None"
  using checkOneLeader_loop [of sns n ord 0 l x] assms by (simp add: list_all_iff)

definition two_made :: "string raft_test" where
  "two_made = \<lparr>rt_srvs = [Some 0, Some 1], rt_heap = [], rt_maxIndex = 0, rt_snapshot = False\<rparr>"

text \<open>Two servers, of which the first leads in an old term and the second in a new one; before, nobody leads.\<close>

definition look :: "bool \<Rightarrow> string scene" where
  "look b = \<lparr>sn_test = two_made, sn_connected = [True, True],
     sn_GetState = (\<lambda>a. (if a = 0 then 3 else 5, b)), sn_Start = (\<lambda>a. (-1, 0, False))\<rparr>"

definition range_sorted :: "(int \<rightharpoonup> nat list) \<Rightarrow> int list" where
  "range_sorted m = sorted_list_of_set (dom m)"

lemma look_state: "i < 2 \<Longrightarrow> srv_GetState (look b) i = Inr (if i = 0 then 3 else 5, b)"
  by (auto simp: srv_GetState_def look_def two_made_def slice_get_def less_2_cases_iff)

lemma look_leads: "i < 2 \<Longrightarrow> leads (look b) i t \<longleftrightarrow> b \<and> t = (if i = 0 then 3 else 5)"
  by (auto simp: leads_def look_state, auto simp: look_def less_2_cases_iff)

theorem checkOneLeader_finds_leader_witness:
  "checkOneLeader range_sorted 2 0 (look False # replicate 9 (look True)) = Some (Inr 1)"
proof -
  have ok: "list_all (scene_ok 2) (look False # replicate 9 (look True))"
    by (simp add: list_all_iff scene_ok_def look_def two_made_def)
  have "elected 2 (look True) 1"
    unfolding elected_def split_term_def by (auto simp: look_leads less_2_cases_iff)
  moreover have "no_leader 2 (look False)" by (auto simp: no_leader_def look_leads)
  ultimately have "first_scene 2 (look False # replicate 9 (look True)) (\<lambda>sn. elected 2 sn 1)"
    by (simp add: first_scene_simps eval_nat_numeral)
  moreover have "set (range_sorted m) = dom m" if "finite (dom m)" for m
    using that by (simp add: range_sorted_def)
  ultimately show ?thesis
    using checkOneLeader_finds_leader [OF ok, of range_sorted 1] by simp
qed

section \<open>Terms and the absence of leaders\<close>

lemma checkNoLeader_spec:
  assumes "scene_ok N sn" and "n \<le> N"
  shows "checkNoLeader n sn = (if no_leader n sn then Inr () else Inl Fatal)"
  unfolding checkNoLeader_def using assms(2)
proof (induction n)
  case (Suc n)
  obtain t b where s: "srv_GetState sn n = Inr (t, b)" using scene_okD(2) [OF assms(1), of n] Suc.prems by auto
  have "no_leader (Suc n) sn \<longleftrightarrow> no_leader n sn \<and> \<not> (sn_connected sn ! n \<and> b)"
    using s by (auto simp: no_leader_def leads_def less_Suc_eq)
  then show ?case
    using Suc scene_okD(1) [OF assms(1), of n] s by (auto simp: go_fold_append checkNoLeader_srv_def)
qed (simp add: no_leader_def)

text \<open>\<open>checkTerms\<close> returns the common term of the connected servers, or -1 if there are none, and fails if there are two terms.\<close>

definition term_of :: "'c scene \<Rightarrow> nat \<Rightarrow> int" where
  "term_of sn i = (case srv_GetState sn i of Inr (t, b) \<Rightarrow> t | Inl _ \<Rightarrow> -1)"

lemma checkTerms_srv_eq:
  assumes "scene_ok n sn" and "i < n"
  shows "0 \<le> term_of sn i"
    "checkTerms_srv sn i m =
      (if \<not> sn_connected sn ! i then Inr m else if m = -1 then Inr (term_of sn i) else if m = term_of sn i then Inr m else Inl Fatal)"
proof -
  obtain t b where s: "srv_GetState sn i = Inr (t, b)" "0 \<le> t" using scene_okD(2) [OF assms] by auto
  show "0 \<le> term_of sn i" using s by (simp add: term_of_def)
  show "checkTerms_srv sn i m =
      (if \<not> sn_connected sn ! i then Inr m else if m = -1 then Inr (term_of sn i) else if m = term_of sn i then Inr m else Inl Fatal)"
    using s scene_okD(1) [OF assms] by (simp add: checkTerms_srv_def term_of_def)
qed

lemma checkTerms_same:
  assumes "scene_ok n sn" and "set is \<subseteq> {..<n}" and "0 \<le> m"
  shows "go_fold (checkTerms_srv sn) is m = (if \<forall>i \<in> set is. sn_connected sn ! i \<longrightarrow> term_of sn i = m then Inr m else Inl Fatal)"
  using assms(2) by (induction "is") (use assms(1,3) in \<open>auto simp: checkTerms_srv_eq\<close>)

lemma checkTerms_spec:
  assumes "scene_ok n sn"
  shows "checkTerms n sn =
    (case filter (\<lambda>i. sn_connected sn ! i) [0..<n] of
       [] \<Rightarrow> Inr (-1)
     | i # is \<Rightarrow> if \<forall>j \<in> set is. term_of sn j = term_of sn i then Inr (term_of sn i) else Inl Fatal)"
proof -
  have "go_fold (checkTerms_srv sn) is (-1) =
    (case filter (\<lambda>i. sn_connected sn ! i) is of
       [] \<Rightarrow> Inr (-1)
     | i # is \<Rightarrow> if \<forall>j \<in> set is. term_of sn j = term_of sn i then Inr (term_of sn i) else Inl Fatal)" if "set is \<subseteq> {..<n}" for "is"
    using that
  proof (induction "is")
    case (Cons i "is")
    then have i: "i < n" and "set is \<subseteq> {..<n}" by auto
    from Cons.IH [OF this(2)] checkTerms_same [OF assms this(2) checkTerms_srv_eq(1) [OF assms i]]
    show ?case by (auto simp: checkTerms_srv_eq(2) [OF assms i])
  qed simp
  from this [of "[0..<n]"] show ?thesis by (simp add: checkTerms_def atLeast0LessThan)
qed

section \<open>Agreement\<close>

text \<open>What \<open>nCommitted\<close> has checked when it returns: it counts the servers that have an entry at the index, and they all have the same.\<close>

definition holders :: "int \<Rightarrow> 'c option \<Rightarrow> 'c raft_test \<Rightarrow> nat" where
  "holders index cmd ts = length (filter (\<lambda>p. rs_logs (rt_heap ts ! the p) index = Some cmd) (rt_srvs ts))"

definition undisputed :: "int \<Rightarrow> 'c option \<Rightarrow> 'c raft_test \<Rightarrow> bool" where
  "undisputed index cmd ts \<longleftrightarrow> list_all (\<lambda>p. p \<noteq> None \<and> rs_logs (rt_heap ts ! the p) index \<in> {None, Some cmd}) (rt_srvs ts)"

lemma nCommitted_srv_Some:
  "nCommitted_srv heap k (Some a) (c, cmd) =
     (case rs_logs (heap ! a) k of None \<Rightarrow> Inr (c, cmd) | Some v \<Rightarrow> if c > 0 \<and> cmd \<noteq> v then Inl Fatal else Inr (c + 1, v))"
  by (simp add: nCommitted_srv_def rfsrv_Logs_def split: option.split)

lemma nCommitted_fold_result:
  assumes "go_fold (nCommitted_srv heap k) ps (c, cmd) = Inr (c', cmd')" and "0 \<le> c"
  shows "list_all (\<lambda>p. p \<noteq> None \<and> rs_logs (heap ! the p) k \<in> {None, Some cmd'}) ps \<and> (0 < c \<longrightarrow> cmd' = cmd) \<and>
    c' = c + int (length (filter (\<lambda>p. rs_logs (heap ! the p) k = Some cmd') ps))"
  using assms
proof (induction ps arbitrary: c cmd)
  case (Cons p ps)
  then obtain a where p: "p = Some a" by (cases p) (auto simp: nCommitted_srv_def)
  show ?case
  proof (cases "rs_logs (heap ! a) k")
    case None
    then have "go_fold (nCommitted_srv heap k) ps (c, cmd) = Inr (c', cmd')"
      using Cons.prems(1) p by (simp add: nCommitted_srv_Some)
    from Cons.IH [OF this Cons.prems(2)] show ?thesis using None p by simp
  next
    case (Some v)
    then have f: "go_fold (nCommitted_srv heap k) ps (c + 1, v) = Inr (c', cmd')" and "c > 0 \<Longrightarrow> cmd = v"
      using Cons.prems(1) p by (auto simp: nCommitted_srv_Some split: if_splits)
    from Cons.IH [OF f] Cons.prems(2) this(2) show ?thesis using Some p by auto
  qed
qed simp

lemma nCommitted_result:
  assumes "nCommitted index ts = Inr (nd, cmd)"
  shows "undisputed index cmd ts" "nd = int (holders index cmd ts)"
  using nCommitted_fold_result [OF assms [unfolded nCommitted_def]] by (simp_all add: undisputed_def holders_def)

text \<open>A connected, running server has accepted the command at the index.\<close>

definition accepted :: "'c scene \<Rightarrow> int \<Rightarrow> bool" where
  "accepted sn index \<longleftrightarrow> (\<exists>i a t. i < length (rt_srvs (sn_test sn)) \<and> sn_connected sn ! i \<and> rt_srvs (sn_test sn) ! i = Some a \<and>
     rs_raft (rt_heap (sn_test sn) ! a) \<noteq> None \<and> sn_Start sn a = (index, t, True))"

lemma one_start_result:
  assumes "one_start sn starts k = Inr (starts', index)" and "index \<noteq> -1"
  shows "accepted sn index"
  using assms unfolding accepted_def
proof (induction k arbitrary: starts)
  case (Suc k)
  let ?i = "(starts + 1) mod length (rt_srvs (sn_test sn))"
  show ?case
  proof (cases "one_start sn ?i k = Inr (starts', index)")
    case True
    then show ?thesis using Suc by blast
  next
    case False
    with Suc.prems show ?thesis
      by - (rule exI [of _ ?i],
        auto simp: go_bind_Inr_iff Let_def scene_IsConnected_def slice_get_def split: if_splits option.splits prod.splits)
  qed
qed simp

lemma one_wait_result:
  "one_wait cmd expectedServers index t1 polls = Some (Inr True) \<Longrightarrow>
     \<exists>now ts. (now, ts) \<in> set polls \<and> now - t1 < 2 * 1000000000 \<and> undisputed index cmd ts \<and>
       0 < holders index cmd ts \<and> expectedServers \<le> int (holders index cmd ts)"
proof (induction polls)
  case (Cons poll polls)
  obtain now ts where poll: "poll = (now, ts)" by (cases poll)
  show ?case
  proof (cases "one_wait cmd expectedServers index t1 polls = Some (Inr True)")
    case True
    then show ?thesis using Cons.IH by auto
  next
    case False
    then obtain nd where "now - t1 < 2 * 1000000000" "nCommitted index ts = Inr (nd, cmd)" "nd > 0" "nd \<ge> expectedServers"
      using Cons.prems poll by (auto split: if_splits sum.splits prod.splits)
    then show ?thesis using nCommitted_result [of index ts nd cmd] poll by auto
  qed
qed simp

text \<open>A poll, within two seconds, that sees the command committed on as many servers as expected.\<close>

definition agreed :: "'c option \<Rightarrow> int \<Rightarrow> int \<Rightarrow> 'c one_round \<Rightarrow> bool" where
  "agreed cmd expectedServers index r \<longleftrightarrow>
     (\<exists>now ts. (now, ts) \<in> set (or_polls r) \<and> now - or_t1 r < 2 * 1000000000 \<and> undisputed index cmd ts \<and>
        0 < holders index cmd ts \<and> expectedServers \<le> int (holders index cmd ts))"

text \<open>The clock runs: every loop of polls, and the outer loop, sees its limit pass at some time.\<close>

definition clock_runs :: "int \<Rightarrow> 'c one_round list \<Rightarrow> bool" where
  "clock_runs t0 rounds \<longleftrightarrow> list_ex (\<lambda>r. 10 * 1000000000 \<le> or_now r - t0) rounds \<and>
     list_all (\<lambda>r. list_ex (\<lambda>(now, ts). 2 * 1000000000 \<le> now - or_t1 r) (or_polls r)) rounds"

lemma one_wait_returns:
  "list_ex (\<lambda>(now, ts). 2 * 1000000000 \<le> now - t1) polls \<Longrightarrow> one_wait cmd expectedServers index t1 polls \<noteq> None"
  by (induction polls) (auto split: sum.splits)

lemma one_loop_returns:
  assumes "list_ex (\<lambda>r. 10 * 1000000000 \<le> or_now r - t0) rounds"
    and "list_all (\<lambda>r. list_ex (\<lambda>(now, ts). 2 * 1000000000 \<le> now - or_t1 r) (or_polls r)) rounds"
  shows "one_loop cmd expectedServers retry t0 starts rounds \<noteq> None"
  using assms
proof (induction rounds arbitrary: starts)
  case (Cons r rounds)
  show ?case
  proof (cases "or_now r - t0 < 10 * 1000000000")
    case True
    then have "one_loop cmd expectedServers retry t0 starts rounds \<noteq> None" for starts
      using Cons.IH [of starts] Cons.prems by simp
    moreover have "one_wait cmd expectedServers index (or_t1 r) (or_polls r) \<noteq> None" for index
      using one_wait_returns Cons.prems(2) by auto
    ultimately show ?thesis
      by (auto simp del: not_None_eq split: sum.split option.split bool.split) (metis not_None_eq)+
  qed auto
qed simp

lemma one_loop_result:
  assumes "one_loop cmd expectedServers retry t0 starts rounds = Some (Inr index)"
  shows "index = -1 \<and> list_ex or_finished_after rounds \<or>
    list_ex (\<lambda>r. or_now r - t0 < 10 * 1000000000 \<and> accepted (or_start r) index \<and> agreed cmd expectedServers index r) rounds"
  using assms
proof (induction rounds arbitrary: starts)
  case (Cons r rounds)
  show ?case
  proof (cases "\<exists>starts. one_loop cmd expectedServers retry t0 starts rounds = Some (Inr index)")
    case True
    then show ?thesis using Cons.IH by auto
  next
    case later: False
    show ?thesis
    proof (cases "or_now r - t0 < 10 * 1000000000 \<and> or_finished r = False")
      case True
      with later Cons.prems obtain starts' where
        s: "one_start (or_start r) starts (length (rt_srvs (sn_test (or_start r)))) = Inr (starts', index)" "index \<noteq> -1"
          "one_wait cmd expectedServers index (or_t1 r) (or_polls r) = Some (Inr True)"
        by (auto split: sum.splits if_splits option.splits bool.splits)
      then have "accepted (or_start r) index" "agreed cmd expectedServers index r"
        using one_start_result one_wait_result unfolding agreed_def by blast+
      then show ?thesis using True by simp
    next
      case False
      then show ?thesis using Cons.prems by (auto split: if_splits)
    qed
  qed
qed simp

text \<open>
  C25: \<open>one\<close> gets one command committed. Nothing is assumed of the peers; the clock runs. Then \<open>one\<close> returns or fails.
  If it returns an index, then either the test was over and the index is -1, or a connected server that was running
  accepted the command at this index, within ten seconds, and within two seconds after that as many servers as expected,
  and at least one, had this very command in their logs at this index, and no server had another one there.
\<close>

theorem one_gets_agreement:
  assumes "clock_runs t0 rounds"
  shows "\<exists>result. one cmd expectedServers retry t0 rounds = Some result \<and>
    (\<forall>index. result = Inr index \<longrightarrow>
       index = -1 \<and> list_ex or_finished_after rounds \<or>
       list_ex (\<lambda>r. or_now r - t0 < 10 * 1000000000 \<and> accepted (or_start r) index \<and> agreed cmd expectedServers index r) rounds)"
proof -
  obtain result where r: "one_loop cmd expectedServers retry t0 0 rounds = Some result"
    using one_loop_returns [of t0 rounds cmd expectedServers retry 0] assms by (auto simp: clock_runs_def)
  then show ?thesis using one_loop_result [of cmd expectedServers retry t0 0 rounds] by (auto simp: one_def)
qed

text \<open>Two servers: the second accepts the command at index 1, and after a second both have it.\<close>

definition srv_with :: "nat \<Rightarrow> string option option \<Rightarrow> string rfsrv" where
  "srv_with i entry = \<lparr>rs_me = i, rs_lastApplied = 0, rs_persister = i,
     rs_raft = Some \<lparr>rf_peers = [], rf_persister = i, rf_me = int i, rf_dead = 0\<rparr>, rs_logs = (\<lambda>k. if k = 1 then entry else None)\<rparr>"

definition two_with :: "string option option \<Rightarrow> string raft_test" where
  "two_with entry = two_made\<lparr>rt_heap := [srv_with 0 entry, srv_with 1 entry]\<rparr>"

definition demo_round :: "int \<Rightarrow> string one_round" where
  "demo_round now = \<lparr>or_now = now, or_finished = False,
     or_start = (look True)\<lparr>sn_test := two_with None, sn_Start := (\<lambda>a. (1, 5, a = 1))\<rparr>, or_t1 = now,
     or_polls = [(now, two_with None), (now + 1000000000, two_with (Some (Some ''x''))), (now + 2000000000, two_with None)],
     or_finished_after = False\<rparr>"

theorem one_gets_agreement_witness:
  "one (Some ''x'') 2 False 0 [demo_round 5, demo_round 10000000000] = Some (Inr 1) \<and>
   list_ex (\<lambda>r. or_now r - 0 < 10 * 1000000000 \<and> accepted (or_start r) 1 \<and> agreed (Some ''x'') 2 1 r) [demo_round 5, demo_round 10000000000]"
proof -
  have "clock_runs 0 [demo_round 5, demo_round 10000000000]" by (simp add: clock_runs_def demo_round_def)
  moreover have "one (Some ''x'') 2 False 0 [demo_round 5, demo_round 10000000000] = Some (Inr 1)"
    by (simp add: one_def demo_round_def two_with_def two_made_def look_def srv_with_def scene_IsConnected_def slice_get_def
        nCommitted_def nCommitted_srv_Some eval_nat_numeral)
  ultimately show ?thesis
    using one_gets_agreement [of 0 "[demo_round 5, demo_round 10000000000]" "Some ''x''" 2 False] by fastforce
qed

section \<open>Waiting\<close>

text \<open>What the loop of \<open>wait\<close> may still sleep in \<open>k\<close> iterations, in milliseconds.\<close>

fun sleep_left :: "nat \<Rightarrow> int \<Rightarrow> int" where
  "sleep_left 0 to = 0"
| "sleep_left (Suc k) to = to + sleep_left k (if to < 1000 then to * 2 else to)"

lemma sleep_left_nonneg: "0 \<le> to \<Longrightarrow> 0 \<le> sleep_left k to"
  by (induction k arbitrary: to) simp_all

lemma wait_loop_slept:
  assumes "wait_loop index n startTerm iters to slept sns final = Some (r, slept')" and "0 \<le> to"
  shows "slept' \<le> slept + sleep_left (30 - iters) to"
  using assms
proof (induction sns arbitrary: iters to slept)
  case Nil
  then show ?case using sleep_left_nonneg by (auto split: if_splits)
next
  case (Cons p sns)
  obtain sn sn' where p: "p = (sn, sn')" by (cases p)
  let ?to = "if to < 1000 then to * 2 else to"
  have nonneg: "0 \<le> sleep_left k ?to" for k using sleep_left_nonneg [of ?to k] Cons.prems(2) by simp
  show ?case
  proof (cases "iters < 30")
    case True
    then have left: "sleep_left (30 - iters) to = to + sleep_left (30 - Suc iters) ?to"
      by (simp add: Suc_diff_Suc [symmetric])
    show ?thesis
    proof (cases "wait_loop index n startTerm (Suc iters) ?to (slept + to) sns final = Some (r, slept')")
      case True
      have "0 \<le> ?to" using Cons.prems(2) by simp
      from Cons.IH [OF True this] show ?thesis unfolding left by linarith
    next
      case False
      with Cons.prems p \<open>iters < 30\<close> have "slept' \<le> slept + to"
        by (auto simp: Let_def split: sum.splits prod.splits if_splits bool.splits)
      then show ?thesis unfolding left using nonneg [of "30 - Suc iters"] by linarith
    qed
  next
    case False
    then show ?thesis using Cons.prems p by simp
  qed
qed

lemma wait_loop_decided:
  "wait_loop index n startTerm iters to slept sns final = Some (Inr (Decided cmd), slept') \<Longrightarrow>
     wait_last index n (sn_test final) = Inr (Decided cmd)"
proof (induction sns arbitrary: iters to slept)
  case Nil
  then show ?case by (auto split: if_splits)
next
  case (Cons p sns)
  obtain sn sn' where p: "p = (sn, sn')" by (cases p)
  from Cons show ?case unfolding p by (auto simp: Let_def split: sum.splits prod.splits if_splits bool.splits)
qed

text \<open>\<open>wait\<close> sleeps for at most 30.71 seconds, and the command that it returns is in the logs of as many servers as it was asked for.\<close>

lemma wait_spec:
  assumes "wait index n startTerm sns final = Some (r, slept)"
  shows "slept \<le> 30710" and "r = Inr (Decided cmd) \<Longrightarrow> n \<le> int (holders index cmd (sn_test final)) \<and> undisputed index cmd (sn_test final)"
proof -
  have "sleep_left 30 10 = 30710" by (simp add: eval_nat_numeral)
  then show "slept \<le> 30710" using wait_loop_slept [OF assms [unfolded wait_def]] by simp
  assume "r = Inr (Decided cmd)"
  then have "wait_last index n (sn_test final) = Inr (Decided cmd)"
    using wait_loop_decided assms unfolding wait_def by blast
  then obtain nd where "nCommitted index (sn_test final) = Inr (nd, cmd)" "n \<le> nd"
    by (auto simp: wait_last_def go_bind_Inr_iff split: if_splits)
  then show "n \<le> int (holders index cmd (sn_test final)) \<and> undisputed index cmd (sn_test final)"
    using nCommitted_result [of index "sn_test final" nd cmd] by simp
qed

lemma wait_returns: "length sns = 30 \<Longrightarrow> wait index n startTerm sns final \<noteq> None"
proof -
  have "iters + length sns = 30 \<Longrightarrow> wait_loop index n startTerm iters to slept sns final \<noteq> None" for iters to slept
    by (induction sns arbitrary: iters to slept) (auto simp: Let_def split: sum.split bool.split)
  then show "length sns = 30 \<Longrightarrow> wait index n startTerm sns final \<noteq> None" by (simp add: wait_def)
qed

section \<open>Restart\<close>

text \<open>
  \<open>restart\<close> starts the server and connects every server of the group to every other, also one that the test had disconnected.
\<close>

lemma restart_connects_all:
  assumes "inj rnd" and inv: "grp_inv rnd (gs_env gs, sg)" and grp: "gs_grps gs GRP0 = Some sg" "sg_gid sg = GRP0" and i: "i \<in> sg_ids sg"
  shows "\<exists>gs' sg'. restart rnd mks reflect i gs = Inr gs' \<and> gs_grps gs' GRP0 = Some sg' \<and> sg_N sg' = sg_N sg \<and>
    is_up GRP0 i (gs_env gs') \<and> all_connected (gs_env gs') sg'"
proof -
  obtain e1 sg1 where s: "StartServer rnd mks reflect i (gs_env gs, sg) = Inr (e1, sg1)" "grp_inv rnd (e1, sg1)" "same_shape sg sg1"
    "is_up (sg_gid sg) i e1"
    using StartServer_total [OF assms(1) inv i] by blast
  obtain e2 sg2 where c: "on_net sg_ConnectAll (e1, sg1) = Inr (e2, sg2)" "same_shape sg1 sg2" "all_connected e2 sg2"
    "\<forall>gid i. is_up gid i e2 = is_up gid i e1"
    using ConnectAll_total [OF s(2)] by blast
  have "restart rnd mks reflect i gs = Inr \<lparr>gs_env = e2, gs_grps = (gs_grps gs)(GRP0 \<mapsto> sg2)\<rparr>"
    using s(1) c(1) grp by (simp add: restart_def on_group_def lookupGroup_def)
  then show ?thesis using s(3,4) c grp(2) by (simp add: same_shape_def sg_N_def)
qed

end
