(* ===== verification/Rsm.thy ===== *)
theory Rsm
  imports RaftHarness KVServer
begin

text \<open>
  The replicated state machine of \<^verbatim>\<open>src/kvraft1/rsm/rsm.go\<close>, an outline in the repository, with the counter
  service of \<^verbatim>\<open>src/kvraft1/rsm/server.go\<close> that tests it, and the key/value services on top of it
  (\<^verbatim>\<open>src/kvraft1/server.go\<close>, \<^verbatim>\<open>src/kvraft1/client.go\<close>), whose handlers do no work yet. The locale
  \<open>state_machine\<close> is the contract of the interface \<open>StateMachine\<close>: a service that loads a snapshot goes on like the one that
  took it. Snapshots of the counter are in the wire format of \<^verbatim>\<open>encoding/gob\<close> for one integer.
\<close>

section \<open>Integers on the wire\<close>

text \<open>
  An unsigned number below 128 is one byte; a larger one is the negated number of its bytes, and then its bytes, the most
  significant first. A signed number has its sign in the lowest bit.
\<close>

fun be_bytes :: "nat \<Rightarrow> nat list" where
  "be_bytes n = (if n = 0 then [] else be_bytes (n div 256) @ [n mod 256])"

declare be_bytes.simps [simp del]

definition gob_uint :: "nat \<Rightarrow> string" where
  "gob_uint n = map char_of (if n < 128 then [n] else (let bs = be_bytes n in (256 - length bs) # bs))"

definition zigzag :: "int \<Rightarrow> nat" where
  "zigzag i = nat (if i < 0 then 2 * (- (i + 1)) + 1 else 2 * i)"

definition gob_int :: "int \<Rightarrow> string" where
  "gob_int i = gob_uint (zigzag i)"

text \<open>A message: its length, the number of its type (2 for \<open>int\<close>), a zero for a value that is no struct, and the value.\<close>

definition gob_encode_int :: "int \<Rightarrow> string" where
  "gob_encode_int i = (let payload = gob_int 2 @ gob_uint 0 @ gob_int i in gob_uint (length payload) @ payload)"

text \<open>Reading; \<open>None\<close> is an error.\<close>

definition read_uint :: "string \<Rightarrow> (nat \<times> string) option" where
  "read_uint s =
     (case s of
        [] \<Rightarrow> None
      | c # cs \<Rightarrow>
          if (of_char c :: nat) < 128 then Some (of_char c, cs)
          else (let k = 256 - of_char c
                in if k > 8 \<or> length cs < k then None
                   else Some (foldl (\<lambda>x b. x * 256 + of_char b) 0 (take k cs), drop k cs)))"

definition unzigzag :: "nat \<Rightarrow> int" where
  "unzigzag n = (if n mod 2 = 0 then int (n div 2) else - int (n div 2) - 1)"

definition read_int :: "string \<Rightarrow> (int \<times> string) option" where
  "read_int s = map_option (map_prod unzigzag id) (read_uint s)"

definition gob_decode_int :: "string \<Rightarrow> int option" where
  "gob_decode_int s =
     Option.bind (read_uint s) (\<lambda>(len, s). if length s < len then None else
     Option.bind (read_int (take len s)) (\<lambda>(typ, s). if typ \<noteq> 2 then None else
     Option.bind (read_uint s) (\<lambda>(delta, s). if delta \<noteq> 0 then None else
     Option.bind (read_int s) (\<lambda>(v, s). Some v))))"

lemma be_bytes_value: "foldl (\<lambda>x b. x * 256 + b) 0 (be_bytes n) = n"
  by (induction n rule: be_bytes.induct) (subst be_bytes.simps, simp)

lemma be_bytes_less: "b \<in> set (be_bytes n) \<Longrightarrow> b < 256"
  by (induction n rule: be_bytes.induct) (subst (asm) (2) be_bytes.simps, auto split: if_splits)

lemma be_bytes_length:
  assumes "n < 256 ^ k"
  shows "length (be_bytes n) \<le> k"
  using assms
proof (induction k arbitrary: n)
  case (Suc k)
  then have "n div 256 < 256 ^ k"
    by (simp add: less_mult_imp_div_less mult.commute)
  then show ?case
    using Suc.IH [of "n div 256"] by (subst be_bytes.simps) simp
qed (subst be_bytes.simps, simp)

lemma read_uint_gob_uint:
  assumes "n < 2 ^ 64"
  shows "read_uint (gob_uint n @ s) = Some (n, s)"
proof (cases "n < 128")
  case True
  then show ?thesis by (simp add: read_uint_def gob_uint_def)
next
  case False
  define bs where "bs = be_bytes n"
  have len: "length bs \<le> 8"
    using be_bytes_length [of n 8] assms by (simp add: bs_def)
  have pos: "0 < length bs"
    using False by (subst bs_def, subst be_bytes.simps) simp
  have mods: "map (\<lambda>b. b mod 256) bs = bs"
    using be_bytes_less by (auto simp: bs_def intro!: map_idI)
  have "foldl (\<lambda>x b. x * 256 + of_char b) 0 (map char_of bs) = foldl (\<lambda>x b. x * 256 + b) 0 (map (\<lambda>b. b mod 256) bs)"
    by (simp add: foldl_map)
  then have "foldl (\<lambda>x b. x * 256 + of_char b) 0 (map char_of bs) = n"
    unfolding mods using be_bytes_value by (simp add: bs_def)
  then show ?thesis
    using False len pos by (simp add: read_uint_def gob_uint_def Let_def flip: bs_def)
qed

lemma zigzag_cases: "zigzag (int n) = 2 * n" "zigzag (- int n - 1) = 2 * n + 1"
  by (simp_all add: zigzag_def nat_add_distrib nat_mult_distrib)

lemma unzigzag_zigzag: "unzigzag (zigzag i) = i"
proof (cases "0 \<le> i")
  case True
  then obtain n where "i = int n"
    using zero_le_imp_eq_int by blast
  then show ?thesis by (simp add: zigzag_cases unzigzag_def)
next
  case False
  then have "0 \<le> - i - 1"
    by simp
  then obtain n where "- i - 1 = int n"
    using zero_le_imp_eq_int by blast
  then have "i = - int n - 1"
    by simp
  then show ?thesis by (simp only: zigzag_cases) (simp add: unzigzag_def)
qed

lemma zigzag_less: "- (2 ^ 63) \<le> i \<Longrightarrow> i < 2 ^ 63 \<Longrightarrow> zigzag i < 2 ^ 64"
  by (simp add: zigzag_def nat_less_iff)

lemma read_int_gob_int:
  assumes "- (2 ^ 63) \<le> i" and "i < 2 ^ 63"
  shows "read_int (gob_int i @ s) = Some (i, s)"
  unfolding read_int_def gob_int_def using read_uint_gob_uint [OF zigzag_less [OF assms]] by (simp add: unzigzag_zigzag)

lemma gob_uint_length: "n < 2 ^ 64 \<Longrightarrow> length (gob_uint n) \<le> 9"
  using be_bytes_length [of n 8] by (simp add: gob_uint_def Let_def)

lemma gob_int_roundtrip:
  assumes "- (2 ^ 63) \<le> i" and "i < 2 ^ 63"
  shows "gob_decode_int (gob_encode_int i) = Some i"
proof -
  define p where "p = gob_int 2 @ gob_uint 0 @ gob_int i"
  have "length (gob_int i) \<le> 9" "length (gob_int 2) \<le> 9" "length (gob_uint 0) \<le> 9"
    using gob_uint_length zigzag_less [OF assms] zigzag_less [of 2] by (simp_all add: gob_int_def)
  then have "length p < 2 ^ 64"
    by (simp add: p_def)
  note len = read_uint_gob_uint [OF this, of p]
  have "read_int p = Some (2, gob_uint 0 @ gob_int i)" "read_uint (gob_uint 0 @ gob_int i) = Some (0, gob_int i)"
    "read_int (gob_int i) = Some (i, [])"
    using read_int_gob_int [of 2] read_uint_gob_uint [of 0] read_int_gob_int [OF assms, of "[]"] by (simp_all add: p_def)
  then show ?thesis
    by (simp add: gob_decode_int_def gob_encode_int_def len Let_def flip: p_def)
qed

section \<open>The interface of a state machine\<close>

text \<open>
  \<open>DoOp\<close> executes a request, \<open>Snapshot\<close> and \<open>Restore\<close> save and load the state; \<open>replicated\<close> is the part of a
  server's state that the replicas share. What the replicated state machine needs of them: answers and the new
  state only depend on that part, and loading a snapshot gives the part that was saved.
\<close>

fun DoOps :: "('req \<Rightarrow> 's \<Rightarrow> 's \<times> 'rep) \<Rightarrow> 'req list \<Rightarrow> 's \<Rightarrow> 's \<times> 'rep list" where
  "DoOps doop [] s = (s, [])"
| "DoOps doop (req # reqs) s = (let (s, rep) = doop req s; (s, reps) = DoOps doop reqs s in (s, rep # reps))"

locale state_machine =
  fixes DoOp :: "'req \<Rightarrow> 's \<Rightarrow> 's \<times> 'rep"
    and Snapshot :: "'s \<Rightarrow> string"
    and Restore :: "string \<Rightarrow> 's \<Rightarrow> 's go"
    and replicated :: "'s \<Rightarrow> 'r"
  assumes DoOp_replicated: "replicated s = replicated t \<Longrightarrow>
      snd (DoOp req s) = snd (DoOp req t) \<and> replicated (fst (DoOp req s)) = replicated (fst (DoOp req t))"
    and Restore_Snapshot: "\<exists>t'. Restore (Snapshot s) t = Inr t' \<and> replicated t' = replicated s"
begin

lemma DoOps_replicated:
  assumes "replicated s = replicated t"
  shows "snd (DoOps DoOp reqs s) = snd (DoOps DoOp reqs t) \<and> replicated (fst (DoOps DoOp reqs s)) = replicated (fst (DoOps DoOp reqs t))"
  using assms
proof (induction reqs arbitrary: s t)
  case (Cons req reqs)
  show ?case
    using DoOp_replicated [OF Cons.prems, of req] Cons.IH [of "fst (DoOp req s)" "fst (DoOp req t)"]
    by (simp add: case_prod_beta Let_def)
qed simp

lemma restored_replica:
  "\<exists>t'. Restore (Snapshot (fst (DoOps DoOp reqs s))) t = Inr t' \<and>
     snd (DoOps DoOp reqs' t') = snd (DoOps DoOp reqs' (fst (DoOps DoOp reqs s))) \<and>
     replicated (fst (DoOps DoOp reqs' t')) = replicated (fst (DoOps DoOp reqs' (fst (DoOps DoOp reqs s))))"
proof -
  obtain t' where t': "Restore (Snapshot (fst (DoOps DoOp reqs s))) t = Inr t'" "replicated t' = replicated (fst (DoOps DoOp reqs s))"
    using Restore_Snapshot by blast
  then show ?thesis
    using DoOps_replicated [OF t'(2), of reqs'] by blast
qed

end

section \<open>The replicated state machine\<close>

text \<open>The struct \<open>Op\<close> has no fields yet. The state machine itself is the server that contains this record.\<close>

record RSM =
  rsm_me :: int
  rsm_rf :: Raft
  rsm_maxraftstate :: int

definition MakeRSM :: "string list \<Rightarrow> int \<Rightarrow> nat \<Rightarrow> int \<Rightarrow> Persister list \<Rightarrow> RSM" where
  "MakeRSM servers me persister maxraftstate pers =
     \<lparr>rsm_me = me, rsm_rf = Make servers me persister pers, rsm_maxraftstate = maxraftstate\<rparr>"

definition RSM_Raft :: "RSM \<Rightarrow> Raft" where
  "RSM_Raft rsm = rsm_rf rsm"

definition Submit :: "'req \<Rightarrow> RSM \<Rightarrow> Err \<times> 'rep option" where
  "Submit req rsm = (ErrWrongLeader, None)"

section \<open>The counter service\<close>

datatype Inc = Inc

record Rep =
  rep_N :: "64 word"

record rsmSrv =
  rv_me :: int
  rv_rsm :: "RSM option"
  rv_counter :: "64 word"

definition makeRsmSrv :: "int \<Rightarrow> string list \<Rightarrow> nat \<Rightarrow> int \<Rightarrow> Persister list \<Rightarrow> rsmSrv" where
  "makeRsmSrv srv ends persister maxraftstate pers =
     \<lparr>rv_me = srv, rv_rsm = Some (MakeRSM ends srv persister maxraftstate pers), rv_counter = 0\<rparr>"

definition rsmSrv_DoOp :: "'req \<Rightarrow> rsmSrv \<Rightarrow> rsmSrv \<times> Rep" where
  "rsmSrv_DoOp req rs =
     (let rs = rs\<lparr>rv_counter := rv_counter rs + 1\<rparr> in (rs, \<lparr>rep_N = rv_counter rs\<rparr>))"

definition rsmSrv_Snapshot :: "rsmSrv \<Rightarrow> string" where
  "rsmSrv_Snapshot rs = gob_encode_int (sint (rv_counter rs))"

definition rsmSrv_Restore :: "string \<Rightarrow> rsmSrv \<Rightarrow> rsmSrv go" where
  "rsmSrv_Restore bytes rs =
     (case gob_decode_int bytes of None \<Rightarrow> Inl Fatal | Some v \<Rightarrow> Inr (rs\<lparr>rv_counter := of_int v\<rparr>))"

definition rsmSrv_Kill :: "rsmSrv \<Rightarrow> rsmSrv" where
  "rsmSrv_Kill rs = rs\<lparr>rv_rsm := None\<rparr>"

text \<open>After \<open>Kill\<close>, \<open>rs.rsm\<close> is nil and \<open>Raft\<close> reads a field of it.\<close>

definition rsmSrv_Raft :: "rsmSrv \<Rightarrow> Raft go" where
  "rsmSrv_Raft rs = (case rv_rsm rs of None \<Rightarrow> Inl Panic | Some rsm \<Rightarrow> Inr (RSM_Raft rsm))"

lemma rsmSrv_Restore_Snapshot: "rsmSrv_Restore (rsmSrv_Snapshot s) t = Inr (t\<lparr>rv_counter := rv_counter s\<rparr>)"
proof -
  have "- (2 ^ 63) \<le> sint (rv_counter s)" "sint (rv_counter s) < 2 ^ 63"
    using sint_greater_eq [of "rv_counter s"] sint_less [of "rv_counter s"] by simp_all
  from gob_int_roundtrip [OF this] show ?thesis
    by (simp add: rsmSrv_Restore_def rsmSrv_Snapshot_def)
qed

interpretation counter: state_machine "rsmSrv_DoOp :: 'req \<Rightarrow> _" rsmSrv_Snapshot rsmSrv_Restore rv_counter
  by unfold_locales (simp_all add: rsmSrv_DoOp_def Let_def rsmSrv_Restore_Snapshot)

lemma rsmSrv_DoOp_simps [simp]:
  "fst (rsmSrv_DoOp req rs) = rs\<lparr>rv_counter := rv_counter rs + 1\<rparr>" "rep_N (snd (rsmSrv_DoOp req rs)) = rv_counter rs + 1"
  by (simp_all add: rsmSrv_DoOp_def Let_def)

lemma rsmSrv_DoOps_counter: "rv_counter (fst (DoOps rsmSrv_DoOp reqs s)) = rv_counter s + of_nat (length reqs)"
  by (induction reqs arbitrary: s) (simp_all add: Let_def case_prod_beta algebra_simps)

lemma rsmSrv_DoOps_replies:
  "map rep_N (snd (DoOps rsmSrv_DoOp reqs s)) = map (\<lambda>i. rv_counter s + of_nat i) [1..<Suc (length reqs)]"
proof (induction reqs arbitrary: s)
  case (Cons req reqs)
  have "[1..<Suc (length (req # reqs))] = 1 # map Suc [1..<Suc (length reqs)]"
    by (simp only: map_Suc_upt) (simp add: upt_conv_Cons del: upt_Suc)
  then show ?case
    using Cons [of "fst (rsmSrv_DoOp req s)"]
    by (simp add: Let_def case_prod_beta o_def add.assoc del: upt_Suc)
qed simp

text \<open>
  C31: Replicas of the counter stay replicas across snapshots. Whatever a server has executed, any other server that loads
  the bytes of its snapshot does so without error, and then answers every further sequence of requests with the
  same replies, which count on from all requests executed before, modulo \<open>2 ^ 64\<close>.
\<close>

theorem restored_counter_agrees:
  fixes reqs reqs' :: "'req list"
  shows "\<exists>t'. rsmSrv_Restore (rsmSrv_Snapshot (fst (DoOps rsmSrv_DoOp reqs s))) t = Inr t' \<and>
     snd (DoOps rsmSrv_DoOp reqs' t') = snd (DoOps rsmSrv_DoOp reqs' (fst (DoOps rsmSrv_DoOp reqs s))) \<and>
     map rep_N (snd (DoOps rsmSrv_DoOp reqs' t')) =
       map (\<lambda>i. rv_counter s + of_nat (length reqs) + of_nat i) [1..<Suc (length reqs')]"
  using counter.restored_replica [of reqs s t reqs'] by (metis rsmSrv_DoOps_counter rsmSrv_DoOps_replies)

section \<open>The key/value service on Raft\<close>

record kvraft_KVServer =
  kr_me :: int
  kr_dead :: int
  kr_rsm :: RSM

definition kvraft_DoOp :: "'req \<Rightarrow> kvraft_KVServer \<Rightarrow> kvraft_KVServer \<times> 'rep option" where
  "kvraft_DoOp req kv = (kv, None)"

definition kvraft_Snapshot :: "kvraft_KVServer \<Rightarrow> string option" where
  "kvraft_Snapshot kv = None"

definition kvraft_Restore :: "string \<Rightarrow> kvraft_KVServer \<Rightarrow> kvraft_KVServer" where
  "kvraft_Restore bytes kv = kv"

definition kvraft_Get :: "GetArgs \<Rightarrow> GetReply \<Rightarrow> kvraft_KVServer \<Rightarrow> kvraft_KVServer \<times> GetReply" where
  "kvraft_Get args reply kv = (kv, reply)"

definition kvraft_Put :: "PutArgs \<Rightarrow> PutReply \<Rightarrow> kvraft_KVServer \<Rightarrow> kvraft_KVServer \<times> PutReply" where
  "kvraft_Put args reply kv = (kv, reply)"

definition kvraft_Kill :: "kvraft_KVServer \<Rightarrow> kvraft_KVServer" where
  "kvraft_Kill kv = kv\<lparr>kr_dead := 1\<rparr>"

definition kvraft_killed :: "kvraft_KVServer \<Rightarrow> bool" where
  "kvraft_killed kv \<longleftrightarrow> kr_dead kv = 1"

text \<open>The services it starts are the server and its peer; the types it registers with \<open>labgob\<close> are not modelled.\<close>

definition kvraft_StartKVServer :: "string list \<Rightarrow> int \<Rightarrow> int \<Rightarrow> nat \<Rightarrow> int \<Rightarrow> Persister list \<Rightarrow> kvraft_KVServer \<times> Raft" where
  "kvraft_StartKVServer servers gid me persister maxraftstate pers =
     (let kv = \<lparr>kr_me = me, kr_dead = 0, kr_rsm = MakeRSM servers me persister maxraftstate pers\<rparr>
      in (kv, RSM_Raft (kr_rsm kv)))"

text \<open>The client's handle on the network is not read by the outline of the clerk.\<close>

record kvraft_Clerk =
  kc_servers :: "string list"

definition kvraft_MakeClerk :: "string list \<Rightarrow> kvraft_Clerk" where
  "kvraft_MakeClerk servers = \<lparr>kc_servers = servers\<rparr>"

definition kvraft_Clerk_Get :: "kvraft_Clerk \<Rightarrow> string \<Rightarrow> string \<times> Tversion \<times> Err" where
  "kvraft_Clerk_Get ck key = ('''', 0, '''')"

definition kvraft_Clerk_Put :: "kvraft_Clerk \<Rightarrow> string \<Rightarrow> string \<Rightarrow> Tversion \<Rightarrow> Err" where
  "kvraft_Clerk_Put ck key v version = ''''"

end
