(* ===== verification/ShardSystem.thy ===== *)
theory ShardSystem
  imports Rsm ShardCfg
begin

text \<open>
  The sharded key/value service: the shard controller's clerks (\<^verbatim>\<open>src/shardkv1/shardctrler\<close>), the client of the
  service (\<^verbatim>\<open>src/shardkv1/client.go\<close>), and the servers and clerks of a shard group (\<^verbatim>\<open>src/shardkv1/shardgrp\<close>)
  with their RPC types. The repository has outlines of these parts: constructors and flags work, and the
  operations return fixed values. They are translated as they are. The handle on the network in each clerk is not read.
\<close>

section \<open>RPC types of a shard group\<close>

record shardrpc_PutArgs =
  sp_Key :: string
  sp_Value :: string
  sp_Version :: Tversion
  sp_Num :: Tnum

record shardrpc_GetArgs =
  sg_Key :: string
  sg_Num :: Tnum

record FreezeArgs =
  fa_Shard :: Tshid
  fa_Num :: Tnum

record FreezeReply =
  fr_State :: string
  fr_Num :: Tnum
  fr_Err :: Err

record InstallShardArgs =
  ia_Shard :: Tshid
  ia_State :: string
  ia_Num :: Tnum

record InstallShardReply =
  ir_Err :: Err

record DeleteShardArgs =
  da_Shard :: Tshid
  da_Num :: Tnum

record DeleteShardReply =
  dr_Err :: Err

section \<open>A server of a shard group\<close>

record shardgrp_KVServer =
  gk_gid :: Tgid
  gk_me :: int
  gk_dead :: int
  gk_rsm :: RSM

definition shardgrp_DoOp :: "'req \<Rightarrow> shardgrp_KVServer \<Rightarrow> shardgrp_KVServer \<times> 'rep option" where
  "shardgrp_DoOp req kv = (kv, None)"

definition shardgrp_Snapshot :: "shardgrp_KVServer \<Rightarrow> string option" where
  "shardgrp_Snapshot kv = None"

definition shardgrp_Restore :: "string \<Rightarrow> shardgrp_KVServer \<Rightarrow> shardgrp_KVServer" where
  "shardgrp_Restore bytes kv = kv"

definition shardgrp_Get :: "shardrpc_GetArgs \<Rightarrow> GetReply \<Rightarrow> shardgrp_KVServer \<Rightarrow> shardgrp_KVServer \<times> GetReply" where
  "shardgrp_Get args reply kv = (kv, reply)"

definition shardgrp_Put :: "shardrpc_PutArgs \<Rightarrow> PutReply \<Rightarrow> shardgrp_KVServer \<Rightarrow> shardgrp_KVServer \<times> PutReply" where
  "shardgrp_Put args reply kv = (kv, reply)"

definition shardgrp_Freeze :: "FreezeArgs \<Rightarrow> FreezeReply \<Rightarrow> shardgrp_KVServer \<Rightarrow> shardgrp_KVServer \<times> FreezeReply" where
  "shardgrp_Freeze args reply kv = (kv, reply)"

definition shardgrp_InstallShard ::
  "InstallShardArgs \<Rightarrow> InstallShardReply \<Rightarrow> shardgrp_KVServer \<Rightarrow> shardgrp_KVServer \<times> InstallShardReply" where
  "shardgrp_InstallShard args reply kv = (kv, reply)"

definition shardgrp_Kill :: "shardgrp_KVServer \<Rightarrow> shardgrp_KVServer" where
  "shardgrp_Kill kv = kv\<lparr>gk_dead := 1\<rparr>"

definition shardgrp_killed :: "shardgrp_KVServer \<Rightarrow> bool" where
  "shardgrp_killed kv \<longleftrightarrow> gk_dead kv = 1"

definition shardgrp_StartKVServer ::
  "string list \<Rightarrow> Tgid \<Rightarrow> int \<Rightarrow> nat \<Rightarrow> int \<Rightarrow> Persister list \<Rightarrow> shardgrp_KVServer \<times> Raft" where
  "shardgrp_StartKVServer servers gid me persister maxraftstate pers =
     (let kv = \<lparr>gk_gid = gid, gk_me = me, gk_dead = 0, gk_rsm = MakeRSM servers me persister maxraftstate pers\<rparr>
      in (kv, RSM_Raft (gk_rsm kv)))"

section \<open>A clerk of a shard group\<close>

record shardgrp_Clerk =
  gc_servers :: "string list"
  gc_leader :: int

definition shardgrp_MakeClerk :: "string list \<Rightarrow> shardgrp_Clerk" where
  "shardgrp_MakeClerk servers = \<lparr>gc_servers = servers, gc_leader = 0\<rparr>"

definition shardgrp_Clerk_Get :: "shardgrp_Clerk \<Rightarrow> Tnum \<Rightarrow> string \<Rightarrow> Tnum \<Rightarrow> string \<times> Tversion \<times> Err" where
  "shardgrp_Clerk_Get ck cid key n = ('''', 0, '''')"

definition shardgrp_Clerk_Put :: "shardgrp_Clerk \<Rightarrow> string \<Rightarrow> string \<Rightarrow> Tversion \<Rightarrow> Tnum \<Rightarrow> bool \<times> Err" where
  "shardgrp_Clerk_Put ck key v version n = (False, '''')"

definition shardgrp_Clerk_Freeze :: "shardgrp_Clerk \<Rightarrow> Tshid \<Rightarrow> Tnum \<Rightarrow> string option \<times> Err" where
  "shardgrp_Clerk_Freeze ck s num = (None, '''')"

definition shardgrp_Clerk_InstallShard :: "shardgrp_Clerk \<Rightarrow> Tshid \<Rightarrow> string option \<Rightarrow> Tnum \<Rightarrow> Err" where
  "shardgrp_Clerk_InstallShard ck s state num = ''''"

section \<open>The shard controller\<close>

abbreviation ErrDeposed :: Err where "ErrDeposed \<equiv> ''ErrDeposed''"

text \<open>The controller's clerk for its key/value group shares the flag that \<open>Stepdown\<close> sets; its value is an argument.\<close>

record ctrler_Clerk =
  cc_servers :: "string list"

definition ctrler_MakeClerk :: "string list \<Rightarrow> ctrler_Clerk" where
  "ctrler_MakeClerk servers = \<lparr>cc_servers = servers\<rparr>"

definition ctrler_Clerk_isDeposed :: "ctrler_Clerk \<Rightarrow> int \<Rightarrow> bool" where
  "ctrler_Clerk_isDeposed ck deposed \<longleftrightarrow> deposed = 1"

definition ctrler_Clerk_Get :: "ctrler_Clerk \<Rightarrow> string \<Rightarrow> string \<times> Tversion \<times> Err" where
  "ctrler_Clerk_Get ck key = (let args = \<lparr>ga_Key = key\<rparr> in ('''', 0, ''''))"

definition ctrler_Clerk_Put :: "ctrler_Clerk \<Rightarrow> string \<Rightarrow> string \<Rightarrow> Tversion \<Rightarrow> Err" where
  "ctrler_Clerk_Put ck key v version = (let args = \<lparr>pa_Key = key, pa_Value = v, pa_Version = version\<rparr> in '''')"

text \<open>The query clerk is a clerk of the Raft key/value service.\<close>

record QueryClerk =
  qc_IKVClerk :: kvraft_Clerk

definition MakeQueryClerk :: "string list \<Rightarrow> QueryClerk" where
  "MakeQueryClerk servers = \<lparr>qc_IKVClerk = kvraft_MakeClerk servers\<rparr>"

definition QueryClerk_Query :: "QueryClerk \<Rightarrow> ShardConfig option \<times> Tversion" where
  "QueryClerk_Query qck = (None, 0)"

record ShardCtrlerClerk =
  sck_deposed :: int

definition MakeShardCtrlerClerk :: "string list \<Rightarrow> ShardCtrlerClerk" where
  "MakeShardCtrlerClerk servers = \<lparr>sck_deposed = 0\<rparr>"

definition ctrler_Init :: "ShardConfig \<Rightarrow> ShardCtrlerClerk \<Rightarrow> Err" where
  "ctrler_Init cfg sck = OK"

definition ctrler_Join :: "Tgid \<Rightarrow> string list \<Rightarrow> ShardCtrlerClerk \<Rightarrow> Err" where
  "ctrler_Join gid srvs sck = ErrNoKey"

definition ctrler_Leave :: "Tgid \<Rightarrow> ShardCtrlerClerk \<Rightarrow> Err" where
  "ctrler_Leave gid sck = ErrNoKey"

definition Stepdown :: "ShardCtrlerClerk \<Rightarrow> ShardCtrlerClerk" where
  "Stepdown sck = sck\<lparr>sck_deposed := 1\<rparr>"

definition isDeposed :: "ShardCtrlerClerk \<Rightarrow> bool" where
  "isDeposed sck \<longleftrightarrow> sck_deposed sck = 1"

definition ctrler_Query :: "ShardCtrlerClerk \<Rightarrow> ShardConfig option \<times> Tversion \<times> Err" where
  "ctrler_Query sck = (None, 0, '''')"

section \<open>The client of the service\<close>

record shardkv_Clerk =
  sk_qck :: QueryClerk

definition shardkv_MakeClerk :: "QueryClerk \<Rightarrow> shardkv_Clerk" where
  "shardkv_MakeClerk qck = \<lparr>sk_qck = qck\<rparr>"

definition shardkv_Clerk_Get :: "shardkv_Clerk \<Rightarrow> string \<Rightarrow> string \<times> Tversion \<times> Err" where
  "shardkv_Clerk_Get ck key = ('''', 0, '''')"

definition shardkv_Clerk_Put :: "shardkv_Clerk \<Rightarrow> string \<Rightarrow> string \<Rightarrow> Tversion \<Rightarrow> Err" where
  "shardkv_Clerk_Put ck key v version = ''''"

end
