(* ===== verification/LabTests.thy ===== *)
theory LabTests
  imports RaftChecks ShardSystem Rsm
begin

text \<open>
  What the tests of the later labs are written with: \<^verbatim>\<open>src/kvraft1/rsm/test.go\<close>, \<^verbatim>\<open>src/kvraft1/test.go\<close> and
  \<^verbatim>\<open>src/shardkv1/test.go\<close>. As in the checks of Raft, the looks at the servers are a script, and what the replicated state machine
  and the controller answer is a parameter: in the repository they are outlines.
\<close>

section \<open>The tests of the replicated state machine\<close>

record rsm_scene =
  rc_srvs :: "rsmSrv option list"
  rc_connected :: "bool list"
  rc_Submit :: "nat \<Rightarrow> Err \<times> Rep option"

text \<open>The configuration, the servers and the leader that is remembered; the services are a parameter of the configuration.\<close>

definition rsm_makeTest ::
  "(nat \<Rightarrow> string) \<Rightarrow> 'svc starter \<Rightarrow> ('svc \<Rightarrow> 's Service) \<Rightarrow> int \<Rightarrow> (('s, 'svc) Config \<times> 'svc ServerGrp \<times> rsmSrv option list \<times> nat) go" where
  "rsm_makeTest rnd mks reflect now =
     go_bind (MakeConfig rnd mks reflect 3 True now) (\<lambda>cfg.
     go_bind (Config_Group cfg GRP0) (\<lambda>g. Inr (cfg, g, replicate 3 None, 0)))"

text \<open>Only the peer is started as a service.\<close>

definition rsm_mksrv :: "int \<Rightarrow> string list \<Rightarrow> nat \<Rightarrow> nat \<Rightarrow> Persister list \<Rightarrow> rsmSrv option list \<Rightarrow> (rsmSrv option list \<times> Raft) go" where
  "rsm_mksrv maxraftstate ends srv persister pers srvs =
     (let s = makeRsmSrv (int srv) ends persister maxraftstate pers
      in go_bind (slice_set srvs (int srv) (Some s)) (\<lambda>srvs. go_bind (rsmSrv_Raft s) (\<lambda>rf. Inr (srvs, rf))))"

definition rsm_cleanup ::
  "('svc \<Rightarrow> Persister list \<Rightarrow> Persister list) \<Rightarrow> int list \<Rightarrow> nat list \<Rightarrow> int \<Rightarrow> int \<Rightarrow> int \<Rightarrow> ('s, 'svc) Config \<Rightarrow> dir \<Rightarrow>
     (('s, 'svc) Config \<times> dir) go" where
  "rsm_cleanup Kill grps cs now1 now2 now3 cfg d =
     go_bind (End now1 cfg) (\<lambda>_.
     go_bind (Config_Cleanup Kill grps cs now2 cfg d) (\<lambda>(cfg, d).
     go_bind (CheckTimeout now3 cfg) (\<lambda>cfg. Inr (cfg, d))))"

text \<open>
  One pass over the servers, with \<open>k\<close> rounds left; a server that was never made is a nil pointer, the replicated state machine of a killed one is nil.
  An answer that is no \<open>Rep\<close> fails the type assertion.
\<close>

fun rsm_try :: "rsm_scene \<Rightarrow> nat \<Rightarrow> nat \<Rightarrow> (nat \<times> Rep) option go" where
  "rsm_try sn index 0 = Inr None"
| "rsm_try sn index (Suc k) =
     go_bind (slice_get (rc_connected sn) (int index)) (\<lambda>c.
     go_bind (if c
              then go_bind (slice_get (rc_srvs sn) (int index)) (\<lambda>s.
                case s of None \<Rightarrow> Inl Panic | Some s \<Rightarrow> Inr (rv_rsm s \<noteq> None))
              else Inr False) (\<lambda>ask.
     if ask \<and> fst (rc_Submit sn index) = OK
     then (case snd (rc_Submit sn index) of None \<Rightarrow> Inl Panic | Some rep \<Rightarrow> Inr (Some (index, rep)))
     else rsm_try sn ((index + 1) mod length (rc_srvs sn)) k))"

definition NSEC :: int where
  "NSEC = 10"

text \<open>The reply, and the leader that is remembered for the next call.\<close>

fun rsm_one :: "int \<Rightarrow> nat \<Rightarrow> (int \<times> rsm_scene) list \<Rightarrow> (Rep \<times> nat) go option" where
  "rsm_one t0 leader [] = None"
| "rsm_one t0 leader ((now, sn) # rounds) =
     (if now - t0 < NSEC * 1000000000
      then case rsm_try sn leader (length (rc_srvs sn)) of
             Inl x \<Rightarrow> Some (Inl x)
           | Inr (Some (index, rep)) \<Rightarrow> Some (Inr (rep, index))
           | Inr None \<Rightarrow> rsm_one t0 leader rounds
      else Some (Inl Fatal))"

definition countValue :: "64 word \<Rightarrow> rsmSrv option list \<Rightarrow> int go" where
  "countValue v srvs =
     go_fold (\<lambda>s i. case s of None \<Rightarrow> Inl Panic | Some s \<Rightarrow> Inr (if rv_counter s = v then i + 1 else i)) srvs 0"

fun checkCounter :: "64 word \<Rightarrow> int \<Rightarrow> nat \<Rightarrow> rsmSrv option list list \<Rightarrow> unit go option" where
  "checkCounter v nsrv iters [] = (if iters < 30 then None else Some (Inl Fatal))"
| "checkCounter v nsrv iters (srvs # looks) =
     (if iters < 30
      then case countValue v srvs of
             Inl x \<Rightarrow> Some (Inl x)
           | Inr n \<Rightarrow> if n \<ge> nsrv then Some (Inr ()) else checkCounter v nsrv (Suc iters) looks
      else Some (Inl Fatal))"

definition disconnectLeader :: "nat \<Rightarrow> Network \<times> 'svc ServerGrp \<Rightarrow> ((Network \<times> 'svc ServerGrp) \<times> nat) go" where
  "disconnectLeader leader s = go_bind (sg_DisconnectAll (int leader) s) (\<lambda>s. Inr (s, leader))"

definition rsm_connect :: "nat \<Rightarrow> Network \<times> 'svc ServerGrp \<Rightarrow> (Network \<times> 'svc ServerGrp) go" where
  "rsm_connect i s = ConnectOne (int i) s"

section \<open>The tests of the key/value service on Raft\<close>

text \<open>\<open>Leader\<close>: among the services of a server, the peers say whether they lead; \<open>as_Raft\<close> is the type switch.\<close>

fun services_lead :: "('svc \<Rightarrow> Raft option) \<Rightarrow> (Raft \<Rightarrow> int \<times> bool) \<Rightarrow> 'svc list \<Rightarrow> bool" where
  "services_lead as_Raft GetState [] = False"
| "services_lead as_Raft GetState (s # ss) =
     (case as_Raft s of
        Some r \<Rightarrow> if snd (GetState r) then True else services_lead as_Raft GetState ss
      | None \<Rightarrow> services_lead as_Raft GetState ss)"

fun Leader_loop :: "('svc \<Rightarrow> Raft option) \<Rightarrow> (Raft \<Rightarrow> int \<times> bool) \<Rightarrow> int \<Rightarrow> 'svc list list \<Rightarrow> bool \<times> int" where
  "Leader_loop as_Raft GetState i [] = (False, 0)"
| "Leader_loop as_Raft GetState i (ss # rest) =
     (if services_lead as_Raft GetState ss then (True, i) else Leader_loop as_Raft GetState (i + 1) rest)"

definition kvraft_Leader :: "('svc \<Rightarrow> Raft option) \<Rightarrow> (Raft \<Rightarrow> int \<times> bool) \<Rightarrow> ('s, 'svc) Config \<Rightarrow> (bool \<times> int) go" where
  "kvraft_Leader as_Raft GetState cfg =
     go_bind (Config_Group cfg GRP0) (\<lambda>g. Inr (Leader_loop as_Raft GetState 0 (Services g)))"

text \<open>A clerk for a test, with the address of its client.\<close>

definition kvraft_test_MakeClerk :: "('s, 'svc) Config \<Rightarrow> (('s, 'svc) Config \<times> kvraft_Clerk \<times> nat) go" where
  "kvraft_test_MakeClerk cfg =
     (let (clnts, clnt) = MakeClient (cf_clnts cfg); cfg = cfg\<lparr>cf_clnts := clnts\<rparr>
      in go_bind (Config_Group cfg GRP0) (\<lambda>g. Inr (cfg, kvraft_MakeClerk (SrvNames g), clnt)))"

definition MakeClerkTo :: "int list \<Rightarrow> ('s, 'svc) Config \<Rightarrow> (('s, 'svc) Config \<times> kvraft_Clerk \<times> nat) go" where
  "MakeClerkTo to cfg =
     go_bind (Config_Group cfg GRP0) (\<lambda>g.
     go_bind (SrvNamesTo g to) (\<lambda>ns.
     let (clnts, clnt) = MakeClientTo (Some ns) (cf_clnts cfg); cfg = cfg\<lparr>cf_clnts := clnts\<rparr>
     in Inr (cfg, kvraft_MakeClerk (SrvNames g), clnt)))"

record kvraft_Test =
  kt_part :: string
  kt_nclients :: int
  kt_nservers :: nat
  kt_crash :: bool
  kt_partitions :: bool
  kt_maxraftstate :: int
  kt_randomkeys :: bool

definition makeTitle :: "kvraft_Test \<Rightarrow> string" where
  "makeTitle ts =
     (let title = ''Test: '';
          title = (if kt_crash ts then title @ ''restarts, '' else title);
          title = (if kt_partitions ts then title @ ''partitions, '' else title);
          title = (if kt_maxraftstate ts \<noteq> -1 then title @ ''snapshots, '' else title);
          title = (if kt_randomkeys ts then title @ ''random keys, '' else title);
          title = (if kt_nclients ts > 1 then title @ ''many clients'' else title @ ''one client'')
      in title @ '' ('' @ kt_part ts @ '')'')"

text \<open>A test: its configuration, whose services are a parameter, and the line that it prints.\<close>

definition kvraft_MakeTest ::
  "(nat \<Rightarrow> string) \<Rightarrow> 'svc starter \<Rightarrow> ('svc \<Rightarrow> 's Service) \<Rightarrow> kvraft_Test \<Rightarrow> bool \<Rightarrow> int \<Rightarrow> int \<Rightarrow> (('s, 'svc) Config \<times> string) go" where
  "kvraft_MakeTest rnd mks reflect ts reliable now1 now2 =
     go_bind (MakeConfig rnd mks reflect (kt_nservers ts) reliable now1) (\<lambda>cfg.
     Inr (Begin now2 cfg, Begin_line (makeTitle ts) cfg))"

definition kvraft_test_StartKVServer :: "kvraft_Test \<Rightarrow> string list \<Rightarrow> int \<Rightarrow> int \<Rightarrow> nat \<Rightarrow> Persister list \<Rightarrow> kvraft_KVServer \<times> Raft" where
  "kvraft_test_StartKVServer ts servers gid me persister pers = kvraft_StartKVServer servers gid me persister (kt_maxraftstate ts) pers"

definition kvraft_test_DeleteClerk :: "nat \<Rightarrow> ('s, 'svc) Config \<Rightarrow> dir \<Rightarrow> ('s, 'svc) Config \<times> dir" where
  "kvraft_test_DeleteClerk clnt cfg d = (let (clnts, d) = DeleteClient clnt (cf_clnts cfg) d in (cfg\<lparr>cf_clnts := clnts\<rparr>, d))"

section \<open>The tests of the sharded service\<close>

definition Gid1 :: Tgid where
  "Gid1 = 1"

definition NSRV :: nat where
  "NSRV = 3"

text \<open>The state of a test: the next group number, the groups, and the controller's world, on which its clerk works.\<close>

record ('s, 'svc, 'w) shard_Test =
  st_ngid :: Tgid
  st_gs :: "('s, 'svc) Groups"
  st_ctl :: 'w

definition newGid :: "('s, 'svc, 'w) shard_Test \<Rightarrow> Tgid \<times> ('s, 'svc, 'w) shard_Test" where
  "newGid ts = (let gid = st_ngid ts in (gid, ts\<lparr>st_ngid := st_ngid ts + 1\<rparr>))"

fun test_groups :: "nat \<Rightarrow> ('s, 'svc, 'w) shard_Test \<Rightarrow> Tgid list \<times> ('s, 'svc, 'w) shard_Test" where
  "test_groups 0 ts = ([], ts)"
| "test_groups (Suc n) ts = (let (gid, ts) = newGid ts; (grps, ts) = test_groups n ts in (gid # grps, ts))"

text \<open>The clerk of the controller that a test uses.\<close>

record 'w sck =
  sk_Init :: "ShardConfig \<Rightarrow> 'w \<Rightarrow> Err \<times> 'w"
  sk_Join :: "Tgid \<Rightarrow> string list \<Rightarrow> 'w \<Rightarrow> Err \<times> 'w"
  sk_Leave :: "Tgid \<Rightarrow> 'w \<Rightarrow> Err \<times> 'w"

text \<open>\<open>None\<close> is a call of \<open>JoinBalance\<close> that does not return.\<close>

definition setupKVService ::
  "(nat \<Rightarrow> string) \<Rightarrow> 'svc starter \<Rightarrow> ('svc \<Rightarrow> 's Service) \<Rightarrow> 'w sck \<Rightarrow> ('s, 'svc, 'w) shard_Test \<Rightarrow> (('s, 'svc, 'w) shard_Test \<times> Tgid) go option" where
  "setupKVService rnd mks reflect sck ts =
     (case go_bind (MakeGroupStart rnd mks reflect Gid1 NSRV (st_gs ts)) (\<lambda>gs.
             go_bind (lookupGroup gs Gid1) (\<lambda>sg. Inr (gs, SrvNames sg))) of
        Inl x \<Rightarrow> Some (Inl x)
      | Inr (gs, names) \<Rightarrow>
          (case JoinBalance [(Gid1, names)] MakeShardConfig of
             None \<Rightarrow> None
           | Some (Inl x) \<Rightarrow> Some (Inl x)
           | Some (Inr scfg) \<Rightarrow>
               (let (err, w) = sk_Init sck scfg (st_ctl ts)
                in Some (if err \<noteq> OK then Inl Fatal else Inr (ts\<lparr>st_gs := gs, st_ctl := w\<rparr>, Gid1)))))"

fun joinGroups ::
  "(nat \<Rightarrow> string) \<Rightarrow> 'svc starter \<Rightarrow> ('svc \<Rightarrow> 's Service) \<Rightarrow> 'w sck \<Rightarrow> Tgid list \<Rightarrow> ('s, 'svc, 'w) shard_Test \<Rightarrow>
     (Err \<times> ('s, 'svc, 'w) shard_Test) go" where
  "joinGroups rnd mks reflect sck [] ts = Inr (OK, ts)"
| "joinGroups rnd mks reflect sck (gid # grps) ts =
     go_bind (MakeGroupStart rnd mks reflect gid NSRV (st_gs ts)) (\<lambda>gs.
     go_bind (lookupGroup gs gid) (\<lambda>sg.
     let (err, w) = sk_Join sck gid (SrvNames sg) (st_ctl ts); ts = ts\<lparr>st_gs := gs, st_ctl := w\<rparr>
     in if err \<noteq> OK then Inr (err, ts) else joinGroups rnd mks reflect sck grps ts))"

fun leaveGroups ::
  "('svc \<Rightarrow> Persister list \<Rightarrow> Persister list) \<Rightarrow> 'w sck \<Rightarrow> Tgid list \<Rightarrow> ('s, 'svc, 'w) shard_Test \<Rightarrow> (Err \<times> ('s, 'svc, 'w) shard_Test) go" where
  "leaveGroups Kill sck [] ts = Inr (OK, ts)"
| "leaveGroups Kill sck (gid # grps) ts =
     (let (err, w) = sk_Leave sck gid (st_ctl ts); ts = ts\<lparr>st_ctl := w\<rparr>
      in if err \<noteq> OK then Inr (err, ts)
         else go_bind (ExitGroup Kill gid (st_gs ts)) (\<lambda>gs. leaveGroups Kill sck grps (ts\<lparr>st_gs := gs\<rparr>)))"

definition shard_checkLogs_gid :: "int \<Rightarrow> ('s, 'svc) Groups \<Rightarrow> Tgid \<Rightarrow> unit \<Rightarrow> unit go" where
  "shard_checkLogs_gid maxraftstate gs gid u =
     go_bind (lookupGroup gs gid) (\<lambda>sg.
     go_bind (LogSize (gs_env gs) sg) (\<lambda>n.
     go_bind (SnapshotSize (gs_env gs) sg) (\<lambda>s.
     if maxraftstate \<ge> 0 \<and> int n > 8 * maxraftstate then Inl Fatal
     else if maxraftstate < 0 \<and> s > 0 then Inl Fatal else Inr ())))"

definition shard_checkLogs :: "int \<Rightarrow> Tgid list \<Rightarrow> ('s, 'svc) Groups \<Rightarrow> unit go" where
  "shard_checkLogs maxraftstate grps gs = go_fold (shard_checkLogs_gid maxraftstate gs) grps ()"

section \<open>Finding the leader of the state machine\<close>

text \<open>Server \<open>i\<close> is asked and answers \<open>OK\<close>.\<close>

definition submits :: "rsm_scene \<Rightarrow> nat \<Rightarrow> bool" where
  "submits sn i \<longleftrightarrow> rc_connected sn ! i \<and> rv_rsm (the (rc_srvs sn ! i)) \<noteq> None \<and> fst (rc_Submit sn i) = OK"

definition rsm_ok :: "nat \<Rightarrow> rsm_scene \<Rightarrow> bool" where
  "rsm_ok n sn \<longleftrightarrow> length (rc_connected sn) = n \<and> length (rc_srvs sn) = n \<and> None \<notin> set (rc_srvs sn) \<and>
     (\<forall>i<n. fst (rc_Submit sn i) = OK \<longrightarrow> snd (rc_Submit sn i) \<noteq> None)"

text \<open>The servers in the order in which they are asked.\<close>

definition cyclic :: "nat \<Rightarrow> nat \<Rightarrow> nat \<Rightarrow> nat list" where
  "cyclic n i k = map (\<lambda>j. (i + j) mod n) [0..<k]"

lemma cyclic_Suc: "i < n \<Longrightarrow> cyclic n i (Suc k) = i # cyclic n ((i + 1) mod n) k"
  by (simp add: cyclic_def map_upt_Suc mod_add_left_eq add.assoc del: upt_Suc)

lemma cyclic_set: "i < n \<Longrightarrow> set (cyclic n i n) = {..<n}"
proof
  assume i: "i < n"
  show "set (cyclic n i n) \<subseteq> {..<n}" using i by (auto simp: cyclic_def)
  show "{..<n} \<subseteq> set (cyclic n i n)"
  proof
    fix j assume j: "j \<in> {..<n}"
    let ?d = "(j + n - i) mod n"
    have "(i + ?d) mod n = j" using i j by (simp add: mod_add_right_eq)
    moreover have "?d < n" using i by simp
    ultimately show "j \<in> set (cyclic n i n)" by (force simp: cyclic_def)
  qed
qed

lemma rsm_try_spec:
  assumes "rsm_ok n sn" and "index < n"
  shows "rsm_try sn index k =
    Inr (map_option (\<lambda>i. (i, the (snd (rc_Submit sn i)))) (List.find (submits sn) (cyclic n index k)))"
  using assms(2)
proof (induction k arbitrary: index)
  case (Suc k)
  have "rc_srvs sn ! index \<noteq> None" using assms(1) Suc.prems nth_mem [of index "rc_srvs sn"] by (metis rsm_ok_def)
  then obtain s where s: "rc_srvs sn ! index = Some s" by blast
  have len: "length (rc_connected sn) = n" "length (rc_srvs sn) = n" using assms(1) by (simp_all add: rsm_ok_def)
  have sub: "submits sn index \<longleftrightarrow> rc_connected sn ! index \<and> rv_rsm s \<noteq> None \<and> fst (rc_Submit sn index) = OK"
    using s by (simp add: submits_def)
  have rep: "fst (rc_Submit sn index) = OK \<Longrightarrow> \<exists>rep. snd (rc_Submit sn index) = Some rep"
    using assms(1) Suc.prems by (auto simp: rsm_ok_def)
  have "rsm_try sn ((index + 1) mod n) k =
      Inr (map_option (\<lambda>i. (i, the (snd (rc_Submit sn i)))) (List.find (submits sn) (cyclic n ((index + 1) mod n) k)))"
    using Suc by simp
  then show ?case
    using Suc.prems len s rep unfolding cyclic_Suc [OF Suc.prems] by (auto simp: slice_get_def sub)
qed (simp add: cyclic_def)

text \<open>
  The tests of the state machine find its leader. On looks at servers that have all been made, whatever their
  replicated state machines answer, \<open>one\<close> returns the reply of the first server that is connected, alive and accepts the operation,
  asking the servers in order from the leader of the last call on, at the first look within ten seconds at which there is one; this
  server is the leader of the next call. It fails if no server accepts before ten seconds are over.
\<close>

lemma rsm_one_finds_leader:
  assumes "list_all (\<lambda>(now, sn). rsm_ok n sn) rounds" and "leader < n" and "list_ex (\<lambda>(now, sn). now - t0 \<ge> NSEC * 1000000000) rounds"
  shows "rsm_one t0 leader rounds =
    (case List.find (\<lambda>(now, sn). now - t0 \<ge> NSEC * 1000000000 \<or> (\<exists>i<n. submits sn i)) rounds of
       None \<Rightarrow> None
     | Some (now, sn) \<Rightarrow>
         if now - t0 \<ge> NSEC * 1000000000 then Some (Inl Fatal)
         else (case List.find (submits sn) (cyclic n leader n) of
                 None \<Rightarrow> None
               | Some i \<Rightarrow> Some (Inr (the (snd (rc_Submit sn i)), i)))) \<and>
    rsm_one t0 leader rounds \<noteq> None"
  using assms
proof (induction rounds)
  case (Cons r rounds)
  obtain now sn where r: "r = (now, sn)" by (cases r)
  have ok: "rsm_ok n sn" "length (rc_srvs sn) = n" using Cons.prems(1) r by (simp_all add: rsm_ok_def)
  note try_spec = rsm_try_spec [OF ok(1) Cons.prems(2), of n]
  show ?case
  proof (cases "now - t0 \<ge> NSEC * 1000000000")
    case True
    then show ?thesis using r by simp
  next
    case early: False
    have iff: "List.find (submits sn) (cyclic n leader n) = None \<longleftrightarrow> \<not> (\<exists>i<n. submits sn i)"
      using cyclic_set [OF Cons.prems(2)] by (auto simp: find_None_iff)
    show ?thesis
    proof (cases "\<exists>i<n. submits sn i")
      case True
      then obtain i where "List.find (submits sn) (cyclic n leader n) = Some i" using iff by auto
      then show ?thesis using r early ok(2) try_spec True by simp
    next
      case False
      then have one: "rsm_one t0 leader (r # rounds) = rsm_one t0 leader rounds" using r early ok(2) try_spec iff by simp
      have found: "List.find (\<lambda>(now, sn). now - t0 \<ge> NSEC * 1000000000 \<or> (\<exists>i<n. submits sn i)) (r # rounds) =
          List.find (\<lambda>(now, sn). now - t0 \<ge> NSEC * 1000000000 \<or> (\<exists>i<n. submits sn i)) rounds"
        using r early False by auto
      have "list_all (\<lambda>(now, sn). rsm_ok n sn) rounds" "list_ex (\<lambda>(now, sn). now - t0 \<ge> NSEC * 1000000000) rounds"
        using Cons.prems r early by simp_all
      from Cons.IH [OF this(1) Cons.prems(2) this(2)] show ?thesis unfolding one found .
    qed
  qed
qed simp

text \<open>Three servers: the first is cut off, the second has been killed, the third leads.\<close>

definition rsm_demo :: "rsm_scene" where
  "rsm_demo = \<lparr>rc_srvs = [Some (makeRsmSrv 0 [] 0 0 [MakePersister]), Some (rsmSrv_Kill (makeRsmSrv 1 [] 0 0 [MakePersister])), Some (makeRsmSrv 2 [] 0 0 [MakePersister])],
     rc_connected = [False, True, True], rc_Submit = (\<lambda>i. (OK, Some \<lparr>rep_N = 7\<rparr>))\<rparr>"

lemma rsm_one_finds_leader_example:
  "rsm_one 0 1 [(5, rsm_demo), (10000000000, rsm_demo)] = Some (Inr (\<lparr>rep_N = 7\<rparr>, 2))"
proof -
  have ok: "rsm_ok 3 rsm_demo" by (simp add: rsm_ok_def rsm_demo_def)
  have sub: "\<not> submits rsm_demo 1" "submits rsm_demo 2"
    by (simp_all add: submits_def rsm_demo_def rsmSrv_Kill_def makeRsmSrv_def)
  have "cyclic 3 1 3 = [1, 2, 0]" by code_simp
  then have found: "List.find (submits rsm_demo) (cyclic 3 1 3) = Some 2" using sub by (simp only: find.simps if_True if_False)
  have some: "(\<exists>i<3. submits rsm_demo i) = True" using sub(2) by (intro eqTrueI exI [of _ 2]) simp
  have "rsm_one 0 1 [(5, rsm_demo), (10000000000, rsm_demo)] = Some (Inr (the (snd (rc_Submit rsm_demo 2)), 2))"
    using rsm_one_finds_leader [of 3 "[(5, rsm_demo), (10000000000, rsm_demo)]" 1 0] ok unfolding NSEC_def
    by (simp add: some found [unfolded One_nat_def])
  then show ?thesis by (simp add: rsm_demo_def)
qed

section \<open>Counters\<close>

lemma countValue_spec:
  assumes "None \<notin> set srvs"
  shows "countValue v srvs = Inr (int (length (filter (\<lambda>s. rv_counter (the s) = v) srvs)))"
proof -
  have "go_fold (\<lambda>s i. case s of None \<Rightarrow> Inl Panic | Some s \<Rightarrow> Inr (if rv_counter s = v then i + 1 else i)) srvs c =
      Inr (c + int (length (filter (\<lambda>s. rv_counter (the s) = v) srvs)))" for c
    using assms by (induction srvs arbitrary: c) (auto simp: eq_commute [of None] split: option.split)
  then show ?thesis by (simp add: countValue_def)
qed

text \<open>\<open>checkCounter\<close> passes if at one of its thirty looks enough servers have the value, and fails otherwise.\<close>

lemma checkCounter_spec:
  assumes "list_all (\<lambda>srvs. None \<notin> set srvs) looks" and "iters + length looks = 30"
  shows "checkCounter v nsrv iters looks =
    Some (if list_ex (\<lambda>srvs. nsrv \<le> int (length (filter (\<lambda>s. rv_counter (the s) = v) srvs))) looks then Inr () else Inl Fatal)"
  using assms by (induction looks arbitrary: iters) (auto simp: countValue_spec)

section \<open>Leaders and clerks of the service on Raft\<close>

lemma services_lead_iff: "services_lead as_Raft GetState ss \<longleftrightarrow> (\<exists>s \<in> set ss. \<exists>r. as_Raft s = Some r \<and> snd (GetState r))"
  by (induction ss) (auto split: option.splits)

text \<open>\<open>Leader\<close> returns the first server one of whose peers says that it leads.\<close>

lemma Leader_loop_spec:
  "Leader_loop as_Raft GetState i sss =
     (case List.find (\<lambda>j. services_lead as_Raft GetState (sss ! j)) [0..<length sss] of None \<Rightarrow> (False, 0) | Some j \<Rightarrow> (True, i + int j))"
proof (induction sss arbitrary: i)
  case (Cons ss sss)
  have upt: "[0..<length (ss # sss)] = 0 # map Suc [0..<length sss]" by (simp add: map_Suc_upt upt_conv_Cons del: upt_Suc)
  have "List.find P (map Suc js) = map_option Suc (List.find (P \<circ> Suc) js)" for P js by (induction js) auto
  then show ?case using Cons unfolding upt by (auto simp: comp_def split: option.split)
qed simp

text \<open>A clerk that is made for some of the servers may call these servers only, although it is given the names of all.\<close>

lemma MakeClerkTo_spec:
  assumes "Config_Group cfg GRP0 = Inr g" and "set to \<subseteq> {0..<int (length (sg_servernames g))}"
  shows "\<exists>cfg' clnt. MakeClerkTo to cfg = Inr (cfg', kvraft_MakeClerk (SrvNames g), clnt) \<and>
    (\<forall>server. allowedL (cs_store (cf_clnts cfg') ! clnt) server \<longleftrightarrow> server \<in> (\<lambda>i. sg_servernames g ! nat i) ` set to)"
proof -
  have "go_fold (\<lambda>i ns. go_bind (slice_get (sg_servernames g) i) (\<lambda>n. Inr (ns @ [n]))) is ns =
      Inr (ns @ map (\<lambda>i. sg_servernames g ! nat i) is)" if "set is \<subseteq> {0..<int (length (sg_servernames g))}" for "is" ns
    using that by (induction "is" arbitrary: ns) (auto simp: slice_get_def)
  then have "SrvNamesTo g to = Inr (map (\<lambda>i. sg_servernames g ! nat i) to)" using assms(2) by (simp add: SrvNamesTo_def)
  then show ?thesis
    using assms(1) by (auto simp: MakeClerkTo_def MakeClientTo_def allowedL_def makeClntTo_def allowed_in_set)
qed

section \<open>Groups of the sharded service\<close>

lemma test_groups_spec:
  "test_groups n ts = (map (\<lambda>i. st_ngid ts + int i) [0..<n], ts\<lparr>st_ngid := st_ngid ts + int n\<rparr>)"
proof (induction n arbitrary: ts)
  case (Suc n)
  then show ?case by (simp add: newGid_def map_upt_Suc algebra_simps del: upt_Suc)
qed simp

text \<open>The numbers of new groups are all different, and never that of the first group, when a test starts to number at \<open>Gid1 + 1\<close>.\<close>

lemma test_groups_fresh: "Gid1 < st_ngid ts \<Longrightarrow> distinct (fst (test_groups n ts)) \<and> Gid1 \<notin> set (fst (test_groups n ts))"
  by (auto simp: test_groups_spec distinct_map inj_on_def)

abbreviation shard_names :: "Tgid \<Rightarrow> string list" where
  "shard_names gid \<equiv> map (\<lambda>i. ServerName gid (int i)) [0..<NSRV]"

definition first_config :: ShardConfig where
  "first_config = \<lparr>sc_Num = 1, sc_Shards = replicate NShards Gid1, sc_Groups = [(Gid1, shard_names Gid1)]\<rparr>"

lemma first_config_balanced: "JoinBalance [(Gid1, shard_names Gid1)] MakeShardConfig = Some (Inr first_config)"
proof -
  have "analyze first_config = (1, 12, 1, 12)" by code_simp
  then have "Rebalance_move first_config = Some first_config" by (subst Rebalance_move.simps) simp
  moreover have "JoinBalance [(Gid1, shard_names Gid1)] MakeShardConfig = map_option Inr (Rebalance_move first_config)" by code_simp
  ultimately show ?thesis by simp
qed

text \<open>
  C35: the sharded service is set up with one group that owns every shard. If end-point names never repeat and the controller accepts the first configuration,
  \<open>setupKVService\<close> returns the number of the first group. The configuration that it gave to the controller has number 1 and one group, which
  owns all shards, with the names of three servers that are up and connected to each other; no other group has changed.
\<close>

theorem setup_serves_every_shard:
  fixes ts :: "('s, 'svc, 'w) shard_Test"
  assumes "inj rnd" and "names_fresh rnd (gs_env (st_gs ts))" and "fst (sk_Init sck first_config (st_ctl ts)) = OK"
  shows "\<exists>e sg. setupKVService rnd mks reflect sck ts =
      Some (Inr (ts\<lparr>st_gs := \<lparr>gs_env = e, gs_grps = (gs_grps (st_gs ts))(Gid1 \<mapsto> sg)\<rparr>, st_ctl := snd (sk_Init sck first_config (st_ctl ts))\<rparr>, Gid1)) \<and>
    list_all (\<lambda>g. g = Gid1) (sc_Shards first_config) \<and> sc_Groups first_config = [(Gid1, SrvNames sg)] \<and> sc_Num first_config = 1 \<and>
    sg_N sg = NSRV \<and> (\<forall>i<NSRV. is_up Gid1 (int i) e) \<and> all_connected e sg \<and> names_fresh rnd e"
proof -
  obtain e sg where m: "MakeGroupStart rnd mks reflect Gid1 NSRV (st_gs ts) = Inr \<lparr>gs_env = e, gs_grps = (gs_grps (st_gs ts))(Gid1 \<mapsto> sg)\<rparr>"
    and sg: "grp_inv rnd (e, sg)" "sg_N sg = NSRV" "SrvNames sg = shard_names Gid1" "\<forall>i<NSRV. is_up Gid1 (int i) e" "all_connected e sg"
    using MakeGroupStart_total [OF assms(1,2)] by blast
  have "setupKVService rnd mks reflect sck ts =
      Some (Inr (ts\<lparr>st_gs := \<lparr>gs_env = e, gs_grps = (gs_grps (st_gs ts))(Gid1 \<mapsto> sg)\<rparr>, st_ctl := snd (sk_Init sck first_config (st_ctl ts))\<rparr>, Gid1))"
    using m sg(3) assms(3) first_config_balanced by (simp add: setupKVService_def lookupGroup_def case_prod_beta Let_def)
  moreover have "names_fresh rnd e" using sg(1) by (simp add: grp_inv_def srvs_ok_def)
  ultimately show ?thesis using sg by (intro exI [of _ e] exI [of _ sg]) (simp add: first_config_def list_all_iff)
qed

text \<open>A controller that only remembers the last configuration.\<close>

definition demo_sck :: "ShardConfig option sck" where
  "demo_sck = \<lparr>sk_Init = (\<lambda>c w. (OK, Some c)), sk_Join = (\<lambda>gid names w. (OK, w)), sk_Leave = (\<lambda>gid w. (OK, w))\<rparr>"

definition demo_shard_test :: "(unit, unit, ShardConfig option) shard_Test" where
  "demo_shard_test = \<lparr>st_ngid = Gid1 + 1, st_gs = newGroups demo_env, st_ctl = None\<rparr>"

theorem setup_serves_every_shard_witness:
  "\<exists>ts. setupKVService digits (\<lambda>_ _ _ _ pers. ([()], pers)) (\<lambda>_. MakeService ''Nop'' []) demo_sck demo_shard_test = Some (Inr (ts, Gid1)) \<and>
     st_ctl ts = Some first_config \<and> is_up Gid1 2 (gs_env (st_gs ts))"
proof -
  have "names_fresh digits (gs_env (st_gs demo_shard_test))"
    by (simp add: demo_shard_test_def newGroups_def names_fresh_def demo_env_def MakeNetwork_def)
  moreover have "fst (sk_Init demo_sck first_config (st_ctl demo_shard_test)) = OK" by (simp add: demo_sck_def)
  ultimately obtain e sg where
    "setupKVService digits (\<lambda>_ _ _ _ pers. ([()], pers)) (\<lambda>_. MakeService ''Nop'' []) demo_sck demo_shard_test =
      Some (Inr (demo_shard_test\<lparr>st_gs := \<lparr>gs_env = e, gs_grps = (gs_grps (st_gs demo_shard_test))(Gid1 \<mapsto> sg)\<rparr>,
        st_ctl := snd (sk_Init demo_sck first_config (st_ctl demo_shard_test))\<rparr>, Gid1))"
    and up: "\<forall>i<NSRV. is_up Gid1 (int i) e"
    using setup_serves_every_shard [OF inj_digits, of demo_shard_test demo_sck "\<lambda>_ _ _ _ pers. ([()], pers)" "\<lambda>_. MakeService ''Nop'' []"] by blast
  moreover have "is_up Gid1 2 e" using spec [OF up, of 2] by (simp add: NSRV_def)
  ultimately show ?thesis by (simp add: demo_sck_def)
qed

text \<open>Joining makes the groups of the list, up to the first that the controller does not accept.\<close>

lemma joinGroups_total:
  assumes "inj rnd" and "names_fresh rnd (gs_env (st_gs ts))"
  shows "\<exists>err ts' k. joinGroups rnd mks reflect sck grps ts = Inr (err, ts') \<and> names_fresh rnd (gs_env (st_gs ts')) \<and>
    dom (gs_grps (st_gs ts')) = dom (gs_grps (st_gs ts)) \<union> set (take k grps) \<and> (err = OK \<longrightarrow> k = length grps)"
  using assms(2)
proof (induction grps arbitrary: ts)
  case Nil
  then show ?case by (auto intro!: exI [of _ 0])
next
  case (Cons gid grps)
  obtain e sg where m: "MakeGroupStart rnd mks reflect gid NSRV (st_gs ts) = Inr \<lparr>gs_env = e, gs_grps = (gs_grps (st_gs ts))(gid \<mapsto> sg)\<rparr>"
    and "grp_inv rnd (e, sg)"
    using MakeGroupStart_total [OF assms(1) Cons.prems] by blast
  then have fresh: "names_fresh rnd e" by (simp add: grp_inv_def srvs_ok_def)
  obtain err w where j: "sk_Join sck gid (SrvNames sg) (st_ctl ts) = (err, w)" by (cases "sk_Join sck gid (SrvNames sg) (st_ctl ts)")
  let ?ts = "ts\<lparr>st_gs := \<lparr>gs_env = e, gs_grps = (gs_grps (st_gs ts))(gid \<mapsto> sg)\<rparr>, st_ctl := w\<rparr>"
  have eq: "joinGroups rnd mks reflect sck (gid # grps) ts = (if err \<noteq> OK then Inr (err, ?ts) else joinGroups rnd mks reflect sck grps ?ts)"
    using m j by (simp add: lookupGroup_def)
  show ?case
  proof (cases "err = OK")
    case True
    have "names_fresh rnd (gs_env (st_gs ?ts))" using fresh by simp
    from Cons.IH [OF this] obtain err' ts' k where
      "joinGroups rnd mks reflect sck grps ?ts = Inr (err', ts')" "names_fresh rnd (gs_env (st_gs ts'))"
      "dom (gs_grps (st_gs ts')) = dom (gs_grps (st_gs ?ts)) \<union> set (take k grps)" "err' = OK \<longrightarrow> k = length grps"
      by blast
    moreover have "dom (gs_grps (st_gs ?ts)) = insert gid (dom (gs_grps (st_gs ts)))" by simp
    ultimately show ?thesis using eq True by (intro exI [of _ err'] exI [of _ ts'] exI [of _ "Suc k"]) auto
  next
    case False
    then show ?thesis using eq fresh by (intro exI [of _ err] exI [of _ ?ts] exI [of _ 1]) auto
  qed
qed

text \<open>Leaving deletes them again, when the controller accepts.\<close>

lemma leaveGroups_deletes:
  assumes "leaveGroups Kill sck grps ts = Inr (OK, ts')"
  shows "dom (gs_grps (st_gs ts')) = dom (gs_grps (st_gs ts)) - set grps"
  using assms
proof (induction grps arbitrary: ts)
  case (Cons gid grps)
  from Cons.prems obtain w gs where
    x: "ExitGroup Kill gid (st_gs ts) = Inr gs" and l: "leaveGroups Kill sck grps (ts\<lparr>st_ctl := w, st_gs := gs\<rparr>) = Inr (OK, ts')"
    by (auto simp: Let_def go_bind_Inr_iff split: prod.splits if_splits)
  have "dom (gs_grps gs) = dom (gs_grps (st_gs ts)) - {gid}"
    using x by (auto simp: ExitGroup_def on_group_def Groups_delete_def go_bind_Inr_iff split: if_splits)
  then show ?case using Cons.IH [OF l] by auto
qed simp

text \<open>\<open>checkLogs\<close> passes if all logs are short enough, or all snapshots empty.\<close>

lemma shard_checkLogs_passes:
  assumes "\<And>gid. gid \<in> set grps \<Longrightarrow> \<exists>sg n s. gs_grps gs gid = Some sg \<and> LogSize (gs_env gs) sg = Inr n \<and> SnapshotSize (gs_env gs) sg = Inr s \<and>
      (if maxraftstate \<ge> 0 then int n \<le> 8 * maxraftstate else s = 0)"
  shows "shard_checkLogs maxraftstate grps gs = Inr ()"
  unfolding shard_checkLogs_def using assms
proof (induction grps)
  case (Cons gid grps)
  from Cons.prems [of gid] have "shard_checkLogs_gid maxraftstate gs gid () = Inr ()"
    by (auto simp: shard_checkLogs_gid_def lookupGroup_def split: if_splits)
  with Cons show ?case by simp
qed simp

end
