(* ===== verification/OldServices.thy ===== *)
theory OldServices
  imports GoStrings
begin

text \<open>
  The programs under \<^verbatim>\<open>src/main/\<close> for services of earlier courses: \<^verbatim>\<open>diskvd.go\<close>, \<^verbatim>\<open>lockc.go\<close>, \<^verbatim>\<open>lockd.go\<close>,
  \<^verbatim>\<open>pbc.go\<close>, \<^verbatim>\<open>pbd.go\<close> and \<^verbatim>\<open>viewd.go\<close>. The packages \<^verbatim>\<open>diskv\<close>, \<^verbatim>\<open>lockservice\<close>, \<^verbatim>\<open>pbservice\<close> and \<^verbatim>\<open>viewservice\<close> that they
  import are not in the repository; their functions are arguments here, on a world of type \<open>'w\<close>. A program is a function of
  its command line; \<open>None\<close> is the usage message and exit status 1. A server's endless sleep, and the forced end of
  \<^verbatim>\<open>diskvd\<close> after ten minutes, follow what is modelled and are left out.
\<close>

section \<open>Numbers and truth values on the command line\<close>

text \<open>\<open>strconv.ParseInt\<close> with base 10 and 64 bits, \<open>strconv.Atoi\<close> and \<open>strconv.ParseBool\<close>, each with its value also on an error.\<close>

datatype NumError = ErrSyntax | ErrRange

fun ParseUint_loop :: "string \<Rightarrow> int \<Rightarrow> NumError + int" where
  "ParseUint_loop [] n = Inr n"
| "ParseUint_loop (c # s) n =
     (if \<not> is_digit c then Inl ErrSyntax
      else let n = n * 10 + (int (of_char c) - 48) in if n > 2 ^ 64 - 1 then Inl ErrRange else ParseUint_loop s n)"

definition ParseUint :: "string \<Rightarrow> NumError + int" where
  "ParseUint s = (if s = [] then Inl ErrSyntax else ParseUint_loop s 0)"

definition cut_sign :: "string \<Rightarrow> bool \<times> string" where
  "cut_sign s =
     (if s \<noteq> [] \<and> hd s = CHR ''+'' then (False, tl s) else if s \<noteq> [] \<and> hd s = CHR ''-'' then (True, tl s) else (False, s))"

definition ParseInt :: "string \<Rightarrow> int \<times> NumError option" where
  "ParseInt s =
     (let (neg, s) = cut_sign s; cutoff = 2 ^ 63
      in case ParseUint s of
           Inl ErrSyntax \<Rightarrow> (0, Some ErrSyntax)
         | Inl ErrRange \<Rightarrow> if neg then (- cutoff, Some ErrRange) else (cutoff - 1, Some ErrRange)
         | Inr un \<Rightarrow>
             if \<not> neg \<and> un \<ge> cutoff then (cutoff - 1, Some ErrRange)
             else if neg \<and> un > cutoff then (- cutoff, Some ErrRange)
             else (if neg then - un else un, None))"

definition Atoi :: "string \<Rightarrow> int \<times> NumError option" where
  "Atoi s = ParseInt s"

definition ParseBool :: "string \<Rightarrow> bool \<times> NumError option" where
  "ParseBool s =
     (if s \<in> set [''1'', ''t'', ''T'', ''true'', ''TRUE'', ''True''] then (True, None)
      else if s \<in> set [''0'', ''f'', ''F'', ''false'', ''FALSE'', ''False''] then (False, None)
      else (False, Some ErrSyntax))"

lemma ParseUint_loop_pos: "ParseUint_loop s n = Inr m \<Longrightarrow> 0 \<le> n \<Longrightarrow> 0 \<le> m"
  by (induction s n rule: ParseUint_loop.induct) (auto simp: Let_def is_digit_def split: if_splits)

lemma ParseInt_bounds: "- (2 ^ 63) \<le> fst (ParseInt s) \<and> fst (ParseInt s) < 2 ^ 63"
proof -
  obtain neg t where st: "cut_sign s = (neg, t)" by fastforce
  have "0 \<le> m" if "ParseUint t = Inr m" for m
    using that ParseUint_loop_pos [of t 0 m] by (auto simp: ParseUint_def split: if_splits)
  then show ?thesis
    by (cases "ParseUint t") (fastforce simp: ParseInt_def st split: NumError.splits)+
qed

text \<open>A number that was printed is read back.\<close>

lemma digits_grow:
  assumes "\<forall>c \<in> set s. is_digit c" and "0 \<le> n"
  shows "n \<le> foldl (\<lambda>n c. n * 10 + (int (of_char c) - 48)) n s"
  using assms
proof (induction s arbitrary: n)
  case (Cons c s)
  have "n \<le> n * 10 + (int (of_char c) - 48)" using Cons.prems by (simp add: is_digit_def)
  also have "\<dots> \<le> foldl (\<lambda>n c. n * 10 + (int (of_char c) - 48)) (n * 10 + (int (of_char c) - 48)) s"
    by (rule Cons.IH) (use Cons.prems in \<open>auto simp: is_digit_def\<close>)
  finally show ?case by simp
qed simp

lemma ParseUint_loop_value:
  assumes "\<forall>c \<in> set s. is_digit c" and "0 \<le> n" and "foldl (\<lambda>n c. n * 10 + (int (of_char c) - 48)) n s < 2 ^ 64"
  shows "ParseUint_loop s n = Inr (foldl (\<lambda>n c. n * 10 + (int (of_char c) - 48)) n s)"
  using assms
proof (induction s arbitrary: n)
  case (Cons c s)
  let ?n = "n * 10 + (int (of_char c) - 48)"
  have "0 \<le> ?n" using Cons.prems by (simp add: is_digit_def)
  moreover have "?n < 2 ^ 64" using digits_grow [of s ?n] \<open>0 \<le> ?n\<close> Cons.prems by simp
  ultimately show ?case using Cons.IH [of ?n] Cons.prems by simp
qed simp

lemma ParseUint_digits: "int n < 2 ^ 64 \<Longrightarrow> ParseUint (digits n) = Inr (int n)"
  using ParseUint_loop_value [of "digits n" 0] digits_are_digits [of _ n] digits_value_digits [of n]
  by (simp add: ParseUint_def digits_value_def)

lemma ParseInt_Itoa:
  assumes "- (2 ^ 63) \<le> i" and "i < 2 ^ 63"
  shows "ParseInt (strconv_Itoa i) = (i, None)"
proof (cases "i < 0")
  case True
  then have "ParseUint (digits (nat (- i))) = Inr (- i)" using ParseUint_digits [of "nat (- i)"] assms(1) by simp
  then show ?thesis using True assms by (simp add: strconv_Itoa_def ParseInt_def cut_sign_def)
next
  case False
  have "is_digit (hd (digits (nat i)))" using digits_are_digits [of "hd (digits (nat i))" "nat i"] by simp
  then have "cut_sign (digits (nat i)) = (False, digits (nat i))" by (auto simp: cut_sign_def is_digit_def)
  then show ?thesis using ParseUint_digits [of "nat i"] False assms by (simp add: strconv_Itoa_def ParseInt_def)
qed

section \<open>\<open>diskvd\<close>\<close>

record diskvd_opts =
  dk_gid :: int
  dk_masters :: "string list"
  dk_replicas :: "string list"
  dk_me :: int
  dk_unreliable :: bool
  dk_dir :: string
  dk_restart :: bool

definition diskvd_defaults :: diskvd_opts where
  "diskvd_defaults = \<lparr>dk_gid = -1, dk_masters = [], dk_replicas = [], dk_me = -1, dk_unreliable = False, dk_dir = [], dk_restart = False\<rparr>"

text \<open>One option, and the loop over pairs of arguments; a last argument without a partner is not looked at.\<close>

definition diskvd_flag :: "string \<Rightarrow> string \<Rightarrow> diskvd_opts \<Rightarrow> diskvd_opts option" where
  "diskvd_flag a0 a1 opts =
     (if a0 = ''-g'' then Some (opts\<lparr>dk_gid := fst (ParseInt a1)\<rparr>)
      else if a0 = ''-m'' then Some (opts\<lparr>dk_masters := dk_masters opts @ [a1]\<rparr>)
      else if a0 = ''-s'' then Some (opts\<lparr>dk_replicas := dk_replicas opts @ [a1]\<rparr>)
      else if a0 = ''-i'' then Some (opts\<lparr>dk_me := fst (Atoi a1)\<rparr>)
      else if a0 = ''-u'' then Some (opts\<lparr>dk_unreliable := fst (ParseBool a1)\<rparr>)
      else if a0 = ''-d'' then Some (opts\<lparr>dk_dir := a1\<rparr>)
      else if a0 = ''-r'' then Some (opts\<lparr>dk_restart := fst (ParseBool a1)\<rparr>)
      else None)"

fun diskvd_flags :: "string list \<Rightarrow> diskvd_opts \<Rightarrow> diskvd_opts option" where
  "diskvd_flags (a0 # a1 # args) opts = (case diskvd_flag a0 a1 opts of None \<Rightarrow> None | Some opts \<Rightarrow> diskvd_flags args opts)"
| "diskvd_flags _ opts = Some opts"

definition diskvd_main ::
  "(int \<Rightarrow> string list \<Rightarrow> string list \<Rightarrow> int \<Rightarrow> string \<Rightarrow> bool \<Rightarrow> 'w \<Rightarrow> 'w) \<Rightarrow> (bool \<Rightarrow> 'w \<Rightarrow> 'w) \<Rightarrow> string list \<Rightarrow> 'w \<Rightarrow> 'w option" where
  "diskvd_main StartServer Setunreliable args w =
     (case diskvd_flags (drop 1 args) diskvd_defaults of
        None \<Rightarrow> None
      | Some opts \<Rightarrow>
          if dk_gid opts < 0 \<or> dk_me opts < 0 \<or> length (dk_masters opts) < 1 \<or> dk_me opts \<ge> int (length (dk_replicas opts)) \<or> dk_dir opts = []
          then None
          else Some (Setunreliable (dk_unreliable opts)
                 (StartServer (dk_gid opts) (dk_masters opts) (dk_replicas opts) (dk_me opts) (dk_dir opts) (dk_restart opts) w)))"

section \<open>\<open>lockc\<close>, \<open>lockd\<close>, \<open>pbc\<close>, \<open>pbd\<close> and \<open>viewd\<close>\<close>

text \<open>The clients also return what they print.\<close>

definition lockc_main ::
  "(string \<Rightarrow> string \<Rightarrow> 'ck) \<Rightarrow> ('ck \<Rightarrow> string \<Rightarrow> 'w \<Rightarrow> bool \<times> 'w) \<Rightarrow> ('ck \<Rightarrow> string \<Rightarrow> 'w \<Rightarrow> bool \<times> 'w) \<Rightarrow> string list \<Rightarrow> 'w \<Rightarrow> (string \<times> 'w) option" where
  "lockc_main MakeClerk Lock Unlock args w =
     (let reply = (\<lambda>(ok, w). Some (''reply: '' @ (if ok then ''true'' else ''false'') @ [CHR 0x0A], w))
      in if length args = 5 then
           let ck = MakeClerk (args ! 2) (args ! 3)
           in if args ! 1 = ''-l'' then reply (Lock ck (args ! 4) w)
              else if args ! 1 = ''-u'' then reply (Unlock ck (args ! 4) w)
              else None
         else None)"

definition lockd_main :: "(string \<Rightarrow> string \<Rightarrow> bool \<Rightarrow> 'w \<Rightarrow> 'w) \<Rightarrow> string list \<Rightarrow> 'w \<Rightarrow> 'w option" where
  "lockd_main StartServer args w =
     (if length args = 4 \<and> args ! 1 = ''-p'' then Some (StartServer (args ! 2) (args ! 3) True w)
      else if length args = 4 \<and> args ! 1 = ''-b'' then Some (StartServer (args ! 2) (args ! 3) False w)
      else None)"

definition pbc_main ::
  "(string \<Rightarrow> string \<Rightarrow> 'ck) \<Rightarrow> ('ck \<Rightarrow> string \<Rightarrow> 'w \<Rightarrow> string \<times> 'w) \<Rightarrow> ('ck \<Rightarrow> string \<Rightarrow> string \<Rightarrow> 'w \<Rightarrow> 'w) \<Rightarrow> string list \<Rightarrow> 'w \<Rightarrow> (string \<times> 'w) option" where
  "pbc_main MakeClerk Get Put args w =
     (if length args = 3 then
        let ck = MakeClerk (args ! 1) []; (v, w) = Get ck (args ! 2) w in Some (v @ [CHR 0x0A], w)
      else if length args = 4 then
        let ck = MakeClerk (args ! 1) [] in Some ([], Put ck (args ! 2) (args ! 3) w)
      else None)"

definition pbd_main :: "(string \<Rightarrow> string \<Rightarrow> 'w \<Rightarrow> 'w) \<Rightarrow> string list \<Rightarrow> 'w \<Rightarrow> 'w option" where
  "pbd_main StartServer args w = (if length args \<noteq> 3 then None else Some (StartServer (args ! 1) (args ! 2) w))"

definition viewd_main :: "(string \<Rightarrow> 'w \<Rightarrow> 'w) \<Rightarrow> string list \<Rightarrow> 'w \<Rightarrow> 'w option" where
  "viewd_main StartServer args w = (if length args \<noteq> 2 then None else Some (StartServer (args ! 1) w))"

section \<open>What \<open>diskvd\<close> starts\<close>

text \<open>The values that follow an option on a command line.\<close>

fun values_of :: "string \<Rightarrow> string list \<Rightarrow> string list" where
  "values_of f (a0 # a1 # args) = (if a0 = f then [a1] else []) @ values_of f args"
| "values_of f _ = []"

lemma diskvd_flag_fields:
  assumes "diskvd_flag a0 a1 opts = Some opts'"
  shows "dk_masters opts' = dk_masters opts @ (if a0 = ''-m'' then [a1] else [])"
    and "dk_replicas opts' = dk_replicas opts @ (if a0 = ''-s'' then [a1] else [])"
    and "dk_gid opts' = (if a0 = ''-g'' then fst (ParseInt a1) else dk_gid opts)"
    and "dk_me opts' = (if a0 = ''-i'' then fst (Atoi a1) else dk_me opts)"
  using assms unfolding diskvd_flag_def by (auto split: if_splits)

lemma diskvd_flags_Cons:
  "diskvd_flags (a0 # a1 # args) opts = Some opts' \<longleftrightarrow> (\<exists>o1. diskvd_flag a0 a1 opts = Some o1 \<and> diskvd_flags args o1 = Some opts')"
  by (simp split: option.splits)

lemma diskvd_flags_fields:
  assumes "diskvd_flags args opts = Some opts'"
  shows "dk_masters opts' = dk_masters opts @ values_of ''-m'' args"
    and "dk_replicas opts' = dk_replicas opts @ values_of ''-s'' args"
    and "dk_gid opts' = last (dk_gid opts # map (\<lambda>v. fst (ParseInt v)) (values_of ''-g'' args))"
    and "dk_me opts' = last (dk_me opts # map (\<lambda>v. fst (Atoi v)) (values_of ''-i'' args))"
proof -
  have "dk_masters opts' = dk_masters opts @ values_of ''-m'' args \<and> dk_replicas opts' = dk_replicas opts @ values_of ''-s'' args \<and>
    dk_gid opts' = last (dk_gid opts # map (\<lambda>v. fst (ParseInt v)) (values_of ''-g'' args)) \<and>
    dk_me opts' = last (dk_me opts # map (\<lambda>v. fst (Atoi v)) (values_of ''-i'' args))"
    using assms
  proof (induction args opts rule: diskvd_flags.induct)
    case (1 a0 a1 args opts)
    from "1.prems" obtain o1 where o1: "diskvd_flag a0 a1 opts = Some o1" "diskvd_flags args o1 = Some opts'"
      unfolding diskvd_flags_Cons by blast
    from "1.IH" [OF o1] show ?case unfolding diskvd_flag_fields [OF o1(1)] by (simp add: last_map)
  qed simp_all
  then show "dk_masters opts' = dk_masters opts @ values_of ''-m'' args" "dk_replicas opts' = dk_replicas opts @ values_of ''-s'' args"
    "dk_gid opts' = last (dk_gid opts # map (\<lambda>v. fst (ParseInt v)) (values_of ''-g'' args))"
    "dk_me opts' = last (dk_me opts # map (\<lambda>v. fst (Atoi v)) (values_of ''-i'' args))" by blast+
qed

text \<open>
  \<open>diskvd\<close> starts a server only from a complete command line: \<open>StartServer\<close> is called with the ports after \<open>-m\<close> and
  after \<open>-s\<close> in their order, at least one of each, with the group of the last \<open>-g\<close>, which is at least 0 and fits 64 bits, with
  an index within the list of replicas, and with a directory.
\<close>

lemma diskvd_starts_valid:
  assumes "diskvd_main (\<lambda>gid ms rs me dir restart w. Some (gid, ms, rs, me, dir)) (\<lambda>u w. w) (prog # args) None = Some (Some (gid, ms, rs, me, dir))"
  shows "ms = values_of ''-m'' args \<and> ms \<noteq> [] \<and> rs = values_of ''-s'' args \<and> 0 \<le> me \<and> me < int (length rs) \<and>
    me = fst (Atoi (last (values_of ''-i'' args))) \<and> gid = fst (ParseInt (last (values_of ''-g'' args))) \<and>
    0 \<le> gid \<and> gid < 2 ^ 63 \<and> dir \<noteq> []"
proof -
  obtain opts where opts: "diskvd_flags args diskvd_defaults = Some opts"
    using assms by (auto simp: diskvd_main_def split: option.splits)
  then have ok: "0 \<le> dk_gid opts" "0 \<le> dk_me opts" "dk_masters opts \<noteq> []" "dk_me opts < int (length (dk_replicas opts))" "dk_dir opts \<noteq> []"
    and started: "gid = dk_gid opts" "ms = dk_masters opts" "rs = dk_replicas opts" "me = dk_me opts" "dir = dk_dir opts"
    using assms by (auto simp: diskvd_main_def not_less not_le Suc_le_eq split: if_splits)
  have gid: "gid = fst (ParseInt (last (values_of ''-g'' args)))"
    using ok(1) diskvd_flags_fields(3) [OF opts] unfolding started by (auto simp: diskvd_defaults_def last_map split: if_splits)
  have "me = fst (Atoi (last (values_of ''-i'' args)))"
    using ok(2) diskvd_flags_fields(4) [OF opts] unfolding started by (auto simp: diskvd_defaults_def last_map split: if_splits)
  moreover have "gid < 2 ^ 63" using ParseInt_bounds unfolding gid by blast
  moreover have "ms = values_of ''-m'' args" "rs = values_of ''-s'' args"
    using diskvd_flags_fields(1,2) [OF opts] unfolding started by (simp_all add: diskvd_defaults_def)
  ultimately show ?thesis using ok gid unfolding started by blast
qed

text \<open>A value after \<open>-g\<close> or \<open>-i\<close> that is not a number counts as 0: the server of group 0 is started.\<close>

lemma diskvd_takes_garbage:
  "diskvd_main (\<lambda>gid ms rs me dir restart w. Some (gid, ms, rs, me, dir)) (\<lambda>u w. w)
     [''diskvd'', ''-g'', ''x'', ''-m'', ''m'', ''-s'', ''s'', ''-i'', ''y'', ''-d'', ''/d''] None =
   Some (Some (0, [''m''], [''s''], 0, ''/d''))"
  by (simp add: diskvd_main_def diskvd_flag_def diskvd_defaults_def ParseInt_def Atoi_def cut_sign_def ParseUint_def is_digit_def)

end
