(* ===== verification/Spec2Isabelle.thy ===== *)
theory Spec2Isabelle
  imports LeaderLock ShardString MrApps MrPrograms KvStack Labgob RaftRuns LabTests OldServices
begin

text \<open>
  A verification development for the distributed-systems labs under \<^verbatim>\<open>src/src/\<close>, written in Go: MapReduce, a versioned key/value
  server with a clerk and a lock, shard configurations, and the simulated network, encoders and test harness that the labs run on.
  The later labs (Raft, the replicated state machine, the sharded service) are outlines in the repository; they are translated as
  they are, together with the test servers around them, which do work.

  This root theory only collects the others. A property of the development is a theorem after a text that begins with its number.

  \<^bold>\<open>How Go is represented.\<close> (\<open>GoPrelude\<close>, \<open>GoStrings\<close>, \<open>GoFiles\<close>, \<open>GoJson\<close>, \<open>GoJsonValues\<close>.) A struct is a record, an enumeration a
  datatype, \<open>uint64\<close> and \<open>uint32\<close> are words of their width, \<open>int\<close> is \<open>int\<close>, a string is a list of bytes, a map is a partial
  function, or an association list where the code ranges over it; the order of such a loop is an argument. A function that may end
  its goroutine has the result type \<open>'a go\<close>: \<open>Inl Panic\<close>, \<open>Inl Fatal\<close> (a failed test, or the end of the process) or \<open>Inr\<close>. A loop that
  need not end is a \<open>partial_function (option)\<close>, or it takes the list of what happens in its rounds. Clocks, random
  numbers, and the library calls whose result the program does not determine are arguments. A handler that holds its
  object's mutex throughout is one function from state to state. Objects that are compared or replaced by reference
  (RPC servers, persisters, Raft test servers) live in a store and are named by their address. \<open>GoFiles\<close> is a directory of files;
  the JSON theories have the text that \<open>json.Marshal\<close> writes for the values in use and read back such text only.

  \<^bold>\<open>Key/value server, clerk and locks.\<close>
  \<^item> \<open>KVServer\<close>: \<^verbatim>\<open>kvsrv1/rpc/rpc.go\<close>, \<^verbatim>\<open>kvsrv1/server.go\<close>. \<open>KVServer_Get\<close> and \<open>KVServer_Put\<close> are the handlers; the locale
    \<open>versioned_store\<close> is the contract on which clerk and locks rely, interpreted on them.
  \<^item> \<open>KvModel\<close>: \<^verbatim>\<open>models1/kv.go\<close>, the specification that tests check histories against.
  \<^item> \<open>KVClerk\<close>: \<^verbatim>\<open>kvsrv1/client.go\<close>. A script says, for each call, what other clients write before it and whether request or reply
    are lost. A \<open>Put\<close> takes effect at most once and at one point, \<open>OK\<close> and \<open>ErrVersion\<close> tell the truth and \<open>ErrMaybe\<close> leaves it open;
    both operations return as soon as one reply arrives. A late execution of a lost request counts as another client's write.
  \<^item> \<open>KVLock\<close>: \<^verbatim>\<open>kvsrv1/lock/lock.go\<close>, run alone over scripts, and as the step relation \<open>lock_step\<close> of any number of clients:
    mutual exclusion, and how a claim is lost for ever after \<open>ErrMaybe\<close>.
  \<^item> \<open>LeaderLock\<close>: \<^verbatim>\<open>shardkv1/shardctrler/lock/lock.go\<close>, in the same two ways: exclusive leadership.

  \<^bold>\<open>MapReduce.\<close>
  \<^item> \<open>MrWorker\<close>, \<open>MrCoordinator\<close>: the tasks of \<^verbatim>\<open>mr/worker.go\<close> with their files, and the handlers of \<^verbatim>\<open>mr/coordinator.go\<close>.
  \<^item> \<open>MrSystem\<close>: coordinator, workers and directory as the step relation \<open>mr_step\<close>, with crashes before, in the middle of and after the
    output of a task. \<open>MrInvariant\<close>: every input is mapped exactly once, and \<open>Done\<close> tells the truth. \<open>MrMapPhase\<close>: what the
    intermediate files hold. \<open>MrSequential\<close>: \<^verbatim>\<open>main/mrsequential.go\<close>, and that the distributed job writes the same lines.
  \<^item> \<open>MrMain\<close>: the worker's loop, its RPC wrappers, the messages of \<^verbatim>\<open>mr/rpc.go\<close> and \<^verbatim>\<open>main/mrcoordinator.go\<close> as functions; what they
    do is covered by \<open>mr_step\<close>. \<open>MrJob\<close>: one worker finishes a job. \<open>MrPrograms\<close>: \<^verbatim>\<open>main/mrworker.go\<close>, plug-ins and the methods of
    \<open>ByKey\<close>; the processes, started from their command lines, agree with the sequential program.
  \<^item> \<open>MrApps\<close>: \<^verbatim>\<open>mrapps/\<close>; a job with \<^verbatim>\<open>wc.go\<close> counts words.

  \<^bold>\<open>Shards.\<close>
  \<^item> \<open>ShardCfg\<close>, \<open>ShardString\<close>: \<^verbatim>\<open>shardkv1/shardcfg/shardcfg.go\<close>. The loop of \<open>Rebalance\<close> ends in a balanced configuration that does not
    depend on the order of Go's maps, configurations pass their check after \<open>Join\<close> and \<open>Leave\<close>, keep their type invariant, and are read
    back from their text.
  \<^item> \<open>ShardSystem\<close>: the outlines in \<^verbatim>\<open>shardkv1/client.go\<close>, \<^verbatim>\<open>shardkv1/shardctrler\<close> and \<^verbatim>\<open>shardkv1/shardgrp\<close>.

  \<^bold>\<open>Network, encoding and harness.\<close>
  \<^item> \<open>Labrpc\<close>: \<^verbatim>\<open>labrpc/labrpc.go\<close>. The locale \<open>put_network\<close> is what a clerk needs of a network; it is interpreted on the scripts
    of \<open>KVClerk\<close>, and the network is shown to provide it.
  \<^item> \<open>Labgob\<close>: the checks of \<^verbatim>\<open>labgob/labgob.go\<close>; \<open>checkType\<close> ends on recursive types, its fuel is bounded by the type graph.
  \<^item> \<open>Tester\<close>, \<open>TesterGroup\<close>, \<open>TesterClnt\<close>: \<^verbatim>\<open>tester1/\<close>. Partitions isolate, restarted servers find their state, clients reach the
    servers they may reach. \<open>TesterSetup\<close>: every configuration can be made, with all servers up and connected; and what \<^verbatim>\<open>config.go\<close> prints.

  \<^bold>\<open>Tests.\<close>
  \<^item> \<open>KvTest\<close>, \<open>KvTestRuns\<close>, \<open>KvSpawn\<close>: \<^verbatim>\<open>kvtest1/\<close>. The client programs and checks; systems of clients; and the goroutines and
    channels of \<open>SpawnClientsAndWait\<close> as a step relation for any client function. The locale \<open>client_system\<close> is what a client function
    and its server must keep; it is interpreted on the putting and on the appending clients, and the checks accept what they leave.
  \<^item> \<open>KvStack\<close>: \<^verbatim>\<open>kvsrv1/test.go\<close>, and with it the key/value lab as a whole. Configuration, clients, network, server and clerks are composed as
    in the test; the random numbers of the network are a list. \<open>tk_abs\<close> maps a state of the stack to one of the clerk's model, and every operation of a clerk
    commutes with it; so the logs of all runs in which one operation runs at a time are accepted by \<open>KvModel\<close>.
  \<^item> \<open>RaftHarness\<close>, \<open>RaftAgreement\<close>, \<open>RaftRuns\<close>: \<^verbatim>\<open>raft1/\<close>. The checks of the test server imply agreement, and stop no correct Raft.
    \<open>RaftChecks\<close>: the checks that the tests are written with, over a script of what they see; nothing is assumed of the peers. \<open>checkOneLeader\<close> finds
    the leader, \<open>one\<close> returns, and only what is committed, \<open>wait\<close> sleeps for at most 30.71 seconds.
  \<^item> \<open>Rsm\<close>: \<^verbatim>\<open>kvraft1/\<close>. The locale \<open>state_machine\<close> is the contract of a service with snapshots, interpreted on the counter service.
  \<^item> \<open>LabTests\<close>: \<^verbatim>\<open>kvraft1/rsm/test.go\<close>, \<^verbatim>\<open>kvraft1/test.go\<close> and \<^verbatim>\<open>shardkv1/test.go\<close>: finding the leader, counters, clerks, and the groups of
    the sharded service, which is set up with one group that owns every shard.
  \<^item> \<open>OldServices\<close>: the programs of earlier courses in \<^verbatim>\<open>main/\<close>, whose packages are not in the repository and are parameters.

  \<^bold>\<open>Bounds.\<close> Versions are 64-bit words; runs are limited to fewer than \<open>2 ^ 64\<close> steps (\<open>2 ^ 63\<close> where the code converts a version to \<open>int\<close>),
  so that they do not wrap around. \<open>KVLock\<close>, \<open>LeaderLock\<close>, \<open>KvTestRuns\<close> and \<open>KvSpawn\<close> count the steps of a run for this.
  Where a theorem says that something returns, it gives the number of rounds or of calls that is enough.

  \<^bold>\<open>Not modelled.\<close> Most printing and logging, sleeping and the delays of the network (they only change when things happen); the sockets and
  HTTP server below \<open>net/rpc\<close> (\<open>server\<close> in \<^verbatim>\<open>mr/coordinator.go\<close>; what happens to a call is an argument); \<open>printTasks\<close>; the linearizability checker, \<open>encoding/gob\<close> (but
  for one integer) and the reflection behind it, which are libraries; characters outside ASCII in JSON strings; errors of the file system
  other than a missing file; data races, such as that of \<open>Heartbeat\<close>, which takes no lock; the test scenarios (\<^verbatim>\<open>*_test.go\<close>, and
  \<open>checkShutdownSharding\<close> and \<open>partitionCtrler\<close> in \<^verbatim>\<open>shardkv1/test.go\<close>) and shell scripts, which only call what is modelled. In \<open>KvStack\<close>, clerk operations do not overlap; those of
  concurrent clients are in \<open>KVClerk\<close> and \<open>KvSpawn\<close>. Nothing else of the repository is left but imports, and the bodies of the later labs, which it does not have.
\<close>

end
